(* ===== verification/Prelude.thy ===== *)
theory Prelude
  imports Main "HOL-Library.Word" "HOL-Library.Monad_Syntax"
begin

text \<open>
  What every theory of the development shares: the machine types of the RV32 target, the
  error codes of \<^verbatim>\<open>include/error.h\<close>, the configuration of \<^verbatim>\<open>include/rtos_config.h\<close>, and
  generic lemmas on lists, options and words.

  Conventions.  A pointer is a 32-bit word and \<open>0\<close> is the null pointer, so every null check of
  the code is an equation on words.  A structure that lives behind a pointer is a record, and a
  component keeps a map from addresses to records for each structure type.  A function whose
  loop may not end, or that parks the processor in an empty endless loop, returns an option:
  \<open>None\<close> is "does not return".  A routine that runs with interrupts masked between
  \<^verbatim>\<open>critical_enter\<close> and \<^verbatim>\<open>critical_exit\<close> is one atomic state transformation.
\<close>

subsection \<open>Machine types\<close>

type_synonym u8 = "8 word"
type_synonym u16 = "16 word"
type_synonym u32 = "32 word"
type_synonym u64 = "64 word"

type_synonym ptr = u32

subsection \<open>Error codes and configuration\<close>

datatype err_t =
    ERR_OK
  | ERR_INVAL
  | ERR_NO_MEM
  | ERR_BUSY
  | ERR_TIMEOUT
  | ERR_LOCKED
  | ERR_PERM
  | ERR_STATE
  | ERR_DESTROYED

definition RTOS_TASK_MAX :: u32 where
  "RTOS_TASK_MAX = 20"

definition RTOS_PRIORITY_MAX :: u32 where
  "RTOS_PRIORITY_MAX = 31"

definition RTOS_TIME_SLICE_TICKS :: u32 where
  "RTOS_TIME_SLICE_TICKS = 10"

definition RTOS_TASK_STACK_SIZE :: u32 where
  "RTOS_TASK_STACK_SIZE = 2048"

lemmas config_defs =
  RTOS_TASK_MAX_def RTOS_PRIORITY_MAX_def RTOS_TIME_SLICE_TICKS_def RTOS_TASK_STACK_SIZE_def

subsection \<open>Collections of facts\<close>

named_theorems links_wf \<open>preservation of the well-formedness of intrusive lists\<close>
named_theorems links_items \<open>what a list operation does to the contents of every list\<close>
named_theorems frame_simps \<open>fields an operation leaves alone\<close>

subsection \<open>Lists\<close>

lemma last_Cons_append [simp]: "last (h # as @ [x]) = x"
  by simp

lemma remove1_append_mid:
  "x \<notin> set as \<Longrightarrow> remove1 x (as @ x # bs) = as @ bs"
  by (induction as) auto

lemma remove1_notin [simp]: "x \<notin> set xs \<Longrightarrow> remove1 x xs = xs"
  by (rule remove1_idem)

lemma filter_notin [simp]: "x \<notin> set xs \<Longrightarrow> filter (\<lambda>y. y \<noteq> x) xs = xs"
  by (induction xs) auto

lemma distinct_remove1_filter: "distinct xs \<Longrightarrow> remove1 x xs = filter (\<lambda>y. y \<noteq> x) xs"
  by (induction xs) auto

lemma takeWhile_filter_map:
  "takeWhile P (map f xs) = filter Q (map f xs) \<Longrightarrow>
    takeWhile (\<lambda>x. P (f x)) xs = filter (\<lambda>x. Q (f x)) xs"
proof (induction xs)
  case (Cons x xs)
  show ?case
  proof (cases "P (f x)")
    case True
    with Cons.prems have e: "f x # takeWhile P (map f xs) = filter Q (map f (x # xs))" by simp
    then have "f x \<in> set (filter Q (map f (x # xs)))" by (metis list.set_intros(1))
    then have "Q (f x)" unfolding set_filter by blast
    with Cons.IH e True show ?thesis by simp
  next
    case False
    with Cons.prems have "filter Q (map f (x # xs)) = []" by simp
    then have "\<forall>y\<in>set (x # xs). \<not> Q (f y)" unfolding filter_empty_conv by simp
    with False show ?thesis by (simp add: filter_empty_conv)
  qed
qed simp

lemma drop_length_takeWhile: "drop (length (takeWhile P xs)) xs = dropWhile P xs"
  by (simp add: dropWhile_eq_drop)

lemma last_notin_butlast: "distinct zs \<Longrightarrow> x \<in> set (butlast zs) \<Longrightarrow> x \<noteq> last zs"
  by (cases zs rule: rev_cases) auto

lemma successively_update:
  assumes "\<And>a b. (a, b) \<in> set (zip zs (tl zs)) \<Longrightarrow> P a b = Q a b"
  shows "successively P zs = successively Q zs"
  using assms by (induction zs rule: induct_list012) auto

lemma length_takeWhile_less: "x \<in> set xs \<Longrightarrow> \<not> P x \<Longrightarrow> length (takeWhile P xs) < length xs"
  by (induction xs) auto

lemma map_of_mid_insert:
  "k \<notin> fst ` set xs \<Longrightarrow> map_of (xs @ (k, v) # ys) = (map_of (xs @ ys))(k \<mapsto> v)"
  by (induction xs) (auto simp del: map_of_append)

lemma map_of_mid_none:
  "k \<notin> fst ` set xs \<Longrightarrow> k \<notin> fst ` set ys \<Longrightarrow> map_of (xs @ ys) k = None"
  by (simp add: map_of_eq_None_iff image_Un del: map_of_append)

lemma map_of_mid_delete:
  "k \<notin> fst ` set xs \<Longrightarrow> k \<notin> fst ` set ys \<Longrightarrow>
    (map_of (xs @ (k, v) # ys))(k := None) = map_of (xs @ ys)"
  using map_of_mid_none [of k xs ys] by (simp add: map_of_mid_insert fun_upd_idem del: map_of_append)

subsection \<open>Words\<close>

lemma unat_u32_less: "unat (w :: u32) < 4294967296"
  using unsigned_less [of w] by simp

lemma unat_u16_less: "unat (w :: u16) < 65536"
  using unsigned_less [of w] by simp

subsection \<open>Options\<close>

lemma bind_Some_iff:
  "Option.bind m f = Some y \<longleftrightarrow> (\<exists>x. m = Some x \<and> f x = Some y)"
  by (cases m) auto

end
