(* ===== verification/Links.thy ===== *)
theory Links
  imports Prelude
begin

text \<open>
  The intrusive doubly linked lists of \<^verbatim>\<open>include/list.h\<close>, at the level of the \<^verbatim>\<open>next\<close> and
  \<^verbatim>\<open>prev\<close> pointers.  A store gives both pointers of every \<^verbatim>\<open>list_head\<close> cell; the type \<open>'n\<close> of
  cell addresses is a parameter, because the scheduler, the software timers and the heap each
  thread their own structures through such cells.  The second half proves that the pointer
  operations implement the obvious operations on sequences.
\<close>

subsection \<open>The operations of list.h\<close>

record 'n links =
  nxt :: "'n \<Rightarrow> 'n"
  prv :: "'n \<Rightarrow> 'n"

definition set_next :: "'n \<Rightarrow> 'n \<Rightarrow> 'n links \<Rightarrow> 'n links" where
  "set_next a b l = l\<lparr>nxt := (nxt l)(a := b)\<rparr>"

definition set_prev :: "'n \<Rightarrow> 'n \<Rightarrow> 'n links \<Rightarrow> 'n links" where
  "set_prev a b l = l\<lparr>prv := (prv l)(a := b)\<rparr>"

definition INIT_LIST_HEAD :: "'n \<Rightarrow> 'n links \<Rightarrow> 'n links" where
  "INIT_LIST_HEAD h l = set_prev h h (set_next h h l)"

definition list_add_between :: "'n \<Rightarrow> 'n \<Rightarrow> 'n \<Rightarrow> 'n links \<Rightarrow> 'n links" where
  "list_add_between node p n l =
     set_next p node (set_prev node p (set_next node n (set_prev n node l)))"

definition list_add :: "'n \<Rightarrow> 'n \<Rightarrow> 'n links \<Rightarrow> 'n links" where
  "list_add node h l = list_add_between node h (nxt l h) l"

definition list_add_tail :: "'n \<Rightarrow> 'n \<Rightarrow> 'n links \<Rightarrow> 'n links" where
  "list_add_tail node h l = list_add_between node (prv l h) h l"

definition list_add_before :: "'n \<Rightarrow> 'n \<Rightarrow> 'n links \<Rightarrow> 'n links" where
  "list_add_before node pos l = list_add_between node (prv l pos) pos l"

definition list_del_between :: "'n \<Rightarrow> 'n \<Rightarrow> 'n links \<Rightarrow> 'n links" where
  "list_del_between p n l = set_next p n (set_prev n p l)"

definition list_del :: "'n \<Rightarrow> 'n links \<Rightarrow> 'n links" where
  "list_del e l = set_prev e e (set_next e e (list_del_between (prv l e) (nxt l e) l))"

definition list_del_init :: "'n \<Rightarrow> 'n links \<Rightarrow> 'n links" where
  "list_del_init e l = INIT_LIST_HEAD e (list_del e l)"

definition list_replace :: "'n \<Rightarrow> 'n \<Rightarrow> 'n links \<Rightarrow> 'n links" where
  "list_replace old node l =
     (let l1 = set_next node (nxt l old) l;
          l2 = set_prev (nxt l1 node) node l1;
          l3 = set_prev node (prv l2 old) l2
      in set_next (prv l3 node) node l3)"

definition list_replace_init :: "'n \<Rightarrow> 'n \<Rightarrow> 'n links \<Rightarrow> 'n links" where
  "list_replace_init old node l = INIT_LIST_HEAD old (list_replace old node l)"

definition list_move :: "'n \<Rightarrow> 'n \<Rightarrow> 'n links \<Rightarrow> 'n links" where
  "list_move node h l = list_add node h (list_del_between (prv l node) (nxt l node) l)"

definition list_move_tail :: "'n \<Rightarrow> 'n \<Rightarrow> 'n links \<Rightarrow> 'n links" where
  "list_move_tail node h l = list_add_tail node h (list_del_between (prv l node) (nxt l node) l)"

definition list_empty :: "'n \<Rightarrow> 'n links \<Rightarrow> bool" where
  "list_empty h l \<longleftrightarrow> nxt l h = h"

definition list_is_singular :: "'n \<Rightarrow> 'n links \<Rightarrow> bool" where
  "list_is_singular h l \<longleftrightarrow> \<not> list_empty h l \<and> nxt l h = prv l h"

definition list_splice_between :: "'n \<Rightarrow> 'n \<Rightarrow> 'n \<Rightarrow> 'n links \<Rightarrow> 'n links" where
  "list_splice_between lst p n l =
     (let first = nxt l lst; last = prv l lst
      in set_prev n last (set_next last n (set_next p first (set_prev first p l))))"

definition list_splice :: "'n \<Rightarrow> 'n \<Rightarrow> 'n links \<Rightarrow> 'n links" where
  "list_splice lst h l =
     (if \<not> list_empty lst l then list_splice_between lst h (nxt l h) l else l)"

definition list_splice_tail :: "'n \<Rightarrow> 'n \<Rightarrow> 'n links \<Rightarrow> 'n links" where
  "list_splice_tail lst h l =
     (if \<not> list_empty lst l then list_splice_between lst (prv l h) h l else l)"

definition list_splice_init :: "'n \<Rightarrow> 'n \<Rightarrow> 'n links \<Rightarrow> 'n links" where
  "list_splice_init lst h l =
     (if \<not> list_empty lst l
      then INIT_LIST_HEAD lst (list_splice_between lst h (nxt l h) l) else l)"

definition list_splice_tail_init :: "'n \<Rightarrow> 'n \<Rightarrow> 'n links \<Rightarrow> 'n links" where
  "list_splice_tail_init lst h l =
     (if \<not> list_empty lst l
      then INIT_LIST_HEAD lst (list_splice_between lst (prv l h) h l) else l)"

text \<open>
  The iteration macros.  \<open>list_for_each P l h pos\<close> is the loop
  \<^verbatim>\<open>for (; pos != h; pos = pos->next) if (P(pos)) break;\<close> and returns the cell it stops at, which is
  the head when no cell satisfied \<open>P\<close>.  \<open>list_walk\<close> is the same loop collecting every cell it
  visits.  Both are \<open>None\<close> when the pointers never lead back to the head.
\<close>

partial_function (option) list_for_each ::
    "('n \<Rightarrow> bool) \<Rightarrow> 'n links \<Rightarrow> 'n \<Rightarrow> 'n \<Rightarrow> 'n option" where
  "list_for_each P l h pos =
     (if pos = h then Some h
      else if P pos then Some pos
      else list_for_each P l h (nxt l pos))"

partial_function (option) list_walk :: "'n links \<Rightarrow> 'n \<Rightarrow> 'n \<Rightarrow> 'n list option" where
  "list_walk l h pos =
     (if pos = h then Some []
      else Option.bind (list_walk l h (nxt l pos)) (\<lambda>xs. Some (pos # xs)))"

text \<open>The cells of the list with head \<open>h\<close>, in the order of the iteration macros.\<close>

definition items :: "'n links \<Rightarrow> 'n \<Rightarrow> 'n list" where
  "items l h = (case list_walk l h (nxt l h) of Some xs \<Rightarrow> xs | None \<Rightarrow> [])"

subsection \<open>Well-formed stores\<close>

text \<open>
  A set \<open>A\<close> of initialised cells is well formed when the pointers stay inside it and
  \<^verbatim>\<open>prev\<close> inverts \<^verbatim>\<open>next\<close>: the cells then fall into disjoint rings.
\<close>

definition lwf :: "'n links \<Rightarrow> 'n set \<Rightarrow> bool" where
  "lwf l A \<longleftrightarrow> finite A \<and>
     (\<forall>x\<in>A. nxt l x \<in> A \<and> prv l x \<in> A \<and> prv l (nxt l x) = x \<and> nxt l (prv l x) = x)"

lemma lwfD:
  assumes "lwf l A" and "x \<in> A"
  shows "nxt l x \<in> A" and "prv l x \<in> A" and "prv l (nxt l x) = x" and "nxt l (prv l x) = x"
  using assms by (auto simp: lwf_def)

lemma lwf_nxt_inj: "lwf l A \<Longrightarrow> x \<in> A \<Longrightarrow> y \<in> A \<Longrightarrow> nxt l x = nxt l y \<Longrightarrow> x = y"
  by (metis lwfD(3))

lemma lwf_single_prv: "lwf l A \<Longrightarrow> x \<in> A \<Longrightarrow> nxt l x = x \<Longrightarrow> prv l x = x"
  by (metis lwfD(3))

lemma lwf_single_unique: "lwf l A \<Longrightarrow> x \<in> A \<Longrightarrow> y \<in> A \<Longrightarrow> nxt l x = x \<Longrightarrow> nxt l y = x \<longleftrightarrow> y = x"
  by (metis lwfD(3))

lemma lwf_single_unique': "lwf l A \<Longrightarrow> x \<in> A \<Longrightarrow> y \<in> A \<Longrightarrow> nxt l x = x \<Longrightarrow> prv l y = x \<longleftrightarrow> y = x"
  by (metis lwfD(3) lwfD(4))

lemma lwf_INIT [links_wf]:
  assumes "lwf l A" and "n \<in> A \<Longrightarrow> nxt l n = n"
  shows "lwf (INIT_LIST_HEAD n l) (insert n A)"
  unfolding lwf_def INIT_LIST_HEAD_def set_next_def set_prev_def
  using assms lwf_single_prv [of l A n] by (auto simp: lwf_def)

lemma lwf_add_between [links_wf]:
  assumes wf: "lwf l A" and n: "n \<in> A" "nxt l n = n" and p: "p \<in> A" "p \<noteq> n"
  shows "lwf (list_add_between n p (nxt l p) l) A"
proof -
  have q: "nxt l p \<in> A" "nxt l p \<noteq> n" "prv l (nxt l p) = p" "prv l n = n"
    using wf n p lwfD [OF wf] lwf_single_unique [OF wf n(1) p(1) n(2)]
      lwf_single_prv [OF wf n] by auto
  have fin: "finite A"
    using wf by (simp add: lwf_def)
  let ?l = "list_add_between n p (nxt l p) l"
  show ?thesis
    unfolding lwf_def
  proof (intro conjI ballI fin)
    fix x assume x: "x \<in> A"
    note d = lwfD [OF wf x]
    have un: "nxt l x = nxt l p \<longleftrightarrow> x = p" "prv l x = p \<longleftrightarrow> x = nxt l p"
      using lwf_nxt_inj [OF wf x p(1)] lwfD [OF wf] x p q by metis+
    have unn: "nxt l x = n \<longleftrightarrow> x = n" "prv l x = n \<longleftrightarrow> x = n"
      using lwf_single_unique [OF wf n(1) x n(2)] lwf_single_unique' [OF wf n(1) x n(2)] by simp_all
    show "nxt ?l x \<in> A" "prv ?l x \<in> A"
      using d q n p by (simp_all add: list_add_between_def set_next_def set_prev_def)
    show "prv ?l (nxt ?l x) = x" "nxt ?l (prv ?l x) = x"
      using d q n p un unn by (auto simp: list_add_between_def set_next_def set_prev_def)
  qed
qed

lemma list_del_init_fields:
  "nxt (list_del_init e l) = ((nxt l)(prv l e := nxt l e))(e := e)"
  "prv (list_del_init e l) = ((prv l)(nxt l e := prv l e))(e := e)"
  by (simp_all add: list_del_init_def list_del_def list_del_between_def INIT_LIST_HEAD_def
      set_next_def set_prev_def)

lemma list_del_eq_list_del_init: "list_del_init e l = list_del e l"
  by (simp add: list_del_init_def list_del_def INIT_LIST_HEAD_def set_next_def set_prev_def)

lemma lwf_del_init [links_wf]:
  assumes wf: "lwf l A" and e: "e \<in> A"
  shows "lwf (list_del_init e l) A"
proof -
  have fin: "finite A"
    using wf by (simp add: lwf_def)
  show ?thesis
    unfolding lwf_def
  proof (intro conjI ballI fin)
    fix x assume x: "x \<in> A"
    note d = lwfD [OF wf x] and de = lwfD [OF wf e]
    have un: "nxt l x = e \<longleftrightarrow> x = prv l e" "prv l x = e \<longleftrightarrow> x = nxt l e"
      "nxt l x = nxt l e \<longleftrightarrow> x = e" "prv l x = prv l e \<longleftrightarrow> x = e"
      using lwfD [OF wf] x e by metis+
    show "nxt (list_del_init e l) x \<in> A" "prv (list_del_init e l) x \<in> A"
      using d de e by (simp_all add: list_del_init_fields)
    show "prv (list_del_init e l) (nxt (list_del_init e l) x) = x"
      "nxt (list_del_init e l) (prv (list_del_init e l) x) = x"
      using d de un by (auto simp: list_del_init_fields)
  qed
qed

subsection \<open>Rings as sequences\<close>

definition chain :: "'n links \<Rightarrow> 'n list \<Rightarrow> bool" where
  "chain l zs = successively (\<lambda>a b. nxt l a = b) zs"

lemma chain_simps [simp]:
  "chain l []"
  "chain l [x]"
  "chain l (x # y # zs) \<longleftrightarrow> nxt l x = y \<and> chain l (y # zs)"
  by (simp_all add: chain_def)

lemma chain_append:
  "chain l (xs @ y # ys) \<longleftrightarrow> chain l (xs @ [y]) \<and> chain l (y # ys)"
  by (induction xs rule: induct_list012) auto

definition ring :: "'n links \<Rightarrow> 'n \<Rightarrow> 'n list \<Rightarrow> bool" where
  "ring l h xs \<longleftrightarrow> chain l (h # xs @ [h]) \<and> h \<notin> set xs"

lemma walk_chain:
  "list_walk l h x = Some xs \<Longrightarrow> chain l (xs @ [h]) \<and> hd (xs @ [h]) = x \<and> h \<notin> set xs"
proof (induction xs arbitrary: x)
  case Nil
  then show ?case
    by (subst (asm) list_walk.simps) (auto split: if_splits simp: bind_Some_iff)
next
  case (Cons y ys)
  from Cons.prems have "x \<noteq> h" "y = x" "list_walk l h (nxt l x) = Some ys"
    by (subst (asm) list_walk.simps, auto split: if_splits simp: bind_Some_iff)+
  with Cons.IH [of "nxt l x"] show ?case
    by (cases ys) auto
qed

lemma chain_walk:
  "chain l (xs @ [h]) \<Longrightarrow> h \<notin> set xs \<Longrightarrow> list_walk l h (hd (xs @ [h])) = Some xs"
proof (induction xs)
  case Nil
  then show ?case by (simp add: list_walk.simps)
next
  case (Cons y ys)
  then have "list_walk l h (hd (ys @ [h])) = Some ys" and "nxt l y = hd (ys @ [h])"
    by (cases ys; simp)+
  with Cons.prems show ?case
    by (subst list_walk.simps) auto
qed

lemma ring_walk: "ring l h xs \<longleftrightarrow> list_walk l h (nxt l h) = Some xs"
proof
  assume "ring l h xs"
  then have "chain l (xs @ [h])" "h \<notin> set xs" "hd (xs @ [h]) = nxt l h"
    by (cases xs; auto simp: ring_def)+
  then show "list_walk l h (nxt l h) = Some xs"
    using chain_walk by metis
next
  assume "list_walk l h (nxt l h) = Some xs"
  from walk_chain [OF this] show "ring l h xs"
    by (cases xs) (auto simp: ring_def)
qed

lemma ring_items: "ring l h xs \<Longrightarrow> items l h = xs"
  by (simp add: ring_walk items_def)

lemma chain_det:
  assumes "chain l (x # as @ [h])" and "chain l (x # bs @ [h'])"
    and "h \<notin> set bs" and "h' \<notin> set as"
  shows "as = bs \<and> h = h'"
  using assms
proof (induction as arbitrary: x bs)
  case Nil
  then show ?case by (cases bs) auto
next
  case (Cons a as)
  then obtain b bs' where "bs = b # bs'"
    by (cases bs) auto
  with Cons.prems Cons.IH [of a bs'] show ?case by auto
qed

lemma ring_distinct:
  assumes "ring l h xs"
  shows "distinct xs"
proof (rule ccontr)
  assume "\<not> distinct xs"
  then obtain as x bs cs where xs: "xs = as @ [x] @ bs @ [x] @ cs"
    using not_distinct_decomp by blast
  from assms have c: "chain l (h # as @ x # bs @ x # cs @ [h])" and h: "h \<notin> set xs"
    by (simp_all add: ring_def xs)
  have "chain l (x # (bs @ x # cs) @ [h])" "chain l (x # cs @ [h])"
    using c chain_append [of l "h # as" x "bs @ x # cs @ [h]"]
      chain_append [of l "h # as @ x # bs" x "cs @ [h]"] by simp_all
  then have "bs @ x # cs = cs"
    using chain_det [of l x "bs @ x # cs" h cs h] h by (auto simp: xs)
  then show False
    by (metis add_le_same_cancel2 impossible_Cons length_append not_add_less2 not_le)
qed

lemma ring_sub:
  assumes "lwf l A" and "h \<in> A" and "ring l h xs"
  shows "set xs \<subseteq> A"
proof -
  have "x \<in> A \<Longrightarrow> chain l (x # ys @ zs) \<Longrightarrow> set ys \<subseteq> A" for x ys zs
    by (induction ys arbitrary: x) (use lwfD(1) [OF assms(1)] in auto)
  with assms(2,3) show ?thesis
    by (auto simp: ring_def)
qed

lemma funpow_cancel:
  assumes "lwf l A" and "h \<in> A" and "(nxt l ^^ i) h = (nxt l ^^ (i + d)) h"
  shows "(nxt l ^^ d) h = h"
  using assms(3)
proof (induction i)
  case (Suc i)
  have mem: "(nxt l ^^ k) h \<in> A" for k
    by (induction k) (use assms(1,2) lwfD(1) in auto)
  from Suc.prems have "nxt l ((nxt l ^^ i) h) = nxt l ((nxt l ^^ (i + d)) h)"
    by simp
  then have "(nxt l ^^ i) h = (nxt l ^^ (i + d)) h"
    using lwf_nxt_inj [OF assms(1) mem mem] by blast
  then show ?case by (rule Suc.IH)
qed simp

lemma chain_funpow: "chain l (map (\<lambda>i. (nxt l ^^ i) h) [0..<n])"
  by (auto simp: chain_def successively_conv_nth)

lemma lwf_ring_ex:
  assumes wf: "lwf l A" and h: "h \<in> A"
  shows "\<exists>xs. ring l h xs"
proof -
  let ?f = "\<lambda>i. (nxt l ^^ i) h"
  have mem: "?f k \<in> A" for k
    by (induction k) (use wf h lwfD(1) in auto)
  have "\<not> inj ?f"
    using wf mem finite_subset [of "range ?f" A] finite_imageD [of ?f UNIV]
    by (auto simp: lwf_def)
  then obtain i d where "?f i = ?f (i + Suc d)"
    by (metis (no_types, lifting) add_Suc_right injI less_imp_Suc_add linorder_neqE_nat)
  then have ex: "?f (Suc d) = h"
    by (rule funpow_cancel [OF wf h])
  define k where "k = (LEAST k. ?f (Suc k) = h)"
  have k: "?f (Suc k) = h" and least: "\<And>j. j < k \<Longrightarrow> ?f (Suc j) \<noteq> h"
    unfolding k_def using LeastI [of "\<lambda>k. ?f (Suc k) = h", OF ex]
      not_less_Least [of _ "\<lambda>k. ?f (Suc k) = h"] by auto
  have upt: "[0..<k + 2] = 0 # map Suc [0..<k] @ [Suc k]"
  proof -
    have "[0..<Suc k] = 0 # map Suc [0..<k]"
      by (subst upt_conv_Cons) (simp_all only: map_Suc_upt zero_less_Suc)
    then show ?thesis by simp
  qed
  have "ring l h (map (\<lambda>i. ?f (Suc i)) [0..<k])"
    unfolding ring_def
  proof
    show "chain l (h # map (\<lambda>i. ?f (Suc i)) [0..<k] @ [h])"
      using chain_funpow [of l h "k + 2"] k unfolding upt by (simp add: comp_def)
    show "h \<notin> set (map (\<lambda>i. ?f (Suc i)) [0..<k])"
      using least by force
  qed
  then show ?thesis ..
qed

lemma lwf_items:
  assumes "lwf l A" and "h \<in> A"
  shows "ring l h (items l h)"
  using lwf_ring_ex [OF assms] ring_items by metis

subsection \<open>What the operations do to the sequences\<close>

lemma chain_append_iff:
  "chain l (xs @ ys) \<longleftrightarrow>
     chain l xs \<and> chain l ys \<and> (xs \<noteq> [] \<longrightarrow> ys \<noteq> [] \<longrightarrow> nxt l (last xs) = hd ys)"
  by (auto simp: chain_def successively_append_iff)

lemma chain_join:
  "chain l (h # as) \<Longrightarrow> chain l ys \<Longrightarrow> ys \<noteq> [] \<Longrightarrow> nxt l (last (h # as)) = hd ys \<Longrightarrow>
     chain l (h # as @ ys)"
  using chain_append_iff [of l "h # as" ys] by (simp del: last.simps)

lemma chain_Cons_hd: "chain l ys \<Longrightarrow> ys \<noteq> [] \<Longrightarrow> nxt l x = hd ys \<Longrightarrow> chain l (x # ys)"
  by (cases ys) auto

lemma chain_cong:
  "(\<And>x. x \<in> set (butlast zs) \<Longrightarrow> nxt l' x = nxt l x) \<Longrightarrow> chain l' zs = chain l zs"
  by (induction zs rule: induct_list012) auto

lemma items_props:
  assumes "lwf l A" and "h \<in> A"
  shows "chain l (h # items l h @ [h])" and "h \<notin> set (items l h)"
    and "distinct (items l h)" and "set (items l h) \<subseteq> A"
  using lwf_items [OF assms] ring_distinct [OF lwf_items [OF assms]]
    ring_sub [OF assms lwf_items [OF assms]] by (simp_all add: ring_def)

lemma items_eqI:
  "chain l (h # xs @ [h]) \<Longrightarrow> h \<notin> set xs \<Longrightarrow> items l h = xs"
  by (rule ring_items) (simp add: ring_def)

lemma items_cong:
  assumes "lwf l A" and "h \<in> A"
    and "\<And>x. x \<in> set (h # items l h) \<Longrightarrow> nxt l' x = nxt l x"
  shows "items l' h = items l h"
proof (rule items_eqI)
  have "chain l' (h # items l h @ [h]) = chain l (h # items l h @ [h])"
    using assms(3) by (intro chain_cong) (auto simp: butlast_append)
  then show "chain l' (h # items l h @ [h])"
    using items_props(1) [OF assms(1,2)] by simp
  show "h \<notin> set (items l h)"
    by (rule items_props(2) [OF assms(1,2)])
qed

lemma items_Nil_iff:
  assumes "lwf l A" and "h \<in> A"
  shows "items l h = [] \<longleftrightarrow> nxt l h = h"
  using items_props(1,2) [OF assms] by (cases "items l h") (auto simp: list_walk.simps items_def)

lemma list_empty_items:
  "lwf l A \<Longrightarrow> h \<in> A \<Longrightarrow> list_empty h l \<longleftrightarrow> items l h = []"
  by (simp add: list_empty_def items_Nil_iff)

lemma nxt_items:
  assumes "lwf l A" and "h \<in> A"
  shows "nxt l h = hd (items l h @ [h])"
  using items_props(1) [OF assms] by (cases "items l h") auto

lemma prv_items:
  assumes "lwf l A" and "h \<in> A"
  shows "prv l h = last (h # items l h)"
proof -
  have "nxt l (last (h # items l h)) = h"
    using items_props(1) [OF assms] chain_append_iff [of l "h # items l h" "[h]"] by simp
  moreover have "last (h # items l h) \<in> A"
    using items_props(4) [OF assms] assms(2) by (cases "items l h") auto
  ultimately show ?thesis
    using lwfD(3) [OF assms(1)] by metis
qed

lemma in_items_linked:
  assumes "lwf l A" and "h \<in> A" and "x \<in> set (items l h)"
  shows "nxt l x \<noteq> x"
proof -
  from assms(3) obtain as bs where xs: "items l h = as @ x # bs"
    by (meson split_list)
  have "chain l (x # bs @ [h])" "x \<notin> set bs" "x \<noteq> h"
    using items_props [OF assms(1,2)] chain_append [of l "h # as" x "bs @ [h]"]
    by (auto simp: xs)
  then show ?thesis by (cases bs) auto
qed

lemma items_disjoint:
  assumes "lwf l A" and "h \<in> A" and "h' \<in> A" and "h \<noteq> h'" and "h \<notin> set (items l h')"
    and "h' \<notin> set (items l h)"
  shows "set (items l h) \<inter> set (items l h') = {}"
proof (rule ccontr)
  assume "set (items l h) \<inter> set (items l h') \<noteq> {}"
  then obtain x where "x \<in> set (items l h)" "x \<in> set (items l h')" by blast
  then obtain as bs as' bs' where
    xs: "items l h = as @ x # bs" and ys: "items l h' = as' @ x # bs'"
    by (meson split_list)
  have "chain l (x # bs @ [h])" "chain l (x # bs' @ [h'])"
    using items_props(1) [OF assms(1,2)] items_props(1) [OF assms(1,3)]
      chain_append [of l "h # as" x "bs @ [h]"] chain_append [of l "h' # as'" x "bs' @ [h']"]
    by (simp_all add: xs ys)
  with chain_det assms(4-6) show False
    by (fastforce simp: xs ys)
qed

lemma nxt_add_between:
  "p \<noteq> n \<Longrightarrow> nxt (list_add_between n p q l) = (nxt l)(n := q, p := n)"
  by (auto simp: list_add_between_def set_next_def set_prev_def)

lemma items_add_between:
  assumes wf: "lwf l A" and h: "h \<in> A" and n: "n \<in> A" "nxt l n = n" "n \<noteq> h"
    and xs: "items l h = as @ bs" and p: "p = last (h # as)"
  shows "items (list_add_between n p (nxt l p) l) h = as @ n # bs"
proof (rule items_eqI)
  let ?l = "list_add_between n p (nxt l p) l"
  note props = items_props [OF wf h]
  have nin: "n \<notin> set (h # items l h)"
    using in_items_linked [OF wf h] n by auto
  have pin: "p \<in> set (h # as)"
    unfolding p by (rule last_in_set) simp
  with nin have pn: "p \<noteq> n"
    by (auto simp: xs)
  note nl = nxt_add_between [OF pn, of "nxt l p" l]
  have c: "chain l (h # as)" "chain l (bs @ [h])" "nxt l p = hd (bs @ [h])"
    using props(1) chain_append_iff [of l "h # as" "bs @ [h]"] by (simp_all add: xs p)
  have dist: "distinct (h # as @ bs)"
    using props(2,3) by (simp add: xs)
  have "nxt ?l x = nxt l x" if x: "x \<in> set (butlast (h # as))" for x
  proof -
    have "x \<noteq> p"
      unfolding p using last_notin_butlast [OF _ x] dist by simp
    moreover have "x \<noteq> n"
      using in_set_butlastD [OF x] nin by (auto simp: xs)
    ultimately show ?thesis
      by (simp add: nl)
  qed
  then have "chain ?l (h # as)"
    using chain_cong [of "h # as" ?l l] c(1) by blast
  moreover have "nxt ?l x = nxt l x" if "x \<in> set (butlast (bs @ [h]))" for x
    using that dist pin nin by (auto simp: nl xs)
  then have "chain ?l (bs @ [h])"
    using chain_cong [of "bs @ [h]" ?l l] c(2) by blast
  moreover have "nxt ?l p = n" "nxt ?l n = hd (bs @ [h])"
    unfolding nl using c(3) pn by simp_all
  ultimately have "chain ?l (h # as @ n # bs @ [h])"
    using chain_join [of ?l h as "n # bs @ [h]"] chain_Cons_hd [of ?l "bs @ [h]" n]
    unfolding p [symmetric] by simp
  then show "chain ?l (h # (as @ n # bs) @ [h])"
    by simp
  show "h \<notin> set (as @ n # bs)"
    using props(2) n(3) by (auto simp: xs)
qed

lemma items_add_between_other:
  assumes wf: "lwf l A" and h: "h \<in> A" and n: "n \<in> A" "nxt l n = n" "n \<noteq> h"
    and p: "p \<noteq> n" "p \<notin> set (h # items l h)"
  shows "items (list_add_between n p (nxt l p) l) h = items l h"
proof (rule items_cong [OF wf h])
  fix x assume "x \<in> set (h # items l h)"
  moreover have "n \<notin> set (h # items l h)"
    using in_items_linked [OF wf h] n by auto
  ultimately show "nxt (list_add_between n p (nxt l p) l) x = nxt l x"
    unfolding nxt_add_between [OF p(1)] using p(2) by auto
qed

lemma items_del_init:
  assumes wf: "lwf l A" and h: "h \<in> A" and e: "e \<in> A" "e \<noteq> h"
  shows "items (list_del_init e l) h = remove1 e (items l h)"
proof (cases "e \<in> set (items l h)")
  case False
  have "prv l e \<notin> set (h # items l h)"
  proof
    assume "prv l e \<in> set (h # items l h)"
    then obtain as bs where "h # items l h = as @ prv l e # bs"
      by (meson split_list)
    then have "chain l (prv l e # bs @ [h])" "set bs \<subseteq> set (h # items l h)"
      using items_props(1) [OF wf h] chain_append [of l as "prv l e" "bs @ [h]"]
      by (metis append.assoc append_Cons, auto)
    then have "nxt l (prv l e) \<in> set (h # items l h)"
      by (cases bs) auto
    with False e lwfD [OF wf e(1)] show False by simp
  qed
  then have "items (list_del_init e l) h = items l h"
    using False e(2) by (intro items_cong [OF wf h]) (auto simp: list_del_init_fields)
  with False show ?thesis by simp
next
  case True
  then obtain as bs where xs: "items l h = as @ e # bs" and nin: "e \<notin> set as"
    by (meson split_list_first)
  note props = items_props [OF wf h]
  define p where "p = last (h # as)"
  have pin: "p \<in> set (h # as)"
    unfolding p_def by (rule last_in_set) simp
  have c: "chain l (h # as)" "chain l (bs @ [h])" "nxt l p = e" "nxt l e = hd (bs @ [h])"
    using props(1) chain_append_iff [of l "h # as" "e # bs @ [h]"]
      chain_append_iff [of l "[e]" "bs @ [h]"] by (simp_all add: xs p_def)
  have "p \<in> A"
    using pin props(4) h by (auto simp: xs)
  then have pe: "prv l e = p"
    using lwfD(3) [OF wf] c(3) by blast
  let ?l = "list_del_init e l"
  have dist: "distinct (h # as @ e # bs)"
    using props(2,3) by (simp add: xs)
  have "nxt ?l x = nxt l x" if x: "x \<in> set (butlast (h # as))" for x
  proof -
    have "x \<noteq> p"
      unfolding p_def using last_notin_butlast [OF _ x] dist by simp
    moreover have "x \<noteq> e"
      using in_set_butlastD [OF x] nin e(2) by auto
    ultimately show ?thesis
      by (simp add: list_del_init_fields pe)
  qed
  then have "chain ?l (h # as)"
    using chain_cong [of "h # as" ?l l] c(1) by blast
  moreover have "nxt ?l x = nxt l x" if "x \<in> set (butlast (bs @ [h]))" for x
    using that dist pin by (auto simp: list_del_init_fields pe)
  then have "chain ?l (bs @ [h])"
    using chain_cong [of "bs @ [h]" ?l l] c(2) by blast
  moreover have "nxt ?l p = hd (bs @ [h])"
    using c(4) pin nin e(2) by (auto simp: list_del_init_fields pe)
  ultimately have "chain ?l (h # as @ bs @ [h])"
    unfolding p_def by (intro chain_join) simp_all
  then have "chain ?l (h # (as @ bs) @ [h])"
    by simp
  moreover have "h \<notin> set (as @ bs)"
    using props(2) by (simp add: xs)
  ultimately have "items ?l h = as @ bs"
    by (rule items_eqI)
  with nin show ?thesis
    by (simp add: xs remove1_append_mid)
qed

lemma list_for_each_chain:
  assumes "chain l (xs @ [h])" and "h \<notin> set xs"
  shows "list_for_each P l h (hd (xs @ [h])) = Some (hd (dropWhile (\<lambda>x. \<not> P x) xs @ [h]))"
  using assms
proof (induction xs)
  case Nil
  then show ?case by (simp add: list_for_each.simps)
next
  case (Cons y ys)
  then have "nxt l y = hd (ys @ [h])" "chain l (ys @ [h])"
    by (cases ys; simp)+
  with Cons show ?case
    by (subst list_for_each.simps) auto
qed

lemma list_for_each_items:
  assumes "lwf l A" and "h \<in> A"
  shows "list_for_each P l h (nxt l h) = Some (hd (dropWhile (\<lambda>x. \<not> P x) (items l h) @ [h]))"
  using list_for_each_chain [of l "items l h" h P] items_props(1,2) [OF assms]
    nxt_items [OF assms] chain_append_iff [of l "[h]" "items l h @ [h]"] by simp

lemma list_walk_items:
  assumes "lwf l A" and "h \<in> A"
  shows "list_walk l h (nxt l h) = Some (items l h)"
  using lwf_items [OF assms] by (simp add: ring_walk)

subsection \<open>Stores with designated heads\<close>

text \<open>
  In the kernel every ring has one head.  \<open>lists_wf l H N\<close> says that \<open>H\<close> are the list heads,
  \<open>N\<close> the embedded nodes, no list contains a head, and every node is either unlinked or in the
  list of some head.
\<close>

definition lists_wf :: "'n links \<Rightarrow> 'n set \<Rightarrow> 'n set \<Rightarrow> bool" where
  "lists_wf l H N \<longleftrightarrow> lwf l (H \<union> N) \<and> H \<inter> N = {} \<and> (\<forall>h\<in>H. set (items l h) \<subseteq> N) \<and>
     (\<forall>x\<in>N. nxt l x \<noteq> x \<longrightarrow> (\<exists>h\<in>H. x \<in> set (items l h)))"

lemma lists_wfD:
  assumes "lists_wf l H N"
  shows "lwf l (H \<union> N)" and "H \<inter> N = {}" and "h \<in> H \<Longrightarrow> set (items l h) \<subseteq> N"
    and "x \<in> N \<Longrightarrow> nxt l x \<noteq> x \<Longrightarrow> \<exists>h\<in>H. x \<in> set (items l h)"
  using assms by (auto simp: lists_wf_def)

lemma lists_wfI:
  assumes "lwf l (H \<union> N)" and "H \<inter> N = {}" and "\<And>h. h \<in> H \<Longrightarrow> set (items l h) \<subseteq> N"
    and "\<And>x. x \<in> N \<Longrightarrow> nxt l x \<noteq> x \<Longrightarrow> \<exists>h\<in>H. x \<in> set (items l h)"
  shows "lists_wf l H N"
  using assms unfolding lists_wf_def by blast

lemma lists_wf_lwf: "lists_wf l H N \<Longrightarrow> h \<in> H \<Longrightarrow> lwf l (H \<union> N) \<and> h \<in> H \<union> N"
  by (simp add: lists_wf_def)

lemma items_distinct: "lists_wf l H N \<Longrightarrow> h \<in> H \<Longrightarrow> distinct (items l h)"
  using items_props(3) lists_wf_lwf by metis

lemma items_unique_head:
  assumes "lists_wf l H N" and "h \<in> H" "h' \<in> H" and "x \<in> set (items l h)" "x \<in> set (items l h')"
  shows "h = h'"
proof (rule ccontr)
  assume ne: "h \<noteq> h'"
  have "h \<notin> set (items l h')" "h' \<notin> set (items l h)"
    using lists_wfD(2,3) [OF assms(1)] assms(2,3) by blast+
  with ne assms items_disjoint [of l "H \<union> N" h h'] lists_wfD(1) [OF assms(1)]
  show False by auto
qed

lemma list_empty_head:
  "lists_wf l H N \<Longrightarrow> h \<in> H \<Longrightarrow> list_empty h l \<longleftrightarrow> items l h = []"
  using list_empty_items lists_wf_lwf by metis

lemma list_empty_node:
  assumes "lists_wf l H N" and "n \<in> N"
  shows "list_empty n l \<longleftrightarrow> (\<forall>h\<in>H. n \<notin> set (items l h))"
  using assms lists_wfD(4) [OF assms] in_items_linked [OF lists_wfD(1) [OF assms(1)]]
  by (auto simp: list_empty_def)

lemma list_first:
  "lists_wf l H N \<Longrightarrow> h \<in> H \<Longrightarrow> items l h = x # xs \<Longrightarrow> nxt l h = x"
  using nxt_items [of l "H \<union> N" h] lists_wf_lwf by fastforce

lemma list_for_each_wf:
  "lists_wf l H N \<Longrightarrow> h \<in> H \<Longrightarrow>
     list_for_each P l h (nxt l h) = Some (hd (dropWhile (\<lambda>x. \<not> P x) (items l h) @ [h]))"
  using list_for_each_items lists_wf_lwf by metis

lemma list_walk_wf:
  "lists_wf l H N \<Longrightarrow> h \<in> H \<Longrightarrow> list_walk l h (nxt l h) = Some (items l h)"
  using list_walk_items lists_wf_lwf by metis

lemma add_between_wf_facts:
  assumes wf: "lists_wf l H N" and h: "h \<in> H" and n: "n \<in> N" "list_empty n l"
    and xs: "items l h = as @ bs" and p: "p = last (h # as)"
  shows add_between_wf: "lists_wf (list_add_between n p (nxt l p) l) H N"
    and items_add_between_wf: "h' \<in> H \<Longrightarrow> items (list_add_between n p (nxt l p) l) h' =
      (if h' = h then as @ n # bs else items l h')"
proof -
  note w = lists_wfD(1) [OF wf]
  let ?l = "list_add_between n p (nxt l p) l"
  have nn: "nxt l n = n" "n \<in> H \<union> N" "\<And>h. h \<in> H \<Longrightarrow> n \<noteq> h"
    using n lists_wfD(2) [OF wf] by (auto simp: list_empty_def)
  have "p \<in> set (h # as)"
    unfolding p by (rule last_in_set) simp
  then have pin: "p = h \<or> p \<in> set (items l h)"
    by (auto simp: xs)
  have nin: "n \<notin> set (items l h)"
    using in_items_linked [OF w] h nn(1) by blast
  have pp: "p \<in> H \<union> N" "p \<noteq> n"
    using pin h nin nn(3) lists_wfD(3) [OF wf h] by auto
  have other: "p \<notin> set (h' # items l h')" if "h' \<in> H" "h' \<noteq> h" for h'
    using pin that h items_unique_head [OF wf h that(1)] lists_wfD(2,3) [OF wf] by fastforce
  have it: "items ?l h' = (if h' = h then as @ n # bs else items l h')" if "h' \<in> H" for h'
    using items_add_between [OF w _ nn(2,1) _ xs p] items_add_between_other [OF w _ nn(2,1) _ pp(2)]
      other that h nn(3) by auto
  then show "h' \<in> H \<Longrightarrow> items ?l h' = (if h' = h then as @ n # bs else items l h')" .
  have "\<exists>h\<in>H. x \<in> set (items ?l h)" if x: "x \<in> N" "nxt ?l x \<noteq> x" for x
  proof (cases "x = n")
    case True
    then have "x \<in> set (items ?l h)"
      by (simp add: it [OF h])
    with h show ?thesis by blast
  next
    case xn: False
    show ?thesis
    proof (cases "x = p")
      case True
      with x pin h lists_wfD(2) [OF wf] have "x \<in> set (items l h)" by blast
      then have "x \<in> set (items ?l h)"
        by (auto simp: it [OF h] xs)
      with h show ?thesis by blast
    next
      case False
      with x xn have "nxt l x \<noteq> x"
        by (simp add: nxt_add_between [OF pp(2)])
      then obtain h' where "h' \<in> H" "x \<in> set (items l h')"
        using lists_wfD(4) [OF wf x(1)] by blast
      with it xs show ?thesis by (metis Un_iff list.set_intros(2) set_append)
    qed
  qed
  moreover have "set (items ?l h') \<subseteq> N" if "h' \<in> H" for h'
    using it [OF that] lists_wfD(3) [OF wf that] n(1) xs by auto
  moreover have "lwf ?l (H \<union> N)"
    by (rule lwf_add_between [OF w nn(2,1) pp])
  ultimately show "lists_wf ?l H N"
    using lists_wfD(2) [OF wf] unfolding lists_wf_def by blast
qed

text \<open>Insertion at the tail, at the front and before a given cell of the list.\<close>

lemma list_add_tail_wf_facts:
  assumes wf: "lists_wf l H N" and h: "h \<in> H" and n: "n \<in> N" "list_empty n l"
  shows list_add_tail_wf: "lists_wf (list_add_tail n h l) H N"
    and items_list_add_tail: "h' \<in> H \<Longrightarrow>
      items (list_add_tail n h l) h' = (if h' = h then items l h @ [n] else items l h')"
proof -
  have lw: "lwf l (H \<union> N)" "h \<in> H \<union> N"
    using lists_wf_lwf [OF wf h] by auto
  have "list_add_tail n h l = list_add_between n (prv l h) (nxt l (prv l h)) l"
    using lwfD(4) [OF lw] by (simp add: list_add_tail_def)
  moreover note add_between_wf [OF wf h n, of "items l h" "[]" "prv l h"]
    items_add_between_wf [OF wf h n, of "items l h" "[]" "prv l h" h'] prv_items [OF lw]
  ultimately show "lists_wf (list_add_tail n h l) H N"
    and "h' \<in> H \<Longrightarrow>
      items (list_add_tail n h l) h' = (if h' = h then items l h @ [n] else items l h')"
    by simp_all
qed

lemma list_add_wf_facts:
  assumes wf: "lists_wf l H N" and h: "h \<in> H" and n: "n \<in> N" "list_empty n l"
  shows list_add_wf: "lists_wf (list_add n h l) H N"
    and items_list_add: "h' \<in> H \<Longrightarrow>
      items (list_add n h l) h' = (if h' = h then n # items l h else items l h')"
  using add_between_wf [OF wf h n, of "[]" "items l h" h]
    items_add_between_wf [OF wf h n, of "[]" "items l h" h h'] by (simp_all add: list_add_def)

lemma list_add_before_wf_facts:
  assumes wf: "lists_wf l H N" and h: "h \<in> H" and n: "n \<in> N" "list_empty n l"
    and xs: "items l h = as @ bs" and pos: "pos = hd (bs @ [h])"
  shows list_add_before_wf: "lists_wf (list_add_before n pos l) H N"
    and items_list_add_before: "h' \<in> H \<Longrightarrow>
      items (list_add_before n pos l) h' = (if h' = h then as @ n # bs else items l h')"
proof -
  have lw: "lwf l (H \<union> N)" "h \<in> H \<union> N"
    using lists_wf_lwf [OF wf h] by auto
  have "nxt l (last (h # as)) = pos"
    using items_props(1) [OF lw] chain_append_iff [of l "h # as" "bs @ [h]"]
    by (simp add: xs pos)
  moreover have "last (h # as) \<in> H \<union> N"
    using items_props(4) [OF lw] lw(2) by (cases as rule: rev_cases) (auto simp: xs)
  ultimately have p: "prv l pos = last (h # as)" "nxt l (prv l pos) = pos"
    using lwfD(3) [OF lw(1)] by metis+
  then have "list_add_before n pos l = list_add_between n (prv l pos) (nxt l (prv l pos)) l"
    by (simp add: list_add_before_def)
  with add_between_wf [OF wf h n xs p(1)] items_add_between_wf [OF wf h n xs p(1), of h']
  show "lists_wf (list_add_before n pos l) H N"
    and "h' \<in> H \<Longrightarrow>
      items (list_add_before n pos l) h' = (if h' = h then as @ n # bs else items l h')"
    by simp_all
qed

lemma list_add_tail_eq_before: "list_add_tail n h l = list_add_before n h l"
  by (simp add: list_add_tail_def list_add_before_def)

text \<open>
  The idiom of every ordered insertion in the kernel: iterate to the first cell satisfying
  \<open>P\<close>, insert before it, or at the tail when there is none.
\<close>

lemma ordered_insert_wf_facts:
  assumes wf: "lists_wf l H N" and h: "h \<in> H" and n: "n \<in> N" "list_empty n l"
    and pos: "list_for_each P l h (nxt l h) = Some pos"
  shows ordered_insert_wf: "lists_wf (list_add_before n pos l) H N"
    and items_ordered_insert: "h' \<in> H \<Longrightarrow> items (list_add_before n pos l) h' =
      (if h' = h then takeWhile (\<lambda>x. \<not> P x) (items l h) @ n # dropWhile (\<lambda>x. \<not> P x) (items l h)
       else items l h')"
proof -
  have xs: "items l h = takeWhile (\<lambda>x. \<not> P x) (items l h) @ dropWhile (\<lambda>x. \<not> P x) (items l h)"
    by simp
  have "pos = hd (dropWhile (\<lambda>x. \<not> P x) (items l h) @ [h])"
    using pos list_for_each_wf [OF wf h, of P] by simp
  from list_add_before_wf [OF wf h n xs this] items_list_add_before [OF wf h n xs this]
  show "lists_wf (list_add_before n pos l) H N"
    and "h' \<in> H \<Longrightarrow> items (list_add_before n pos l) h' =
      (if h' = h then takeWhile (\<lambda>x. \<not> P x) (items l h) @ n # dropWhile (\<lambda>x. \<not> P x) (items l h)
       else items l h')" by simp_all
qed

text \<open>Deletion.\<close>

lemma list_del_init_wf_facts:
  assumes wf: "lists_wf l H N" and e: "e \<in> N"
  shows list_del_init_wf: "lists_wf (list_del_init e l) H N"
    and items_list_del_init: "h \<in> H \<Longrightarrow> items (list_del_init e l) h = remove1 e (items l h)"
proof -
  note w = lists_wfD(1) [OF wf]
  have e': "e \<in> H \<union> N" "\<And>h. h \<in> H \<Longrightarrow> e \<noteq> h"
    using e lists_wfD(2) [OF wf] by auto
  have it: "items (list_del_init e l) h = remove1 e (items l h)" if "h \<in> H" for h
    using items_del_init [OF w _ e'(1)] e'(2) that by blast
  then show "h \<in> H \<Longrightarrow> items (list_del_init e l) h = remove1 e (items l h)" .
  have "\<exists>h\<in>H. x \<in> set (items (list_del_init e l) h)"
    if x: "x \<in> N" "nxt (list_del_init e l) x \<noteq> x" for x
  proof -
    have xe: "x \<noteq> e"
      using x by (auto simp: list_del_init_fields)
    have "nxt l x \<noteq> x"
    proof
      assume "nxt l x = x"
      then have "prv l x = x"
        using lwf_single_prv [OF w] x(1) by blast
      with x xe \<open>nxt l x = x\<close> lwfD(4) [OF w e'(1)] show False
        by (auto simp: list_del_init_fields split: if_splits)
    qed
    then obtain h where "h \<in> H" "x \<in> set (items l h)"
      using lists_wfD(4) [OF wf x(1)] by blast
    with xe it show ?thesis by (metis in_set_remove1)
  qed
  moreover have "set (items (list_del_init e l) h) \<subseteq> N" if "h \<in> H" for h
    using it [OF that] lists_wfD(3) [OF wf that] set_remove1_subset by fastforce
  moreover have "lwf (list_del_init e l) (H \<union> N)"
    by (rule lwf_del_init [OF w e'(1)])
  ultimately show "lists_wf (list_del_init e l) H N"
    using lists_wfD(2) [OF wf] unfolding lists_wf_def by blast
qed

lemma list_empty_del_init:
  assumes "lists_wf l H N" and "e \<in> N"
  shows "list_empty e (list_del_init e l)"
  by (simp add: list_empty_def list_del_init_fields)

text \<open>Which nodes are linked after an operation.\<close>

lemma list_empty_add_between_node:
  assumes wf: "lists_wf l H N" and h: "h \<in> H" and n: "n \<in> N" "list_empty n l"
    and wf': "lists_wf l' H N"
    and it: "\<And>h'. h' \<in> H \<Longrightarrow>
      set (items l' h') = (if h' = h then insert n (set (items l h)) else set (items l h'))"
    and x: "x \<in> N"
  shows "list_empty x l' \<longleftrightarrow> x \<noteq> n \<and> list_empty x l"
  using list_empty_node [OF wf x] list_empty_node [OF wf' x] it h by (auto split: if_splits)

lemma list_empty_add_tail:
  assumes "lists_wf l H N" and "h \<in> H" and "n \<in> N" "list_empty n l" and "x \<in> N"
  shows "list_empty x (list_add_tail n h l) \<longleftrightarrow> x \<noteq> n \<and> list_empty x l"
  using assms list_add_tail_wf [OF assms(1-4)] items_list_add_tail [OF assms(1-4)]
  by (intro list_empty_add_between_node) auto

lemma list_empty_ordered_insert:
  assumes wf: "lists_wf l H N" and h: "h \<in> H" and n: "n \<in> N" "list_empty n l"
    and pos: "list_for_each P l h (nxt l h) = Some pos" and x: "x \<in> N"
  shows "list_empty x (list_add_before n pos l) \<longleftrightarrow> x \<noteq> n \<and> list_empty x l"
proof (rule list_empty_add_between_node [OF wf h n ordered_insert_wf [OF wf h n pos] _ x])
  fix h' assume h': "h' \<in> H"
  have "set (items l h) = set (takeWhile (\<lambda>x. \<not> P x) (items l h)) \<union>
    set (dropWhile (\<lambda>x. \<not> P x) (items l h))"
    by (metis set_append takeWhile_dropWhile_id)
  then show "set (items (list_add_before n pos l) h') =
    (if h' = h then insert n (set (items l h)) else set (items l h'))"
    using items_ordered_insert [OF wf h n pos h'] by auto
qed

lemma list_empty_del_init_node:
  assumes wf: "lists_wf l H N" and e: "e \<in> N" and x: "x \<in> N"
  shows "list_empty x (list_del_init e l) \<longleftrightarrow> x = e \<or> list_empty x l"
proof -
  have "set (remove1 e (items l h)) = set (items l h) - {e}" if "h \<in> H" for h
    using items_distinct [OF wf that] by (rule set_remove1_eq)
  then show ?thesis
    using list_empty_node [OF wf x] list_empty_node [OF list_del_init_wf [OF wf e] x]
      items_list_del_init [OF wf e] by auto
qed

text \<open>New cells, and cells that go away with their structure.\<close>

lemma lists_wf_empty: "lists_wf l {} {}"
  by (simp add: lists_wf_def lwf_def)

lemma items_INIT_other:
  assumes "lwf l A" and "h \<in> A" and "n \<notin> A \<or> nxt l n = n"
  shows "items (INIT_LIST_HEAD n l) h = items l h"
proof (rule items_cong [OF assms(1,2)])
  fix x assume "x \<in> set (h # items l h)"
  then have "x \<in> A"
    using items_props(4) [OF assms(1,2)] assms(2) by auto
  then show "nxt (INIT_LIST_HEAD n l) x = nxt l x"
    using assms(3) by (auto simp: INIT_LIST_HEAD_def set_next_def set_prev_def)
qed

lemma items_INIT_same: "items (INIT_LIST_HEAD n l) n = []"
  by (rule items_eqI) (simp_all add: INIT_LIST_HEAD_def set_next_def set_prev_def)

lemma nxt_INIT: "nxt (INIT_LIST_HEAD n l) = (nxt l)(n := n)"
  by (simp add: INIT_LIST_HEAD_def set_next_def set_prev_def)

lemma INIT_head_wf_facts:
  assumes wf: "lists_wf l H N" and n: "n \<notin> H \<union> N"
  shows INIT_head_wf: "lists_wf (INIT_LIST_HEAD n l) (insert n H) N"
    and INIT_node_wf: "lists_wf (INIT_LIST_HEAD n l) H (insert n N)"
    and items_INIT: "h \<in> insert n H \<Longrightarrow>
      items (INIT_LIST_HEAD n l) h = (if h = n then [] else items l h)"
    and list_empty_INIT: "x \<in> insert n N \<Longrightarrow>
      list_empty x (INIT_LIST_HEAD n l) \<longleftrightarrow> x = n \<or> list_empty x l"
proof -
  note w = lists_wfD(1) [OF wf]
  have w': "lwf (INIT_LIST_HEAD n l) (insert n (H \<union> N))"
    using lwf_INIT [OF w] n by blast
  have it: "items (INIT_LIST_HEAD n l) h = (if h = n then [] else items l h)"
    if "h \<in> insert n H" for h
    using that n items_INIT_same items_INIT_other [OF w] by auto
  then show "h \<in> insert n H \<Longrightarrow>
    items (INIT_LIST_HEAD n l) h = (if h = n then [] else items l h)" .
  have sub: "set (items (INIT_LIST_HEAD n l) h) \<subseteq> N" if "h \<in> insert n H" for h
    using it [OF that] lists_wfD(3) [OF wf, of h] that by auto
  have ex: "\<exists>h\<in>H. x \<in> set (items (INIT_LIST_HEAD n l) h)"
    if x: "x \<in> insert n N" "nxt (INIT_LIST_HEAD n l) x \<noteq> x" for x
  proof -
    have "x \<noteq> n" "x \<in> N" "nxt l x \<noteq> x"
      using x by (auto simp: nxt_INIT split: if_splits)
    then obtain h where "h \<in> H" "x \<in> set (items l h)"
      using lists_wfD(4) [OF wf] by blast
    moreover from \<open>h \<in> H\<close> n have "h \<noteq> n" by blast
    ultimately show ?thesis using it by auto
  qed
  show "lists_wf (INIT_LIST_HEAD n l) (insert n H) N"
    using w' lists_wfD(2) [OF wf] n sub ex by (intro lists_wfI) auto
  show "lists_wf (INIT_LIST_HEAD n l) H (insert n N)"
    using w' lists_wfD(2) [OF wf] n ex by (intro lists_wfI) (auto dest: subsetD [OF sub, rotated])
  show "x \<in> insert n N \<Longrightarrow> list_empty x (INIT_LIST_HEAD n l) \<longleftrightarrow> x = n \<or> list_empty x l"
    by (simp add: list_empty_def nxt_INIT)
qed

lemma lwf_remove:
  assumes "lwf l A" and "nxt l n = n"
  shows "lwf l (A - {n})"
  using assms lwfD [OF assms(1)] by (auto simp: lwf_def) metis+

lemma lists_wf_remove_node:
  assumes wf: "lists_wf l H N" and n: "n \<in> N" "list_empty n l"
  shows "lists_wf l H (N - {n})"
proof -
  have "lwf l ((H \<union> N) - {n})"
    using lwf_remove [OF lists_wfD(1) [OF wf]] n by (simp add: list_empty_def)
  moreover have "(H \<union> N) - {n} = H \<union> (N - {n})"
    using lists_wfD(2) [OF wf] n(1) by auto
  moreover have "\<forall>h\<in>H. n \<notin> set (items l h)"
    using list_empty_node [OF wf n(1)] n(2) by simp
  ultimately show ?thesis
    using lists_wfD [OF wf] unfolding lists_wf_def by fastforce
qed

lemma lists_wf_remove_head:
  assumes wf: "lists_wf l H N" and h: "h \<in> H" "items l h = []"
  shows "lists_wf l (H - {h}) N"
proof -
  have "nxt l h = h"
    using items_Nil_iff lists_wf_lwf [OF wf h(1)] h(2) by metis
  then have "lwf l ((H \<union> N) - {h})"
    by (rule lwf_remove [OF lists_wfD(1) [OF wf]])
  moreover have "(H \<union> N) - {h} = (H - {h}) \<union> N"
    using lists_wfD(2) [OF wf] h(1) by auto
  moreover have "\<exists>h'\<in>H - {h}. x \<in> set (items l h')" if "x \<in> N" "nxt l x \<noteq> x" for x
    using lists_wfD(4) [OF wf that] h(2) by fastforce
  ultimately show ?thesis
    using lists_wfD(2,3) [OF wf] by (intro lists_wfI) auto
qed

subsection \<open>Neighbours inside a list\<close>

lemma nxt_middle_facts:
  assumes wf: "lists_wf l H N" and h: "h \<in> H" and xs: "items l h = as @ x # bs"
  shows nxt_middle: "nxt l x = hd (bs @ [h])"
    and prv_middle: "prv l x = last (h # as)"
proof -
  note A = lists_wf_lwf [OF wf h]
  have c: "chain l ((h # as) @ x # bs @ [h])"
    using items_props(1) [of l "H \<union> N" h] A xs by simp
  then have "chain l (x # bs @ [h])"
    unfolding chain_append_iff by simp
  then show "nxt l x = hd (bs @ [h])"
    by (cases bs) simp_all
  have "nxt l (last (h # as)) = x"
    using c unfolding chain_append_iff by simp
  moreover have "last (h # as) \<in> H \<union> N"
  proof (cases as rule: rev_cases)
    case (snoc ys y)
    then show ?thesis using lists_wfD(3) [OF wf h] xs by auto
  qed (use h in simp)
  ultimately show "prv l x = last (h # as)"
    using lwfD(3) [OF lists_wfD(1) [OF wf]] by metis
qed

lemma list_add_after_wf_facts:
  assumes wf: "lists_wf l H N" and h: "h \<in> H" and n: "n \<in> N" "list_empty n l"
    and xs: "items l h = as @ x # bs"
  shows list_add_after_wf: "lists_wf (list_add n x l) H N"
    and items_list_add_after: "items (list_add n x l) h = as @ x # n # bs"
  using add_between_wf [OF wf h n, of "as @ [x]" bs x]
    items_add_between_wf [OF wf h n, of "as @ [x]" bs x h] xs h
  by (simp_all add: list_add_def)

end
