(* ===== verification/Ticks.thy ===== *)
theory Ticks
  imports Prelude
begin

text \<open>
  The tick arithmetic of \<^verbatim>\<open>src/kernel/timer.c\<close> (conversions between microseconds and system
  ticks, and the wrap-around comparison of two tick counts) with the time macros of
  \<^verbatim>\<open>include/timer.h\<close>.  A \<^verbatim>\<open>trt_time_t\<close> is a structure with one 64-bit field and is modelled by that
  field.
\<close>

subsection \<open>Definitions\<close>

type_synonym trt_time_t = u64

definition TRT_US :: "u64 \<Rightarrow> trt_time_t" where
  "TRT_US v = v"

definition TRT_MS :: "u64 \<Rightarrow> trt_time_t" where
  "TRT_MS v = v * 1000"

definition TRT_SEC :: "u64 \<Rightarrow> trt_time_t" where
  "TRT_SEC v = v * 1000000"

definition TRT_TIME_FOREVER_US :: u64 where
  "TRT_TIME_FOREVER_US = - 1"

definition TICK_PERIOD_US :: u64 where
  "TICK_PERIOD_US = 1000"

definition UINT32_MAX :: u64 where
  "UINT32_MAX = 0xFFFFFFFF"

definition timer_us_to_ticks :: "u64 \<Rightarrow> u32" where
  "timer_us_to_ticks us =
     (if us = 0 then 0
      else let ticks = (us + TICK_PERIOD_US - 1) div TICK_PERIOD_US in
        if ticks > UINT32_MAX then 0xFFFFFFFF else ucast ticks)"

definition timer_ms_to_ticks :: "u64 \<Rightarrow> u32" where
  "timer_ms_to_ticks ms = timer_us_to_ticks (ms * 1000)"

definition timer_sec_to_ticks :: "u64 \<Rightarrow> u32" where
  "timer_sec_to_ticks sec = timer_ms_to_ticks (sec * 1000)"

definition timer_expired :: "u32 \<Rightarrow> u32 \<Rightarrow> bool" where
  "timer_expired now deadline \<longleftrightarrow> 0 \<le> sint (now - deadline)"

subsection \<open>The wrap-around comparison\<close>

lemma sint_nonneg_iff: "0 \<le> sint (w :: u32) \<longleftrightarrow> unat w < 2 ^ 31"
proof -
  have "0 \<le> sint w \<longleftrightarrow> \<not> bit w 31"
    using bit_last_iff [of w] by auto
  also have "\<dots> \<longleftrightarrow> unat w < 2 ^ 31"
  proof -
    have "unat w < 2 ^ 32" using unsigned_less [of w] by simp
    then have "unat w div 2 ^ 31 < 2" by simp
    moreover have "bit w 31 \<longleftrightarrow> odd (unat w div 2 ^ 31)"
    proof -
      have "bit (unat w) 31 \<longleftrightarrow> bit w 31"
        by (simp add: bit_unsigned_iff)
      then show ?thesis
        using bit_iff_odd [of "unat w" 31] by blast
    qed
    moreover have "unat w div 2 ^ 31 = 0 \<longleftrightarrow> unat w < 2 ^ 31"
      by (simp add: div_eq_0_iff)
    moreover have "unat w div 2 ^ 31 = 0 \<or> unat w div 2 ^ 31 = 1"
      using calculation(1) by linarith
    ultimately show ?thesis
      by fastforce
  qed
  finally show ?thesis .
qed

lemma sint_neg_iff: "sint (w :: u32) < 0 \<longleftrightarrow> 2 ^ 31 \<le> unat w"
  using sint_nonneg_iff [of w] by linarith

lemma sint_nonneg_unat:
  assumes "0 \<le> sint (w :: u32)"
  shows "sint w = int (unat w)"
proof -
  have "unat w < 2 ^ 31" using assms by (simp only: sint_nonneg_iff)
  then have "int (unat w) < int (2 ^ 31)" by (simp only: of_nat_less_iff)
  then have u: "int (unat w) < 2 ^ 31" by (simp only: of_nat_power of_nat_numeral)
  have "sint w = signed_take_bit 31 (int (unat w))" by (simp add: sint_uint)
  also have "\<dots> = int (unat w)"
    by (rule signed_take_bit_int_eq_self [OF _ u]) (rule order_trans [of _ 0]; simp)
  finally show ?thesis .
qed

lemma timer_expired_iff: "timer_expired now deadline \<longleftrightarrow> unat (now - deadline) < 2 ^ 31"
  by (simp add: timer_expired_def sint_nonneg_iff)

lemma timer_expired_refl [simp]: "timer_expired now now"
  by (simp add: timer_expired_def)

lemma unat_neg: "w \<noteq> 0 \<Longrightarrow> unat (- w :: u32) = 2 ^ 32 - unat w"
proof -
  assume "w \<noteq> 0"
  then have "0 < uint w" "uint w < 2 ^ 32"
    using uint_bounded [of w] by (auto simp: word_neq_0_conv word_less_def)
  then have "uint (- w) = 2 ^ 32 - uint w"
    by (simp add: uint_word_ariths zmod_zminus1_eq_if)
  then have "int (unat (- w)) = 4294967296 - int (unat w)" by simp
  then have "unat (- w) = 4294967296 - unat w" by linarith
  then show ?thesis by simp
qed

lemma timer_expired_future:
  "timer_expired now (now + d) \<longleftrightarrow> d = 0 \<or> 2 ^ 31 < unat d"
proof (cases "d = 0")
  case False
  have "unat d < 2 ^ 32" using unsigned_less [of d] by simp
  with False show ?thesis
    by (auto simp: timer_expired_iff unat_neg)
qed (simp add: timer_expired_iff)

lemma timer_expired_elapsed:
  assumes "unat d < 2 ^ 31" and "unat e < 2 ^ 31"
  shows "timer_expired (start + e) (start + d) \<longleftrightarrow> unat d \<le> unat e"
proof (cases "unat d \<le> unat e")
  case True
  then have "unat (e - d) = unat e - unat d"
    by (simp add: unat_sub word_le_nat_alt)
  then show ?thesis
    using assms True by (auto simp: timer_expired_iff)
next
  case False
  then have "e - d = - (d - e)" and "d - e \<noteq> 0" by auto
  moreover have "unat (d - e) = unat d - unat e"
    using False by (simp add: unat_sub word_le_nat_alt)
  ultimately have "unat (e - d) = 2 ^ 32 - (unat d - unat e)"
    using unat_neg by metis
  with assms False show ?thesis
    by (auto simp: timer_expired_iff)
qed

subsection \<open>Microseconds to ticks\<close>

lemma unat_us_plus:
  assumes "unat us + 999 < 2 ^ 64"
  shows "unat (us + TICK_PERIOD_US - 1) = unat us + 999"
proof -
  have "us + TICK_PERIOD_US - 1 = us + (TICK_PERIOD_US - 1)"
    by (simp only: add_diff_eq)
  also have "TICK_PERIOD_US - 1 = 999"
    by (simp add: TICK_PERIOD_US_def)
  finally have eq: "us + TICK_PERIOD_US - 1 = us + 999" .
  show ?thesis
    unfolding eq using assms by (simp add: unat_word_ariths)
qed

lemma timer_us_to_ticks_exact:
  assumes "unat us + 999 < 2 ^ 64"
  shows "unat (timer_us_to_ticks us) = min ((unat us + 999) div 1000) (2 ^ 32 - 1)"
proof (cases "us = 0")
  case True
  then show ?thesis by (simp add: timer_us_to_ticks_def)
next
  case False
  let ?t = "(us + TICK_PERIOD_US - 1) div TICK_PERIOD_US"
  have t: "unat ?t = (unat us + 999) div 1000"
    using unat_us_plus [OF assms] by (simp add: unat_div TICK_PERIOD_US_def)
  have "unat (ucast ?t :: u32) = unat ?t mod 2 ^ 32"
    by (simp add: unsigned_ucast_eq take_bit_eq_mod)
  moreover have "?t > UINT32_MAX \<longleftrightarrow> unat ?t > 2 ^ 32 - 1"
    by (simp add: word_less_nat_alt UINT32_MAX_def)
  ultimately show ?thesis
    using False t by (auto simp: timer_us_to_ticks_def Let_def)
qed

subsection \<open>Deadline lists\<close>

text \<open>
  The timeout list of the scheduler and the list of active timers are kept in deadline order.
  Deadlines that lie ahead by less than half the range of the counter are compared correctly by
  the signed difference, whatever the counter is.
\<close>

definition ahead :: "u32 \<Rightarrow> u32 \<Rightarrow> nat" where
  "ahead now d = unat (d - now)"

definition deadlines_ok :: "u32 \<Rightarrow> u32 list \<Rightarrow> bool" where
  "deadlines_ok now ds \<longleftrightarrow>
     (\<forall>d\<in>set ds. 0 < ahead now d \<and> ahead now d < 2 ^ 31) \<and> sorted (map (ahead now) ds)"

lemma deadlines_ok_simps [simp]:
  "deadlines_ok now []"
  "deadlines_ok now (d # ds) \<longleftrightarrow> 0 < ahead now d \<and> ahead now d < 2 ^ 31 \<and>
     (\<forall>e\<in>set ds. ahead now d \<le> ahead now e) \<and> deadlines_ok now ds"
  by (auto simp: deadlines_ok_def)

lemma deadlines_ok_dropWhile: "deadlines_ok now ds \<Longrightarrow> deadlines_ok now (dropWhile P ds)"
  by (induction ds) auto

lemma deadlines_ok_remove1:
  "deadlines_ok now (map f xs) \<Longrightarrow> deadlines_ok now (map f (remove1 x xs))"
proof (induction xs)
  case (Cons y ys)
  then show ?case using set_remove1_subset [of x ys] by auto
qed simp

lemma earlier_iff:
  assumes "ahead now a < 2 ^ 31" and "ahead now d < 2 ^ 31"
  shows "sint (a - d) < 0 \<longleftrightarrow> ahead now a < ahead now d"
proof -
  have "timer_expired (now + (a - now)) (now + (d - now)) \<longleftrightarrow> unat (d - now) \<le> unat (a - now)"
    using assms by (intro timer_expired_elapsed) (simp_all add: ahead_def)
  then have "0 \<le> sint (a - d) \<longleftrightarrow> ahead now d \<le> ahead now a"
    by (simp add: timer_expired_def ahead_def)
  then show ?thesis by linarith
qed

lemma deadlines_insert:
  assumes "deadlines_ok now ds" and "0 < ahead now a" "ahead now a < 2 ^ 31"
  shows "deadlines_ok now
    (takeWhile (\<lambda>d. \<not> sint (a - d) < 0) ds @ a # dropWhile (\<lambda>d. \<not> sint (a - d) < 0) ds)"
  using assms
proof (induction ds)
  case (Cons d ds)
  have e: "sint (a - d) < 0 \<longleftrightarrow> ahead now a < ahead now d"
    using Cons.prems by (intro earlier_iff) simp_all
  have "set (takeWhile P ds @ a # dropWhile P ds) = insert a (set ds)" for P
    by (metis Un_insert_right list.simps(15) set_append takeWhile_dropWhile_id)
  then show ?case
    using Cons e by auto
qed simp

lemma ahead_tick:
  assumes "0 < ahead now d"
  shows "ahead (now + 1) d = ahead now d - 1"
proof -
  have "unat (d - now - 1) = unat (d - now) - unat (1 :: u32)"
    using assms by (intro unat_sub) (simp add: ahead_def word_le_nat_alt)
  moreover have "d - (now + 1) = d - now - 1" by (simp only: diff_diff_eq)
  ultimately show ?thesis by (simp only: ahead_def unat_1)
qed

lemma ahead_zero: "ahead now d = 0 \<longleftrightarrow> d = now"
  by (simp add: ahead_def unat_eq_0)

lemma expired_tick:
  assumes "0 < ahead now d" and "ahead now d < 2 ^ 31"
  shows "timer_expired (now + 1) d \<longleftrightarrow> d = now + 1"
proof -
  have "ahead (now + 1) d < 2 ^ 31" using assms by (simp add: ahead_tick)
  then have "timer_expired (now + 1) (now + 1 + (d - (now + 1))) \<longleftrightarrow> d - (now + 1) = 0"
    unfolding timer_expired_future ahead_def by auto
  then show ?thesis by simp
qed

lemma deadlines_tick:
  assumes "deadlines_ok now ds"
  shows "takeWhile (timer_expired (now + 1)) ds = filter (\<lambda>d. d = now + 1) ds"
    and "deadlines_ok (now + 1) (dropWhile (timer_expired (now + 1)) ds)"
proof -
  have "takeWhile (timer_expired (now + 1)) ds = filter (\<lambda>d. d = now + 1) ds \<and>
    deadlines_ok (now + 1) (dropWhile (timer_expired (now + 1)) ds)"
    using assms
  proof (induction ds)
    case (Cons d ds)
    have d: "0 < ahead now d" "ahead now d < 2 ^ 31" and ge: "\<forall>e\<in>set ds. ahead now d \<le> ahead now e"
      and ds: "deadlines_ok now ds" using Cons.prems by simp_all
    note x = expired_tick [OF d]
    show ?case
    proof (cases "d = now + 1")
      case True
      then show ?thesis using Cons.IH [OF ds] x by simp
    next
      case False
      then have one: "1 < ahead now d"
        using d(1) ahead_zero [of "now + 1" d] ahead_tick [OF d(1)] by simp
      have "e \<noteq> now + 1" if "e \<in> set ds" for e
      proof -
        have "1 < ahead now e" using one ge that by (meson less_le_trans)
        then have "0 < ahead (now + 1) e" using ahead_tick [of now e] by simp
        then show ?thesis using ahead_zero [of "now + 1" e] by simp
      qed
      moreover have "deadlines_ok (now + 1) (d # ds)"
      proof -
        have "ahead (now + 1) e = ahead now e - 1" if "e \<in> set (d # ds)" for e
          using that d(1) ge by (intro ahead_tick) auto
        then have "map (ahead (now + 1)) (d # ds) = map (\<lambda>e. ahead now e - 1) (d # ds)"
          by (intro map_cong) auto
        moreover have "sorted (map (\<lambda>e. ahead now e - 1) (d # ds))"
          using Cons.prems unfolding deadlines_ok_def
          by (auto simp: sorted_map intro: sorted_wrt_mono_rel [rotated])
        moreover have "\<forall>e\<in>set (d # ds). 0 < ahead (now + 1) e \<and> ahead (now + 1) e < 2 ^ 31"
          using Cons.prems one ge ahead_tick [of now] by (auto simp: deadlines_ok_def)
        ultimately show ?thesis unfolding deadlines_ok_def by argo
      qed
      ultimately show ?thesis using x False by (simp add: filter_empty_conv)
    qed
  qed simp
  then show "takeWhile (timer_expired (now + 1)) ds = filter (\<lambda>d. d = now + 1) ds"
    and "deadlines_ok (now + 1) (dropWhile (timer_expired (now + 1)) ds)" by simp_all
qed

end
