(* ===== verification/BaseProps.thy ===== *)
theory BaseProps
  imports Links Ticks
begin

text \<open>
  The properties of the intrusive lists and of the tick arithmetic, the two services every other
  component rests on.
\<close>

subsection \<open>Lists\<close>

definition demo_links :: "nat links" where
  "demo_links = \<lparr>nxt = (\<lambda>x. x)(0 := 1, 1 := 2, 2 := 3, 3 := 0),
     prv = (\<lambda>x. x)(0 := 3, 1 := 0, 2 := 1, 3 := 2)\<rparr>"

lemma demo_links: "lists_wf demo_links {0} {1, 2, 3, 4}" "items demo_links 0 = [1, 2, 3]"
  "list_empty 4 demo_links"
proof -
  show i: "items demo_links 0 = [1, 2, 3]"
    by (simp add: items_def demo_links_def list_walk.simps)
  show "lists_wf demo_links {0} {1, 2, 3, 4}"
    unfolding lists_wf_def lwf_def using i by (auto simp: demo_links_def)
  show "list_empty 4 demo_links" by (simp add: list_empty_def demo_links_def)
qed

text \<open>C40. On a well-formed store the pointer operations implement the list operations: adding an
  unlinked node puts it at the front or at the tail, deleting a node removes it and leaves it
  unlinked, every other list keeps its contents, the store stays well formed, and the iteration
  ends after visiting exactly the contents.\<close>

theorem list_operations:
  assumes "lists_wf l H N" and "h \<in> H" and "n \<in> N"
  shows "(list_empty n l \<longrightarrow>
      lists_wf (list_add_tail n h l) H N \<and> lists_wf (list_add n h l) H N \<and>
      (\<forall>k\<in>H. items (list_add_tail n h l) k = (if k = h then items l h @ [n] else items l k) \<and>
             items (list_add n h l) k = (if k = h then n # items l h else items l k))) \<and>
    lists_wf (list_del_init n l) H N \<and> list_empty n (list_del_init n l) \<and>
    (\<forall>k\<in>H. items (list_del_init n l) k = remove1 n (items l k)) \<and>
    (list_empty n l \<longleftrightarrow> (\<forall>k\<in>H. n \<notin> set (items l k))) \<and>
    list_walk l h (nxt l h) = Some (items l h)"
  using list_add_tail_wf [OF assms] list_add_wf [OF assms] items_list_add_tail [OF assms]
    items_list_add [OF assms] list_del_init_wf [OF assms(1,3)] items_list_del_init [OF assms(1,3)]
    list_empty_del_init_node [OF assms(1,3,3)] list_empty_node [OF assms(1,3)]
    list_walk_wf [OF assms(1,2)] by blast

lemma list_operations_witness:
  "items (list_add 4 0 demo_links) 0 = [4, 1, 2, 3] \<and> items (list_del_init 2 demo_links) 0 = [1, 3]"
  using list_operations [OF demo_links(1), of 0 4] list_operations [OF demo_links(1), of 0 2]
    demo_links(2,3) by simp

text \<open>\<^verbatim>\<open>list_move\<close> and \<^verbatim>\<open>list_move_tail\<close>, which skip the re-initialisation of the unlinked
  node, still equal a deletion followed by an insertion: the moved node leaves its list and is the
  first, or the last, of the other one.\<close>

theorem list_move_moves:
  assumes "lists_wf l H N" and "h \<in> H" and "n \<in> N" and "k \<in> H"
  shows "list_move n h l = list_add n h (list_del_init n l) \<and>
    list_move_tail n h l = list_add_tail n h (list_del_init n l) \<and>
    items (list_move n h l) k = (if k = h then n # remove1 n (items l h) else remove1 n (items l k)) \<and>
    items (list_move_tail n h l) k =
      (if k = h then remove1 n (items l h) @ [n] else remove1 n (items l k))"
proof -
  note w = lists_wfD(1) [OF assms(1)] and d = list_del_init_wf [OF assms(1,3)]
  have hn: "h \<noteq> n" "h \<in> H \<union> N" "n \<in> H \<union> N" using lists_wfD(2) [OF assms(1)] assms(2,3) by auto
  let ?l = "list_del_between (prv l n) (nxt l n) l"
  have f: "nxt ?l = (nxt l)(prv l n := nxt l n)" "prv ?l = (prv l)(nxt l n := prv l n)"
    by (simp_all add: list_del_between_def set_next_def set_prev_def)
  have nn1: "nxt ?l h \<noteq> n"
  proof (cases "h = prv l n")
    case True
    then have "nxt ?l h = nxt l n" by (simp add: f)
    moreover have "nxt l n \<noteq> n" using True hn(1) lwfD(3) [OF w hn(3)] by metis
    ultimately show ?thesis by simp
  next
    case False
    then show ?thesis using lwfD(3) [OF w hn(2)] by (auto simp: f)
  qed
  have nn2: "prv ?l h \<noteq> n"
  proof (cases "h = nxt l n")
    case True
    then have "prv ?l h = prv l n" by (simp add: f)
    moreover have "prv l n \<noteq> n" using True hn(1) lwfD(4) [OF w hn(3)] by metis
    ultimately show ?thesis by simp
  next
    case False
    then show ?thesis using lwfD(4) [OF w hn(2)] by (auto simp: f)
  qed
  note nn = nn1 nn2
  have eq: "list_move n h l = list_add n h (list_del_init n l)"
    "list_move_tail n h l = list_add_tail n h (list_del_init n l)"
    using nn hn(1)
    by (auto simp: list_move_def list_move_tail_def list_add_def list_add_tail_def list_add_between_def
        list_del_init_def list_del_def INIT_LIST_HEAD_def set_next_def set_prev_def f fun_upd_twist
        intro!: links.equality)
  have e: "list_empty n (list_del_init n l)" using list_empty_del_init_node [OF assms(1,3,3)] by simp
  show ?thesis
    using eq items_list_add [OF d assms(2,3) e assms(4)] items_list_add_tail [OF d assms(2,3) e assms(4)]
      items_list_del_init [OF assms(1,3,2)] items_list_del_init [OF assms(1,3,4)] by simp
qed

lemma list_move_moves_witness:
  "items (list_move 3 0 demo_links) 0 = [3, 1, 2] \<and> items (list_move_tail 1 0 demo_links) 0 = [2, 3, 1]"
  using list_move_moves [OF demo_links(1), of 0 3 0, THEN conjunct2, THEN conjunct2, THEN conjunct1]
    list_move_moves [OF demo_links(1), of 0 1 0, THEN conjunct2, THEN conjunct2, THEN conjunct2]
    demo_links(2) by simp

subsection \<open>Ticks\<close>

text \<open>The comparison of \<^verbatim>\<open>timer_expired\<close> is right across the wrap-around of the counter: for a
  deadline and an elapsed time below half the range, the deadline has passed exactly when at least
  that much time has elapsed; a deadline set further ahead than half the range counts as passed at
  once.\<close>

theorem timer_expired_wraps:
  assumes "unat d < 2 ^ 31" and "unat e < 2 ^ 31"
  shows "(timer_expired (start + e) (start + d) \<longleftrightarrow> unat d \<le> unat e) \<and>
    (2 ^ 31 < unat far \<longrightarrow> timer_expired start (start + far))"
  using timer_expired_elapsed [OF assms] timer_expired_future by blast

lemma timer_expired_wraps_witness:
  "\<not> timer_expired (0xfffffff0 + 5) (0xfffffff0 + 0x20) \<and> timer_expired (0xfffffff0 + 0x30) (0xfffffff0 + 0x20)"
  using timer_expired_wraps [of "0x20" 5 "0xfffffff0"] timer_expired_wraps [of "0x20" "0x30" "0xfffffff0"]
  by simp

text \<open>\<^verbatim>\<open>timer_us_to_ticks\<close> rounds up to whole milliseconds and saturates at 32 bits, except that
  for the last 999 values of its 64-bit argument the rounding overflows and the result is zero.\<close>

theorem timer_us_to_ticks_value:
  "unat (timer_us_to_ticks us) =
     (if unat us + 999 < 2 ^ 64 then min ((unat us + 999) div 1000) (2 ^ 32 - 1) else 0)"
proof (cases "unat us + 999 < 2 ^ 64")
  case True
  then show ?thesis using timer_us_to_ticks_exact [OF True] by simp
next
  case False
  have u: "unat us < 2 ^ 64" using unsigned_less [of us] by simp
  have "us + TICK_PERIOD_US - 1 = us + 999" by (simp add: TICK_PERIOD_US_def)
  moreover have "unat (us + 999) = (unat us + 999) mod 2 ^ 64" by (simp add: unat_word_ariths)
  moreover have "(unat us + 999) mod 2 ^ 64 < 1000"
  proof -
    have "unat us + 999 = (unat us + 999 - 2 ^ 64) + 2 ^ 64" using False by simp
    then have "(unat us + 999) mod 2 ^ 64 = (unat us + 999 - 2 ^ 64) mod 2 ^ 64"
      by (metis mod_add_self2)
    also have "\<dots> \<le> unat us + 999 - 2 ^ 64" by (rule mod_less_eq_dividend)
    finally show ?thesis using u by simp
  qed
  ultimately have "unat (us + TICK_PERIOD_US - 1) < 1000" by argo
  then have "unat ((us + TICK_PERIOD_US - 1) div TICK_PERIOD_US) = 0"
    unfolding unat_div by (simp add: TICK_PERIOD_US_def)
  then have "(us + TICK_PERIOD_US - 1) div TICK_PERIOD_US = 0" by (simp only: unat_eq_0)
  then have "timer_us_to_ticks us = 0"
    unfolding timer_us_to_ticks_def Let_def by (simp add: UINT32_MAX_def)
  with False show ?thesis by simp
qed

end
