(* ===== verification/KernelState.thy ===== *)
theory KernelState
  imports Links Ticks
begin

text \<open>
  The state the scheduler, the wait queues and the task API share: task control blocks
  (\<^verbatim>\<open>src/kernel/task_private.h\<close>), the scheduler singleton (\<^verbatim>\<open>src/kernel/sched_private.h\<close>), the
  list cells they are threaded through, and the tick counter and trap depth of
  \<^verbatim>\<open>boards/esp32c3/hal.c\<close>.

  Every \<^verbatim>\<open>list_head\<close> cell of this part of the kernel has an address of type \<open>knode\<close>: the
  heads of the master, deleted, timeout and ready lists, the head of each wait queue, and the
  three nodes embedded in a task.
\<close>

subsection \<open>Tasks\<close>

datatype task_state_t = TASK_UNUSED | TASK_READY | TASK_RUNNING | TASK_BLOCKED | TASK_DELETED

datatype task_wait_result_t =
  TASK_WAIT_NONE | TASK_WAIT_OBJECT | TASK_WAIT_TIMEOUT | TASK_WAIT_DESTROYED

record task_t =
  task_name :: "u8 list"
  task_sp :: ptr
  stack_base :: ptr
  stack_size :: u32
  wakeup :: u32
  waiting_on_timer :: bool
  wait_result :: task_wait_result_t
  task_state :: task_state_t
  priority :: u32
  base_priority :: u32
  effective_priority :: u32
  task_handle :: u32
  task_entry :: ptr
  task_arg :: ptr

subsection \<open>List cells\<close>

text \<open>
  A wait queue is embedded in the object it belongs to and is named after it; a message queue
  has two.  \<open>NullWq\<close> is the null pointer the wait queue functions test for.
\<close>

datatype wq_t = NullWq | SemWq ptr | MutexWq ptr | ReadersWq ptr | WritersWq ptr

datatype knode =
    MasterHead
  | DeletedHead
  | TimeoutHead
  | ReadyHead nat
  | WaitHead wq_t
  | MasterNode ptr
  | StateNode ptr
  | TimeoutNode ptr

text \<open>
  \<^verbatim>\<open>list_entry\<close> at the three members of a task.  On a cell of another kind the C expression has
  no meaning; the model gives the null pointer, and the kernel invariant excludes the case.
\<close>

fun entry_master :: "knode \<Rightarrow> ptr" where
  "entry_master (MasterNode t) = t"
| "entry_master _ = 0"

fun entry_state :: "knode \<Rightarrow> ptr" where
  "entry_state (StateNode t) = t"
| "entry_state _ = 0"

fun entry_timeout :: "knode \<Rightarrow> ptr" where
  "entry_timeout (TimeoutNode t) = t"
| "entry_timeout _ = 0"

subsection \<open>The kernel state\<close>

record kstate =
  tasks :: "ptr \<Rightarrow> task_t"
  lnk :: "knode links"
  ready_mask :: u32
  current_task :: ptr
  idle_task :: ptr
  time_slice_ticks :: u32
  sched_initialized :: bool
  started :: bool
  lock_count :: u32
  resched_pending :: bool
  tick_count :: u32
  trap_nesting :: u32

definition upd_task :: "ptr \<Rightarrow> (task_t \<Rightarrow> task_t) \<Rightarrow> 'z kstate_scheme \<Rightarrow> 'z kstate_scheme" where
  "upd_task t f s = s\<lparr>tasks := (tasks s)(t := f (tasks s t))\<rparr>"

definition upd_lnk :: "(knode links \<Rightarrow> knode links) \<Rightarrow> 'z kstate_scheme \<Rightarrow> 'z kstate_scheme" where
  "upd_lnk f s = s\<lparr>lnk := f (lnk s)\<rparr>"

abbreviation prio :: "'z kstate_scheme \<Rightarrow> ptr \<Rightarrow> nat" where
  "prio s t \<equiv> unat (priority (tasks s t))"

abbreviation klist :: "'z kstate_scheme \<Rightarrow> knode \<Rightarrow> knode list" where
  "klist s h \<equiv> items (lnk s) h"

lemma upd_task_simps [simp]:
  "tasks (upd_task t f s) = (tasks s)(t := f (tasks s t))"
  "lnk (upd_task t f s) = lnk s"
  "ready_mask (upd_task t f s) = ready_mask s"
  "current_task (upd_task t f s) = current_task s"
  "idle_task (upd_task t f s) = idle_task s"
  "time_slice_ticks (upd_task t f s) = time_slice_ticks s"
  "sched_initialized (upd_task t f s) = sched_initialized s"
  "started (upd_task t f s) = started s"
  "lock_count (upd_task t f s) = lock_count s"
  "resched_pending (upd_task t f s) = resched_pending s"
  "tick_count (upd_task t f s) = tick_count s"
  "trap_nesting (upd_task t f s) = trap_nesting s"
  "kstate.more (upd_task t f s) = kstate.more s"
  by (simp_all add: upd_task_def)

lemma upd_lnk_simps [simp]:
  "tasks (upd_lnk g s) = tasks s"
  "lnk (upd_lnk g s) = g (lnk s)"
  "ready_mask (upd_lnk g s) = ready_mask s"
  "current_task (upd_lnk g s) = current_task s"
  "idle_task (upd_lnk g s) = idle_task s"
  "time_slice_ticks (upd_lnk g s) = time_slice_ticks s"
  "sched_initialized (upd_lnk g s) = sched_initialized s"
  "started (upd_lnk g s) = started s"
  "lock_count (upd_lnk g s) = lock_count s"
  "resched_pending (upd_lnk g s) = resched_pending s"
  "tick_count (upd_lnk g s) = tick_count s"
  "trap_nesting (upd_lnk g s) = trap_nesting s"
  "kstate.more (upd_lnk g s) = kstate.more s"
  by (simp_all add: upd_lnk_def)

end
