(* ===== verification/Sched.thy ===== *)
theory Sched
  imports KernelState
begin

unbundle bit_operations_syntax

text \<open>
  The scheduler, \<^verbatim>\<open>src/kernel/sched.c\<close>, with \<^verbatim>\<open>task_yield\<close> of \<^verbatim>\<open>src/kernel/task.c\<close>, which
  \<^verbatim>\<open>sched_unlock\<close> calls.  The routines keep the code's guards and the order of its list
  operations.  The instruction behind \<^verbatim>\<open>arch_yield\<close> is an argument of the routines that execute
  it: a function from the state at the trap to the state in which the calling task runs again,
  \<open>None\<close> if it never does.
\<close>

subsection \<open>Priority bits\<close>

definition prio_bit :: "nat \<Rightarrow> u32" where
  "prio_bit p = push_bit p 1"

definition clz32 :: "u32 \<Rightarrow> nat" where
  "clz32 w = length (takeWhile (\<lambda>i. \<not> bit w i) (rev [0..<32]))"

definition higher_priority_mask :: "u32 \<Rightarrow> u32" where
  "higher_priority_mask p = NOT (push_bit (unat (p + 1)) 1 - 1)"

subsection \<open>Initialisation\<close>

definition sched_init :: "'z kstate_scheme \<Rightarrow> 'z kstate_scheme" where
  "sched_init s =
     (if sched_initialized s then s
      else s\<lparr>lnk := fold (\<lambda>p. INIT_LIST_HEAD (ReadyHead p)) [0..<32]
               (INIT_LIST_HEAD TimeoutHead
                 (INIT_LIST_HEAD DeletedHead
                   (INIT_LIST_HEAD MasterHead (lnk s)))),
             ready_mask := 0, idle_task := 0, time_slice_ticks := 0, current_task := 0,
             started := False, lock_count := 0, resched_pending := False,
             sched_initialized := True\<rparr>)"

subsection \<open>Ready lists\<close>

definition sched_ready_enqueue :: "ptr \<Rightarrow> 'z kstate_scheme \<Rightarrow> 'z kstate_scheme" where
  "sched_ready_enqueue t s =
     (if t = 0 \<or> priority (tasks s t) > RTOS_PRIORITY_MAX \<or> task_state (tasks s t) = TASK_DELETED
      then s
      else if \<not> list_empty (StateNode t) (lnk s) then s
      else s\<lparr>lnk := list_add_tail (StateNode t) (ReadyHead (prio s t)) (lnk s),
             ready_mask := ready_mask s OR prio_bit (prio s t)\<rparr>)"

definition sched_add_task :: "ptr \<Rightarrow> 'z kstate_scheme \<Rightarrow> 'z kstate_scheme" where
  "sched_add_task t s =
     sched_ready_enqueue t (upd_lnk (list_add_tail (MasterNode t) MasterHead) s)"

definition sched_set_idle_task :: "ptr \<Rightarrow> 'z kstate_scheme \<Rightarrow> 'z kstate_scheme" where
  "sched_set_idle_task t s = s\<lparr>idle_task := t\<rparr>"

definition sched_ready_remove :: "ptr \<Rightarrow> 'z kstate_scheme \<Rightarrow> 'z kstate_scheme" where
  "sched_ready_remove t s =
     (if t = 0 \<or> priority (tasks s t) > RTOS_PRIORITY_MAX then s
      else if list_empty (StateNode t) (lnk s) then s
      else let s1 = upd_lnk (list_del_init (StateNode t)) s in
        if list_empty (ReadyHead (prio s t)) (lnk s1)
        then s1\<lparr>ready_mask := ready_mask s1 AND NOT (prio_bit (prio s t))\<rparr> else s1)"

definition sched_timeout_remove :: "ptr \<Rightarrow> 'z kstate_scheme \<Rightarrow> 'z kstate_scheme" where
  "sched_timeout_remove t s =
     (if t = 0 \<or> list_empty (TimeoutNode t) (lnk s) then s
      else upd_lnk (list_del_init (TimeoutNode t)) s)"

subsection \<open>Deletion\<close>

definition sched_mark_deleted :: "ptr \<Rightarrow> 'z kstate_scheme \<Rightarrow> 'z kstate_scheme" where
  "sched_mark_deleted t s =
     (if t = 0 \<or> t = idle_task s \<or> task_state (tasks s t) = TASK_DELETED then s
      else
        let s1 = (if \<not> list_empty (StateNode t) (lnk s)
                  then if task_state (tasks s t) = TASK_READY then sched_ready_remove t s
                       else upd_lnk (list_del_init (StateNode t)) s
                  else s);
            s2 = sched_timeout_remove t s1;
            s3 = upd_task t (\<lambda>k. k\<lparr>waiting_on_timer := False, wait_result := TASK_WAIT_NONE,
                   task_state := TASK_DELETED\<rparr>) s2
        in upd_lnk (list_add_tail (StateNode t) DeletedHead) s3)"

definition sched_pop_deleted :: "'z kstate_scheme \<Rightarrow> ptr \<times> 'z kstate_scheme" where
  "sched_pop_deleted s =
     (if list_empty DeletedHead (lnk s) then (0, s)
      else let t = entry_state (nxt (lnk s) DeletedHead) in
        (t, upd_lnk (list_del_init (MasterNode t)) (upd_lnk (list_del_init (StateNode t)) s)))"

subsection \<open>Blocking and timeouts\<close>

definition sched_block_current :: "knode \<Rightarrow> 'z kstate_scheme \<Rightarrow> 'z kstate_scheme option" where
  "sched_block_current waiters s =
     (if current_task s = 0 \<or> waiters = WaitHead NullWq then Some s
      else
        let t = current_task s;
            s1 = upd_task t (\<lambda>k. k\<lparr>task_state := TASK_BLOCKED, waiting_on_timer := False\<rparr>) s;
            s2 = (if \<not> list_empty (StateNode t) (lnk s1) then sched_ready_remove t s1 else s1)
        in Option.bind
             (list_for_each
               (\<lambda>pos. priority (tasks s2 (entry_state pos)) < priority (tasks s2 t))
               (lnk s2) waiters (nxt (lnk s2) waiters))
             (\<lambda>pos. Some
               (if pos \<noteq> waiters then upd_lnk (list_add_before (StateNode t) pos) s2
                else upd_lnk (list_add_tail (StateNode t) waiters) s2)))"

definition sched_timeout_insert :: "ptr \<Rightarrow> 'z kstate_scheme \<Rightarrow> 'z kstate_scheme option" where
  "sched_timeout_insert t s =
     (if t = 0 \<or> \<not> waiting_on_timer (tasks s t) then Some s
      else
        let s1 = (if \<not> list_empty (TimeoutNode t) (lnk s)
                  then upd_lnk (list_del_init (TimeoutNode t)) s else s)
        in Option.bind
             (list_for_each
               (\<lambda>pos. sint (wakeup (tasks s1 t) - wakeup (tasks s1 (entry_timeout pos))) < 0)
               (lnk s1) TimeoutHead (nxt (lnk s1) TimeoutHead))
             (\<lambda>pos. Some
               (if pos \<noteq> TimeoutHead then upd_lnk (list_add_before (TimeoutNode t) pos) s1
                else upd_lnk (list_add_tail (TimeoutNode t) TimeoutHead) s1)))"

definition sched_wake_one :: "knode \<Rightarrow> 'z kstate_scheme \<Rightarrow> ptr \<times> 'z kstate_scheme" where
  "sched_wake_one waiters s =
     (if waiters = WaitHead NullWq \<or> list_empty waiters (lnk s) then (0, s)
      else
        let t = entry_state (nxt (lnk s) waiters);
            s1 = upd_lnk (list_del_init (StateNode t)) s;
            s2 = sched_timeout_remove t s1;
            s3 = upd_task t (\<lambda>k. k\<lparr>waiting_on_timer := False, task_state := TASK_READY\<rparr>) s2
        in (t, sched_ready_enqueue t s3))"

text \<open>
  \<^verbatim>\<open>sched_wake_expired\<close>: the loop runs until the head of the timeout list is not due.
\<close>

partial_function (option) wake_expired_loop ::
    "u32 \<Rightarrow> 'z kstate_scheme \<Rightarrow> 'z kstate_scheme option" where
  "wake_expired_loop now s =
     (if list_empty TimeoutHead (lnk s) then Some s
      else
        let t = entry_timeout (nxt (lnk s) TimeoutHead) in
        if \<not> timer_expired now (wakeup (tasks s t)) then Some s
        else
          let s1 = upd_lnk (list_del_init (TimeoutNode t)) s in
          if task_state (tasks s1 t) \<noteq> TASK_BLOCKED \<or> \<not> waiting_on_timer (tasks s1 t)
          then wake_expired_loop now s1
          else
            let s2 = upd_task t (\<lambda>k. k\<lparr>waiting_on_timer := False,
                       wait_result := TASK_WAIT_TIMEOUT\<rparr>) s1;
                s3 = (if \<not> list_empty (StateNode t) (lnk s2)
                      then upd_lnk (list_del_init (StateNode t)) s2 else s2);
                s4 = upd_task t (\<lambda>k. k\<lparr>task_state := TASK_READY\<rparr>) s3
            in wake_expired_loop now (sched_ready_enqueue t s4))"

definition sched_wake_expired :: "'z kstate_scheme \<Rightarrow> 'z kstate_scheme option" where
  "sched_wake_expired s = wake_expired_loop (tick_count s) s"

subsection \<open>Choosing the next task\<close>

text \<open>
  The result \<open>None\<close> of \<open>sched_ready_pop_highest\<close> is the code's endless loop on a mask bit whose
  list is empty.
\<close>

definition sched_ready_pop_highest ::
    "'z kstate_scheme \<Rightarrow> (ptr \<times> 'z kstate_scheme) option" where
  "sched_ready_pop_highest s =
     (if ready_mask s = 0 then Some (0, s)
      else
        let p = unat (31 - (of_nat (clz32 (ready_mask s)) :: u32));
            h = ReadyHead p
        in if list_empty h (lnk s) then None
           else
             let node = nxt (lnk s) h;
                 t = entry_state node;
                 s1 = upd_lnk (list_del_init node) s
             in Some (t, if list_empty h (lnk s1)
                         then s1\<lparr>ready_mask := ready_mask s1 AND NOT (prio_bit p)\<rparr> else s1))"

definition set_task_state :: "ptr \<Rightarrow> task_state_t \<Rightarrow> 'z kstate_scheme \<Rightarrow> 'z kstate_scheme" where
  "set_task_state t st = upd_task t (\<lambda>k. k\<lparr>task_state := st\<rparr>)"

text \<open>The first statement of \<^verbatim>\<open>sched_pick_next\<close>: a running task goes back to its ready list.\<close>

definition requeue_current :: "'z kstate_scheme \<Rightarrow> 'z kstate_scheme" where
  "requeue_current s =
     (if current_task s \<noteq> 0 \<and> task_state (tasks s (current_task s)) = TASK_RUNNING
      then
        let s0 = set_task_state (current_task s) TASK_READY s
        in if current_task s0 \<noteq> idle_task s0
           then sched_ready_enqueue (current_task s0) s0 else s0
      else s)"

definition sched_pick_next :: "'z kstate_scheme \<Rightarrow> (ptr \<times> 'z kstate_scheme) option" where
  "sched_pick_next s =
     (let previous = current_task s;
          s1 = requeue_current s
      in Option.bind (sched_ready_pop_highest s1) (\<lambda>(t, s2).
           if t \<noteq> 0 then Some (t, set_task_state t TASK_RUNNING s2)
           else if idle_task s2 \<noteq> 0
           then Some (idle_task s2, set_task_state (idle_task s2) TASK_RUNNING s2)
           else Some (previous, s2)))"

definition sched_current_is_idle :: "'z kstate_scheme \<Rightarrow> bool" where
  "sched_current_is_idle s \<longleftrightarrow> current_task s \<noteq> 0 \<and> current_task s = idle_task s"

text \<open>
  \<^verbatim>\<open>sched_on_tick\<close> under the configuration of \<^verbatim>\<open>include/rtos_config.h\<close>
  (\<^verbatim>\<open>RTOS_SCHED_PREEMPTIVE\<close> and \<^verbatim>\<open>RTOS_SCHED_ROUND_ROBIN\<close> are both 1).
\<close>

definition sched_on_tick :: "'z kstate_scheme \<Rightarrow> bool \<times> 'z kstate_scheme" where
  "sched_on_tick s =
     (let cur = tasks s (current_task s) in
      if current_task s = 0 then (False, s)
      else if task_state cur \<noteq> TASK_RUNNING \<or> sched_current_is_idle s
      then (True, s\<lparr>time_slice_ticks := 0\<rparr>)
      else if ready_mask s = 0 then (False, s)
      else if priority cur < RTOS_PRIORITY_MAX \<and>
        ready_mask s AND higher_priority_mask (priority cur) \<noteq> 0
      then (True, s\<lparr>time_slice_ticks := 0\<rparr>)
      else if list_empty (ReadyHead (unat (priority cur))) (lnk s) then (False, s)
      else
        let s1 = s\<lparr>time_slice_ticks := time_slice_ticks s + 1\<rparr> in
        if time_slice_ticks s1 \<ge> RTOS_TIME_SLICE_TICKS
        then (True, s1\<lparr>time_slice_ticks := 0\<rparr>) else (False, s1))"

definition sched_has_higher_priority_ready :: "'z kstate_scheme \<Rightarrow> bool" where
  "sched_has_higher_priority_ready s =
     (if current_task s = 0 \<or> priority (tasks s (current_task s)) \<ge> RTOS_PRIORITY_MAX then False
      else ready_mask s AND higher_priority_mask (priority (tasks s (current_task s))) \<noteq> 0)"

subsection \<open>Locking and rescheduling\<close>

definition sched_is_locked :: "'z kstate_scheme \<Rightarrow> bool" where
  "sched_is_locked s \<longleftrightarrow> lock_count s \<noteq> 0"

definition sched_lock :: "'z kstate_scheme \<Rightarrow> 'z kstate_scheme" where
  "sched_lock s = s\<lparr>lock_count := lock_count s + 1\<rparr>"

definition sched_set_pending :: "'z kstate_scheme \<Rightarrow> 'z kstate_scheme" where
  "sched_set_pending s = s\<lparr>resched_pending := True\<rparr>"

definition sched_request_from_isr :: "'z kstate_scheme \<Rightarrow> 'z kstate_scheme" where
  "sched_request_from_isr s = sched_set_pending s"

definition task_yield_mark :: "'z kstate_scheme \<Rightarrow> 'z kstate_scheme" where
  [simp]: "task_yield_mark s = set_task_state (current_task s) TASK_READY s"

definition task_yield ::
    "('z kstate_scheme \<Rightarrow> 'z kstate_scheme option) \<Rightarrow> 'z kstate_scheme \<Rightarrow> 'z kstate_scheme option"
    where
  "task_yield arch_yield s =
     (if sched_is_locked s then Some (sched_set_pending s)
      else
        let s1 = (if current_task s \<noteq> 0 \<and> \<not> sched_current_is_idle s \<and>
                    task_state (tasks s (current_task s)) = TASK_RUNNING
                  then sched_ready_enqueue (current_task s) (task_yield_mark s)
                  else s)
        in arch_yield s1)"

definition sched_unlock ::
    "('z kstate_scheme \<Rightarrow> 'z kstate_scheme option) \<Rightarrow> 'z kstate_scheme \<Rightarrow> 'z kstate_scheme option"
    where
  "sched_unlock arch_yield s =
     (if lock_count s = 0 then Some s
      else
        let s1 = s\<lparr>lock_count := lock_count s - 1\<rparr>;
            need_reschedule = (lock_count s1 = 0 \<and> resched_pending s1);
            s2 = (if need_reschedule then s1\<lparr>resched_pending := False\<rparr> else s1)
        in if need_reschedule \<and> started s2 \<and> current_task s2 \<noteq> 0
           then task_yield arch_yield s2 else Some s2)"

definition sched_try_reschedule_from_trap ::
    "'z kstate_scheme \<Rightarrow> (bool \<times> 'z kstate_scheme) option" where
  "sched_try_reschedule_from_trap s =
     (let armed = (started s \<and> current_task s \<noteq> 0 \<and> resched_pending s \<and> lock_count s = 0);
          s1 = (if armed then s\<lparr>resched_pending := False\<rparr> else s);
          need = (armed \<and> (task_state (tasks s1 (current_task s1)) \<noteq> TASK_RUNNING \<or>
                    sched_current_is_idle s1 \<or> sched_has_higher_priority_ready s1))
      in if need
         then Option.bind (sched_pick_next s1) (\<lambda>(t, s2). Some (True, s2\<lparr>current_task := t\<rparr>))
         else Some (False, s1))"

text \<open>The critical section of the loop of \<^verbatim>\<open>task_delay_ticks\<close>.\<close>

definition delay_block :: "u32 \<Rightarrow> 'z kstate_scheme \<Rightarrow> 'z kstate_scheme option" where
  "delay_block at s =
     (let t = current_task s;
          s1 = upd_task t (\<lambda>k. k\<lparr>wakeup := at, waiting_on_timer := True,
                 wait_result := TASK_WAIT_NONE, task_state := TASK_BLOCKED\<rparr>) s
      in sched_timeout_insert t (sched_ready_remove t s1))"

end
