(* ===== verification/SchedInv.thy ===== *)
theory SchedInv
  imports Sched
begin

text \<open>
  The scheduler invariant.  \<open>kinv T W s\<close>: for the live tasks \<open>T\<close> and the live wait queues
  \<open>W\<close>, the list cells form well-formed lists, every list holds nodes of its own kind, the
  ready mask describes the ready lists, and every task is linked exactly where its state field
  says.  Each operation first breaks the consistency of the one task it moves and then restores
  it, so the invariant is split: \<open>kbut T W t s\<close> is the invariant for all tasks but \<open>t\<close>.
\<close>

subsection \<open>The invariant\<close>

definition kheads :: "wq_t set \<Rightarrow> knode set" where
  "kheads W = {MasterHead, DeletedHead, TimeoutHead} \<union> ReadyHead ` {..<32} \<union> WaitHead ` W"

definition knodes :: "ptr set \<Rightarrow> knode set" where
  "knodes T = MasterNode ` T \<union> StateNode ` T \<union> TimeoutNode ` T"

fun fits :: "knode \<Rightarrow> knode \<Rightarrow> bool" where
  "fits MasterHead (MasterNode _) = True"
| "fits TimeoutHead (TimeoutNode _) = True"
| "fits DeletedHead (StateNode _) = True"
| "fits (ReadyHead _) (StateNode _) = True"
| "fits (WaitHead _) (StateNode _) = True"
| "fits _ _ = False"

definition mask_ok :: "'z kstate_scheme \<Rightarrow> bool" where
  "mask_ok s \<longleftrightarrow> (\<forall>p<32. bit (ready_mask s) p \<longleftrightarrow> klist s (ReadyHead p) \<noteq> [])"

definition task_ok :: "wq_t set \<Rightarrow> 'z kstate_scheme \<Rightarrow> ptr \<Rightarrow> bool" where
  "task_ok W s t \<longleftrightarrow>
     (case task_state (tasks s t) of
        TASK_UNUSED \<Rightarrow> False
      | TASK_READY \<Rightarrow> StateNode t \<in> set (klist s (ReadyHead (prio s t))) \<or>
          t = idle_task s \<and> list_empty (StateNode t) (lnk s)
      | TASK_RUNNING \<Rightarrow> t = current_task s \<and> list_empty (StateNode t) (lnk s)
      | TASK_BLOCKED \<Rightarrow> t \<noteq> idle_task s \<and>
          ((\<exists>w\<in>W. StateNode t \<in> set (klist s (WaitHead w))) \<or>
           waiting_on_timer (tasks s t) \<and> list_empty (StateNode t) (lnk s))
      | TASK_DELETED \<Rightarrow> t \<noteq> idle_task s \<and> StateNode t \<in> set (klist s DeletedHead)) \<and>
     (TimeoutNode t \<in> set (klist s TimeoutHead) \<longleftrightarrow>
        task_state (tasks s t) = TASK_BLOCKED \<and> waiting_on_timer (tasks s t))"

definition kbase :: "ptr set \<Rightarrow> wq_t set \<Rightarrow> 'z kstate_scheme \<Rightarrow> bool" where
  "kbase T W s \<longleftrightarrow> 0 \<notin> T \<and> NullWq \<notin> W \<and>
     lists_wf (lnk s) (kheads W) (knodes T) \<and>
     (\<forall>h\<in>kheads W. \<forall>x\<in>set (klist s h). fits h x) \<and>
     (\<forall>t\<in>T. MasterNode t \<in> set (klist s MasterHead)) \<and>
     mask_ok s \<and>
     (\<forall>t\<in>T. prio s t < 32) \<and>
     (current_task s = 0 \<or> current_task s \<in> T) \<and>
     (idle_task s = 0 \<or> idle_task s \<in> T)"

definition kbut :: "ptr set \<Rightarrow> wq_t set \<Rightarrow> ptr \<Rightarrow> 'z kstate_scheme \<Rightarrow> bool" where
  "kbut T W t s \<longleftrightarrow> kbase T W s \<and> (\<forall>t'\<in>T - {t}. task_ok W s t')"

definition kinv :: "ptr set \<Rightarrow> wq_t set \<Rightarrow> 'z kstate_scheme \<Rightarrow> bool" where
  "kinv T W s \<longleftrightarrow> kbase T W s \<and> (\<forall>t\<in>T. task_ok W s t)"

lemma kinv_kbut: "kinv T W s \<Longrightarrow> kbut T W t s"
  by (simp add: kinv_def kbut_def)

lemma kinvI: "kbut T W t s \<Longrightarrow> task_ok W s t \<Longrightarrow> kinv T W s"
  by (auto simp: kinv_def kbut_def)

lemma kbaseD:
  assumes "kbase T W s"
  shows "0 \<notin> T" and "NullWq \<notin> W" and "lists_wf (lnk s) (kheads W) (knodes T)"
    and "h \<in> kheads W \<Longrightarrow> x \<in> set (klist s h) \<Longrightarrow> fits h x"
    and "t \<in> T \<Longrightarrow> MasterNode t \<in> set (klist s MasterHead)"
    and "mask_ok s" and "t \<in> T \<Longrightarrow> prio s t < 32"
    and "current_task s = 0 \<or> current_task s \<in> T" and "idle_task s = 0 \<or> idle_task s \<in> T"
  using assms by (auto simp: kbase_def)

lemma kbut_kbase: "kbut T W t s \<Longrightarrow> kbase T W s"
  by (simp add: kbut_def)

lemma kinv_kbase: "kinv T W s \<Longrightarrow> kbase T W s"
  by (simp add: kinv_def)

lemma kheads_in [simp]:
  "MasterHead \<in> kheads W" "DeletedHead \<in> kheads W" "TimeoutHead \<in> kheads W"
  "ReadyHead p \<in> kheads W \<longleftrightarrow> p < 32"
  "WaitHead w \<in> kheads W \<longleftrightarrow> w \<in> W"
  "MasterNode t \<notin> kheads W" "StateNode t \<notin> kheads W" "TimeoutNode t \<notin> kheads W"
  by (auto simp: kheads_def)

lemma knodes_in [simp]:
  "MasterNode t \<in> knodes T \<longleftrightarrow> t \<in> T"
  "StateNode t \<in> knodes T \<longleftrightarrow> t \<in> T"
  "TimeoutNode t \<in> knodes T \<longleftrightarrow> t \<in> T"
  "MasterHead \<notin> knodes T" "DeletedHead \<notin> knodes T" "TimeoutHead \<notin> knodes T"
  "ReadyHead p \<notin> knodes T" "WaitHead w \<notin> knodes T"
  by (auto simp: knodes_def)

text \<open>The lists of task nodes that can hold a state node.\<close>

fun state_head :: "knode \<Rightarrow> bool" where
  "state_head DeletedHead = True"
| "state_head (ReadyHead _) = True"
| "state_head (WaitHead _) = True"
| "state_head _ = False"

lemma fits_state: "fits h (StateNode t) \<longleftrightarrow> state_head h"
  by (cases h) auto

lemma fits_timeout: "fits h (TimeoutNode t) \<longleftrightarrow> h = TimeoutHead"
  by (cases h) auto

lemma fits_master: "fits h (MasterNode t) \<longleftrightarrow> h = MasterHead"
  by (cases h) auto

lemma state_head_item:
  assumes "kbase T W s" and "h \<in> kheads W" and "state_head h" and "x \<in> set (klist s h)"
  shows "\<exists>t\<in>T. x = StateNode t"
proof -
  have "fits h x" "x \<in> knodes T"
    using kbaseD(4) [OF assms(1,2,4)] lists_wfD(3) [OF kbaseD(3) [OF assms(1)] assms(2)] assms(4)
    by auto
  with assms(3) show ?thesis
    by (cases h; cases x) auto
qed

lemma timeout_item:
  assumes "kbase T W s" and "x \<in> set (klist s TimeoutHead)"
  shows "\<exists>t\<in>T. x = TimeoutNode t"
proof -
  have "fits TimeoutHead x" "x \<in> knodes T"
    using kbaseD(4) [OF assms(1) _ assms(2)] assms(2)
      lists_wfD(3) [OF kbaseD(3) [OF assms(1)], of TimeoutHead] by auto
  then show ?thesis by (cases x) auto
qed

lemma timeout_node_head:
  "kbase T W s \<Longrightarrow> h \<in> kheads W \<Longrightarrow> TimeoutNode t \<in> set (klist s h) \<Longrightarrow> h = TimeoutHead"
  using kbaseD(4) by (metis fits_timeout)

lemma state_node_head:
  "kbase T W s \<Longrightarrow> h \<in> kheads W \<Longrightarrow> StateNode t \<in> set (klist s h) \<Longrightarrow> state_head h"
  using kbaseD(4) by (metis fits_state)

lemma state_node_unique:
  assumes "kbase T W s" and "h \<in> kheads W" "h' \<in> kheads W"
    and "x \<in> set (klist s h)" "x \<in> set (klist s h')"
  shows "h = h'"
  using items_unique_head [OF kbaseD(3) [OF assms(1)] assms(2-5)] .

lemma list_empty_state:
  assumes "kbase T W s" and "t \<in> T"
  shows "list_empty (StateNode t) (lnk s) \<longleftrightarrow>
    (\<forall>h\<in>kheads W. StateNode t \<notin> set (klist s h))"
  using list_empty_node [OF kbaseD(3) [OF assms(1)]] assms(2) by simp

lemma list_empty_timeout:
  assumes "kbase T W s" and "t \<in> T"
  shows "list_empty (TimeoutNode t) (lnk s) \<longleftrightarrow> TimeoutNode t \<notin> set (klist s TimeoutHead)"
  using list_empty_node [OF kbaseD(3) [OF assms(1)], of "TimeoutNode t"] assms(2)
    kbaseD(4) [OF assms(1), of _ "TimeoutNode t"] by (auto simp: fits_timeout)

subsection \<open>Changing the links of one task\<close>

text \<open>
  A change of the list cells that moves no node but those of task \<open>t\<close> keeps the invariant of
  the other tasks.
\<close>

lemma task_ok_cong:
  assumes "kbase T W s" and "lists_wf (lnk s') (kheads W) (knodes T)" and "t' \<in> T"
    and "tasks s' t' = tasks s t'" and "current_task s' = current_task s"
    and "idle_task s' = idle_task s"
    and "\<And>h. h \<in> kheads W \<Longrightarrow> StateNode t' \<in> set (klist s' h) \<longleftrightarrow> StateNode t' \<in> set (klist s h)"
    and "TimeoutNode t' \<in> set (klist s' TimeoutHead) \<longleftrightarrow> TimeoutNode t' \<in> set (klist s TimeoutHead)"
  shows "task_ok W s' t' \<longleftrightarrow> task_ok W s t'"
proof -
  have "list_empty (StateNode t') (lnk s') \<longleftrightarrow> list_empty (StateNode t') (lnk s)"
    using list_empty_node [OF assms(2)] list_empty_node [OF kbaseD(3) [OF assms(1)]] assms(3,7)
    by auto
  moreover have "ReadyHead (prio s t') \<in> kheads W"
    using kbaseD(7) [OF assms(1,3)] by simp
  ultimately show ?thesis
    using assms(4-8) by (auto simp: task_ok_def split: task_state_t.splits)
qed

lemma kbut_links:
  assumes k: "kbut T W t s" and wf: "lists_wf l' (kheads W) (knodes T)"
    and other: "\<And>h x. h \<in> kheads W \<Longrightarrow> x \<noteq> StateNode t \<Longrightarrow> x \<noteq> TimeoutNode t \<Longrightarrow>
      x \<in> set (items l' h) \<longleftrightarrow> x \<in> set (klist s h)"
    and mine: "\<And>h x. h \<in> kheads W \<Longrightarrow> x = StateNode t \<or> x = TimeoutNode t \<Longrightarrow>
      x \<in> set (items l' h) \<Longrightarrow> fits h x"
    and mask: "mask_ok (s\<lparr>lnk := l', ready_mask := m'\<rparr>)"
  shows "kbut T W t (s\<lparr>lnk := l', ready_mask := m'\<rparr>)"
proof -
  let ?s = "s\<lparr>lnk := l', ready_mask := m'\<rparr>"
  note b = kbut_kbase [OF k]
  have "fits h x" if "h \<in> kheads W" "x \<in> set (items l' h)" for h x
    using that other [OF that(1), of x] mine [OF that(1), of x] kbaseD(4) [OF b that(1)] by auto
  moreover have "\<forall>t'\<in>T. MasterNode t' \<in> set (items l' MasterHead)"
    using other [of MasterHead] kbaseD(5) [OF b] by simp
  ultimately have "kbase T W ?s"
    using kbaseD [OF b] wf mask by (simp add: kbase_def)
  moreover have "task_ok W ?s t'" if "t' \<in> T - {t}" for t'
  proof -
    have "task_ok W ?s t' \<longleftrightarrow> task_ok W s t'"
      using that wf other by (intro task_ok_cong [OF b]) auto
    with k that show ?thesis
      by (simp add: kbut_def)
  qed
  ultimately show ?thesis
    by (simp add: kbut_def)
qed

lemma kbut_links_mask_same:
  assumes "kbut T W t s" and "lists_wf l' (kheads W) (knodes T)"
    and "\<And>h x. h \<in> kheads W \<Longrightarrow> x \<noteq> StateNode t \<Longrightarrow> x \<noteq> TimeoutNode t \<Longrightarrow>
      x \<in> set (items l' h) \<longleftrightarrow> x \<in> set (klist s h)"
    and "\<And>h x. h \<in> kheads W \<Longrightarrow> x = StateNode t \<or> x = TimeoutNode t \<Longrightarrow>
      x \<in> set (items l' h) \<Longrightarrow> fits h x"
    and "\<And>p. p < 32 \<Longrightarrow> items l' (ReadyHead p) = klist s (ReadyHead p)"
  shows "kbut T W t (s\<lparr>lnk := l'\<rparr>)"
proof -
  have "mask_ok (s\<lparr>lnk := l', ready_mask := ready_mask s\<rparr>)"
    using kbaseD(6) [OF kbut_kbase [OF assms(1)]] assms(5) by (simp add: mask_ok_def)
  from kbut_links [OF assms(1-4) this] show ?thesis
    by simp
qed

lemma kbut_upd_task:
  assumes k: "kbut T W t s" and t: "t \<in> T"
    and p: "priority (f (tasks s t)) = priority (tasks s t)"
  shows "kbut T W t (upd_task t f s)"
proof -
  note b = kbut_kbase [OF k]
  have "kbase T W (upd_task t f s)"
    using b p by (auto simp: kbase_def mask_ok_def)
  moreover have "task_ok W (upd_task t f s) t'" if "t' \<in> T - {t}" for t'
    using task_ok_cong [OF b, of "upd_task t f s" t'] kbaseD(3) [OF b] that k
    by (simp add: kbut_def)
  ultimately show ?thesis
    by (simp add: kbut_def)
qed

subsection \<open>The mask\<close>

lemma bit_prio_bit: "p < 32 \<Longrightarrow> bit (prio_bit p) q \<longleftrightarrow> q = p"
  by (auto simp: prio_bit_def bit_simps)

lemma bit_mask_set: "p < 32 \<Longrightarrow> bit (m OR prio_bit p) q \<longleftrightarrow> bit m q \<or> q = p"
  by (auto simp: bit_or_iff bit_prio_bit)

lemma bit_mask_clear: "p < 32 \<Longrightarrow> bit (m AND NOT (prio_bit p)) q \<longleftrightarrow> bit m q \<and> q \<noteq> p"
  by (auto simp: bit_and_iff bit_not_iff bit_prio_bit dest: bit_imp_le_length)

lemma prio_le_max: "priority k > RTOS_PRIORITY_MAX \<longleftrightarrow> 31 < unat (priority k)"
  by (simp add: RTOS_PRIORITY_MAX_def word_less_nat_alt)

lemma mask_okD: "mask_ok s \<Longrightarrow> p < 32 \<Longrightarrow> bit (ready_mask s) p \<longleftrightarrow> klist s (ReadyHead p) \<noteq> []"
  by (simp add: mask_ok_def)

lemma mask_ok_clear_facts:
  assumes m: "mask_ok s" and p: "p < 32"
    and same: "\<And>q. q < 32 \<Longrightarrow> q \<noteq> p \<Longrightarrow> items l' (ReadyHead q) = klist s (ReadyHead q)"
  shows mask_ok_clear: "items l' (ReadyHead p) = [] \<Longrightarrow>
      mask_ok (s\<lparr>lnk := l', ready_mask := ready_mask s AND NOT (prio_bit p)\<rparr>)"
    and mask_ok_set: "items l' (ReadyHead p) \<noteq> [] \<Longrightarrow>
      mask_ok (s\<lparr>lnk := l', ready_mask := ready_mask s OR prio_bit p\<rparr>)"
    and mask_ok_keep: "items l' (ReadyHead p) = [] \<longleftrightarrow> klist s (ReadyHead p) = [] \<Longrightarrow>
      mask_ok (s\<lparr>lnk := l', ready_mask := ready_mask s\<rparr>)"
proof -
  have bits: "bit (ready_mask s) q \<longleftrightarrow> items l' (ReadyHead q) \<noteq> []" if "q < 32" "q \<noteq> p" for q
    using mask_okD [OF m that(1)] same [OF that] by simp
  show "mask_ok (s\<lparr>lnk := l', ready_mask := ready_mask s AND NOT (prio_bit p)\<rparr>)"
    if "items l' (ReadyHead p) = []"
    using bits that by (auto simp: mask_ok_def bit_mask_clear [OF p])
  show "mask_ok (s\<lparr>lnk := l', ready_mask := ready_mask s OR prio_bit p\<rparr>)"
    if "items l' (ReadyHead p) \<noteq> []"
    using bits that by (auto simp: mask_ok_def bit_mask_set [OF p])
  show "mask_ok (s\<lparr>lnk := l', ready_mask := ready_mask s\<rparr>)"
    if "items l' (ReadyHead p) = [] \<longleftrightarrow> klist s (ReadyHead p) = []"
    using bits that mask_okD [OF m p] unfolding mask_ok_def by (metis kstate.select_convs(2,3)
      kstate.surjective kstate.update_convs(2,3))
qed

subsection \<open>Unlinking the nodes of a task\<close>

lemma klist_del_init:
  assumes "kbase T W s" and "n \<in> knodes T" and "h \<in> kheads W"
  shows "items (list_del_init n (lnk s)) h = remove1 n (klist s h)"
    and "set (items (list_del_init n (lnk s)) h) = set (klist s h) - {n}"
  using items_list_del_init [OF kbaseD(3) [OF assms(1)] assms(2,3)]
    items_distinct [OF kbaseD(3) [OF assms(1)] assms(3)] by simp_all

lemma kbut_del_state:
  assumes k: "kbut T W t s" and t: "t \<in> T"
    and nr: "\<And>p. p < 32 \<Longrightarrow> StateNode t \<notin> set (klist s (ReadyHead p))"
  shows "kbut T W t (upd_lnk (list_del_init (StateNode t)) s)"
proof -
  note b = kbut_kbase [OF k] and d = klist_del_init [OF kbut_kbase [OF k], of "StateNode t"]
  have "kbut T W t (s\<lparr>lnk := list_del_init (StateNode t) (lnk s)\<rparr>)"
  proof (rule kbut_links_mask_same [OF k])
    show "lists_wf (list_del_init (StateNode t) (lnk s)) (kheads W) (knodes T)"
      using kbaseD(3) [OF b] t by (intro list_del_init_wf) auto
  qed (use d t nr kbaseD(4) [OF b] in auto)
  then show ?thesis by (simp add: upd_lnk_def)
qed

lemma kbut_del_timeout:
  assumes k: "kbut T W t s" and t: "t \<in> T"
  shows "kbut T W t (upd_lnk (list_del_init (TimeoutNode t)) s)"
proof -
  note b = kbut_kbase [OF k] and d = klist_del_init [OF kbut_kbase [OF k], of "TimeoutNode t"]
  have "TimeoutNode t \<notin> set (klist s (ReadyHead p))" if "p < 32" for p
    using state_head_item [OF b, of "ReadyHead p" "TimeoutNode t"] that by auto
  then have "kbut T W t (s\<lparr>lnk := list_del_init (TimeoutNode t) (lnk s)\<rparr>)"
    using d t kbaseD(4) [OF b] list_del_init_wf [OF kbaseD(3) [OF b]]
    by (intro kbut_links_mask_same [OF k]) auto
  then show ?thesis by (simp add: upd_lnk_def)
qed

lemma kbut_timeout_remove:
  assumes k: "kbut T W t s" and t: "t \<in> T"
  shows "kbut T W t (sched_timeout_remove t s)"
  using kbut_del_timeout [OF assms] k by (simp add: sched_timeout_remove_def)

lemma timeout_remove_lists:
  assumes b: "kbase T W s" and t: "t \<in> T" and h: "h \<in> kheads W"
  shows "klist (sched_timeout_remove t s) h = remove1 (TimeoutNode t) (klist s h)"
proof (cases "list_empty (TimeoutNode t) (lnk s)")
  case True
  then have "TimeoutNode t \<notin> set (klist s h)"
    using list_empty_node [OF kbaseD(3) [OF b], of "TimeoutNode t"] t h by auto
  with True show ?thesis
    by (simp add: sched_timeout_remove_def)
next
  case False
  then show ?thesis
    using klist_del_init [OF b _ h] t kbaseD(1) [OF b] by (auto simp: sched_timeout_remove_def)
qed

lemma timeout_remove_state_lists:
  assumes b: "kbase T W s" and t: "t \<in> T" and h: "h \<in> kheads W" "h \<noteq> TimeoutHead"
  shows "klist (sched_timeout_remove t s) h = klist s h"
proof -
  have "TimeoutNode t \<notin> set (klist s h)"
    using kbaseD(4) [OF b h(1), of "TimeoutNode t"] h(2) by (auto simp: fits_timeout)
  then show ?thesis
    by (simp add: timeout_remove_lists [OF b t h(1)])
qed

lemma timeout_remove_frame [simp]:
  "tasks (sched_timeout_remove t s) = tasks s"
  "ready_mask (sched_timeout_remove t s) = ready_mask s"
  "current_task (sched_timeout_remove t s) = current_task s"
  "idle_task (sched_timeout_remove t s) = idle_task s"
  "tick_count (sched_timeout_remove t s) = tick_count s"
  "lock_count (sched_timeout_remove t s) = lock_count s"
  "resched_pending (sched_timeout_remove t s) = resched_pending s"
  "started (sched_timeout_remove t s) = started s"
  "sched_initialized (sched_timeout_remove t s) = sched_initialized s"
  "trap_nesting (sched_timeout_remove t s) = trap_nesting s"
  "time_slice_ticks (sched_timeout_remove t s) = time_slice_ticks s"
  "kstate.more (sched_timeout_remove t s) = kstate.more s"
  by (simp_all add: sched_timeout_remove_def)

lemma kbut_ready_remove:
  assumes k: "kbut T W t s" and t: "t \<in> T"
    and here: "\<And>p. p < 32 \<Longrightarrow> StateNode t \<in> set (klist s (ReadyHead p)) \<Longrightarrow> p = prio s t"
  shows "kbut T W t (sched_ready_remove t s)"
proof (cases "list_empty (StateNode t) (lnk s)")
  case True
  with k show ?thesis by (simp add: sched_ready_remove_def)
next
  case False
  note b = kbut_kbase [OF k]
  note d = klist_del_init [OF b, of "StateNode t"]
  let ?l = "list_del_init (StateNode t) (lnk s)" and ?p = "prio s t"
  have p: "?p < 32" "t \<noteq> 0"
    using kbaseD(1,7) [OF b] t by auto
  have wf: "lists_wf ?l (kheads W) (knodes T)"
    using list_del_init_wf [OF kbaseD(3) [OF b]] t by simp
  have le: "list_empty (ReadyHead ?p) ?l \<longleftrightarrow> items ?l (ReadyHead ?p) = []"
    using list_empty_head [OF wf] p by simp
  have same: "items ?l (ReadyHead q) = klist s (ReadyHead q)" if "q < 32" "q \<noteq> ?p" for q
  proof -
    have "StateNode t \<notin> set (klist s (ReadyHead q))"
      using here [OF that(1)] that(2) by blast
    then show ?thesis
      using d(1) [of "ReadyHead q"] t that by simp
  qed
  define m where "m = (if items ?l (ReadyHead ?p) = []
    then ready_mask s AND NOT (prio_bit ?p) else ready_mask s)"
  have eq: "sched_ready_remove t s = s\<lparr>lnk := ?l, ready_mask := m\<rparr>"
    using False p le by (simp add: sched_ready_remove_def Let_def upd_lnk_def m_def prio_le_max)
  have "klist s (ReadyHead ?p) \<noteq> []" if "items ?l (ReadyHead ?p) \<noteq> []"
    using that d(1) [of "ReadyHead ?p"] t p by auto
  then have mask: "mask_ok (s\<lparr>lnk := ?l, ready_mask := m\<rparr>)"
    using mask_ok_clear [OF kbaseD(6) [OF b] p(1) same] mask_ok_keep [OF kbaseD(6) [OF b] p(1) same]
      d(1) [of "ReadyHead ?p"] t p by (auto simp: m_def)
  show ?thesis
    unfolding eq
    by (rule kbut_links [OF k wf _ _ mask]) (use d t kbaseD(4) [OF b] in auto)
qed

lemma ready_remove_unlinked:
  assumes "kbase T W s" and "t \<in> T"
  shows "list_empty (StateNode t) (lnk (sched_ready_remove t s))"
proof -
  have "prio s t < 32" "t \<noteq> 0"
    using kbaseD(1,7) [OF assms(1)] assms(2) by auto
  then show ?thesis
    using list_empty_del_init [OF kbaseD(3) [OF assms(1)], of "StateNode t"] assms(2)
    by (auto simp: sched_ready_remove_def Let_def prio_le_max)
qed

lemma ready_remove_lists:
  assumes b: "kbase T W s" and t: "t \<in> T" and h: "h \<in> kheads W"
  shows "klist (sched_ready_remove t s) h = remove1 (StateNode t) (klist s h)"
proof (cases "list_empty (StateNode t) (lnk s)")
  case True
  then have "StateNode t \<notin> set (klist s h)"
    using list_empty_state [OF b t] h by auto
  with True show ?thesis
    by (simp add: sched_ready_remove_def)
next
  case False
  have "prio s t < 32" "t \<noteq> 0"
    using kbaseD(1,7) [OF b] t by auto
  with False show ?thesis
    using klist_del_init [OF b _ h] t by (simp add: sched_ready_remove_def Let_def prio_le_max)
qed

lemma ready_remove_frame [simp]:
  "tasks (sched_ready_remove t s) = tasks s"
  "current_task (sched_ready_remove t s) = current_task s"
  "idle_task (sched_ready_remove t s) = idle_task s"
  "tick_count (sched_ready_remove t s) = tick_count s"
  "lock_count (sched_ready_remove t s) = lock_count s"
  "resched_pending (sched_ready_remove t s) = resched_pending s"
  "started (sched_ready_remove t s) = started s"
  "sched_initialized (sched_ready_remove t s) = sched_initialized s"
  "trap_nesting (sched_ready_remove t s) = trap_nesting s"
  "time_slice_ticks (sched_ready_remove t s) = time_slice_ticks s"
  "kstate.more (sched_ready_remove t s) = kstate.more s"
  by (simp_all add: sched_ready_remove_def Let_def)

subsection \<open>Linking the nodes of a task\<close>

lemma ready_enqueue_eq:
  assumes b: "kbase T W s" and t: "t \<in> T" and u: "list_empty (StateNode t) (lnk s)"
    and st: "task_state (tasks s t) \<noteq> TASK_DELETED"
  shows "sched_ready_enqueue t s =
    s\<lparr>lnk := list_add_tail (StateNode t) (ReadyHead (prio s t)) (lnk s),
      ready_mask := ready_mask s OR prio_bit (prio s t)\<rparr>"
  using assms kbaseD(1) [OF b] kbaseD(7) [OF b t] by (auto simp: sched_ready_enqueue_def prio_le_max)

lemma ready_enqueue_lists:
  assumes b: "kbase T W s" and t: "t \<in> T" and u: "list_empty (StateNode t) (lnk s)"
    and st: "task_state (tasks s t) \<noteq> TASK_DELETED" and h: "h \<in> kheads W"
  shows "klist (sched_ready_enqueue t s) h =
    (if h = ReadyHead (prio s t) then klist s h @ [StateNode t] else klist s h)"
  using items_list_add_tail [OF kbaseD(3) [OF b] _ _ u h] t kbaseD(7) [OF b t]
  by (simp add: ready_enqueue_eq [OF b t u st])

lemma kbut_ready_enqueue:
  assumes k: "kbut T W t s" and t: "t \<in> T"
  shows "kbut T W t (sched_ready_enqueue t s)"
proof (cases "list_empty (StateNode t) (lnk s) \<and> task_state (tasks s t) \<noteq> TASK_DELETED")
  case False
  with k show ?thesis by (auto simp: sched_ready_enqueue_def)
next
  case True
  note b = kbut_kbase [OF k]
  let ?p = "prio s t"
  let ?l = "list_add_tail (StateNode t) (ReadyHead ?p) (lnk s)"
  have p: "?p < 32"
    using kbaseD(7) [OF b t] .
  have wf: "lists_wf ?l (kheads W) (knodes T)"
    using list_add_tail_wf [OF kbaseD(3) [OF b]] True t p by simp
  have it: "items ?l h = (if h = ReadyHead ?p then klist s h @ [StateNode t] else klist s h)"
    if "h \<in> kheads W" for h
    using items_list_add_tail [OF kbaseD(3) [OF b] _ _ _ that] True t p by simp
  have mask: "mask_ok (s\<lparr>lnk := ?l, ready_mask := ready_mask s OR prio_bit ?p\<rparr>)"
    using it p by (intro mask_ok_set [OF kbaseD(6) [OF b]]) auto
  have "kbut T W t (s\<lparr>lnk := ?l, ready_mask := ready_mask s OR prio_bit ?p\<rparr>)"
    by (rule kbut_links [OF k wf _ _ mask])
      (use it p timeout_node_head [OF b, of "ReadyHead ?p" t] kbaseD(4) [OF b]
        in \<open>auto split: if_splits\<close>)
  with True show ?thesis
    by (simp add: ready_enqueue_eq [OF b t])
qed

lemma ready_enqueue_linked:
  assumes b: "kbase T W s" and t: "t \<in> T" and u: "list_empty (StateNode t) (lnk s)"
    and st: "task_state (tasks s t) \<noteq> TASK_DELETED"
  shows "StateNode t \<in> set (klist (sched_ready_enqueue t s) (ReadyHead (prio s t)))"
  using ready_enqueue_lists [OF b t u st, of "ReadyHead (prio s t)"] kbaseD(7) [OF b t] by simp

lemma ready_enqueue_timeouts:
  assumes b: "kbase T W s" and t: "t \<in> T"
  shows "klist (sched_ready_enqueue t s) TimeoutHead = klist s TimeoutHead"
proof (cases "list_empty (StateNode t) (lnk s) \<and> task_state (tasks s t) \<noteq> TASK_DELETED")
  case True
  then show ?thesis
    using ready_enqueue_lists [OF b t, of TimeoutHead] by simp
qed (auto simp: sched_ready_enqueue_def)

lemma ready_enqueue_frame [simp]:
  "tasks (sched_ready_enqueue t s) = tasks s"
  "current_task (sched_ready_enqueue t s) = current_task s"
  "idle_task (sched_ready_enqueue t s) = idle_task s"
  "tick_count (sched_ready_enqueue t s) = tick_count s"
  "lock_count (sched_ready_enqueue t s) = lock_count s"
  "resched_pending (sched_ready_enqueue t s) = resched_pending s"
  "started (sched_ready_enqueue t s) = started s"
  "sched_initialized (sched_ready_enqueue t s) = sched_initialized s"
  "trap_nesting (sched_ready_enqueue t s) = trap_nesting s"
  "time_slice_ticks (sched_ready_enqueue t s) = time_slice_ticks s"
  "kstate.more (sched_ready_enqueue t s) = kstate.more s"
  by (simp_all add: sched_ready_enqueue_def)

lemma kbut_insert:
  assumes k: "kbut T W t s" and t: "t \<in> T" and n: "n = StateNode t \<or> n = TimeoutNode t"
    and h: "h \<in> kheads W" "fits h n" "\<And>p. h \<noteq> ReadyHead p"
    and wf: "lists_wf l' (kheads W) (knodes T)"
    and it: "\<And>h'. h' \<in> kheads W \<Longrightarrow> items l' h' = (if h' = h then xs else klist s h')"
    and xs: "set xs = insert n (set (klist s h))"
  shows "kbut T W t (upd_lnk (\<lambda>_. l') s)"
proof -
  note b = kbut_kbase [OF k]
  have "x \<in> set (items l' h') \<longleftrightarrow> x \<in> set (klist s h')"
    if "h' \<in> kheads W" "x \<noteq> StateNode t" "x \<noteq> TimeoutNode t" for h' x
    using it [OF that(1)] xs n that by auto
  moreover have "fits h' x"
    if "h' \<in> kheads W" "x = StateNode t \<or> x = TimeoutNode t" "x \<in> set (items l' h')" for h' x
    using it [OF that(1)] that xs h(2) kbaseD(4) [OF b] by (auto split: if_splits)
  moreover have "items l' (ReadyHead p) = klist s (ReadyHead p)" if "p < 32" for p
    using it [of "ReadyHead p"] that h(3) [of p] by auto
  ultimately show ?thesis
    using kbut_links_mask_same [OF k wf] by (simp add: upd_lnk_def)
qed

lemma kbut_add_deleted:
  assumes k: "kbut T W t s" and t: "t \<in> T" and u: "list_empty (StateNode t) (lnk s)"
  shows "kbut T W t (upd_lnk (list_add_tail (StateNode t) DeletedHead) s)"
proof -
  note b = kbut_kbase [OF k]
  note add = list_add_tail_wf [OF kbaseD(3) [OF b], of DeletedHead "StateNode t"]
    items_list_add_tail [OF kbaseD(3) [OF b], of DeletedHead "StateNode t"]
  have "kbut T W t (upd_lnk (\<lambda>_. list_add_tail (StateNode t) DeletedHead (lnk s)) s)"
    using add t u by (intro kbut_insert [OF k t, of "StateNode t" DeletedHead]) auto
  then show ?thesis by (simp add: upd_lnk_def)
qed

text \<open>The two ordered insertions share their loop.\<close>

lemma ordered_insert_option:
  assumes wf: "lists_wf l H N" and h: "h \<in> H"
  shows "\<exists>pos. list_for_each P l h (nxt l h) = Some pos \<and>
    (if pos \<noteq> h then list_add_before n pos l else list_add_tail n h l) = list_add_before n pos l"
  using list_for_each_wf [OF wf h, of P] by (auto simp: list_add_tail_eq_before)

lemma set_take_drop_insert:
  "set (takeWhile P xs @ n # dropWhile P xs) = insert n (set xs)"
  by (metis list.simps(15) set_append Un_insert_right takeWhile_dropWhile_id)

lemma block_insert:
  assumes b: "kbase T W s" and t: "t \<in> T" and u: "list_empty (StateNode t) (lnk s)"
    and w: "w \<in> W" and pos: "list_for_each P (lnk s) (WaitHead w) (nxt (lnk s) (WaitHead w)) = Some pos"
    and s': "s' = upd_lnk (list_add_before (StateNode t) pos) s"
  shows "kbut T W t s \<Longrightarrow> kbut T W t s'"
    and "h \<in> kheads W \<Longrightarrow> klist s' h =
      (if h = WaitHead w then takeWhile (\<lambda>x. \<not> P x) (klist s h) @ StateNode t #
         dropWhile (\<lambda>x. \<not> P x) (klist s h) else klist s h)"
proof -
  have wf: "lists_wf (lnk s) (kheads W) (knodes T)" and hn: "WaitHead w \<in> kheads W"
    "StateNode t \<in> knodes T"
    using kbaseD(3) [OF b] w t by simp_all
  note ins = ordered_insert_wf [OF wf hn u pos] items_ordered_insert [OF wf hn u pos]
  show "kbut T W t s'" if "kbut T W t s"
  proof -
    have "kbut T W t (upd_lnk (\<lambda>_. list_add_before (StateNode t) pos (lnk s)) s)"
      by (rule kbut_insert [OF that t, of "StateNode t", OF _ hn(1) _ _ ins(1) ins(2)])
        (simp_all only: set_take_drop_insert fits.simps simp_thms knode.distinct)
    then show ?thesis by (simp add: s' upd_lnk_def)
  qed
  show "h \<in> kheads W \<Longrightarrow> klist s' h =
    (if h = WaitHead w then takeWhile (\<lambda>x. \<not> P x) (klist s h) @ StateNode t #
       dropWhile (\<lambda>x. \<not> P x) (klist s h) else klist s h)"
    using ins(2) by (simp add: s')
qed

lemma timeout_insert:
  assumes b: "kbase T W s" and t: "t \<in> T" and u: "list_empty (TimeoutNode t) (lnk s)"
    and pos: "list_for_each P (lnk s) TimeoutHead (nxt (lnk s) TimeoutHead) = Some pos"
    and s': "s' = upd_lnk (list_add_before (TimeoutNode t) pos) s"
  shows "kbut T W t s \<Longrightarrow> kbut T W t s'"
    and "h \<in> kheads W \<Longrightarrow> klist s' h =
      (if h = TimeoutHead then takeWhile (\<lambda>x. \<not> P x) (klist s h) @ TimeoutNode t #
         dropWhile (\<lambda>x. \<not> P x) (klist s h) else klist s h)"
proof -
  have wf: "lists_wf (lnk s) (kheads W) (knodes T)" and hn: "TimeoutHead \<in> kheads W"
    "TimeoutNode t \<in> knodes T"
    using kbaseD(3) [OF b] t by simp_all
  note ins = ordered_insert_wf [OF wf hn u pos] items_ordered_insert [OF wf hn u pos]
  show "kbut T W t s'" if "kbut T W t s"
  proof -
    have "kbut T W t (upd_lnk (\<lambda>_. list_add_before (TimeoutNode t) pos (lnk s)) s)"
      by (rule kbut_insert [OF that t, of "TimeoutNode t", OF _ hn(1) _ _ ins(1) ins(2)])
        (simp_all only: set_take_drop_insert fits.simps simp_thms knode.distinct)
    then show ?thesis by (simp add: s' upd_lnk_def)
  qed
  show "h \<in> kheads W \<Longrightarrow> klist s' h =
    (if h = TimeoutHead then takeWhile (\<lambda>x. \<not> P x) (klist s h) @ TimeoutNode t #
       dropWhile (\<lambda>x. \<not> P x) (klist s h) else klist s h)"
    using ins(2) by (simp add: s')
qed

subsection \<open>Waking a task\<close>

lemma klist_first:
  assumes b: "kbase T W s" and h: "h \<in> kheads W" and x: "klist s h = x # xs"
  shows "nxt (lnk s) h = x" and "\<not> list_empty h (lnk s)"
  using list_first [OF kbaseD(3) [OF b] h x] list_empty_head [OF kbaseD(3) [OF b] h] x by simp_all

lemma klist_head_empty:
  "kbase T W s \<Longrightarrow> h \<in> kheads W \<Longrightarrow> list_empty h (lnk s) \<longleftrightarrow> klist s h = []"
  using list_empty_head [OF kbaseD(3)] .

lemma state_in_ready_only:
  assumes "kbase T W s" and "h \<in> kheads W" "StateNode t \<in> set (klist s h)" "\<And>p. h \<noteq> ReadyHead p"
  shows "p < 32 \<Longrightarrow> StateNode t \<notin> set (klist s (ReadyHead p))"
  using state_node_unique [OF assms(1,2), of "ReadyHead p"] assms(3,4) by auto

text \<open>
  Taking task \<open>t\<close> off a wait or timeout list and putting it on its ready list, the common end
  of \<^verbatim>\<open>sched_wake_one\<close> and of the loop body of \<^verbatim>\<open>sched_wake_expired\<close>.
\<close>

lemma make_ready:
  assumes k: "kbut T W t s" and t: "t \<in> T" and u: "list_empty (StateNode t) (lnk s)"
    and st: "task_state (tasks s t) = TASK_READY"
    and to: "TimeoutNode t \<notin> set (klist s TimeoutHead)"
  shows "kinv T W (sched_ready_enqueue t s)"
proof (rule kinvI [OF kbut_ready_enqueue [OF k t]])
  note b = kbut_kbase [OF k]
  show "task_ok W (sched_ready_enqueue t s) t"
    using ready_enqueue_linked [OF b t u] ready_enqueue_timeouts [OF b t] st to
    by (simp add: task_ok_def)
qed

lemma kinv_blocked_list:
  assumes k: "kinv T W s" and t: "t \<in> T" and w: "w \<in> W"
    and m: "StateNode t \<in> set (klist s (WaitHead w))"
  shows "task_state (tasks s t) = TASK_BLOCKED"
proof -
  note b = kinv_kbase [OF k]
  have ok: "task_ok W s t"
    using k t by (simp add: kinv_def)
  have "\<not> list_empty (StateNode t) (lnk s)"
    using list_empty_state [OF b t] m w by auto
  moreover have "StateNode t \<notin> set (klist s (ReadyHead (prio s t)))"
    using state_in_ready_only [OF b _ m, of "prio s t"] w kbaseD(7) [OF b t] by simp
  moreover have "StateNode t \<notin> set (klist s DeletedHead)"
    using state_node_unique [OF b _ _ m, of DeletedHead] w by auto
  ultimately show ?thesis
    using ok by (auto simp: task_ok_def split: task_state_t.splits)
qed

lemma wake_one_nonempty:
  assumes k: "kinv T W s" and w: "w \<in> W" and x: "klist s (WaitHead w) = StateNode t # xs"
  shows "sched_wake_one (WaitHead w) s = (t, snd (sched_wake_one (WaitHead w) s))"
    and "t \<in> T" and "t \<noteq> 0"
    and "kinv T W (snd (sched_wake_one (WaitHead w) s))"
    and "tasks (snd (sched_wake_one (WaitHead w) s)) =
      (tasks s)(t := (tasks s t)\<lparr>waiting_on_timer := False, task_state := TASK_READY\<rparr>)"
    and "h \<in> kheads W \<Longrightarrow> klist (snd (sched_wake_one (WaitHead w) s)) h =
      (if h = WaitHead w then xs else if h = ReadyHead (prio s t) then klist s h @ [StateNode t]
       else if h = TimeoutHead then remove1 (TimeoutNode t) (klist s h) else klist s h)"
proof -
  note b = kinv_kbase [OF k]
  have wn: "w \<noteq> NullWq"
    using kbaseD(2) [OF b] w by auto
  have hw: "WaitHead w \<in> kheads W"
    using w by simp
  have mem: "StateNode t \<in> set (klist s (WaitHead w))"
    by (simp add: x)
  show t: "t \<in> T"
    using state_head_item [OF b hw _ mem] by auto
  then show t0: "t \<noteq> 0"
    using kbaseD(1) [OF b] by auto
  define s1 where "s1 = upd_lnk (list_del_init (StateNode t)) s"
  define s2 where "s2 = sched_timeout_remove t s1"
  define s3 where "s3 = upd_task t
    (\<lambda>k. k\<lparr>waiting_on_timer := False, task_state := TASK_READY\<rparr>) s2"
  have eq: "sched_wake_one (WaitHead w) s = (t, sched_ready_enqueue t s3)"
    using klist_first [OF b hw x] wn
    by (simp add: sched_wake_one_def Let_def s1_def s2_def s3_def)
  then show "sched_wake_one (WaitHead w) s = (t, snd (sched_wake_one (WaitHead w) s))"
    by simp
  have nr: "StateNode t \<notin> set (klist s (ReadyHead p))" if "p < 32" for p
    using state_in_ready_only [OF b hw mem _ that] by simp
  have k1: "kbut T W t s1"
    unfolding s1_def by (rule kbut_del_state [OF kinv_kbut [OF k] t nr])
  have k2: "kbut T W t s2"
    unfolding s2_def by (rule kbut_timeout_remove [OF k1 t])
  have k3: "kbut T W t s3"
    unfolding s3_def by (rule kbut_upd_task [OF k2 t]) simp
  note b1 = kbut_kbase [OF k1] and b2 = kbut_kbase [OF k2] and b3 = kbut_kbase [OF k3]
  have l1: "klist s1 h = remove1 (StateNode t) (klist s h)" if "h \<in> kheads W" for h
    using klist_del_init(1) [OF b _ that] t by (simp add: s1_def)
  have l3: "klist s3 h = remove1 (TimeoutNode t) (remove1 (StateNode t) (klist s h))"
    if "h \<in> kheads W" for h
    using timeout_remove_lists [OF b1 t that] l1 [OF that] by (simp add: s3_def s2_def)
  have uniq: "StateNode t \<notin> set (klist s h)" if "h \<in> kheads W" "h \<noteq> WaitHead w" for h
    using state_node_unique [OF b that(1) hw _ mem] that(2) by blast
  have dist: "distinct (klist s h)" if "h \<in> kheads W" for h
    using items_distinct [OF kbaseD(3) [OF b] that] .
  have u3: "list_empty (StateNode t) (lnk s3)"
  proof -
    have "StateNode t \<notin> set (klist s3 h)" if h: "h \<in> kheads W" for h
    proof -
      have "StateNode t \<notin> set (remove1 (StateNode t) (klist s h))"
        using dist [OF h] by simp
      then show ?thesis
        using notin_set_remove1 [of "StateNode t" "remove1 (StateNode t) (klist s h)"]
        by (simp only: l3 [OF h] not_False_eq_True)
    qed
    then show ?thesis
      using list_empty_state [OF b3 t] by blast
  qed
  have st3: "task_state (tasks s3 t) = TASK_READY" "prio s3 t = prio s t"
    by (simp_all add: s3_def s2_def s1_def)
  have to3: "TimeoutNode t \<notin> set (klist s3 TimeoutHead)"
    using l3 [of TimeoutHead] dist [of TimeoutHead] uniq [of TimeoutHead] by simp
  show "kinv T W (snd (sched_wake_one (WaitHead w) s))"
    using make_ready [OF k3 t u3 st3(1) to3] by (simp add: eq)
  show "tasks (snd (sched_wake_one (WaitHead w) s)) =
    (tasks s)(t := (tasks s t)\<lparr>waiting_on_timer := False, task_state := TASK_READY\<rparr>)"
    by (simp add: eq s3_def s2_def s1_def)
  have tn: "TimeoutNode t \<notin> set (klist s h)" if "h \<in> kheads W" "h \<noteq> TimeoutHead" for h
    using timeout_node_head [OF b that(1)] that(2) by blast
  show "klist (snd (sched_wake_one (WaitHead w) s)) h =
      (if h = WaitHead w then xs else if h = ReadyHead (prio s t) then klist s h @ [StateNode t]
       else if h = TimeoutHead then remove1 (TimeoutNode t) (klist s h) else klist s h)"
    if h: "h \<in> kheads W"
    using ready_enqueue_lists [OF b3 t u3 _ h] st3 l3 [OF h] uniq [OF h] tn [OF h] x
      tn [OF hw] by (auto simp: eq)
qed

lemma wake_one_empty:
  assumes b: "kbase T W s" and w: "w \<in> W" and x: "klist s (WaitHead w) = []"
  shows "sched_wake_one (WaitHead w) s = (0, s)"
  using klist_head_empty [OF b, of "WaitHead w"] w x by (simp add: sched_wake_one_def)

subsection \<open>Blocking the running task\<close>

lemma kinv_task_ok: "kinv T W s \<Longrightarrow> t \<in> T \<Longrightarrow> task_ok W s t"
  by (simp add: kinv_def)

lemma running_facts:
  assumes k: "kinv T W s" and t: "t \<in> T" and st: "task_state (tasks s t) = TASK_RUNNING"
  shows "list_empty (StateNode t) (lnk s)" and "TimeoutNode t \<notin> set (klist s TimeoutHead)"
    and "t = current_task s"
  using kinv_task_ok [OF k t] st by (auto simp: task_ok_def)

lemma block_current_running:
  assumes k: "kinv T W s" and cur: "current_task s = t" "t \<noteq> 0"
    and st: "task_state (tasks s t) = TASK_RUNNING" and ni: "t \<noteq> idle_task s" and w: "w \<in> W"
  shows "\<exists>s'. sched_block_current (WaitHead w) s = Some s' \<and> kinv T W s' \<and>
      tasks s' = (tasks s)(t := (tasks s t)\<lparr>task_state := TASK_BLOCKED, waiting_on_timer := False\<rparr>) \<and>
      (\<forall>h\<in>kheads W. klist s' h =
        (if h = WaitHead w
         then takeWhile (\<lambda>x. \<not> priority (tasks s (entry_state x)) < priority (tasks s t)) (klist s h)
           @ StateNode t #
           dropWhile (\<lambda>x. \<not> priority (tasks s (entry_state x)) < priority (tasks s t)) (klist s h)
         else klist s h)) \<and>
      s' = s\<lparr>tasks := tasks s', lnk := lnk s'\<rparr>"
proof -
  note b = kinv_kbase [OF k]
  have t: "t \<in> T"
    using kbaseD(8) [OF b] cur by auto
  have wn: "w \<noteq> NullWq"
    using kbaseD(2) [OF b] w by auto
  note run = running_facts [OF k t st]
  let ?P = "\<lambda>x. priority (tasks s (entry_state x)) < priority (tasks s t)"
  define s1 where "s1 = upd_task t (\<lambda>k. k\<lparr>task_state := TASK_BLOCKED, waiting_on_timer := False\<rparr>) s"
  have k1: "kbut T W t s1"
    unfolding s1_def by (rule kbut_upd_task [OF kinv_kbut [OF k] t]) simp
  note b1 = kbut_kbase [OF k1]
  have u1: "list_empty (StateNode t) (lnk s1)"
    using run(1) by (simp add: s1_def)
  have P1: "(\<lambda>pos. priority (tasks s1 (entry_state pos)) < priority (tasks s1 t)) = ?P"
    by (auto simp: s1_def fun_eq_iff)
  obtain pos where pos: "list_for_each ?P (lnk s1) (WaitHead w) (nxt (lnk s1) (WaitHead w)) = Some pos"
    and ins: "(if pos \<noteq> WaitHead w then list_add_before (StateNode t) pos (lnk s1)
      else list_add_tail (StateNode t) (WaitHead w) (lnk s1)) = list_add_before (StateNode t) pos (lnk s1)"
    using ordered_insert_option [OF kbaseD(3) [OF b1], of "WaitHead w" ?P] w by auto
  define s2 where "s2 = upd_lnk (list_add_before (StateNode t) pos) s1"
  note bi = block_insert [OF b1 t u1 w pos s2_def]
  have "sched_block_current (WaitHead w) s =
    Option.bind (list_for_each ?P (lnk s1) (WaitHead w) (nxt (lnk s1) (WaitHead w)))
      (\<lambda>pos. Some (if pos \<noteq> WaitHead w then upd_lnk (list_add_before (StateNode t) pos) s1
                  else upd_lnk (list_add_tail (StateNode t) (WaitHead w)) s1))"
    unfolding sched_block_current_def Let_def cur(1) s1_def [symmetric] P1
    using cur(2) wn u1 P1 by simp
  also have "\<dots> = Some s2"
    unfolding pos using ins by (simp add: s2_def upd_lnk_def split: if_splits)
  finally have eq: "sched_block_current (WaitHead w) s = Some s2" .
  have tasks2: "tasks s2 = (tasks s)(t := (tasks s t)\<lparr>task_state := TASK_BLOCKED,
      waiting_on_timer := False\<rparr>)"
    by (simp add: s2_def s1_def)
  have lists: "klist s2 h = (if h = WaitHead w
      then takeWhile (\<lambda>x. \<not> ?P x) (klist s h) @ StateNode t # dropWhile (\<lambda>x. \<not> ?P x) (klist s h)
      else klist s h)" if "h \<in> kheads W" for h
    using bi(2) [OF that] by (simp add: s1_def)
  have "StateNode t \<in> set (klist s2 (WaitHead w))"
    using lists [of "WaitHead w"] w by simp
  then have "task_ok W s2 t"
    using lists [of TimeoutHead] w run(2) ni by (auto simp: task_ok_def tasks2 s2_def s1_def)
  then have "kinv T W s2"
    by (rule kinvI [OF bi(1) [OF k1]])
  moreover have "s2 = s\<lparr>tasks := tasks s2, lnk := lnk s2\<rparr>"
    by (simp add: s2_def s1_def upd_lnk_def upd_task_def)
  ultimately show ?thesis
    using eq tasks2 lists by blast
qed

lemma kinv_upd_task_inert:
  assumes k: "kinv T W s" and t: "t \<in> T"
    and f: "priority (f (tasks s t)) = priority (tasks s t)"
      "task_state (f (tasks s t)) = task_state (tasks s t)"
      "waiting_on_timer (f (tasks s t)) = waiting_on_timer (tasks s t)"
  shows "kinv T W (upd_task t f s)"
proof (rule kinvI [OF kbut_upd_task [where f = f, OF kinv_kbut [OF k] t f(1)]])
  show "task_ok W (upd_task t f s) t"
    using kinv_task_ok [OF k t] f by (auto simp: task_ok_def split: task_state_t.splits)
qed

lemma kinv_frame:
  assumes "kinv T W s" and "tasks s' = tasks s" "lnk s' = lnk s" "ready_mask s' = ready_mask s"
    "current_task s' = current_task s" "idle_task s' = idle_task s"
  shows "kinv T W s'"
proof -
  have "task_ok W s' t \<longleftrightarrow> task_ok W s t" for t
    by (simp add: task_ok_def assms cong: task_state_t.case_cong)
  with assms show ?thesis
    by (simp add: kinv_def kbase_def mask_ok_def)
qed

text \<open>
  A blocked task whose timeout is armed: the second half of \<^verbatim>\<open>trt_wait_q_block_ticks_locked\<close> and
  the body of \<^verbatim>\<open>task_delay_ticks\<close>.
\<close>

lemma timeout_insert_blocked:
  assumes k: "kbut T W t s" and t: "t \<in> T"
    and st: "task_state (tasks s t) = TASK_BLOCKED" "waiting_on_timer (tasks s t)"
    and loc: "list_empty (StateNode t) (lnk s) \<or> (\<exists>w\<in>W. StateNode t \<in> set (klist s (WaitHead w)))"
    and to: "TimeoutNode t \<notin> set (klist s TimeoutHead)" and ni: "t \<noteq> idle_task s"
  shows "\<exists>s'. sched_timeout_insert t s = Some s' \<and> kinv T W s' \<and> tasks s' = tasks s \<and>
      (\<forall>h\<in>kheads W. klist s' h =
        (if h = TimeoutHead
         then takeWhile (\<lambda>x. \<not> sint (wakeup (tasks s t) - wakeup (tasks s (entry_timeout x))) < 0)
             (klist s h) @ TimeoutNode t #
           dropWhile (\<lambda>x. \<not> sint (wakeup (tasks s t) - wakeup (tasks s (entry_timeout x))) < 0)
             (klist s h)
         else klist s h)) \<and>
      s' = s\<lparr>lnk := lnk s'\<rparr>"
proof -
  note b = kbut_kbase [OF k]
  let ?P = "\<lambda>x. sint (wakeup (tasks s t) - wakeup (tasks s (entry_timeout x))) < 0"
  have t0: "t \<noteq> 0"
    using kbaseD(1) [OF b] t by auto
  have u: "list_empty (TimeoutNode t) (lnk s)"
    using list_empty_timeout [OF b t] to by simp
  obtain pos where pos: "list_for_each ?P (lnk s) TimeoutHead (nxt (lnk s) TimeoutHead) = Some pos"
    and ins: "(if pos \<noteq> TimeoutHead then list_add_before (TimeoutNode t) pos (lnk s)
      else list_add_tail (TimeoutNode t) TimeoutHead (lnk s)) = list_add_before (TimeoutNode t) pos (lnk s)"
    using ordered_insert_option [OF kbaseD(3) [OF b], of TimeoutHead ?P] by auto
  define s' where "s' = upd_lnk (list_add_before (TimeoutNode t) pos) s"
  note ti = timeout_insert [OF b t u pos s'_def]
  have eq: "sched_timeout_insert t s = Some s'"
    using t0 st(2) u pos ins by (auto simp: sched_timeout_insert_def Let_def s'_def upd_lnk_def)
  have k': "kbut T W t s'"
    by (rule ti(1) [OF k])
  have same: "klist s' h = klist s h" if "h \<in> kheads W" "h \<noteq> TimeoutHead" for h
    using ti(2) [OF that(1)] that(2) by simp
  have "list_empty (StateNode t) (lnk s') \<longleftrightarrow> list_empty (StateNode t) (lnk s)"
    using list_empty_state [OF b t] list_empty_state [OF kbut_kbase [OF k'] t] same
      state_node_head [OF b, of TimeoutHead t] state_node_head [OF kbut_kbase [OF k'], of TimeoutHead t]
    by (metis kheads_in(3) state_head.simps(5))
  moreover have "TimeoutNode t \<in> set (klist s' TimeoutHead)"
    using ti(2) [of TimeoutHead] by simp
  ultimately have "task_ok W s' t"
    using st loc same ni by (auto simp: task_ok_def s'_def)
  then have "kinv T W s'"
    by (rule kinvI [OF k'])
  with eq ti(2) show ?thesis
    by (auto simp: s'_def upd_lnk_def)
qed

subsection \<open>Choosing the next task\<close>

lemma clz32_highest:
  assumes "m \<noteq> 0"
  shows "unat (31 - (of_nat (clz32 m) :: u32)) < 32"
    and "bit m (unat (31 - (of_nat (clz32 m) :: u32)))"
    and "\<And>q. bit m q \<Longrightarrow> q \<le> unat (31 - (of_nat (clz32 m) :: u32))"
proof -
  let ?xs = "rev [0..<32]" and ?P = "\<lambda>i. \<not> bit m i"
  define k where "k = length (takeWhile ?P ?xs)"
  have "\<exists>i<32. bit m i"
  proof (rule ccontr)
    assume "\<not> (\<exists>i<32. bit m i)"
    then have "m = 0"
      by (intro bit_word_eqI) simp
    with assms show False by contradiction
  qed
  then obtain i where "i \<in> set ?xs" "\<not> ?P i" by auto
  then have k: "k < length ?xs"
    unfolding k_def by (rule length_takeWhile_less)
  then have nth: "?xs ! j = 31 - j" if "j \<le> k" for j
    using that by (simp add: rev_nth)
  have "bit m (31 - k)"
    using nth_length_takeWhile [of ?P ?xs] k nth [of k] by (simp add: k_def)
  moreover have "q \<le> 31 - k" if q: "bit m q" for q
  proof (rule ccontr)
    assume "\<not> q \<le> 31 - k"
    moreover have "q < 32"
      using bit_imp_le_length [OF q] by simp
    ultimately have j: "31 - q < k" by linarith
    have "takeWhile ?P ?xs ! (31 - q) = ?xs ! (31 - q)"
      using j by (intro takeWhile_nth) (simp add: k_def)
    also have "\<dots> = q"
      using nth [of "31 - q"] j \<open>q < 32\<close> by simp
    finally have "\<not> bit m q"
      using set_takeWhileD [of q ?P ?xs] nth_mem [of "31 - q" "takeWhile ?P ?xs"] j
      by (simp add: k_def)
    with q show False by simp
  qed
  moreover have "unat (31 - (of_nat k :: u32)) = 31 - k"
  proof -
    have "unat (of_nat k :: u32) = k"
      using k by (simp add: unat_of_nat)
    then show ?thesis
      using k by (simp add: unat_sub word_le_nat_alt)
  qed
  ultimately show "unat (31 - (of_nat (clz32 m) :: u32)) < 32"
    and "bit m (unat (31 - (of_nat (clz32 m) :: u32)))"
    and "\<And>q. bit m q \<Longrightarrow> q \<le> unat (31 - (of_nat (clz32 m) :: u32))"
    by (simp_all add: clz32_def flip: k_def)
qed

lemma mask_zero_iff:
  assumes "mask_ok s"
  shows "ready_mask s = 0 \<longleftrightarrow> (\<forall>p<32. klist s (ReadyHead p) = [])"
proof
  assume "\<forall>p<32. klist s (ReadyHead p) = []"
  then show "ready_mask s = 0"
    using assms by (intro bit_word_eqI) (auto simp: mask_ok_def)
next
  assume "ready_mask s = 0"
  then have "\<not> bit (ready_mask s) p" for p by simp
  then show "\<forall>p<32. klist s (ReadyHead p) = []"
    using assms by (simp add: mask_ok_def)
qed

lemma kinv_ready_list:
  assumes k: "kinv T W s" and t: "t \<in> T" and p: "p < 32"
    and m: "StateNode t \<in> set (klist s (ReadyHead p))"
  shows "task_state (tasks s t) = TASK_READY" and "prio s t = p"
proof -
  note b = kinv_kbase [OF k]
  have h: "ReadyHead p \<in> kheads W"
    using p by simp
  have only: "h' = ReadyHead p" if "h' \<in> kheads W" "StateNode t \<in> set (klist s h')" for h'
    using state_node_unique [OF b that(1) h that(2) m] .
  have ne: "\<not> list_empty (StateNode t) (lnk s)"
    using list_empty_state [OF b t] m h by blast
  have "StateNode t \<notin> set (klist s (WaitHead w))" if "w \<in> W" for w
    using only [of "WaitHead w"] that by auto
  moreover have "StateNode t \<notin> set (klist s DeletedHead)"
    using only [of DeletedHead] by auto
  ultimately show st: "task_state (tasks s t) = TASK_READY"
    using kinv_task_ok [OF k t] ne by (auto simp: task_ok_def split: task_state_t.splits)
  then have "StateNode t \<in> set (klist s (ReadyHead (prio s t)))"
    using kinv_task_ok [OF k t] ne by (auto simp: task_ok_def)
  then show "prio s t = p"
    using only [of "ReadyHead (prio s t)"] kbaseD(7) [OF b t] by simp
qed

lemma ready_pop_none:
  assumes "kinv T W s" and "\<And>p. p < 32 \<Longrightarrow> klist s (ReadyHead p) = []"
  shows "sched_ready_pop_highest s = Some (0, s)"
  using assms mask_zero_iff [OF kbaseD(6) [OF kinv_kbase [OF assms(1)]]]
  by (simp add: sched_ready_pop_highest_def)

lemma ready_pop_some:
  assumes k: "kinv T W s" and ne: "q < 32" "klist s (ReadyHead q) \<noteq> []"
  shows "\<exists>p t xs s'. p < 32 \<and> klist s (ReadyHead p) = StateNode t # xs \<and>
      (\<forall>r<32. klist s (ReadyHead r) \<noteq> [] \<longrightarrow> r \<le> p) \<and> t \<in> T \<and>
      sched_ready_pop_highest s = Some (t, s') \<and> kbut T W t s' \<and>
      list_empty (StateNode t) (lnk s') \<and>
      (\<forall>h\<in>kheads W. klist s' h = (if h = ReadyHead p then xs else klist s h)) \<and>
      s' = s\<lparr>lnk := lnk s', ready_mask := ready_mask s'\<rparr>"
proof -
  note b = kinv_kbase [OF k]
  note mok = kbaseD(6) [OF b]
  define p where "p = unat (31 - (of_nat (clz32 (ready_mask s)) :: u32))"
  have m0: "ready_mask s \<noteq> 0"
    using mask_zero_iff [OF mok] ne by auto
  note hp = clz32_highest [OF m0, folded p_def]
  have pne: "klist s (ReadyHead p) \<noteq> []"
    using mask_okD [OF mok hp(1)] hp(2) by simp
  have hin: "ReadyHead p \<in> kheads W"
    using hp(1) by simp
  obtain x xs where x: "klist s (ReadyHead p) = x # xs"
    using pne by (cases "klist s (ReadyHead p)") auto
  then obtain t where t: "t \<in> T" and xt: "x = StateNode t"
    using state_head_item [OF b hin, of x] by auto
  have max: "r \<le> p" if "r < 32" "klist s (ReadyHead r) \<noteq> []" for r
    using hp(3) mask_okD [OF mok that(1)] that(2) by simp
  have mem: "StateNode t \<in> set (klist s (ReadyHead p))"
    by (simp add: x xt)
  have pr: "prio s t = p"
    using kinv_ready_list [OF k t hp(1) mem] by simp
  have u: "StateNode t \<notin> set (klist s h)" if "h \<in> kheads W" "h \<noteq> ReadyHead p" for h
    using state_node_unique [OF b that(1) hin _ mem] that(2) by blast
  have "\<not> list_empty (StateNode t) (lnk s)"
    using list_empty_state [OF b t] mem hin by blast
  moreover have "t \<noteq> 0"
    using kbaseD(1) [OF b] t by auto
  ultimately have rm: "sched_ready_pop_highest s = Some (t, sched_ready_remove t s)"
    using m0 klist_first [OF b hin x] kbaseD(7) [OF b t] pr
    by (simp add: sched_ready_pop_highest_def Let_def xt sched_ready_remove_def prio_le_max
        flip: p_def)
  have "kbut T W t (sched_ready_remove t s)"
    using kbut_ready_remove [OF kinv_kbut [OF k] t] u pr by (metis kheads_in(4) knode.inject(1))
  moreover have "klist (sched_ready_remove t s) h = (if h = ReadyHead p then xs else klist s h)"
    if "h \<in> kheads W" for h
    using ready_remove_lists [OF b t that] u [OF that] x xt by simp
  moreover have "sched_ready_remove t s =
    s\<lparr>lnk := lnk (sched_ready_remove t s), ready_mask := ready_mask (sched_ready_remove t s)\<rparr>"
    by (simp add: sched_ready_remove_def Let_def upd_lnk_def)
  ultimately show ?thesis
    using rm hp(1) x xt max t ready_remove_unlinked [OF b t] by blast
qed

lemma set_task_state_simps [simp]:
  "tasks (set_task_state t st s) = (tasks s)(t := (tasks s t)\<lparr>task_state := st\<rparr>)"
  "lnk (set_task_state t st s) = lnk s"
  "ready_mask (set_task_state t st s) = ready_mask s"
  "current_task (set_task_state t st s) = current_task s"
  "idle_task (set_task_state t st s) = idle_task s"
  "lock_count (set_task_state t st s) = lock_count s"
  "resched_pending (set_task_state t st s) = resched_pending s"
  "started (set_task_state t st s) = started s"
  "tick_count (set_task_state t st s) = tick_count s"
  "trap_nesting (set_task_state t st s) = trap_nesting s"
  "time_slice_ticks (set_task_state t st s) = time_slice_ticks s"
  "kstate.more (set_task_state t st s) = kstate.more s"
  by (simp_all add: set_task_state_def)

lemma kbut_set_task_state:
  "kbut T W t s \<Longrightarrow> t \<in> T \<Longrightarrow> kbut T W t (set_task_state t st s)"
  unfolding set_task_state_def by (rule kbut_upd_task) simp_all

text \<open>What \<open>requeue_current\<close> does: the running task joins the tail of its ready list.\<close>

definition ready_view :: "'z kstate_scheme \<Rightarrow> nat \<Rightarrow> knode list" where
  "ready_view s p =
     (if current_task s \<noteq> 0 \<and> task_state (tasks s (current_task s)) = TASK_RUNNING \<and>
         current_task s \<noteq> idle_task s \<and> p = prio s (current_task s)
      then klist s (ReadyHead p) @ [StateNode (current_task s)] else klist s (ReadyHead p))"

lemma requeue_current:
  assumes k: "kinv T W s"
  shows "kinv T W (requeue_current s)"
    and "t \<in> T \<Longrightarrow> task_state (tasks (requeue_current s) t) \<noteq> TASK_RUNNING"
    and "current_task (requeue_current s) = current_task s"
    and "idle_task (requeue_current s) = idle_task s"
    and "p < 32 \<Longrightarrow> klist (requeue_current s) (ReadyHead p) = ready_view s p"
    and "h \<in> kheads W \<Longrightarrow> (\<And>p. h \<noteq> ReadyHead p) \<Longrightarrow> klist (requeue_current s) h = klist s h"
    and "tasks (requeue_current s) =
      (if current_task s \<noteq> 0 \<and> task_state (tasks s (current_task s)) = TASK_RUNNING
       then (tasks s)(current_task s := (tasks s (current_task s))\<lparr>task_state := TASK_READY\<rparr>)
       else tasks s)"
proof -
  note b = kinv_kbase [OF k]
  let ?c = "current_task s"
  have only: "task_state (tasks s t) = TASK_RUNNING \<Longrightarrow> t \<in> T \<Longrightarrow> t = ?c" for t
    using running_facts(3) [OF k] by blast
  show frame: "current_task (requeue_current s) = ?c" "idle_task (requeue_current s) = idle_task s"
    "tasks (requeue_current s) = (if ?c \<noteq> 0 \<and> task_state (tasks s ?c) = TASK_RUNNING
       then (tasks s)(?c := (tasks s ?c)\<lparr>task_state := TASK_READY\<rparr>) else tasks s)"
    by (simp_all add: requeue_current_def Let_def)
  show "task_state (tasks (requeue_current s) t) \<noteq> TASK_RUNNING" if "t \<in> T"
  proof
    assume "task_state (tasks (requeue_current s) t) = TASK_RUNNING"
    then have r: "task_state (tasks s t) = TASK_RUNNING" "t \<noteq> ?c \<or> ?c = 0"
      unfolding frame by (auto split: if_splits)
    then have "t = 0"
      using only [OF r(1) that] by argo
    with that kbaseD(1) [OF b] show False by simp
  qed
  have all: "kinv T W (requeue_current s) \<and>
    (p < 32 \<longrightarrow> klist (requeue_current s) (ReadyHead p) = ready_view s p) \<and>
    (h \<in> kheads W \<longrightarrow> (\<forall>p. h \<noteq> ReadyHead p) \<longrightarrow> klist (requeue_current s) h = klist s h)" for p h
  proof (cases "?c \<noteq> 0 \<and> task_state (tasks s ?c) = TASK_RUNNING")
    case False
    with k show ?thesis
      by (auto simp: requeue_current_def ready_view_def)
  next
    case True
    define s0 where "s0 = set_task_state ?c TASK_READY s"
    have c: "?c \<in> T" using True kbaseD(8) [OF b] by auto
    note run = running_facts [OF k c conjunct2 [OF True]]
    have k0: "kbut T W ?c s0"
      unfolding s0_def by (rule kbut_set_task_state [OF kinv_kbut [OF k] c])
    note b0 = kbut_kbase [OF k0]
    have s0: "list_empty (StateNode ?c) (lnk s0)" "task_state (tasks s0 ?c) = TASK_READY"
      "TimeoutNode ?c \<notin> set (klist s0 TimeoutHead)" "prio s0 ?c = prio s ?c" "lnk s0 = lnk s"
      using run by (simp_all add: s0_def)
    show ?thesis
    proof (cases "?c = idle_task s")
      case idle: True
      have eq: "requeue_current s = s0"
        using True idle by (simp add: requeue_current_def Let_def s0_def)
      have "task_ok W s0 ?c"
        using s0 idle by (simp add: task_ok_def, simp add: s0_def)
      with kinvI [OF k0] idle show ?thesis
        by (simp add: eq s0 ready_view_def)
    next
      case False
      have eq: "requeue_current s = sched_ready_enqueue ?c s0"
        using True False by (simp add: requeue_current_def Let_def s0_def)
      have "kinv T W (sched_ready_enqueue ?c s0)"
        by (rule make_ready [OF k0 c s0(1,2,3)])
      moreover have "klist (sched_ready_enqueue ?c s0) h =
          (if h = ReadyHead (prio s ?c) then klist s h @ [StateNode ?c] else klist s h)"
        if "h \<in> kheads W" for h
        using ready_enqueue_lists [OF b0 c s0(1) _ that] s0 by simp
      ultimately show ?thesis
        using True False by (simp add: eq ready_view_def)
    qed
  qed
  then show "kinv T W (requeue_current s)"
    and "p < 32 \<Longrightarrow> klist (requeue_current s) (ReadyHead p) = ready_view s p"
    and "h \<in> kheads W \<Longrightarrow> (\<And>p. h \<noteq> ReadyHead p) \<Longrightarrow> klist (requeue_current s) h = klist s h"
    by blast+
qed

lemma kbut_switch_current:
  assumes k: "kbut T W t s" and t: "t \<in> T"
    and nr: "\<And>t'. t' \<in> T \<Longrightarrow> t' \<noteq> t \<Longrightarrow> task_state (tasks s t') \<noteq> TASK_RUNNING"
  shows "kbut T W t (s\<lparr>current_task := t\<rparr>)"
proof -
  have "task_ok W (s\<lparr>current_task := t\<rparr>) t' \<longleftrightarrow> task_ok W s t'" if "t' \<in> T - {t}" for t'
    using nr [of t'] that by (auto simp: task_ok_def split: task_state_t.splits)
  moreover have "kbase T W (s\<lparr>current_task := t\<rparr>)"
    using kbut_kbase [OF k] t by (simp add: kbase_def mask_ok_def)
  ultimately show ?thesis
    using k by (simp add: kbut_def)
qed

lemma run_task:
  assumes k: "kbut T W t s" and t: "t \<in> T" and u: "list_empty (StateNode t) (lnk s)"
    and to: "TimeoutNode t \<notin> set (klist s TimeoutHead)"
    and nr: "\<And>t'. t' \<in> T \<Longrightarrow> t' \<noteq> t \<Longrightarrow> task_state (tasks s t') \<noteq> TASK_RUNNING"
  shows "kinv T W ((set_task_state t TASK_RUNNING s)\<lparr>current_task := t\<rparr>)"
proof (rule kinvI [OF kbut_switch_current [OF kbut_set_task_state [OF k t] t]])
  show "task_ok W ((set_task_state t TASK_RUNNING s)\<lparr>current_task := t\<rparr>) t"
    using u to by (simp add: task_ok_def)
qed (use nr in auto)

lemma ready_not_timed:
  assumes "kinv T W s" and "t \<in> T" and "task_state (tasks s t) \<noteq> TASK_BLOCKED"
  shows "TimeoutNode t \<notin> set (klist s TimeoutHead)"
  using kinv_task_ok [OF assms(1,2)] assms(3) by (simp add: task_ok_def)

lemma pick_next_ready:
  assumes k: "kinv T W s" and ne: "q < 32" "ready_view s q \<noteq> []"
  shows "\<exists>p t xs s'. p < 32 \<and> ready_view s p = StateNode t # xs \<and>
      (\<forall>r<32. ready_view s r \<noteq> [] \<longrightarrow> r \<le> p) \<and> t \<in> T \<and>
      sched_pick_next s = Some (t, s') \<and> kinv T W (s'\<lparr>current_task := t\<rparr>) \<and>
      tasks s' = (tasks (requeue_current s))
        (t := (tasks s t)\<lparr>task_state := TASK_RUNNING\<rparr>) \<and>
      (\<forall>h\<in>kheads W. klist s' h =
        (if h = ReadyHead p then xs else klist (requeue_current s) h))"
proof -
  let ?s1 = "requeue_current s"
  note rq = requeue_current [OF k]
  have "klist ?s1 (ReadyHead q) \<noteq> []"
    using rq(5) [OF ne(1)] ne(2) by simp
  from ready_pop_some [OF rq(1) ne(1) this] obtain p t xs s' where
    p: "p < 32" and x: "klist ?s1 (ReadyHead p) = StateNode t # xs"
    and max: "\<forall>r<32. klist ?s1 (ReadyHead r) \<noteq> [] \<longrightarrow> r \<le> p" and t: "t \<in> T"
    and pop: "sched_ready_pop_highest ?s1 = Some (t, s')" and k': "kbut T W t s'"
    and u: "list_empty (StateNode t) (lnk s')"
    and l: "\<forall>h\<in>kheads W. klist s' h = (if h = ReadyHead p then xs else klist ?s1 h)"
    and s': "s' = ?s1\<lparr>lnk := lnk s', ready_mask := ready_mask s'\<rparr>"
    by blast
  have tasks': "tasks s' = tasks ?s1" "current_task s' = current_task s"
    by (subst s', simp add: rq)+
  have t0: "t \<noteq> 0"
    using kbaseD(1) [OF kinv_kbase [OF k]] t by auto
  have "StateNode t \<in> set (klist ?s1 (ReadyHead p))"
    by (simp add: x)
  then have "task_state (tasks ?s1 t) = TASK_READY"
    using kinv_ready_list [OF rq(1) t p] by simp
  then have "TimeoutNode t \<notin> set (klist s' TimeoutHead)"
    using ready_not_timed [OF rq(1) t] l by simp
  then have inv: "kinv T W ((set_task_state t TASK_RUNNING s')\<lparr>current_task := t\<rparr>)"
    using rq(2) tasks' by (intro run_task [OF k' t u]) auto
  have pick: "sched_pick_next s = Some (t, set_task_state t TASK_RUNNING s')"
    using pop t0 by (simp add: sched_pick_next_def Let_def)
  have "(tasks ?s1 t)\<lparr>task_state := TASK_RUNNING\<rparr> = (tasks s t)\<lparr>task_state := TASK_RUNNING\<rparr>"
    by (simp add: rq(7))
  with pick inv p x max t l rq(5) tasks' show ?thesis
    by (intro exI [of _ p] exI [of _ t] exI [of _ xs] exI [of _ "set_task_state t TASK_RUNNING s'"])
      simp
qed

lemma pick_next_idle:
  assumes k: "kinv T W s" and none: "\<And>p. p < 32 \<Longrightarrow> ready_view s p = []"
    and idle: "idle_task s \<noteq> 0"
  shows "sched_pick_next s =
      Some (idle_task s, set_task_state (idle_task s) TASK_RUNNING (requeue_current s))"
    and "kinv T W ((set_task_state (idle_task s) TASK_RUNNING (requeue_current s))
      \<lparr>current_task := idle_task s\<rparr>)"
proof -
  let ?s1 = "requeue_current s" and ?i = "idle_task s"
  note rq = requeue_current [OF k]
  have i: "?i \<in> T"
    using kbaseD(9) [OF kinv_kbase [OF k]] idle by simp
  have e: "klist ?s1 (ReadyHead p) = []" if "p < 32" for p
    using rq(5) [OF that] none [OF that] by simp
  show "sched_pick_next s = Some (?i, set_task_state ?i TASK_RUNNING ?s1)"
    using ready_pop_none [OF rq(1) e] idle rq(4) by (simp add: sched_pick_next_def Let_def)
  have ok: "task_ok W ?s1 ?i"
    using kinv_task_ok [OF rq(1) i] .
  then have st: "task_state (tasks ?s1 ?i) = TASK_READY"
    using rq(2) [OF i] rq(4) by (auto simp: task_ok_def split: task_state_t.splits)
  have "prio ?s1 ?i < 32"
    using kbaseD(7) [OF kinv_kbase [OF rq(1)] i] .
  then have "list_empty (StateNode ?i) (lnk ?s1)"
    using ok st e rq(4) by (simp add: task_ok_def)
  then show "kinv T W ((set_task_state ?i TASK_RUNNING ?s1)\<lparr>current_task := ?i\<rparr>)"
    using ready_not_timed [OF rq(1) i] st rq(2)
    by (intro run_task [OF kinv_kbut [OF rq(1)] i]) auto
qed

lemma pick_next_none:
  assumes k: "kinv T W s" and none: "\<And>p. p < 32 \<Longrightarrow> ready_view s p = []"
    and idle: "idle_task s = 0"
  shows "sched_pick_next s = Some (current_task s, requeue_current s)"
    and "kinv T W ((requeue_current s)\<lparr>current_task := current_task s\<rparr>)"
proof -
  note rq = requeue_current [OF k]
  have e: "klist (requeue_current s) (ReadyHead p) = []" if "p < 32" for p
    using rq(5) [OF that] none [OF that] by simp
  show "sched_pick_next s = Some (current_task s, requeue_current s)"
    using ready_pop_none [OF rq(1) e] idle rq(4) by (simp add: sched_pick_next_def Let_def)
  show "kinv T W ((requeue_current s)\<lparr>current_task := current_task s\<rparr>)"
    by (rule kinv_frame [OF rq(1)]) (simp_all add: rq(3))
qed

lemma pick_next_kinv:
  assumes "kinv T W s"
  shows "\<exists>t s'. sched_pick_next s = Some (t, s') \<and> kinv T W (s'\<lparr>current_task := t\<rparr>)"
proof (cases "\<exists>q<32. ready_view s q \<noteq> []")
  case True
  then show ?thesis
    using pick_next_ready [OF assms] by metis
next
  case False
  then show ?thesis
    using pick_next_idle [OF assms] pick_next_none [OF assms] by (metis (no_types))
qed

subsection \<open>Deletion\<close>

lemma mark_deleted:
  assumes k: "kinv T W s" and t: "t \<in> T" and ni: "t \<noteq> idle_task s"
    and st: "task_state (tasks s t) \<noteq> TASK_DELETED"
  shows "kinv T W (sched_mark_deleted t s)"
    and "task_state (tasks (sched_mark_deleted t s) t) = TASK_DELETED"
    and "h \<in> kheads W \<Longrightarrow> klist (sched_mark_deleted t s) h =
      (if h = DeletedHead then klist s h @ [StateNode t]
       else remove1 (StateNode t) (remove1 (TimeoutNode t) (klist s h)))"
proof -
  note b = kinv_kbase [OF k]
  have t0: "t \<noteq> 0"
    using kbaseD(1) [OF b] t by auto
  define s1 where "s1 = (if \<not> list_empty (StateNode t) (lnk s)
    then if task_state (tasks s t) = TASK_READY then sched_ready_remove t s
         else upd_lnk (list_del_init (StateNode t)) s else s)"
  define s2 where "s2 = sched_timeout_remove t s1"
  define s3 where "s3 = upd_task t (\<lambda>k. k\<lparr>waiting_on_timer := False, wait_result := TASK_WAIT_NONE,
    task_state := TASK_DELETED\<rparr>) s2"
  have eq: "sched_mark_deleted t s = upd_lnk (list_add_tail (StateNode t) DeletedHead) s3"
    using t0 ni st by (simp add: sched_mark_deleted_def Let_def s1_def s2_def s3_def)
  have only: "p = prio s t" if "p < 32" "StateNode t \<in> set (klist s (ReadyHead p))" for p
    using kinv_ready_list(2) [OF k t that] by simp
  have nr: "StateNode t \<notin> set (klist s (ReadyHead p))"
    if "task_state (tasks s t) \<noteq> TASK_READY" "p < 32" for p
    using kinv_ready_list(1) [OF k t that(2)] that(1) by blast
  have k1: "kbut T W t s1"
    unfolding s1_def using kbut_ready_remove [OF kinv_kbut [OF k] t only]
      kbut_del_state [OF kinv_kbut [OF k] t nr] kinv_kbut [OF k] by simp
  note b1 = kbut_kbase [OF k1]
  have l1: "klist s1 h = remove1 (StateNode t) (klist s h)" if "h \<in> kheads W" for h
    unfolding s1_def using ready_remove_lists [OF b t that] klist_del_init(1) [OF b _ that] t
      list_empty_state [OF b t] that by auto
  have k2: "kbut T W t s2"
    unfolding s2_def by (rule kbut_timeout_remove [OF k1 t])
  note b2 = kbut_kbase [OF k2]
  have l2: "klist s2 h = remove1 (TimeoutNode t) (remove1 (StateNode t) (klist s h))"
    if "h \<in> kheads W" for h
    unfolding s2_def using timeout_remove_lists [OF b1 t that] l1 [OF that] by simp
  have k3: "kbut T W t s3"
    unfolding s3_def by (rule kbut_upd_task [OF k2 t]) simp
  note b3 = kbut_kbase [OF k3]
  have l3: "klist s3 h = remove1 (TimeoutNode t) (remove1 (StateNode t) (klist s h))"
    if "h \<in> kheads W" for h
    using l2 [OF that] by (simp add: s3_def)
  have gone: "StateNode t \<notin> set (klist s3 h) \<and> TimeoutNode t \<notin> set (klist s3 h)"
    if "h \<in> kheads W" for h
  proof -
    have "distinct (klist s h)"
      using items_distinct [OF kbaseD(3) [OF b] that] .
    then show ?thesis
      by (simp add: l3 [OF that])
  qed
  have u: "list_empty (StateNode t) (lnk s3)"
    using list_empty_state [OF b3 t] gone by blast
  have ladd: "klist (sched_mark_deleted t s) h =
    (if h = DeletedHead then klist s3 h @ [StateNode t] else klist s3 h)" if "h \<in> kheads W" for h
    using items_list_add_tail [OF kbaseD(3) [OF b3] _ _ u that] t by (simp add: eq)
  show st': "task_state (tasks (sched_mark_deleted t s) t) = TASK_DELETED"
    by (simp add: eq s3_def)
  have "waiting_on_timer (tasks (sched_mark_deleted t s) t) = False"
    "idle_task (sched_mark_deleted t s) = idle_task s"
    by (auto simp: eq s3_def s2_def s1_def)
  then have "task_ok W (sched_mark_deleted t s) t"
    using ladd [of DeletedHead] ladd [of TimeoutHead] gone [of TimeoutHead] st' ni
    by (simp add: task_ok_def)
  then show "kinv T W (sched_mark_deleted t s)"
    using kbut_add_deleted [OF k3 t u] by (intro kinvI) (simp_all add: eq)
  have nd: "StateNode t \<notin> set (klist s DeletedHead)"
  proof
    assume m: "StateNode t \<in> set (klist s DeletedHead)"
    then have "\<not> list_empty (StateNode t) (lnk s)"
      using list_empty_state [OF b t] by auto
    moreover have "StateNode t \<notin> set (klist s (WaitHead w))" if "w \<in> W" for w
      using state_node_unique [OF b _ _ m, of "WaitHead w"] that by auto
    ultimately show False
      using kinv_task_ok [OF k t] st nr [of "prio s t"] kbaseD(7) [OF b t]
        state_node_unique [OF b _ _ m, of "ReadyHead (prio s t)"]
      by (auto simp: task_ok_def split: task_state_t.splits)
  qed
  show "h \<in> kheads W \<Longrightarrow> klist (sched_mark_deleted t s) h =
    (if h = DeletedHead then klist s h @ [StateNode t]
     else remove1 (StateNode t) (remove1 (TimeoutNode t) (klist s h)))"
  proof -
    have "TimeoutNode t \<notin> set (klist s DeletedHead)"
      using timeout_node_head [OF b, of DeletedHead t] by auto
    then show "h \<in> kheads W \<Longrightarrow> ?thesis"
      using ladd l3 nd by (simp add: remove1_commute)
  qed
qed

lemma unlinked_nodes:
  assumes "kbase T W s" and "h \<in> kheads W" and "n \<in> knodes T" and "klist s h = n # xs"
  shows "items (list_del_init n (lnk s)) h = xs"
  using klist_del_init(1) [OF assms(1,3,2)] assms(4) by simp

lemma kinv_forget_task:
  assumes k: "kbut T W t s" and t: "t \<in> T" "t \<noteq> current_task s" "t \<noteq> idle_task s"
    and u: "list_empty (StateNode t) (lnk s)" "list_empty (TimeoutNode t) (lnk s)"
  shows "kinv (T - {t}) W (upd_lnk (list_del_init (MasterNode t)) s)"
proof -
  let ?l = "list_del_init (MasterNode t) (lnk s)"
  note b = kbut_kbase [OF k]
  have wf: "lists_wf ?l (kheads W) (knodes T)"
    using list_del_init_wf [OF kbaseD(3) [OF b]] t by simp
  have le: "list_empty n ?l \<longleftrightarrow> n = MasterNode t \<or> list_empty n (lnk s)" if "n \<in> knodes T" for n
    using list_empty_del_init_node [OF kbaseD(3) [OF b] _ that] t by simp
  have l: "items ?l h = remove1 (MasterNode t) (klist s h)" if "h \<in> kheads W" for h
    using klist_del_init(1) [OF b _ that] t by simp
  have "lists_wf ?l (kheads W) (knodes T - {MasterNode t} - {StateNode t} - {TimeoutNode t})"
    using t u le by (intro lists_wf_remove_node wf) auto
  moreover have "knodes T - {MasterNode t} - {StateNode t} - {TimeoutNode t} = knodes (T - {t})"
    by (auto simp: knodes_def)
  ultimately have wf': "lists_wf ?l (kheads W) (knodes (T - {t}))"
    by simp
  have mem: "x \<in> set (items ?l h) \<longleftrightarrow> x \<in> set (klist s h)"
    if "h \<in> kheads W" "x \<noteq> MasterNode t" for x h
    using l [OF that(1)] that(2) by simp
  have eq: "items ?l h = klist s h" if "h \<in> kheads W" "h \<noteq> MasterHead" for h
  proof -
    have "MasterNode t \<notin> set (klist s h)"
      using kbaseD(4) [OF b that(1), of "MasterNode t"] that(2) by (auto simp: fits_master)
    then show ?thesis
      by (simp add: l [OF that(1)])
  qed
  have "fits h x" if "h \<in> kheads W" "x \<in> set (items ?l h)" for h x
    using that(2) l [OF that(1)] set_remove1_subset kbaseD(4) [OF b that(1), of x] by fastforce
  moreover have "MasterNode t' \<in> set (items ?l MasterHead)" if "t' \<in> T - {t}" for t'
    using that mem [of MasterHead] kbaseD(5) [OF b, of t'] by simp
  moreover have "mask_ok (upd_lnk (list_del_init (MasterNode t)) s)"
    using kbaseD(6) [OF b] eq by (simp add: mask_ok_def)
  ultimately have "kbase (T - {t}) W (upd_lnk (list_del_init (MasterNode t)) s)"
    using kbaseD [OF b] wf' t by (simp add: kbase_def)
  moreover have "task_ok W (upd_lnk (list_del_init (MasterNode t)) s) t'" if "t' \<in> T - {t}" for t'
    using task_ok_cong [OF b, of "upd_lnk (list_del_init (MasterNode t)) s" t'] wf that mem k
    by (simp add: kbut_def)
  ultimately show ?thesis
    by (simp add: kinv_def)
qed

lemma pop_deleted_empty:
  "kbase T W s \<Longrightarrow> klist s DeletedHead = [] \<Longrightarrow> sched_pop_deleted s = (0, s)"
  using klist_head_empty [of T W s DeletedHead] by (simp add: sched_pop_deleted_def)

lemma pop_deleted:
  assumes k: "kinv T W s" and x: "klist s DeletedHead = StateNode t # xs"
    and nc: "t \<noteq> current_task s"
  shows "fst (sched_pop_deleted s) = t" and "t \<in> T"
    and "kinv (T - {t}) W (snd (sched_pop_deleted s))"
    and "klist (snd (sched_pop_deleted s)) DeletedHead = xs"
    and "tasks (snd (sched_pop_deleted s)) = tasks s"
    and "current_task (snd (sched_pop_deleted s)) = current_task s"
proof -
  note b = kinv_kbase [OF k]
  have mem: "StateNode t \<in> set (klist s DeletedHead)"
    by (simp add: x)
  show t: "t \<in> T"
    using state_head_item [OF b _ _ mem] by auto
  have only: "h = DeletedHead" if "h \<in> kheads W" "StateNode t \<in> set (klist s h)" for h
    using state_node_unique [OF b that(1) _ that(2) mem] by simp
  have ne: "\<not> list_empty (StateNode t) (lnk s)"
    using list_empty_state [OF b t] mem by auto
  have ok: "task_ok W s t"
    using kinv_task_ok [OF k t] .
  have st: "task_state (tasks s t) = TASK_DELETED"
    using ok ne only [of "ReadyHead (prio s t)"] kbaseD(7) [OF b t] only [of "WaitHead _"]
    by (auto simp: task_ok_def split: task_state_t.splits)
  have ni: "t \<noteq> idle_task s" and nt: "TimeoutNode t \<notin> set (klist s TimeoutHead)"
    using ok st by (auto simp: task_ok_def)
  define s1 where "s1 = upd_lnk (list_del_init (StateNode t)) s"
  have eq: "sched_pop_deleted s = (t, upd_lnk (list_del_init (MasterNode t)) s1)"
    using klist_first [OF b _ x] by (simp add: sched_pop_deleted_def s1_def)
  show "fst (sched_pop_deleted s) = t" "tasks (snd (sched_pop_deleted s)) = tasks s"
    "current_task (snd (sched_pop_deleted s)) = current_task s"
    by (simp_all add: eq s1_def)
  have "StateNode t \<notin> set (klist s (ReadyHead p))" if "p < 32" for p
    using only [of "ReadyHead p"] that by auto
  then have k1: "kbut T W t s1"
    unfolding s1_def by (rule kbut_del_state [OF kinv_kbut [OF k] t])
  have "list_empty (StateNode t) (lnk s1)" "list_empty (TimeoutNode t) (lnk s1)"
    using list_empty_del_init_node [OF kbaseD(3) [OF b]] t list_empty_timeout [OF b t] nt
    by (simp_all add: s1_def)
  from kinv_forget_task [OF k1 t _ _ this] nc ni
  show "kinv (T - {t}) W (snd (sched_pop_deleted s))"
    by (simp add: eq s1_def)
  have l1: "klist s1 DeletedHead = xs"
    using unlinked_nodes [OF b _ _ x] t by (simp add: s1_def)
  have "MasterNode t \<notin> set (klist s1 DeletedHead)"
    using kbaseD(4) [OF kbut_kbase [OF k1], of DeletedHead "MasterNode t"] by auto
  then show "klist (snd (sched_pop_deleted s)) DeletedHead = xs"
    using klist_del_init(1) [OF kbut_kbase [OF k1], of "MasterNode t" DeletedHead] t l1
    by (simp add: eq)
qed

subsection \<open>Expired timeouts\<close>

text \<open>The body of the loop of \<^verbatim>\<open>sched_wake_expired\<close> on the first due task.\<close>

definition expire_task :: "ptr \<Rightarrow> 'z kstate_scheme \<Rightarrow> 'z kstate_scheme" where
  "expire_task t s =
     (let s1 = upd_lnk (list_del_init (TimeoutNode t)) s;
          s2 = upd_task t (\<lambda>k. k\<lparr>waiting_on_timer := False, wait_result := TASK_WAIT_TIMEOUT\<rparr>) s1;
          s3 = (if \<not> list_empty (StateNode t) (lnk s2)
                then upd_lnk (list_del_init (StateNode t)) s2 else s2);
          s4 = upd_task t (\<lambda>k. k\<lparr>task_state := TASK_READY\<rparr>) s3
      in sched_ready_enqueue t s4)"

lemma timed_task:
  assumes k: "kinv T W s" and m: "TimeoutNode t \<in> set (klist s TimeoutHead)"
  shows "t \<in> T" and "task_state (tasks s t) = TASK_BLOCKED" and "waiting_on_timer (tasks s t)"
    and "p < 32 \<Longrightarrow> StateNode t \<notin> set (klist s (ReadyHead p))"
proof -
  show t: "t \<in> T"
    using timeout_item [OF kinv_kbase [OF k] m] by auto
  show st: "task_state (tasks s t) = TASK_BLOCKED" "waiting_on_timer (tasks s t)"
    using kinv_task_ok [OF k t] m by (auto simp: task_ok_def)
  show "p < 32 \<Longrightarrow> StateNode t \<notin> set (klist s (ReadyHead p))"
    using kinv_ready_list(1) [OF k t] st by fastforce
qed

lemma expire_task:
  assumes k: "kinv T W s" and x: "klist s TimeoutHead = TimeoutNode t # xs"
  shows "kinv T W (expire_task t s)" and "klist (expire_task t s) TimeoutHead = xs"
    and "tasks (expire_task t s) = (tasks s)(t := (tasks s t)\<lparr>waiting_on_timer := False,
      wait_result := TASK_WAIT_TIMEOUT, task_state := TASK_READY\<rparr>)"
    and "tick_count (expire_task t s) = tick_count s"
    and "current_task (expire_task t s) = current_task s"
    and "h \<in> kheads W \<Longrightarrow> h \<noteq> TimeoutHead \<Longrightarrow> klist (expire_task t s) h =
      (if h = ReadyHead (prio s t) then klist s h @ [StateNode t]
       else filter (\<lambda>y. y \<noteq> StateNode t) (klist s h))"
proof -
  note b = kinv_kbase [OF k]
  have m: "TimeoutNode t \<in> set (klist s TimeoutHead)"
    by (simp add: x)
  note tt = timed_task [OF k m]
  define s1 where "s1 = upd_lnk (list_del_init (TimeoutNode t)) s"
  define s2 where "s2 = upd_task t
    (\<lambda>k. k\<lparr>waiting_on_timer := False, wait_result := TASK_WAIT_TIMEOUT\<rparr>) s1"
  define s3 where "s3 = (if \<not> list_empty (StateNode t) (lnk s2)
    then upd_lnk (list_del_init (StateNode t)) s2 else s2)"
  define s4 where "s4 = upd_task t (\<lambda>k. k\<lparr>task_state := TASK_READY\<rparr>) s3"
  have eq: "expire_task t s = sched_ready_enqueue t s4"
    by (simp add: expire_task_def Let_def s1_def s2_def s3_def s4_def)
  have k1: "kbut T W t s1"
    unfolding s1_def by (rule kbut_del_timeout [OF kinv_kbut [OF k] tt(1)])
  have k2: "kbut T W t s2"
    unfolding s2_def by (rule kbut_upd_task [OF k1 tt(1)]) simp
  note b2 = kbut_kbase [OF k2]
  have l2: "klist s2 h = remove1 (TimeoutNode t) (klist s h)" if "h \<in> kheads W" for h
    using klist_del_init(1) [OF b _ that] tt(1) by (simp add: s2_def s1_def)
  have nr: "StateNode t \<notin> set (klist s2 (ReadyHead p))" if "p < 32" for p
    using l2 [of "ReadyHead p"] tt(4) [OF that] that by simp
  have k3: "kbut T W t s3"
    unfolding s3_def using k2 kbut_del_state [OF k2 tt(1) nr] by simp
  note b3 = kbut_kbase [OF k3]
  have l3: "klist s3 TimeoutHead = xs"
  proof -
    have "klist s2 TimeoutHead = xs"
      by (simp add: l2 x)
    moreover have "StateNode t \<notin> set (klist s2 TimeoutHead)"
      using state_node_head [OF b2, of TimeoutHead] by auto
    ultimately show ?thesis
      using klist_del_init(1) [OF b2, of "StateNode t" TimeoutHead] tt(1) by (simp add: s3_def)
  qed
  have u3: "list_empty (StateNode t) (lnk s3)"
    by (auto simp: s3_def list_empty_def list_del_init_fields)
  have k4: "kbut T W t s4"
    unfolding s4_def by (rule kbut_upd_task [OF k3 tt(1)]) simp
  have dist: "TimeoutNode t \<notin> set xs"
    using items_distinct [OF kbaseD(3) [OF b], of TimeoutHead] x by simp
  have s4: "list_empty (StateNode t) (lnk s4)" "task_state (tasks s4 t) = TASK_READY"
    "TimeoutNode t \<notin> set (klist s4 TimeoutHead)" "klist s4 TimeoutHead = xs"
    using u3 l3 dist by (simp_all add: s4_def)
  show "kinv T W (expire_task t s)"
    unfolding eq by (rule make_ready [OF k4 tt(1) s4(1,2,3)])
  show "klist (expire_task t s) TimeoutHead = xs"
    using ready_enqueue_timeouts [OF kbut_kbase [OF k4] tt(1)] s4(4) by (simp add: eq)
  show "tasks (expire_task t s) = (tasks s)(t := (tasks s t)\<lparr>waiting_on_timer := False,
      wait_result := TASK_WAIT_TIMEOUT, task_state := TASK_READY\<rparr>)"
    "tick_count (expire_task t s) = tick_count s"
    "current_task (expire_task t s) = current_task s"
    by (simp_all add: eq s4_def s3_def s2_def s1_def)
  show "klist (expire_task t s) h = (if h = ReadyHead (prio s t) then klist s h @ [StateNode t]
       else filter (\<lambda>y. y \<noteq> StateNode t) (klist s h))" if h: "h \<in> kheads W" "h \<noteq> TimeoutHead"
  proof -
    have "TimeoutNode t \<notin> set (klist s h)" using timeout_node_head [OF b h(1)] h(2) by blast
    then have 2: "klist s2 h = klist s h" using l2 [OF h(1)] by simp
    have "klist s3 h = filter (\<lambda>y. y \<noteq> StateNode t) (klist s2 h)"
      using klist_del_init(1) [OF b2 _ h(1), of "StateNode t"] list_empty_state [OF b2 tt(1)] h(1) tt(1)
        items_distinct [OF kbaseD(3) [OF b2] h(1)]
      by (auto simp: s3_def distinct_remove1_filter)
    then have "klist s3 h = filter (\<lambda>y. y \<noteq> StateNode t) (klist s h)"
      by (simp only: 2)
    moreover have "StateNode t \<notin> set (klist s (ReadyHead (prio s t)))"
      by (rule tt(4)) (rule kbaseD(7) [OF b tt(1)])
    moreover have "prio s4 t = prio s t" "lnk s4 = lnk s3" by (simp_all add: s4_def s3_def s2_def s1_def)
    ultimately show ?thesis
      using ready_enqueue_lists [OF kbut_kbase [OF k4] tt(1) s4(1) _ h(1)] s4(2)
      by (cases "h = ReadyHead (prio s t)") (simp_all add: eq)
  qed
qed

lemma wake_expired_step:
  assumes k: "kinv T W s" and x: "klist s TimeoutHead = TimeoutNode t # xs"
  shows "wake_expired_loop now s =
    (if timer_expired now (wakeup (tasks s t)) then wake_expired_loop now (expire_task t s)
     else Some s)"
proof -
  have "nxt (lnk s) TimeoutHead = TimeoutNode t" "\<not> list_empty TimeoutHead (lnk s)"
    using klist_first [OF kinv_kbase [OF k] _ x] by simp_all
  then show ?thesis
    using timed_task(2,3) [OF k, of t] x
    by (subst wake_expired_loop.simps) (simp add: expire_task_def Let_def)
qed

text \<open>
  The loop ends; it wakes exactly the due tasks in front of the first task that is not due, with
  the result \<^verbatim>\<open>TASK_WAIT_TIMEOUT\<close>, moves them to the tails of their ready lists in the order
  of the timeout list and leaves the rest of that list alone.
\<close>

definition due_nodes :: "u32 \<Rightarrow> 'z kstate_scheme \<Rightarrow> knode list" where
  "due_nodes now s =
     takeWhile (\<lambda>x. timer_expired now (wakeup (tasks s (entry_timeout x)))) (klist s TimeoutHead)"

definition due_tasks :: "u32 \<Rightarrow> 'z kstate_scheme \<Rightarrow> ptr list" where
  "due_tasks now s = map entry_timeout (due_nodes now s)"

definition timed_out :: "task_t \<Rightarrow> task_t" where
  "timed_out k = k\<lparr>waiting_on_timer := False, wait_result := TASK_WAIT_TIMEOUT, task_state := TASK_READY\<rparr>"

text \<open>A list after the tasks of \<open>ts\<close> left it, or joined it if it is their ready list.\<close>

fun after_expiry :: "'z kstate_scheme \<Rightarrow> ptr list \<Rightarrow> knode \<Rightarrow> knode list \<Rightarrow> knode list" where
  "after_expiry s ts (ReadyHead p) xs = xs @ map StateNode (filter (\<lambda>t. prio s t = p) ts)"
| "after_expiry s ts h xs = filter (\<lambda>x. x \<notin> StateNode ` set ts) xs"

definition expired_from :: "wq_t set \<Rightarrow> ptr list \<Rightarrow> 'z kstate_scheme \<Rightarrow> 'z kstate_scheme \<Rightarrow> bool" where
  "expired_from W ts s s' \<longleftrightarrow>
     (\<forall>h\<in>kheads W. h \<noteq> TimeoutHead \<longrightarrow> klist s' h = after_expiry s ts h (klist s h)) \<and>
     tasks s' = (\<lambda>t. if t \<in> set ts then timed_out (tasks s t) else tasks s t) \<and>
     (\<exists>l m. s' = s\<lparr>tasks := tasks s', lnk := l, ready_mask := m\<rparr>)"

lemma expired_from_refl: "expired_from W [] s s"
proof -
  have "after_expiry s [] h (klist s h) = klist s h" for h by (cases h) simp_all
  moreover have "\<exists>l m. s = s\<lparr>lnk := l, ready_mask := m\<rparr>" by (metis kstate.surjective kstate.update_convs(2,3))
  ultimately show ?thesis by (simp add: expired_from_def)
qed

lemma expire_task_shape: "\<exists>l m. expire_task t s = s\<lparr>tasks := tasks (expire_task t s), lnk := l, ready_mask := m\<rparr>"
proof (intro exI)
  let ?u = "expire_task t s"
  show "?u = s\<lparr>tasks := tasks ?u, lnk := lnk ?u, ready_mask := ready_mask ?u\<rparr>"
    by (rule kstate.equality) (simp_all add: expire_task_def Let_def)
qed

lemma expired_from_step:
  assumes k: "kinv T W s" and x: "klist s TimeoutHead = TimeoutNode t # xs"
    and e: "expired_from W ts (expire_task t s) s'" and n: "t \<notin> set ts"
  shows "expired_from W (t # ts) s s'"
proof -
  note f = expire_task [OF k x] and tt = timed_task [OF k, of t]
  have r1: "StateNode t \<notin> set (klist s (ReadyHead p))" if "p < 32" for p
    using tt(4) [OF _ that] x by simp
  have r2: "klist s' h = after_expiry (expire_task t s) ts h (klist (expire_task t s) h)"
    "klist (expire_task t s) h = (if h = ReadyHead (prio s t) then klist s h @ [StateNode t]
       else filter (\<lambda>y. y \<noteq> StateNode t) (klist s h))"
    if "h \<in> kheads W" "h \<noteq> TimeoutHead" for h
    using e that f(6) [OF that] by (simp_all add: expired_from_def)
  have r3: "prio (expire_task t s) u = prio s u" for u by (simp add: f(3))
  have "klist s' h = after_expiry s (t # ts) h (klist s h)"
    if "h \<in> kheads W" "h \<noteq> TimeoutHead" for h
  proof (cases "\<exists>p. h = ReadyHead p")
    case True
    then obtain p where hp: "h = ReadyHead p" by blast
    show ?thesis
      using that r2 [of h] r1 [of p] by (simp add: hp r3)
  next
    case False
    then show ?thesis
      using that r2 [of h] by (cases h) (auto intro!: filter_cong)
  qed
  moreover have "tasks s' = (\<lambda>u. if u \<in> set (t # ts) then timed_out (tasks s u) else tasks s u)"
    using e n by (auto simp: expired_from_def f(3) timed_out_def)
  moreover have "\<exists>l m. s' = s\<lparr>tasks := tasks s', lnk := l, ready_mask := m\<rparr>"
  proof -
    obtain l m l1 m1 where 1: "s' = (expire_task t s)\<lparr>tasks := tasks s', lnk := l, ready_mask := m\<rparr>"
      and 2: "expire_task t s = s\<lparr>tasks := tasks (expire_task t s), lnk := l1, ready_mask := m1\<rparr>"
      using e expire_task_shape [of t s] unfolding expired_from_def by blast
    have "s' = s\<lparr>tasks := tasks s', lnk := l, ready_mask := m\<rparr>"
      using arg_cong [OF 2, of "\<lambda>x. x\<lparr>tasks := tasks s', lnk := l, ready_mask := m\<rparr>"] 1 by simp
    then show ?thesis by blast
  qed
  ultimately show ?thesis unfolding expired_from_def by blast
qed

lemma wake_expired_loop:
  assumes "kinv T W s"
  shows "\<exists>s'. wake_expired_loop now s = Some s' \<and> kinv T W s' \<and>
    klist s' TimeoutHead = drop (length (due_tasks now s)) (klist s TimeoutHead) \<and>
    expired_from W (due_tasks now s) s s'"
  using assms
proof (induction "klist s TimeoutHead" arbitrary: s)
  case Nil
  then have "list_empty TimeoutHead (lnk s)"
    using klist_head_empty [OF kinv_kbase [OF Nil.prems], of TimeoutHead] by simp
  then have "wake_expired_loop now s = Some s"
    by (simp add: wake_expired_loop.simps)
  with Nil show ?case
    by (simp add: due_tasks_def due_nodes_def expired_from_refl flip: Nil.hyps)
next
  case (Cons x xs)
  obtain t where xt: "x = TimeoutNode t"
    using timeout_item [OF kinv_kbase [OF Cons.prems], of x] Cons.hyps(2) by (metis list.set_intros(1))
  have l: "klist s TimeoutHead = TimeoutNode t # xs"
    using Cons.hyps(2) xt by simp
  note step = wake_expired_step [OF Cons.prems l, of now]
  show ?case
  proof (cases "timer_expired now (wakeup (tasks s t))")
    case False
    with step Cons.prems l show ?thesis
      by (simp add: due_tasks_def due_nodes_def expired_from_refl)
  next
    case True
    let ?e = "expire_task t s"
    note e = expire_task [OF Cons.prems l]
    have "wakeup (tasks ?e u) = wakeup (tasks s u)" for u by (simp add: e(3))
    then have due: "due_tasks now s = t # due_tasks now ?e"
      using True by (simp add: due_tasks_def due_nodes_def l e(2))
    have "TimeoutNode t \<notin> set xs"
      using items_distinct [OF kbaseD(3) [OF kinv_kbase [OF Cons.prems]], of TimeoutHead] l by simp
    then have "entry_timeout y \<noteq> t" if "y \<in> set xs" for y
      using timeout_item [OF kinv_kbase [OF Cons.prems], of y] that l by auto
    then have "t \<notin> set (due_tasks now ?e)"
      using e(2) by (auto simp: due_tasks_def due_nodes_def dest!: set_takeWhileD)
    then show ?thesis
      using Cons.hyps(1) [OF e(2) [symmetric] e(1)] step True expired_from_step [OF Cons.prems l]
      by (auto simp: due l e(2))
  qed
qed

end
