(* ===== verification/WaitQueue.thy ===== *)
theory WaitQueue
  imports SchedInv
begin

text \<open>
  Wait queues, \<^verbatim>\<open>src/kernel/wait_queue.c\<close>.  A wait queue is a list of blocked tasks in
  priority order; the object that owns it names it.  The routines with a yield take the
  instruction behind it as an argument, as \<open>task_yield\<close> does; the result \<open>None\<close> is a call that
  does not return.  The count of woken tasks is the C \<^verbatim>\<open>int\<close>, kept as its 32 bits.

  The lemmas show that blocking keeps every queue sorted by priority, first come first served
  among equals, that a wake takes the first waiter with the result the waker gives, and that
  waking all empties the queue and returns the number of waiters.
\<close>

subsection \<open>Definitions\<close>

definition arch_in_isr :: "'z kstate_scheme \<Rightarrow> bool" where
  "arch_in_isr s \<longleftrightarrow> trap_nesting s \<noteq> 0"

definition current_wait_result :: "'z kstate_scheme \<Rightarrow> task_wait_result_t" where
  "current_wait_result s = wait_result (tasks s (current_task s))"

definition trt_wait_q_init :: "wq_t \<Rightarrow> 'z kstate_scheme \<Rightarrow> 'z kstate_scheme" where
  "trt_wait_q_init wq = upd_lnk (INIT_LIST_HEAD (WaitHead wq))"

definition trt_wait_q_empty :: "wq_t \<Rightarrow> 'z kstate_scheme \<Rightarrow> bool" where
  "trt_wait_q_empty wq s = list_empty (WaitHead wq) (lnk s)"

definition trt_wait_q_block_locked ::
    "wq_t \<Rightarrow> 'z kstate_scheme \<Rightarrow> (err_t \<times> 'z kstate_scheme) option" where
  "trt_wait_q_block_locked wq s =
     (if wq = NullWq \<or> current_task s = 0 \<or> sched_is_locked s
      then Some (if wq = NullWq \<or> current_task s = 0 then ERR_INVAL else ERR_LOCKED,
                 sched_set_pending s)
      else Option.bind
        (sched_block_current (WaitHead wq)
          (upd_task (current_task s) (\<lambda>k. k\<lparr>wait_result := TASK_WAIT_NONE\<rparr>) s))
        (\<lambda>s1. Some (ERR_OK, s1)))"

text \<open>The result a blocked call returns once the task runs again.\<close>

definition wait_outcome :: "err_t \<Rightarrow> 'z kstate_scheme \<Rightarrow> err_t" where
  "wait_outcome other s =
     (if current_wait_result s = TASK_WAIT_OBJECT then ERR_OK
      else if current_wait_result s = TASK_WAIT_DESTROYED then ERR_DESTROYED
      else other)"

definition trt_wait_q_block ::
    "('z kstate_scheme \<Rightarrow> 'z kstate_scheme option) \<Rightarrow> wq_t \<Rightarrow> 'z kstate_scheme \<Rightarrow>
      (err_t \<times> 'z kstate_scheme) option" where
  "trt_wait_q_block arch_yield wq s =
     Option.bind (trt_wait_q_block_locked wq s) (\<lambda>(result, s1).
       if result \<noteq> ERR_OK then Some (result, s1)
       else Option.bind (task_yield arch_yield s1) (\<lambda>s2. Some (wait_outcome ERR_STATE s2, s2)))"

definition trt_wait_q_block_ticks_locked ::
    "wq_t \<Rightarrow> u32 \<Rightarrow> 'z kstate_scheme \<Rightarrow> (err_t \<times> 'z kstate_scheme) option" where
  "trt_wait_q_block_ticks_locked wq timeout_ticks s =
     (if timeout_ticks = 0 then Some (ERR_TIMEOUT, s)
      else Option.bind (trt_wait_q_block_locked wq s) (\<lambda>(result, s1).
        if result \<noteq> ERR_OK then Some (result, s1)
        else
          let t = current_task s1;
              s2 = upd_task t (\<lambda>k. k\<lparr>wakeup := tick_count s1 + timeout_ticks,
                     waiting_on_timer := True, wait_result := TASK_WAIT_NONE\<rparr>) s1
          in Option.bind (sched_timeout_insert t s2) (\<lambda>s3. Some (ERR_OK, s3))))"

definition trt_wait_q_block_ticks ::
    "('z kstate_scheme \<Rightarrow> 'z kstate_scheme option) \<Rightarrow> wq_t \<Rightarrow> u32 \<Rightarrow> 'z kstate_scheme \<Rightarrow>
      (err_t \<times> 'z kstate_scheme) option" where
  "trt_wait_q_block_ticks arch_yield wq timeout_ticks s =
     Option.bind (trt_wait_q_block_ticks_locked wq timeout_ticks s) (\<lambda>(result, s1).
       if result \<noteq> ERR_OK then Some (result, s1)
       else Option.bind (task_yield arch_yield s1) (\<lambda>s2. Some (wait_outcome ERR_TIMEOUT s2, s2)))"

definition trt_wait_q_block_timeout_locked ::
    "wq_t \<Rightarrow> trt_time_t \<Rightarrow> 'z kstate_scheme \<Rightarrow> (err_t \<times> 'z kstate_scheme) option" where
  "trt_wait_q_block_timeout_locked wq timeout s =
     (if timeout = TRT_TIME_FOREVER_US then trt_wait_q_block_locked wq s
      else trt_wait_q_block_ticks_locked wq (timer_us_to_ticks timeout) s)"

definition trt_wait_q_block_timeout ::
    "('z kstate_scheme \<Rightarrow> 'z kstate_scheme option) \<Rightarrow> wq_t \<Rightarrow> trt_time_t \<Rightarrow> 'z kstate_scheme \<Rightarrow>
      (err_t \<times> 'z kstate_scheme) option" where
  "trt_wait_q_block_timeout arch_yield wq timeout s =
     (if timeout = TRT_TIME_FOREVER_US then trt_wait_q_block arch_yield wq s
      else trt_wait_q_block_ticks arch_yield wq (timer_us_to_ticks timeout) s)"

definition trt_wait_q_wake_one_result_locked ::
    "wq_t \<Rightarrow> task_wait_result_t \<Rightarrow> 'z kstate_scheme \<Rightarrow> ptr \<times> 'z kstate_scheme" where
  "trt_wait_q_wake_one_result_locked wq result s =
     (if wq = NullWq then (0, s)
      else
        let (t, s1) = sched_wake_one (WaitHead wq) s;
            s2 = (if t \<noteq> 0 \<and> sched_is_locked s1 then sched_set_pending s1 else s1)
        in (t, if t \<noteq> 0 then upd_task t (\<lambda>k. k\<lparr>wait_result := result\<rparr>) s2 else s2))"

definition trt_wait_q_wake_one_locked :: "wq_t \<Rightarrow> 'z kstate_scheme \<Rightarrow> ptr \<times> 'z kstate_scheme" where
  "trt_wait_q_wake_one_locked wq s = trt_wait_q_wake_one_result_locked wq TASK_WAIT_OBJECT s"

definition trt_wait_q_wake_one :: "wq_t \<Rightarrow> 'z kstate_scheme \<Rightarrow> ptr \<times> 'z kstate_scheme" where
  "trt_wait_q_wake_one wq s = trt_wait_q_wake_one_locked wq s"

definition trt_wait_q_wake_one_from_isr :: "wq_t \<Rightarrow> 'z kstate_scheme \<Rightarrow> ptr \<times> 'z kstate_scheme" where
  "trt_wait_q_wake_one_from_isr wq s =
     (if \<not> arch_in_isr s then (0, s)
      else let (t, s1) = trt_wait_q_wake_one_locked wq s in
        (t, if t \<noteq> 0 then sched_request_from_isr s1 else s1))"

text \<open>The loop of \<^verbatim>\<open>trt_wait_q_wake_all_result_locked\<close>.\<close>

partial_function (option) wake_all_loop ::
    "wq_t \<Rightarrow> task_wait_result_t \<Rightarrow> u32 \<Rightarrow> 'z kstate_scheme \<Rightarrow> (u32 \<times> 'z kstate_scheme) option" where
  "wake_all_loop wq result count s =
     (let r = trt_wait_q_wake_one_result_locked wq result s in
      if fst r \<noteq> 0 then wake_all_loop wq result (count + 1) (snd r) else Some (count, snd r))"

definition trt_wait_q_wake_all_result_locked ::
    "wq_t \<Rightarrow> task_wait_result_t \<Rightarrow> 'z kstate_scheme \<Rightarrow> (u32 \<times> 'z kstate_scheme) option" where
  "trt_wait_q_wake_all_result_locked wq result s =
     (if wq = NullWq then Some (0, s) else wake_all_loop wq result 0 s)"

definition trt_wait_q_wake_all_locked ::
    "wq_t \<Rightarrow> 'z kstate_scheme \<Rightarrow> (u32 \<times> 'z kstate_scheme) option" where
  "trt_wait_q_wake_all_locked wq s = trt_wait_q_wake_all_result_locked wq TASK_WAIT_OBJECT s"

definition trt_wait_q_wake_all :: "wq_t \<Rightarrow> 'z kstate_scheme \<Rightarrow> (u32 \<times> 'z kstate_scheme) option" where
  "trt_wait_q_wake_all wq s = trt_wait_q_wake_all_locked wq s"

definition trt_wait_q_wake_all_from_isr ::
    "wq_t \<Rightarrow> 'z kstate_scheme \<Rightarrow> (u32 \<times> 'z kstate_scheme) option" where
  "trt_wait_q_wake_all_from_isr wq s =
     (if \<not> arch_in_isr s then Some (0, s)
      else Option.bind (trt_wait_q_wake_all_locked wq s) (\<lambda>(count, s1).
        Some (count, if count \<noteq> 0 then sched_request_from_isr s1 else s1)))"

subsection \<open>Scheduler flags\<close>

lemma set_pending_simps [simp]:
  "tasks (sched_set_pending s) = tasks s" "lnk (sched_set_pending s) = lnk s"
  "ready_mask (sched_set_pending s) = ready_mask s"
  "current_task (sched_set_pending s) = current_task s"
  "idle_task (sched_set_pending s) = idle_task s"
  "lock_count (sched_set_pending s) = lock_count s"
  "tick_count (sched_set_pending s) = tick_count s"
  "trap_nesting (sched_set_pending s) = trap_nesting s"
  "started (sched_set_pending s) = started s"
  "resched_pending (sched_set_pending s)"
  "kstate.more (sched_set_pending s) = kstate.more s"
  by (simp_all add: sched_set_pending_def)

lemma kinv_set_pending [simp]: "kinv T W s \<Longrightarrow> kinv T W (sched_set_pending s)"
  by (rule kinv_frame) simp_all

lemma request_from_isr_eq [simp]: "sched_request_from_isr s = sched_set_pending s"
  by (simp add: sched_request_from_isr_def)

lemma empty_waiters:
  assumes "kinv T W s" and "w \<in> W"
  shows "trt_wait_q_empty w s \<longleftrightarrow> klist s (WaitHead w) = []"
  using klist_head_empty [OF kinv_kbase [OF assms(1)], of "WaitHead w"] assms(2)
  by (simp add: trt_wait_q_empty_def)

subsection \<open>Waking one task\<close>

text \<open>The tasks waiting on a queue, in queue order.\<close>

definition waiters :: "'z kstate_scheme \<Rightarrow> wq_t \<Rightarrow> ptr list" where
  "waiters s w = map entry_state (klist s (WaitHead w))"

lemma waiter_nodes:
  assumes k: "kinv T W s" and w: "w \<in> W"
  shows "klist s (WaitHead w) = map StateNode (waiters s w)" and "set (waiters s w) \<subseteq> T"
proof -
  have "\<exists>t\<in>T. x = StateNode t" if "x \<in> set (klist s (WaitHead w))" for x
    using state_head_item [OF kinv_kbase [OF k], of "WaitHead w" x] w that by simp
  then have "StateNode (entry_state x) = x" "entry_state x \<in> T" if "x \<in> set (klist s (WaitHead w))" for x
    using that by force+
  then show "klist s (WaitHead w) = map StateNode (waiters s w)" "set (waiters s w) \<subseteq> T"
    by (auto simp: waiters_def comp_def map_idI)
qed

lemma waiters_distinct:
  assumes k: "kinv T W s" and w: "w \<in> W"
  shows "distinct (waiters s w)"
proof -
  have "distinct (map StateNode (waiters s w))"
    using items_distinct [OF kbaseD(3) [OF kinv_kbase [OF k]], of "WaitHead w"] w
    by (simp add: waiter_nodes(1) [OF k w, symmetric])
  then show ?thesis by (simp add: distinct_map)
qed

lemma waiter_blocked:
  assumes k: "kinv T W s" and w: "w \<in> W" and t: "t \<in> set (waiters s w)"
  shows "t \<in> T" and "task_state (tasks s t) = TASK_BLOCKED" and "t \<noteq> idle_task s" and "t \<noteq> 0"
    and "w' \<in> W \<Longrightarrow> t \<in> set (waiters s w') \<Longrightarrow> w' = w"
proof -
  show T: "t \<in> T" using waiter_nodes(2) [OF k w] t by blast
  have m: "StateNode t \<in> set (klist s (WaitHead w))"
    using t by (simp add: waiter_nodes(1) [OF k w])
  show "task_state (tasks s t) = TASK_BLOCKED"
    using kinv_blocked_list [OF k T w m] .
  then show "t \<noteq> idle_task s"
    using kinv_task_ok [OF k T] by (simp add: task_ok_def)
  show "t \<noteq> 0" using kbaseD(1) [OF kinv_kbase [OF k]] T by blast
  show "w' = w" if "w' \<in> W" "t \<in> set (waiters s w')"
    using state_node_unique [OF kinv_kbase [OF k], of "WaitHead w'" "WaitHead w" "StateNode t"]
      that w m by (simp add: waiter_nodes(1) [OF k that(1)])
qed

lemma wake_result_empty:
  assumes k: "kinv T W s" and w: "w \<in> W" and e: "waiters s w = []"
  shows "trt_wait_q_wake_one_result_locked w r s = (0, s)"
proof -
  have "klist s (WaitHead w) = []" using e by (simp add: waiters_def)
  with wake_one_empty [OF kinv_kbase [OF k] w] kbaseD(2) [OF kinv_kbase [OF k]] w show ?thesis
    by (auto simp: trt_wait_q_wake_one_result_locked_def)
qed

text \<open>
  The state after a wake of task \<open>t\<close>: only the links, the ready mask, the record of \<open>t\<close> and the
  pending flag can differ.
\<close>

lemma wake_one_shape:
  "\<exists>l m ts. snd (sched_wake_one h s) = s\<lparr>tasks := ts, lnk := l, ready_mask := m\<rparr>"
proof (intro exI)
  let ?u = "snd (sched_wake_one h s)"
  show "?u = s\<lparr>tasks := tasks ?u, lnk := lnk ?u, ready_mask := ready_mask ?u\<rparr>"
    by (rule kstate.equality) (simp_all add: sched_wake_one_def Let_def)
qed

lemma wake_result_first:
  assumes k: "kinv T W s" and w: "w \<in> W" and x: "waiters s w = t # ts"
  fixes r :: task_wait_result_t
  defines "s' \<equiv> snd (trt_wait_q_wake_one_result_locked w r s)"
  shows "trt_wait_q_wake_one_result_locked w r s = (t, s')"
    and "kinv T W s'"
    and "tasks s' = (tasks s)(t := (tasks s t)\<lparr>waiting_on_timer := False, task_state := TASK_READY,
      wait_result := r\<rparr>)"
    and "h \<in> kheads W \<Longrightarrow> klist s' h =
      (if h = WaitHead w then map StateNode ts
       else if h = ReadyHead (prio s t) then klist s h @ [StateNode t]
       else if h = TimeoutHead then remove1 (TimeoutNode t) (klist s h) else klist s h)"
    and "current_task s' = current_task s" and "idle_task s' = idle_task s"
    and "lock_count s' = lock_count s" and "tick_count s' = tick_count s"
    and "trap_nesting s' = trap_nesting s" and "started s' = started s"
    and "kstate.more s' = kstate.more s"
    and "resched_pending s' \<longleftrightarrow> resched_pending s \<or> sched_is_locked s"
proof -
  have kl: "klist s (WaitHead w) = StateNode t # map StateNode ts"
    using waiter_nodes(1) [OF k w] x by simp
  note o = wake_one_nonempty [OF k w kl]
  let ?s1 = "snd (sched_wake_one (WaitHead w) s)"
  have nw: "w \<noteq> NullWq" using kbaseD(2) [OF kinv_kbase [OF k]] w by blast
  obtain l m f where sh: "?s1 = s\<lparr>tasks := f, lnk := l, ready_mask := m\<rparr>"
    using wake_one_shape by blast
  have lk: "sched_is_locked ?s1 = sched_is_locked s" by (simp add: sh sched_is_locked_def)
  define s2 where "s2 = (if sched_is_locked s then sched_set_pending ?s1 else ?s1)"
  have k2: "kinv T W s2" using o(4) by (simp add: s2_def)
  have s': "trt_wait_q_wake_one_result_locked w r s = (t, upd_task t (\<lambda>k. k\<lparr>wait_result := r\<rparr>) s2)"
    using nw o(1,3) lk unfolding trt_wait_q_wake_one_result_locked_def s2_def Let_def
    by (simp split: prod.split) (metis prod.inject)
  then show "trt_wait_q_wake_one_result_locked w r s = (t, s')"
    by (simp add: s'_def)
  have e: "s' = upd_task t (\<lambda>k. k\<lparr>wait_result := r\<rparr>) s2" using s' by (simp add: s'_def)
  show "kinv T W s'"
    unfolding e by (rule kinv_upd_task_inert [OF k2 o(2)]) simp_all
  have f2: "tasks s2 = tasks ?s1" "lnk s2 = lnk ?s1" by (simp_all add: s2_def)
  show "tasks s' = (tasks s)(t := (tasks s t)\<lparr>waiting_on_timer := False, task_state := TASK_READY,
      wait_result := r\<rparr>)"
    by (simp add: e f2 o(5))
  show "klist s' h =
      (if h = WaitHead w then map StateNode ts
       else if h = ReadyHead (prio s t) then klist s h @ [StateNode t]
       else if h = TimeoutHead then remove1 (TimeoutNode t) (klist s h) else klist s h)"
    if "h \<in> kheads W"
    using o(6) [OF that] by (simp add: e f2)
  show "current_task s' = current_task s" "idle_task s' = idle_task s"
    "lock_count s' = lock_count s" "tick_count s' = tick_count s"
    "trap_nesting s' = trap_nesting s" "started s' = started s" "kstate.more s' = kstate.more s"
    "resched_pending s' \<longleftrightarrow> resched_pending s \<or> sched_is_locked s"
    by (simp_all add: e s2_def sh)
qed

lemma waiters_after_wake:
  assumes k: "kinv T W s" and w: "w \<in> W" and x: "waiters s w = t # ts"
  fixes r :: task_wait_result_t
  defines "s' \<equiv> snd (trt_wait_q_wake_one_result_locked w r s)"
  shows "waiters s' w = ts" and "v \<in> W \<Longrightarrow> v \<noteq> w \<Longrightarrow> waiters s' v = waiters s v"
proof -
  note f = wake_result_first(4) [OF k w x, where r = r, folded s'_def]
  show "waiters s' w = ts"
    using f [of "WaitHead w"] w by (simp add: waiters_def comp_def)
  show "waiters s' v = waiters s v" if "v \<in> W" "v \<noteq> w"
    using f [of "WaitHead v"] that by (simp add: waiters_def)
qed

subsection \<open>Waking all tasks\<close>

definition woken :: "task_wait_result_t \<Rightarrow> task_t \<Rightarrow> task_t" where
  "woken r k = k\<lparr>waiting_on_timer := False, task_state := TASK_READY, wait_result := r\<rparr>"

text \<open>What \<open>s'\<close> is when every waiter of \<open>w\<close> was woken with result \<open>r\<close>.\<close>

definition all_woken :: "wq_t set \<Rightarrow> wq_t \<Rightarrow> task_wait_result_t \<Rightarrow> 'z kstate_scheme \<Rightarrow>
    'z kstate_scheme \<Rightarrow> bool" where
  "all_woken W w r s s' \<longleftrightarrow>
    waiters s' w = [] \<and> (\<forall>v\<in>W. v \<noteq> w \<longrightarrow> waiters s' v = waiters s v) \<and>
    tasks s' = (\<lambda>t. if t \<in> set (waiters s w) then woken r (tasks s t) else tasks s t) \<and>
    current_task s' = current_task s \<and> idle_task s' = idle_task s \<and>
    lock_count s' = lock_count s \<and> trap_nesting s' = trap_nesting s \<and> started s' = started s \<and>
    tick_count s' = tick_count s \<and> kstate.more s' = kstate.more s"

lemma all_woken_step:
  assumes k: "kinv T W s" and w: "w \<in> W" and x: "waiters s w = t # ts"
  fixes r :: task_wait_result_t
  defines "s1 \<equiv> snd (trt_wait_q_wake_one_result_locked w r s)"
  assumes a: "all_woken W w r s1 s'"
  shows "all_woken W w r s s'"
proof -
  note f = wake_result_first [OF k w x, where r = r, folded s1_def]
    and v = waiters_after_wake [OF k w x, where r = r, folded s1_def]
  have "t \<notin> set ts" using waiters_distinct [OF k w] x by simp
  then have "tasks s' = (\<lambda>u. if u \<in> set (waiters s w) then woken r (tasks s u) else tasks s u)"
    using a f(3) x v(1) by (intro ext) (simp add: all_woken_def woken_def)
  moreover have "\<forall>u\<in>W. u \<noteq> w \<longrightarrow> waiters s' u = waiters s u"
    using a v(2) by (simp add: all_woken_def)
  ultimately show ?thesis
    using a f(5-11) unfolding all_woken_def by simp
qed

lemma wake_all_loop:
  assumes "kinv T W s" and "w \<in> W"
  shows "\<exists>s'. wake_all_loop w r c s = Some (c + of_nat (length (waiters s w)), s') \<and>
    kinv T W s' \<and> all_woken W w r s s'"
  using assms
proof (induction "waiters s w" arbitrary: s c)
  case Nil
  then have "trt_wait_q_wake_one_result_locked w r s = (0, s)"
    using wake_result_empty [OF Nil(2,3)] by simp
  then have "wake_all_loop w r c s = Some (c, s)"
    by (subst wake_all_loop.simps) simp
  then show ?case
    using Nil by (simp add: all_woken_def flip: Nil(1))
next
  case (Cons t ts)
  have x: "waiters s w = t # ts" using Cons(2) by simp
  define s1 where "s1 = snd (trt_wait_q_wake_one_result_locked w r s)"
  note f = wake_result_first [OF Cons(3,4) x, where r = r, folded s1_def]
    and v = waiters_after_wake(1) [OF Cons(3,4) x, where r = r, folded s1_def]
  have "fst (trt_wait_q_wake_one_result_locked w r s) = t" by (simp only: f(1) fst_conv)
  moreover have "t \<noteq> 0" using waiter_blocked(4) [OF Cons(3,4), of t] x by simp
  ultimately have step: "wake_all_loop w r c s = wake_all_loop w r (c + 1) s1"
    unfolding s1_def by (subst wake_all_loop.simps) (simp add: Let_def)
  obtain s' where s': "wake_all_loop w r (c + 1) s1 = Some (c + 1 + of_nat (length (waiters s1 w)), s')"
    "kinv T W s'" "all_woken W w r s1 s'"
    using Cons(1) [OF v [symmetric] f(2) Cons(4), of "c + 1"] by blast
  moreover have "c + 1 + of_nat (length (waiters s1 w)) = c + of_nat (length (waiters s w))"
    by (simp add: v x add.assoc)
  ultimately show ?case
    using step all_woken_step [OF Cons(3,4) x, where r = r, folded s1_def, OF s'(3)] by metis
qed

lemma wake_all:
  assumes k: "kinv T W s" and w: "w \<in> W"
  shows "\<exists>s'. trt_wait_q_wake_all_result_locked w r s = Some (of_nat (length (waiters s w)), s') \<and>
    kinv T W s' \<and> all_woken W w r s s'"
proof -
  have "w \<noteq> NullWq" using kbaseD(2) [OF kinv_kbase [OF k]] w by blast
  then show ?thesis
    using wake_all_loop [OF assms, of r 0] by (simp add: trt_wait_q_wake_all_result_locked_def)
qed

subsection \<open>Blocking\<close>

text \<open>Where a task enters a queue: behind every waiter of at least its priority.\<close>

definition enter_waiters :: "'z kstate_scheme \<Rightarrow> ptr \<Rightarrow> ptr list \<Rightarrow> ptr list" where
  "enter_waiters s t us =
     takeWhile (\<lambda>u. prio s t \<le> prio s u) us @ t # dropWhile (\<lambda>u. prio s t \<le> prio s u) us"

definition waiters_sorted :: "'z kstate_scheme \<Rightarrow> wq_t \<Rightarrow> bool" where
  "waiters_sorted s w \<longleftrightarrow> sorted_wrt (\<lambda>t u. prio s u \<le> prio s t) (waiters s w)"

lemma set_enter_waiters [simp]: "set (enter_waiters s t us) = insert t (set us)"
proof -
  have "set us = set (takeWhile (\<lambda>u. prio s t \<le> prio s u) us) \<union>
      set (dropWhile (\<lambda>u. prio s t \<le> prio s u) us)"
    by (metis set_append takeWhile_dropWhile_id)
  then show ?thesis by (auto simp: enter_waiters_def)
qed

lemma sorted_dropWhile_ge:
  assumes "sorted_wrt (\<lambda>t u. prio s u \<le> prio s t) us" and "y \<in> set (dropWhile (\<lambda>u. p \<le> prio s u) us)"
  shows "prio s y < p"
  using assms
proof (induction us)
  case (Cons u us)
  then show ?case by (cases "p \<le> prio s u") auto
qed simp

lemma enter_waiters_sorted:
  assumes "sorted_wrt (\<lambda>t u. prio s u \<le> prio s t) us"
  shows "sorted_wrt (\<lambda>t u. prio s u \<le> prio s t) (enter_waiters s t us)"
proof -
  let ?P = "\<lambda>u. prio s t \<le> prio s u"
  have "sorted_wrt (\<lambda>t u. prio s u \<le> prio s t) (takeWhile ?P us @ dropWhile ?P us)"
    using assms by simp
  then have "sorted_wrt (\<lambda>t u. prio s u \<le> prio s t) (takeWhile ?P us)"
    "sorted_wrt (\<lambda>t u. prio s u \<le> prio s t) (dropWhile ?P us)"
    "\<forall>x\<in>set (takeWhile ?P us). \<forall>y\<in>set (dropWhile ?P us). prio s y \<le> prio s x"
    unfolding sorted_wrt_append by blast+
  moreover have "\<forall>y\<in>set (dropWhile ?P us). prio s y \<le> prio s t"
    using sorted_dropWhile_ge [OF assms, of _ "prio s t"] by (simp add: less_imp_le)
  moreover have "\<forall>x\<in>set (takeWhile ?P us). prio s t \<le> prio s x"
    by (auto dest: set_takeWhileD)
  ultimately show ?thesis
    unfolding enter_waiters_def sorted_wrt_append sorted_wrt.simps(2) list.simps(15) by blast
qed

lemma prio_cmp: "\<not> priority (tasks s u) < priority (tasks s t) \<longleftrightarrow> prio s t \<le> prio s u"
  by (simp add: word_less_nat_alt not_less)

lemma block_locked_rejected:
  "w = NullWq \<or> current_task s = 0 \<Longrightarrow>
    trt_wait_q_block_locked w s = Some (ERR_INVAL, sched_set_pending s)"
  "w \<noteq> NullWq \<Longrightarrow> current_task s \<noteq> 0 \<Longrightarrow> sched_is_locked s \<Longrightarrow>
    trt_wait_q_block_locked w s = Some (ERR_LOCKED, sched_set_pending s)"
  by (auto simp: trt_wait_q_block_locked_def)

definition may_block :: "'z kstate_scheme \<Rightarrow> bool" where
  "may_block s \<longleftrightarrow> current_task s \<noteq> 0 \<and> current_task s \<noteq> idle_task s \<and>
     task_state (tasks s (current_task s)) = TASK_RUNNING \<and> \<not> sched_is_locked s"

lemma current_in_T: "kinv T W s \<Longrightarrow> current_task s \<noteq> 0 \<Longrightarrow> current_task s \<in> T"
  using kbaseD(8) [OF kinv_kbase] by blast

lemma block_locked:
  assumes k: "kinv T W s" and w: "w \<in> W" and m: "may_block s"
  shows "\<exists>s'. trt_wait_q_block_locked w s = Some (ERR_OK, s') \<and> kinv T W s' \<and>
    waiters s' w = enter_waiters s (current_task s) (waiters s w) \<and>
    (\<forall>v\<in>W. v \<noteq> w \<longrightarrow> waiters s' v = waiters s v) \<and>
    (\<forall>h\<in>kheads W. h \<noteq> WaitHead w \<longrightarrow> klist s' h = klist s h) \<and>
    tasks s' = (tasks s)(current_task s := (tasks s (current_task s))
      \<lparr>wait_result := TASK_WAIT_NONE, task_state := TASK_BLOCKED, waiting_on_timer := False\<rparr>) \<and>
    s' = s\<lparr>tasks := tasks s', lnk := lnk s'\<rparr>"
proof -
  let ?t = "current_task s"
  let ?s0 = "upd_task ?t (\<lambda>k. k\<lparr>wait_result := TASK_WAIT_NONE\<rparr>) s"
  note T = current_in_T [OF k]
  have t: "?t \<noteq> 0" "?t \<noteq> idle_task s" "task_state (tasks s ?t) = TASK_RUNNING" "\<not> sched_is_locked s"
    using m by (simp_all add: may_block_def)
  have k0: "kinv T W ?s0"
    using T [OF t(1)] by (intro kinv_upd_task_inert [OF k]) simp_all
  have nw: "w \<noteq> NullWq" using kbaseD(2) [OF kinv_kbase [OF k]] w by blast
  obtain s' where b: "sched_block_current (WaitHead w) ?s0 = Some s'" "kinv T W s'"
    "tasks s' = (tasks ?s0)(?t := (tasks ?s0 ?t)\<lparr>task_state := TASK_BLOCKED, waiting_on_timer := False\<rparr>)"
    "\<forall>h\<in>kheads W. klist s' h =
        (if h = WaitHead w
         then takeWhile (\<lambda>x. \<not> priority (tasks ?s0 (entry_state x)) < priority (tasks ?s0 ?t)) (klist ?s0 h)
           @ StateNode ?t #
           dropWhile (\<lambda>x. \<not> priority (tasks ?s0 (entry_state x)) < priority (tasks ?s0 ?t)) (klist ?s0 h)
         else klist ?s0 h)"
    "s' = ?s0\<lparr>tasks := tasks s', lnk := lnk s'\<rparr>"
    using block_current_running [OF k0, of ?t w] t w by auto
  have p: "(\<lambda>x. \<not> priority (tasks ?s0 (entry_state x)) < priority (tasks ?s0 ?t)) =
      (\<lambda>u. prio s ?t \<le> prio s u) \<circ> entry_state"
    by (rule ext) (simp add: word_less_nat_alt not_less)
  have "klist s' (WaitHead w) = takeWhile ((\<lambda>u. prio s ?t \<le> prio s u) \<circ> entry_state) (klist s (WaitHead w))
      @ StateNode ?t # dropWhile ((\<lambda>u. prio s ?t \<le> prio s u) \<circ> entry_state) (klist s (WaitHead w))"
    using b(4) w unfolding p by simp
  then have "waiters s' w = enter_waiters s ?t (waiters s w)"
    by (simp add: waiters_def enter_waiters_def takeWhile_map dropWhile_map)
  moreover have "\<forall>v\<in>W. v \<noteq> w \<longrightarrow> waiters s' v = waiters s v"
    using b(4) by (simp add: waiters_def)
  moreover have "trt_wait_q_block_locked w s = Some (ERR_OK, s')"
    using b(1) t nw by (simp add: trt_wait_q_block_locked_def)
  moreover have "s' = s\<lparr>tasks := tasks s', lnk := lnk s'\<rparr>"
    by (subst b(5)) (simp add: upd_task_def)
  ultimately show ?thesis
    using b(2-4) by (intro exI [of _ s']) simp
qed

text \<open>Blocking with a timeout also enters the timeout list, behind every earlier wake-up time.\<close>

definition enter_timeouts :: "'z kstate_scheme \<Rightarrow> ptr \<Rightarrow> u32 \<Rightarrow> knode list \<Rightarrow> knode list" where
  "enter_timeouts s t at xs =
     takeWhile (\<lambda>x. \<not> sint (at - wakeup (tasks s (entry_timeout x))) < 0) xs @
     TimeoutNode t # dropWhile (\<lambda>x. \<not> sint (at - wakeup (tasks s (entry_timeout x))) < 0) xs"

lemma takeWhile_dropWhile_cong:
  assumes "\<And>x. x \<in> set xs \<Longrightarrow> P x = Q x"
  shows "takeWhile P xs = takeWhile Q xs" and "dropWhile P xs = dropWhile Q xs"
  using assms by (auto intro: takeWhile_cong dropWhile_cong)

lemma block_ticks_locked:
  assumes k: "kinv T W s" and w: "w \<in> W" and m: "may_block s" and n: "n \<noteq> 0"
  shows "\<exists>s'. trt_wait_q_block_ticks_locked w n s = Some (ERR_OK, s') \<and> kinv T W s' \<and>
    waiters s' w = enter_waiters s (current_task s) (waiters s w) \<and>
    (\<forall>v\<in>W. v \<noteq> w \<longrightarrow> waiters s' v = waiters s v) \<and>
    klist s' TimeoutHead =
      enter_timeouts s (current_task s) (tick_count s + n) (klist s TimeoutHead) \<and>
    tasks s' = (tasks s)(current_task s := (tasks s (current_task s))
      \<lparr>task_state := TASK_BLOCKED, wakeup := tick_count s + n, waiting_on_timer := True,
       wait_result := TASK_WAIT_NONE\<rparr>) \<and>
    s' = s\<lparr>tasks := tasks s', lnk := lnk s'\<rparr>"
proof -
  let ?t = "current_task s" and ?at = "tick_count s + n"
  obtain s1 where b: "trt_wait_q_block_locked w s = Some (ERR_OK, s1)" "kinv T W s1"
    "waiters s1 w = enter_waiters s ?t (waiters s w)"
    "\<forall>v\<in>W. v \<noteq> w \<longrightarrow> waiters s1 v = waiters s v"
    "\<forall>h\<in>kheads W. h \<noteq> WaitHead w \<longrightarrow> klist s1 h = klist s h"
    "tasks s1 = (tasks s)(?t := (tasks s ?t)
      \<lparr>wait_result := TASK_WAIT_NONE, task_state := TASK_BLOCKED, waiting_on_timer := False\<rparr>)"
    "s1 = s\<lparr>tasks := tasks s1, lnk := lnk s1\<rparr>"
    using block_locked [OF k w m] by blast
  have cur: "current_task s1 = ?t" "tick_count s1 = tick_count s" "idle_task s1 = idle_task s"
    by (subst b(7); simp)+
  have t: "?t \<in> T" "?t \<noteq> 0" "?t \<noteq> idle_task s"
    using m current_in_T [OF k] by (simp_all add: may_block_def)
  let ?f = "\<lambda>k :: task_t. k\<lparr>wakeup := ?at, waiting_on_timer := True, wait_result := TASK_WAIT_NONE\<rparr>"
  define s2 where "s2 = upd_task ?t ?f s1"
  have k2: "kbut T W ?t s2"
    unfolding s2_def by (rule kbut_upd_task [OF kinv_kbut [OF b(2)] t(1)]) simp
  have in_w: "StateNode ?t \<in> set (klist s2 (WaitHead w))"
    using waiter_nodes(1) [OF b(2) w] b(3) by (simp add: s2_def)
  have "TimeoutNode ?t \<notin> set (klist s2 TimeoutHead)"
    using kinv_task_ok [OF b(2) t(1)] by (simp add: task_ok_def s2_def b(6))
  moreover have "task_state (tasks s2 ?t) = TASK_BLOCKED" "waiting_on_timer (tasks s2 ?t)"
    "?t \<noteq> idle_task s2"
    using t(3) cur(3) by (simp_all add: s2_def b(6))
  ultimately obtain s' where i: "sched_timeout_insert ?t s2 = Some s'" "kinv T W s'" "tasks s' = tasks s2"
    "\<forall>h\<in>kheads W. klist s' h = (if h = TimeoutHead
         then takeWhile (\<lambda>x. \<not> sint (wakeup (tasks s2 ?t) - wakeup (tasks s2 (entry_timeout x))) < 0)
             (klist s2 h) @ TimeoutNode ?t #
           dropWhile (\<lambda>x. \<not> sint (wakeup (tasks s2 ?t) - wakeup (tasks s2 (entry_timeout x))) < 0)
             (klist s2 h)
         else klist s2 h)" "s' = s2\<lparr>lnk := lnk s'\<rparr>"
    using timeout_insert_blocked [OF k2 t(1)] in_w w by blast
  have eq: "trt_wait_q_block_ticks_locked w n s = Some (ERR_OK, s')"
    using n b(1) i(1) by (simp add: trt_wait_q_block_ticks_locked_def cur s2_def Let_def)
  have ts: "tasks s' = (tasks s)(?t := (tasks s ?t)
      \<lparr>task_state := TASK_BLOCKED, wakeup := ?at, waiting_on_timer := True,
       wait_result := TASK_WAIT_NONE\<rparr>)"
    by (simp add: i(3) s2_def b(6))
  have wt: "waiters s' v = waiters s1 v" if "v \<in> W" for v
    using i(4) that by (simp add: waiters_def s2_def)
  have "klist s' TimeoutHead = enter_timeouts s ?t ?at (klist s TimeoutHead)"
  proof -
    have to: "klist s2 TimeoutHead = klist s TimeoutHead" using b(5) by (simp add: s2_def)
    have ne: "entry_timeout x \<noteq> ?t" if x: "x \<in> set (klist s TimeoutHead)" for x
    proof
      assume "entry_timeout x = ?t"
      moreover obtain u where "x = TimeoutNode u"
        using timeout_item [OF kinv_kbase [OF k] x] by blast
      ultimately have "TimeoutNode ?t \<in> set (klist s TimeoutHead)" using x by simp
      then show False using timed_task(2) [OF k] m by (simp add: may_block_def)
    qed
    have "(\<lambda>x. \<not> sint (wakeup (tasks s2 ?t) - wakeup (tasks s2 (entry_timeout x))) < 0) x =
        (\<lambda>x. \<not> sint (?at - wakeup (tasks s (entry_timeout x))) < 0) x"
      if "x \<in> set (klist s TimeoutHead)" for x
      using ne [OF that] by (simp add: s2_def b(6))
    note c = takeWhile_dropWhile_cong [OF this]
    show ?thesis
      using i(4) unfolding enter_timeouts_def by (simp add: to c)
  qed
  moreover have "s' = s\<lparr>tasks := tasks s', lnk := lnk s'\<rparr>"
  proof -
    have "s' = s2\<lparr>tasks := tasks s', lnk := lnk s'\<rparr>"
      using i(3,5) by (metis kstate.surjective kstate.update_convs(1,2))
    also have "\<dots> = s\<lparr>tasks := tasks s', lnk := lnk s'\<rparr>"
      unfolding s2_def upd_task_def by (subst b(7)) simp
    finally show ?thesis .
  qed
  ultimately show ?thesis
    using eq i(2) ts wt b(3,4) w by (intro exI [of _ s']) simp
qed

subsection \<open>Sorted queues stay sorted\<close>

lemma waiters_sorted_cong:
  assumes "waiters s' w = us" and "\<And>t. priority (tasks s' t) = priority (tasks s t)"
  shows "waiters_sorted s' w \<longleftrightarrow> sorted_wrt (\<lambda>t u. prio s u \<le> prio s t) us"
  using assms by (simp add: waiters_sorted_def)

lemma block_sorted:
  assumes "waiters s' w = enter_waiters s t (waiters s w)"
    and "\<And>t. priority (tasks s' t) = priority (tasks s t)" and "waiters_sorted s w"
  shows "waiters_sorted s' w"
  using assms enter_waiters_sorted [of s "waiters s w" t]
  by (simp add: waiters_sorted_cong waiters_sorted_def [of s])

lemma wake_sorted:
  assumes k: "kinv T W s" and w: "w \<in> W" and x: "waiters s w = t # ts" and srt: "waiters_sorted s w"
  fixes r :: task_wait_result_t
  defines "s' \<equiv> snd (trt_wait_q_wake_one_result_locked w r s)"
  shows "waiters_sorted s' w" and "\<forall>u\<in>set ts. prio s u \<le> prio s t"
proof -
  show "\<forall>u\<in>set ts. prio s u \<le> prio s t"
    using srt x by (simp add: waiters_sorted_def)
  have p: "\<And>u. priority (tasks s' u) = priority (tasks s u)"
    using wake_result_first(3) [OF k w x, where r = r] by (simp add: s'_def)
  have "waiters s' w = ts"
    using waiters_after_wake(1) [OF k w x, where r = r] by (simp add: s'_def)
  from waiters_sorted_cong [OF this p] show "waiters_sorted s' w"
    using srt x by (simp add: waiters_sorted_def)
qed

end
