(* ===== verification/SchedBoot.thy ===== *)
theory SchedBoot
  imports WaitQueue
begin

text \<open>
  Where the invariant of \<open>SchedInv\<close> comes from and how its task set and queue set grow:
  \<^verbatim>\<open>sched_init\<close> establishes it with no task and no queue, a new control block joins it, a new
  wait queue joins it, and an empty queue may leave it.
\<close>

subsection \<open>Initialisation\<close>

lemma fold_INIT:
  assumes "lists_wf l H N" and "distinct ps" and "\<And>p. p \<in> set ps \<Longrightarrow> ReadyHead p \<notin> H \<union> N"
  shows "lists_wf (fold (\<lambda>p. INIT_LIST_HEAD (ReadyHead p)) ps l) (H \<union> ReadyHead ` set ps) N \<and>
    (\<forall>h\<in>H. items (fold (\<lambda>p. INIT_LIST_HEAD (ReadyHead p)) ps l) h = items l h) \<and>
    (\<forall>p\<in>set ps. items (fold (\<lambda>p. INIT_LIST_HEAD (ReadyHead p)) ps l) (ReadyHead p) = [])"
  using assms
proof (induction ps arbitrary: l H)
  case (Cons p ps)
  let ?l = "INIT_LIST_HEAD (ReadyHead p) l"
  have n: "ReadyHead p \<notin> H \<union> N" using Cons.prems by simp
  note i = INIT_head_wf [OF Cons.prems(1) n] items_INIT [OF Cons.prems(1) n]
  have "ReadyHead q \<notin> insert (ReadyHead p) H \<union> N" if "q \<in> set ps" for q
    using Cons.prems that by auto
  note IH = Cons.IH [OF i(1) _ this]
  have "items ?l h = items l h" if "h \<in> H" for h
    using i(2) [of h] that n by auto
  then show ?case
    using IH Cons.prems(2) i(2) [of "ReadyHead p"] by (auto simp: insert_commute)
qed simp

definition boot_links :: "knode links \<Rightarrow> knode links" where
  "boot_links l = fold (\<lambda>p. INIT_LIST_HEAD (ReadyHead p)) [0..<32]
     (INIT_LIST_HEAD TimeoutHead (INIT_LIST_HEAD DeletedHead (INIT_LIST_HEAD MasterHead l)))"

lemma boot_links_wf:
  "lists_wf (boot_links l) (kheads {}) (knodes {})"
  "h \<in> kheads {} \<Longrightarrow> items (boot_links l) h = []"
proof -
  let ?l1 = "INIT_LIST_HEAD MasterHead l" and ?l2 = "INIT_LIST_HEAD DeletedHead (INIT_LIST_HEAD MasterHead l)"
  let ?l3 = "INIT_LIST_HEAD TimeoutHead ?l2"
  have 1: "lists_wf ?l1 {MasterHead} {}" "items ?l1 MasterHead = []"
    using INIT_head_wf [OF lists_wf_empty] by (simp_all add: items_INIT_same)
  have 2: "lists_wf ?l2 {DeletedHead, MasterHead} {}" "items ?l2 DeletedHead = []" "items ?l2 MasterHead = []"
    using INIT_head_wf [OF 1(1), of DeletedHead] items_INIT [OF 1(1), of DeletedHead] 1(2) by simp_all
  have 3: "lists_wf ?l3 {TimeoutHead, DeletedHead, MasterHead} {}"
    "\<And>h. h \<in> {TimeoutHead, DeletedHead, MasterHead} \<Longrightarrow> items ?l3 h = []"
    using INIT_head_wf [OF 2(1), of TimeoutHead] items_INIT [OF 2(1), of TimeoutHead] 2(2,3) by auto
  have heads: "{TimeoutHead, DeletedHead, MasterHead} \<union> ReadyHead ` set [0..<32] = kheads {}"
    by (auto simp: kheads_def)
  note f = fold_INIT [OF 3(1) distinct_upt [of 0 32], folded boot_links_def, unfolded heads]
  show "lists_wf (boot_links l) (kheads {}) (knodes {})"
    using f by (simp add: knodes_def)
  show "items (boot_links l) h = []" if "h \<in> kheads {}"
    using f 3(2) that by (auto simp: kheads_def)
qed

lemma sched_init_links:
  "\<not> sched_initialized s \<Longrightarrow> lnk (sched_init s) = boot_links (lnk s)"
  by (simp add: sched_init_def boot_links_def)

lemma sched_init_kinv:
  assumes "\<not> sched_initialized s"
  shows "kinv {} {} (sched_init s)"
proof -
  note l = sched_init_links [OF assms] and w = boot_links_wf [where l = "lnk s"]
  have "mask_ok (sched_init s)"
    using assms w(2) by (simp add: mask_ok_def l) (simp add: sched_init_def)
  moreover have "current_task (sched_init s) = 0" "idle_task (sched_init s) = 0"
    using assms by (simp_all add: sched_init_def)
  ultimately show ?thesis
    using w by (simp add: kinv_def kbase_def l)
qed

subsection \<open>A new wait queue\<close>

lemma kheads_insert: "kheads (insert w W) = insert (WaitHead w) (kheads W)"
  by (auto simp: kheads_def)

lemma task_ok_new_queue:
  assumes k: "kinv T W s" and t: "t \<in> T" and w: "w \<notin> W"
    and l: "\<And>h. h \<in> kheads (insert w W) \<Longrightarrow>
      klist s' h = (if h = WaitHead w then [] else klist s h)"
    and wf: "lists_wf (lnk s') (kheads (insert w W)) (knodes T)"
    and same: "tasks s' = tasks s" "current_task s' = current_task s" "idle_task s' = idle_task s"
  shows "task_ok (insert w W) s' t"
proof -
  note b = kinv_kbase [OF k]
  have old: "klist s' h = klist s h" if "h \<in> kheads W" for h
    using l [of h] that w by (auto simp: kheads_insert)
  have new: "klist s' (WaitHead w) = []" using l [of "WaitHead w"] by (simp add: kheads_insert)
  have "list_empty (StateNode t) (lnk s') \<longleftrightarrow> list_empty (StateNode t) (lnk s)"
    using list_empty_node [OF wf, of "StateNode t"] list_empty_state [OF b t] old new t
    by (simp add: kheads_insert)
  moreover have "ReadyHead (prio s t) \<in> kheads W" using kbaseD(7) [OF b t] by simp
  ultimately show ?thesis
    using kinv_task_ok [OF k t] old new same
    by (auto simp: task_ok_def split: task_state_t.splits)
qed

lemma wait_q_init:
  assumes k: "kinv T W s" and w: "w \<notin> W" "w \<noteq> NullWq"
  shows "kinv T (insert w W) (trt_wait_q_init w s)"
    and "waiters (trt_wait_q_init w s) w = []"
    and "v \<in> W \<Longrightarrow> waiters (trt_wait_q_init w s) v = waiters s v"
    and "h \<in> kheads W \<Longrightarrow> klist (trt_wait_q_init w s) h = klist s h"
proof -
  note b = kinv_kbase [OF k]
  let ?s = "trt_wait_q_init w s"
  have l: "lnk ?s = INIT_LIST_HEAD (WaitHead w) (lnk s)" by (simp add: trt_wait_q_init_def)
  have n: "WaitHead w \<notin> kheads W \<union> knodes T" using w by simp
  have wf: "lists_wf (lnk ?s) (kheads (insert w W)) (knodes T)"
    using INIT_head_wf [OF kbaseD(3) [OF b] n] by (simp add: l kheads_insert)
  have it: "klist ?s h = (if h = WaitHead w then [] else klist s h)" if "h \<in> kheads (insert w W)" for h
    using items_INIT [OF kbaseD(3) [OF b] n] that by (simp add: l kheads_insert)
  show k': "klist ?s h = klist s h" if "h \<in> kheads W" for h
    using it [of h] that w by (auto simp: kheads_insert)
  have f: "tasks ?s = tasks s" "current_task ?s = current_task s" "idle_task ?s = idle_task s"
    "ready_mask ?s = ready_mask s" by (simp_all add: trt_wait_q_init_def)
  have "kbase T (insert w W) ?s"
    using kbaseD [OF b] w wf it f by (auto simp: kbase_def mask_ok_def kheads_insert split: if_splits)
  then show "kinv T (insert w W) ?s"
    using task_ok_new_queue [OF k _ w(1) it wf f(1-3)] by (simp add: kinv_def)
  show "waiters ?s w = []" using it [of "WaitHead w"] by (simp add: waiters_def)
  show "waiters ?s v = waiters s v" if "v \<in> W"
    using k' [of "WaitHead v"] that by (simp add: waiters_def)
qed

text \<open>An empty queue can be forgotten, as when its object is freed.\<close>

lemma forget_queue:
  assumes k: "kinv T W s" and w: "w \<in> W" and e: "waiters s w = []"
  shows "kinv T (W - {w}) s"
proof -
  note b = kinv_kbase [OF k]
  have heads: "kheads (W - {w}) = kheads W - {WaitHead w}" using w by (auto simp: kheads_def)
  have i: "klist s (WaitHead w) = []" using e by (simp add: waiters_def)
  have "lists_wf (lnk s) (kheads (W - {w})) (knodes T)"
    using lists_wf_remove_head [OF kbaseD(3) [OF b], of "WaitHead w"] w i by (simp add: heads)
  then have "kbase T (W - {w}) s"
    using kbaseD [OF b] by (auto simp: kbase_def heads)
  moreover have "task_ok (W - {w}) s t" if "t \<in> T" for t
    using kinv_task_ok [OF k that] i by (auto simp: task_ok_def split: task_state_t.splits)
  ultimately show ?thesis by (simp add: kinv_def)
qed

subsection \<open>A new task\<close>

lemma kinv_upd_outside:
  assumes k: "kinv T W s" and t: "t \<notin> T"
  shows "kinv T W (upd_task t f s)"
proof -
  note b = kinv_kbase [OF k]
  have "kbase T W (upd_task t f s)"
    using kbaseD [OF b] t by (auto simp: kbase_def mask_ok_def)
  moreover have "task_ok W (upd_task t f s) t'" if "t' \<in> T" for t'
  proof -
    have "t' \<noteq> t" using that t by auto
    then show ?thesis
      using task_ok_cong [OF b, of "upd_task t f s" t'] kbaseD(3) [OF b] that kinv_task_ok [OF k that]
      by simp
  qed
  ultimately show ?thesis by (simp add: kinv_def)
qed

definition init_task_nodes :: "ptr \<Rightarrow> knode links \<Rightarrow> knode links" where
  "init_task_nodes t l =
     INIT_LIST_HEAD (TimeoutNode t) (INIT_LIST_HEAD (StateNode t) (INIT_LIST_HEAD (MasterNode t) l))"

lemma knodes_insert:
  "knodes (insert t T) = insert (TimeoutNode t) (insert (StateNode t) (insert (MasterNode t) (knodes T)))"
  by (auto simp: knodes_def)

lemma init_task_nodes:
  assumes wf: "lists_wf l (kheads W) (knodes T)" and t: "t \<notin> T"
  shows "lists_wf (init_task_nodes t l) (kheads W) (knodes (insert t T))"
    and "h \<in> kheads W \<Longrightarrow> items (init_task_nodes t l) h = items l h"
    and "n \<in> {MasterNode t, StateNode t, TimeoutNode t} \<Longrightarrow> list_empty n (init_task_nodes t l)"
    and "n \<in> knodes T \<Longrightarrow> list_empty n (init_task_nodes t l) \<longleftrightarrow> list_empty n l"
proof -
  let ?l1 = "INIT_LIST_HEAD (MasterNode t) l"
  let ?l2 = "INIT_LIST_HEAD (StateNode t) ?l1"
  have 1: "MasterNode t \<notin> kheads W \<union> knodes T" using t by simp
  note i1 = INIT_node_wf [OF wf 1] items_INIT [OF wf 1] list_empty_INIT [OF wf 1]
  have 2: "StateNode t \<notin> kheads W \<union> insert (MasterNode t) (knodes T)" using t by simp
  note i2 = INIT_node_wf [OF i1(1) 2] items_INIT [OF i1(1) 2] list_empty_INIT [OF i1(1) 2]
  have 3: "TimeoutNode t \<notin> kheads W \<union> insert (StateNode t) (insert (MasterNode t) (knodes T))"
    using t by simp
  note i3 = INIT_node_wf [OF i2(1) 3] items_INIT [OF i2(1) 3] list_empty_INIT [OF i2(1) 3]
  show "lists_wf (init_task_nodes t l) (kheads W) (knodes (insert t T))"
    using i3(1) by (simp add: init_task_nodes_def knodes_insert)
  show "items (init_task_nodes t l) h = items l h" if "h \<in> kheads W"
    using that i1(2) [of h] i2(2) [of h] i3(2) [of h] by (auto simp: init_task_nodes_def)
  show "list_empty n (init_task_nodes t l)" if "n \<in> {MasterNode t, StateNode t, TimeoutNode t}"
    using that i1(3) [of n] i2(3) [of n] i3(3) [of n] by (auto simp: init_task_nodes_def)
  show "list_empty n (init_task_nodes t l) \<longleftrightarrow> list_empty n l" if "n \<in> knodes T"
    using that i1(3) [of n] i2(3) [of n] i3(3) [of n] t by (auto simp: init_task_nodes_def)
qed

lemma add_task:
  assumes k: "kinv T W s" and t: "t \<notin> T" "t \<noteq> 0"
    and p: "prio s t < 32" and st: "task_state (tasks s t) = TASK_READY"
  defines "s' \<equiv> sched_add_task t (upd_lnk (init_task_nodes t) s)"
  shows "kinv (insert t T) W s'" and "tasks s' = tasks s"
    and "current_task s' = current_task s" "idle_task s' = idle_task s" "tick_count s' = tick_count s"
    and "h \<in> kheads W \<Longrightarrow> klist s' h =
      (if h = MasterHead then klist s h @ [MasterNode t]
       else if h = ReadyHead (prio s t) then klist s h @ [StateNode t] else klist s h)"
proof -
  note b = kinv_kbase [OF k]
  let ?T = "insert t T" and ?l = "init_task_nodes t (lnk s)"
  note i = init_task_nodes [OF kbaseD(3) [OF b] t(1)]
  have nt: "t \<noteq> current_task s" "t \<noteq> idle_task s" using t kbaseD(8,9) [OF b] by auto
  let ?m = "list_add_tail (MasterNode t) MasterHead ?l"
  have em: "list_empty (MasterNode t) ?l" by (rule i(3)) simp
  have mwf: "lists_wf ?m (kheads W) (knodes ?T)"
    using list_add_tail_wf [OF i(1) _ _ em, of MasterHead] by simp
  have mit: "items ?m h = (if h = MasterHead then klist s h @ [MasterNode t] else klist s h)"
    if "h \<in> kheads W" for h
    using items_list_add_tail [OF i(1) _ _ em that, of MasterHead] i(2) that by simp
  have mem: "list_empty n ?m \<longleftrightarrow> n \<noteq> MasterNode t \<and> list_empty n ?l" if "n \<in> knodes ?T" for n
    using list_empty_add_tail [OF i(1) _ _ em that, of MasterHead] by simp
  define s1 where "s1 = upd_lnk (\<lambda>_. ?m) s"
  have kb: "kbase ?T W s1"
    unfolding kbase_def
  proof (intro conjI ballI)
    fix h x assume h: "h \<in> kheads W" and x: "x \<in> set (klist s1 h)"
    show "fits h x"
      using x mit [OF h] kbaseD(4) [OF b h, of x] by (auto simp: s1_def split: if_splits)
  next
    show "mask_ok s1" using kbaseD(6) [OF b] mit by (simp add: s1_def mask_ok_def)
  qed (use kbaseD [OF b] t p mwf mit in \<open>auto simp: s1_def\<close>)
  have ok1: "task_ok W s1 t'" if "t' \<in> T" for t'
  proof -
    have ne: "t' \<noteq> t" using that t by auto
    have "list_empty (StateNode t') (lnk s1) \<longleftrightarrow> list_empty (StateNode t') (lnk s)"
      using mem [of "StateNode t'"] i(4) [of "StateNode t'"] that by (simp add: s1_def)
    then show ?thesis
      using kinv_task_ok [OF k that] mit kbaseD(7) [OF b that]
      by (auto simp: task_ok_def s1_def split: task_state_t.splits)
  qed
  have k1: "kbut ?T W t s1" using kb ok1 by (simp add: kbut_def)
  have u: "list_empty (StateNode t) (lnk s1)"
    using mem [of "StateNode t"] i(3) [of "StateNode t"] by (simp add: s1_def)
  have nto: "TimeoutNode t \<notin> set (klist s1 TimeoutHead)"
    using timeout_item [OF b, of "TimeoutNode t"] mit [of TimeoutHead] t by (auto simp: s1_def)
  have eq: "s' = sched_ready_enqueue t s1"
    by (simp add: s'_def sched_add_task_def s1_def upd_lnk_def)
  show "kinv ?T W s'"
    unfolding eq by (rule make_ready [OF k1 _ u _ nto]) (use st in \<open>simp_all add: s1_def\<close>)
  show "tasks s' = tasks s" "current_task s' = current_task s" "idle_task s' = idle_task s"
    "tick_count s' = tick_count s"
    by (simp_all add: eq s1_def)
  show "klist s' h =
      (if h = MasterHead then klist s h @ [MasterNode t]
       else if h = ReadyHead (prio s t) then klist s h @ [StateNode t] else klist s h)"
    if "h \<in> kheads W"
    using ready_enqueue_lists [OF kb _ u _ that] st mit [OF that] by (auto simp: eq s1_def)
qed

subsection \<open>The idle task\<close>

lemma set_idle:
  assumes k: "kinv T W s" and t: "t \<in> T" and st: "task_state (tasks s t) = TASK_READY"
    and none: "idle_task s = 0"
  shows "kinv T W (sched_set_idle_task t s)"
proof -
  note b = kinv_kbase [OF k]
  have "kbase T W (sched_set_idle_task t s)"
    using kbaseD [OF b] t by (auto simp: kbase_def sched_set_idle_task_def mask_ok_def)
  moreover have "task_ok W (sched_set_idle_task t s) t'" if "t' \<in> T" for t'
  proof -
    have "t' \<noteq> 0" using kbaseD(1) [OF b] that by blast
    then show ?thesis
      using kinv_task_ok [OF k that] st none
      by (auto simp: task_ok_def sched_set_idle_task_def split: task_state_t.splits)
  qed
  ultimately show ?thesis by (simp add: kinv_def)
qed

subsection \<open>A small system\<close>

text \<open>
  A system of an idle task and three application tasks, two of priority 5 and one of priority 7,
  built with the scheduler's own operations on any state whose scheduler is not initialised yet,
  and the same system after the first choice of a task.
\<close>

definition demo_task :: "u32 \<Rightarrow> task_t" where
  "demo_task p = \<lparr>task_name = replicate 20 0, task_sp = 0, stack_base = 0, stack_size = 0, wakeup = 0,
     waiting_on_timer = False, wait_result = TASK_WAIT_NONE, task_state = TASK_READY, priority = p,
     base_priority = p, effective_priority = p, task_handle = 0, task_entry = 0, task_arg = 0\<rparr>"

definition demo_add :: "ptr \<Rightarrow> u32 \<Rightarrow> 'z kstate_scheme \<Rightarrow> 'z kstate_scheme" where
  "demo_add t p s = sched_add_task t (upd_lnk (init_task_nodes t) (upd_task t (\<lambda>_. demo_task p) s))"

definition demo_boot :: "'z kstate_scheme \<Rightarrow> 'z kstate_scheme" where
  "demo_boot s = demo_add 0x300 7 (demo_add 0x200 5 (demo_add 0x100 5
     (sched_set_idle_task 0x400 (demo_add 0x400 0 (sched_init s)))))"

definition demo_run :: "'z kstate_scheme \<Rightarrow> 'z kstate_scheme" where
  "demo_run s = (case sched_pick_next (demo_boot s) of Some (t, s') \<Rightarrow> s'\<lparr>current_task := t\<rparr>
     | None \<Rightarrow> s)"

definition blank_links :: "'n links" where
  "blank_links = \<lparr>nxt = \<lambda>x. x, prv = \<lambda>x. x\<rparr>"

definition blank_kstate :: kstate where
  "blank_kstate = \<lparr>tasks = \<lambda>_. demo_task 0, lnk = blank_links, ready_mask = 0, current_task = 0,
     idle_task = 0, time_slice_ticks = 0, sched_initialized = False, started = False, lock_count = 0,
     resched_pending = False, tick_count = 0, trap_nesting = 0\<rparr>"

abbreviation demo_T :: "ptr set" where
  "demo_T \<equiv> {0x100, 0x200, 0x300, 0x400}"

lemma demo_add:
  assumes k: "kinv T W s" and t: "t \<notin> T" "t \<noteq> 0" and p: "unat p < 32"
  shows "kinv (insert t T) W (demo_add t p s)"
    and "tasks (demo_add t p s) = (tasks s)(t := demo_task p)"
    and "current_task (demo_add t p s) = current_task s" "idle_task (demo_add t p s) = idle_task s"
    and "h \<in> kheads W \<Longrightarrow> klist (demo_add t p s) h =
      (if h = MasterHead then klist s h @ [MasterNode t]
       else if h = ReadyHead (unat p) then klist s h @ [StateNode t] else klist s h)"
  using add_task [OF kinv_upd_outside [OF k t(1), of "\<lambda>_. demo_task p"] t] p
  by (simp_all add: demo_add_def demo_task_def)

lemma demo_boot:
  assumes "\<not> sched_initialized s"
  shows "kinv demo_T {} (demo_boot s)"
    and "tasks (demo_boot s) = (tasks s)(0x400 := demo_task 0, 0x100 := demo_task 5,
      0x200 := demo_task 5, 0x300 := demo_task 7)"
    and "current_task (demo_boot s) = 0" "idle_task (demo_boot s) = 0x400"
    and "h \<in> kheads {} \<Longrightarrow> klist (demo_boot s) h =
      (if h = MasterHead then [MasterNode 0x400, MasterNode 0x100, MasterNode 0x200, MasterNode 0x300]
       else if h = ReadyHead 0 then [StateNode 0x400]
       else if h = ReadyHead 5 then [StateNode 0x100, StateNode 0x200]
       else if h = ReadyHead 7 then [StateNode 0x300] else [])"
proof -
  have i: "current_task (sched_init s) = 0" "idle_task (sched_init s) = 0"
    "tasks (sched_init s) = tasks s"
    using assms by (simp_all add: sched_init_def)
  have l: "klist (sched_init s) h = []" if "h \<in> kheads {}" for h
    using boot_links_wf(2) [OF that] by (simp add: sched_init_links [OF assms])
  note a1 = demo_add [OF sched_init_kinv [OF assms], of "0x400" 0, simplified]
  have "task_state (tasks (demo_add 0x400 0 (sched_init s)) 0x400) = TASK_READY"
    by (simp add: a1(2) demo_task_def)
  note i1 = set_idle [OF a1(1) _ this, simplified]
  let ?s1 = "sched_set_idle_task 0x400 (demo_add 0x400 0 (sched_init s))"
  have k1: "kinv {0x400} {} ?s1" using i1 i a1(4) by simp
  have f1: "tasks ?s1 = (tasks s)(0x400 := demo_task 0)" "current_task ?s1 = 0" "idle_task ?s1 = 0x400"
    "\<And>h. h \<in> kheads {} \<Longrightarrow> klist ?s1 h = (if h = MasterHead then [MasterNode 0x400]
       else if h = ReadyHead 0 then [StateNode 0x400] else [])"
    using a1 i l by (simp_all add: sched_set_idle_task_def)
  note a2 = demo_add [OF k1, of "0x100" 5, simplified]
  note a3 = demo_add [OF a2(1), of "0x200" 5, simplified]
  note a4 = demo_add [OF a3(1), of "0x300" 7, simplified]
  show "kinv demo_T {} (demo_boot s)"
    using a4(1) by (simp add: demo_boot_def insert_commute)
  show "tasks (demo_boot s) = (tasks s)(0x400 := demo_task 0, 0x100 := demo_task 5,
      0x200 := demo_task 5, 0x300 := demo_task 7)"
    "current_task (demo_boot s) = 0" "idle_task (demo_boot s) = 0x400"
    using a2 a3 a4 f1 by (simp_all add: demo_boot_def)
  show "klist (demo_boot s) h =
      (if h = MasterHead then [MasterNode 0x400, MasterNode 0x100, MasterNode 0x200, MasterNode 0x300]
       else if h = ReadyHead 0 then [StateNode 0x400]
       else if h = ReadyHead 5 then [StateNode 0x100, StateNode 0x200]
       else if h = ReadyHead 7 then [StateNode 0x300] else [])" if "h \<in> kheads {}"
    unfolding demo_boot_def a4(5) [OF that] a3(5) [OF that] a2(5) [OF that] f1(4) [OF that]
    by (auto split: if_splits)
qed

lemma demo_boot_ready:
  assumes "\<not> sched_initialized s" and "p < 32"
  shows "ready_view (demo_boot s) p =
    (if p = 0 then [StateNode 0x400] else if p = 5 then [StateNode 0x100, StateNode 0x200]
     else if p = 7 then [StateNode 0x300] else [])"
  using demo_boot(5) [OF assms(1), of "ReadyHead p"] demo_boot(3) [OF assms(1)] assms(2)
  by (simp add: ready_view_def)

lemma demo_run:
  assumes "\<not> sched_initialized s"
  shows "kinv demo_T {} (demo_run s)"
    and "tasks (demo_run s) = (tasks s)(0x400 := demo_task 0, 0x100 := demo_task 5,
      0x200 := demo_task 5, 0x300 := (demo_task 7)\<lparr>task_state := TASK_RUNNING\<rparr>)"
    and "current_task (demo_run s) = 0x300" "idle_task (demo_run s) = 0x400"
    and "h \<in> kheads {} \<Longrightarrow> klist (demo_run s) h =
      (if h = MasterHead then [MasterNode 0x400, MasterNode 0x100, MasterNode 0x200, MasterNode 0x300]
       else if h = ReadyHead 0 then [StateNode 0x400]
       else if h = ReadyHead 5 then [StateNode 0x100, StateNode 0x200] else [])"
    and "lock_count (demo_run s) = 0"
proof -
  let ?b = "demo_boot s"
  note b = demo_boot [OF assms] and r = demo_boot_ready [OF assms]
  have rq: "requeue_current ?b = ?b" by (simp add: requeue_current_def b(3))
  have "(7 :: nat) < 32" "ready_view ?b 7 \<noteq> []" using r [of 7] by simp_all
  from pick_next_ready [OF b(1) this] obtain p t xs s' where
    p: "p < 32" "ready_view ?b p = StateNode t # xs" "\<forall>r<32. ready_view ?b r \<noteq> [] \<longrightarrow> r \<le> p"
    and pick: "sched_pick_next ?b = Some (t, s')" and k: "kinv demo_T {} (s'\<lparr>current_task := t\<rparr>)"
    and ts: "tasks s' = (tasks ?b)(t := (tasks ?b t)\<lparr>task_state := TASK_RUNNING\<rparr>)"
    and l: "\<forall>h\<in>kheads {}. klist s' h = (if h = ReadyHead p then xs else klist ?b h)"
    unfolding rq by blast
  have "7 \<le> p" using p(3) r [of 7] by simp
  then have p7: "p = 7" "t = 0x300" "xs = []" using p(1,2) r [OF p(1)] by (simp_all split: if_splits)
  have e: "demo_run s = s'\<lparr>current_task := 0x300\<rparr>" by (simp add: demo_run_def pick p7)
  show "kinv demo_T {} (demo_run s)" using k by (simp add: e p7)
  show "tasks (demo_run s) = (tasks s)(0x400 := demo_task 0, 0x100 := demo_task 5,
      0x200 := demo_task 5, 0x300 := (demo_task 7)\<lparr>task_state := TASK_RUNNING\<rparr>)"
    by (simp add: e ts p7 b(2))
  show "current_task (demo_run s) = 0x300" by (simp add: e)
  have "idle_task s' = idle_task ?b \<and> lock_count s' = lock_count ?b"
    using pick by (auto simp: sched_pick_next_def requeue_current_def b(3) sched_ready_pop_highest_def
      Let_def split: if_splits)
  then show "idle_task (demo_run s) = 0x400" "lock_count (demo_run s) = 0"
    using assms
    by (simp_all add: e b(4)) (simp add: demo_boot_def demo_add_def sched_add_task_def sched_init_def
       sched_set_idle_task_def)
  show "klist (demo_run s) h =
      (if h = MasterHead then [MasterNode 0x400, MasterNode 0x100, MasterNode 0x200, MasterNode 0x300]
       else if h = ReadyHead 0 then [StateNode 0x400]
       else if h = ReadyHead 5 then [StateNode 0x100, StateNode 0x200] else [])" if h: "h \<in> kheads {}"
    using bspec [OF l h] unfolding b(5) [OF h] by (simp add: e p7)
qed

end
