(* ===== verification/SchedTick.thy ===== *)
theory SchedTick
  imports SchedBoot
begin

unbundle bit_operations_syntax

text \<open>
  The decisions the scheduler takes on a tick: whether a task of higher priority is ready,
  whether the running task has used up its time slice, and which timeouts are due.
\<close>

subsection \<open>Tasks of higher priority\<close>

definition higher_ready :: "'z kstate_scheme \<Rightarrow> nat \<Rightarrow> bool" where
  "higher_ready s p \<longleftrightarrow> (\<exists>q<32. p < q \<and> klist s (ReadyHead q) \<noteq> [])"

definition peer_ready :: "'z kstate_scheme \<Rightarrow> nat \<Rightarrow> bool" where
  "peer_ready s p \<longleftrightarrow> klist s (ReadyHead p) \<noteq> []"

lemma bit_higher_priority_mask:
  assumes "unat p < 31"
  shows "bit (higher_priority_mask p) q \<longleftrightarrow> unat p < q \<and> q < 32"
proof -
  have "unat (p + 1) = unat p + 1"
    using assms by (simp add: unat_word_ariths)
  then have "higher_priority_mask p = NOT (mask (unat p + 1))"
    by (simp add: higher_priority_mask_def mask_eq_exp_minus_1 push_bit_eq_mult)
  then show ?thesis
    by (auto simp: bit_not_iff bit_mask_iff dest: bit_imp_le_length)
qed

lemma mask_hits:
  "(m :: u32) AND n \<noteq> 0 \<longleftrightarrow> (\<exists>q<32. bit m q \<and> bit n q)"
proof
  assume "m AND n \<noteq> 0"
  then obtain q where "bit (m AND n) q" by (metis bit_0_eq bit_eq_iff bot_apply bot_bool_def)
  then show "\<exists>q<32. bit m q \<and> bit n q"
    using bit_imp_le_length [of "m AND n" q] by (auto simp: bit_and_iff)
next
  assume "\<exists>q<32. bit m q \<and> bit n q"
  then obtain q where "bit (m AND n) q" by (auto simp: bit_and_iff)
  then show "m AND n \<noteq> 0" by (metis bit_0_eq bot_apply bot_bool_def)
qed

lemma higher_mask_iff:
  assumes "mask_ok s" and "unat p < 32"
  shows "p < RTOS_PRIORITY_MAX \<and> ready_mask s AND higher_priority_mask p \<noteq> 0 \<longleftrightarrow>
    higher_ready s (unat p)"
proof (cases "unat p < 31")
  case True
  then show ?thesis
    using mask_okD [OF assms(1)] bit_higher_priority_mask [OF True]
    by (auto simp: mask_hits higher_ready_def RTOS_PRIORITY_MAX_def word_less_nat_alt)
next
  case False
  then show ?thesis
    using assms(2) by (auto simp: higher_ready_def RTOS_PRIORITY_MAX_def word_less_nat_alt)
qed

lemma has_higher_priority_ready:
  assumes k: "kinv T W s" and c: "current_task s \<noteq> 0"
  shows "sched_has_higher_priority_ready s \<longleftrightarrow> higher_ready s (prio s (current_task s))"
proof -
  have "prio s (current_task s) < 32"
    using kbaseD(7) [OF kinv_kbase [OF k]] current_in_T [OF k c] by blast
  from higher_mask_iff [OF kbaseD(6) [OF kinv_kbase [OF k]] this] show ?thesis
    using c by (auto simp: sched_has_higher_priority_ready_def)
qed

subsection \<open>The tick of a running task\<close>

definition app_running :: "'z kstate_scheme \<Rightarrow> bool" where
  "app_running s \<longleftrightarrow> current_task s \<noteq> 0 \<and> current_task s \<noteq> idle_task s \<and>
     task_state (tasks s (current_task s)) = TASK_RUNNING"

lemma on_tick_running:
  assumes k: "kinv T W s" and r: "app_running s"
  defines "p \<equiv> prio s (current_task s)"
  shows "sched_on_tick s =
    (if higher_ready s p then (True, s\<lparr>time_slice_ticks := 0\<rparr>)
     else if \<not> peer_ready s p then (False, s)
     else if RTOS_TIME_SLICE_TICKS \<le> time_slice_ticks s + 1 then (True, s\<lparr>time_slice_ticks := 0\<rparr>)
     else (False, s\<lparr>time_slice_ticks := time_slice_ticks s + 1\<rparr>))"
proof -
  note b = kinv_kbase [OF k]
  let ?c = "current_task s"
  have c: "?c \<noteq> 0" "task_state (tasks s ?c) = TASK_RUNNING" "\<not> sched_current_is_idle s"
    using r by (simp_all add: app_running_def sched_current_is_idle_def)
  have p: "unat (priority (tasks s ?c)) < 32"
    using kbaseD(7) [OF b] current_in_T [OF k c(1)] by blast
  note hm = higher_mask_iff [OF kbaseD(6) [OF b] p]
  have le: "list_empty (ReadyHead p) (lnk s) \<longleftrightarrow> \<not> peer_ready s p"
    using klist_head_empty [OF b, of "ReadyHead p"] p by (simp add: peer_ready_def p_def)
  have "\<not> higher_ready s p \<and> \<not> peer_ready s p" if "ready_mask s = 0"
    using mask_zero_iff [OF kbaseD(6) [OF b]] that p by (simp add: higher_ready_def peer_ready_def p_def)
  then show ?thesis
    using c hm le unfolding sched_on_tick_def p_def Let_def by simp
qed

lemma on_tick_not_running:
  assumes "current_task s \<noteq> 0" and "\<not> app_running s"
  shows "sched_on_tick s = (True, s\<lparr>time_slice_ticks := 0\<rparr>)"
  using assms by (auto simp: sched_on_tick_def app_running_def sched_current_is_idle_def)

lemma on_tick_shape: "\<exists>n. snd (sched_on_tick s) = s\<lparr>time_slice_ticks := n\<rparr>"
proof
  show "snd (sched_on_tick s) = s\<lparr>time_slice_ticks := time_slice_ticks (snd (sched_on_tick s))\<rparr>"
    by (simp add: sched_on_tick_def Let_def)
qed

lemma on_tick_kinv:
  assumes "kinv T W s"
  shows "kinv T W (snd (sched_on_tick s))"
proof -
  obtain n where "snd (sched_on_tick s) = s\<lparr>time_slice_ticks := n\<rparr>" using on_tick_shape by blast
  with assms show ?thesis by (intro kinv_frame [OF assms]) simp_all
qed

subsection \<open>Timeouts\<close>

definition timed_tasks :: "'z kstate_scheme \<Rightarrow> ptr list" where
  "timed_tasks s = map entry_timeout (klist s TimeoutHead)"

definition timeouts_ok :: "'z kstate_scheme \<Rightarrow> bool" where
  "timeouts_ok s \<longleftrightarrow> deadlines_ok (tick_count s) (map (\<lambda>t. wakeup (tasks s t)) (timed_tasks s))"

definition next_tick :: "'z kstate_scheme \<Rightarrow> 'z kstate_scheme" where
  "next_tick s = s\<lparr>tick_count := tick_count s + 1\<rparr>"

lemma timed_tasks_iff:
  assumes k: "kinv T W s" and t: "t \<in> T"
  shows "t \<in> set (timed_tasks s) \<longleftrightarrow>
    task_state (tasks s t) = TASK_BLOCKED \<and> waiting_on_timer (tasks s t)"
proof -
  have "x = TimeoutNode (entry_timeout x)" if "x \<in> set (klist s TimeoutHead)" for x
    using timeout_item [OF kinv_kbase [OF k] that] by auto
  then have "t \<in> set (timed_tasks s) \<longleftrightarrow> TimeoutNode t \<in> set (klist s TimeoutHead)"
    by (force simp: timed_tasks_def)
  then show ?thesis using kinv_task_ok [OF k t] by (simp add: task_ok_def)
qed

lemma due_tasks_alt:
  "due_tasks now s = takeWhile (\<lambda>t. timer_expired now (wakeup (tasks s t))) (timed_tasks s)"
  by (simp add: due_tasks_def due_nodes_def timed_tasks_def takeWhile_map comp_def)

lemma due_on_tick:
  assumes "timeouts_ok s"
  shows "due_tasks (tick_count s + 1) s =
    filter (\<lambda>t. wakeup (tasks s t) = tick_count s + 1) (timed_tasks s)"
  unfolding due_tasks_alt
  by (rule takeWhile_filter_map) (rule deadlines_tick(1) [OF assms [unfolded timeouts_ok_def]])

text \<open>After a tick exactly the tasks whose deadline it is are woken.\<close>

lemma wake_expired_on_tick:
  assumes k: "kinv T W s" and ok: "timeouts_ok s"
  shows "\<exists>s'. sched_wake_expired (next_tick s) = Some s' \<and> kinv T W s' \<and> timeouts_ok s' \<and>
    tick_count s' = tick_count s + 1 \<and>
    expired_from W (filter (\<lambda>t. wakeup (tasks s t) = tick_count s + 1) (timed_tasks s)) (next_tick s) s'"
proof -
  let ?n = "tick_count s + 1" and ?s = "next_tick s"
  have f: "tasks ?s = tasks s" "lnk ?s = lnk s" "tick_count ?s = ?n" "due_tasks ?n ?s = due_tasks ?n s"
    by (simp_all add: next_tick_def due_tasks_def due_nodes_def)
  have k': "kinv T W ?s" by (rule kinv_frame [OF k]) (simp_all add: next_tick_def)
  obtain s' where w: "wake_expired_loop ?n ?s = Some s'" "kinv T W s'"
    "klist s' TimeoutHead = drop (length (due_tasks ?n s)) (klist s TimeoutHead)"
    "expired_from W (due_tasks ?n s) ?s s'"
    using wake_expired_loop [OF k', of ?n] unfolding f by blast
  have tc: "tick_count s' = ?n"
  proof -
    obtain l m where "s' = ?s\<lparr>tasks := tasks s', lnk := l, ready_mask := m\<rparr>"
      using w(4) unfolding expired_from_def by blast
    then have "tick_count s' = tick_count (?s\<lparr>tasks := tasks s', lnk := l, ready_mask := m\<rparr>)" by simp
    then show ?thesis by (simp add: f)
  qed
  have wk: "wakeup (tasks s' t) = wakeup (tasks s t)" for t
    using w(4) by (simp add: expired_from_def f timed_out_def)
  have "timed_tasks s' = dropWhile (\<lambda>t. timer_expired ?n (wakeup (tasks s t))) (timed_tasks s)"
    by (simp add: timed_tasks_def w(3) due_tasks_alt drop_map [symmetric])
       (simp add: timed_tasks_def [symmetric] drop_length_takeWhile)
  then have "map (\<lambda>t. wakeup (tasks s' t)) (timed_tasks s') =
      dropWhile (timer_expired ?n) (map (\<lambda>t. wakeup (tasks s t)) (timed_tasks s))"
    by (simp add: wk dropWhile_map comp_def)
  then have "timeouts_ok s'"
    using deadlines_tick(2) [OF ok [unfolded timeouts_ok_def]] by (simp add: timeouts_ok_def tc)
  with w tc show ?thesis
    by (simp add: sched_wake_expired_def f due_on_tick [OF ok])
qed

text \<open>A bounded wait keeps the deadlines in order.\<close>

lemma enter_timeouts_ok:
  assumes k: "kinv T W s" and ok: "timeouts_ok s" and n: "0 < unat n" "unat n < 2 ^ 31"
    and st: "task_state (tasks s t) \<noteq> TASK_BLOCKED"
    and l: "klist s' TimeoutHead = enter_timeouts s t (tick_count s + n) (klist s TimeoutHead)"
    and w: "\<And>u. wakeup (tasks s' u) = (if u = t then tick_count s + n else wakeup (tasks s u))"
    and tc: "tick_count s' = tick_count s"
  shows "timeouts_ok s'"
proof -
  let ?a = "tick_count s + n" and ?f = "\<lambda>x. wakeup (tasks s (entry_timeout x))"
  let ?P = "\<lambda>d. \<not> sint (?a - d) < 0"
  have "entry_timeout x \<noteq> t" if "x \<in> set (klist s TimeoutHead)" for x
    using timeout_item [OF kinv_kbase [OF k] that] timed_task(2) [OF k] that st by auto
  then have same: "wakeup (tasks s' (entry_timeout x)) = ?f x" if "x \<in> set (klist s TimeoutHead)" for x
    using that w by simp
  let ?ds = "map ?f (klist s TimeoutHead)"
  have same': "map (\<lambda>x. wakeup (tasks s' (entry_timeout x))) xs = map ?f xs"
    if "set xs \<subseteq> set (klist s TimeoutHead)" for xs
    using same that by auto
  have sub: "set (takeWhile Q (klist s TimeoutHead)) \<subseteq> set (klist s TimeoutHead)"
    "set (dropWhile Q (klist s TimeoutHead)) \<subseteq> set (klist s TimeoutHead)" for Q
    by (auto dest: set_takeWhileD set_dropWhileD)
  have "map (\<lambda>t. wakeup (tasks s' t)) (timed_tasks s') = takeWhile ?P ?ds @ ?a # dropWhile ?P ?ds"
    using w [of t] by (simp add: timed_tasks_def l enter_timeouts_def takeWhile_map dropWhile_map
        comp_def same' [OF sub(1)] same' [OF sub(2)])
  moreover have "deadlines_ok (tick_count s) ?ds"
    using ok by (simp add: timeouts_ok_def timed_tasks_def comp_def)
  moreover have "ahead (tick_count s) ?a = unat n" by (simp add: ahead_def)
  ultimately show ?thesis
    using deadlines_insert n by (simp add: timeouts_ok_def tc)
qed

lemma timeouts_ok_remove1:
  assumes "timeouts_ok s" and "klist s' TimeoutHead = remove1 x (klist s TimeoutHead)"
    and "\<And>t. wakeup (tasks s' t) = wakeup (tasks s t)" and "tick_count s' = tick_count s"
  shows "timeouts_ok s'"
  using assms(1) deadlines_ok_remove1 [of "tick_count s" "\<lambda>x. wakeup (tasks s (entry_timeout x))"]
  by (simp add: timeouts_ok_def timed_tasks_def comp_def assms(2-4))

subsection \<open>Sleeping\<close>

lemma delay_block:
  assumes k: "kinv T W s" and r: "app_running s"
  shows "\<exists>s'. delay_block at s = Some s' \<and> kinv T W s' \<and>
    tasks s' = (tasks s)(current_task s := (tasks s (current_task s))\<lparr>wakeup := at,
      waiting_on_timer := True, wait_result := TASK_WAIT_NONE, task_state := TASK_BLOCKED\<rparr>) \<and>
    (\<forall>h\<in>kheads W. klist s' h =
      (if h = TimeoutHead then enter_timeouts s (current_task s) at (klist s h) else klist s h)) \<and>
    s' = s\<lparr>tasks := tasks s', lnk := lnk s'\<rparr>"
proof -
  let ?t = "current_task s"
  let ?f = "\<lambda>k :: task_t. k\<lparr>wakeup := at, waiting_on_timer := True, wait_result := TASK_WAIT_NONE,
    task_state := TASK_BLOCKED\<rparr>"
  define s1 where "s1 = upd_task ?t ?f s"
  have c: "?t \<noteq> 0" "?t \<noteq> idle_task s" "task_state (tasks s ?t) = TASK_RUNNING"
    using r by (simp_all add: app_running_def)
  note t = current_in_T [OF k c(1)]
  note run = running_facts [OF k t c(3)]
  have k1: "kbut T W ?t s1"
    unfolding s1_def by (rule kbut_upd_task [OF kinv_kbut [OF k] t]) simp
  have rr: "sched_ready_remove ?t s1 = s1"
    using run(1) by (simp add: sched_ready_remove_def s1_def)
  have s1: "task_state (tasks s1 ?t) = TASK_BLOCKED" "waiting_on_timer (tasks s1 ?t)"
    "list_empty (StateNode ?t) (lnk s1)" "TimeoutNode ?t \<notin> set (klist s1 TimeoutHead)" "?t \<noteq> idle_task s1"
    using run c by (simp_all add: s1_def)
  obtain s' where i: "sched_timeout_insert ?t s1 = Some s'" "kinv T W s'" "tasks s' = tasks s1"
    "\<forall>h\<in>kheads W. klist s' h = (if h = TimeoutHead
         then takeWhile (\<lambda>x. \<not> sint (wakeup (tasks s1 ?t) - wakeup (tasks s1 (entry_timeout x))) < 0)
             (klist s1 h) @ TimeoutNode ?t #
           dropWhile (\<lambda>x. \<not> sint (wakeup (tasks s1 ?t) - wakeup (tasks s1 (entry_timeout x))) < 0)
             (klist s1 h)
         else klist s1 h)" "s' = s1\<lparr>lnk := lnk s'\<rparr>"
    using timeout_insert_blocked [OF k1 t s1(1,2) _ s1(4,5)] s1(3) by blast
  have eq: "delay_block at s = Some s'"
    using i(1) by (simp add: delay_block_def Let_def rr flip: s1_def)
  have "entry_timeout x \<noteq> ?t" if "x \<in> set (klist s TimeoutHead)" for x
    using timeout_item [OF kinv_kbase [OF k] that] timed_task(2) [OF k] that c(3) by auto
  then have P: "\<not> sint (wakeup (tasks s1 ?t) - wakeup (tasks s1 (entry_timeout x))) < 0 \<longleftrightarrow>
      \<not> sint (at - wakeup (tasks s (entry_timeout x))) < 0"
    if "x \<in> set (klist s TimeoutHead)" for x
    using that by (simp add: s1_def)
  have l: "klist s1 h = klist s h" for h by (simp add: s1_def)
  have "klist s' TimeoutHead = enter_timeouts s ?t at (klist s TimeoutHead)"
    unfolding bspec [OF i(4) kheads_in(3)] l enter_timeouts_def
    by (simp only: refl if_True takeWhile_cong [OF refl P] dropWhile_cong [OF refl P])
  then have "klist s' h =
      (if h = TimeoutHead then enter_timeouts s ?t at (klist s h) else klist s h)" if "h \<in> kheads W" for h
    using bspec [OF i(4) that] l by (cases "h = TimeoutHead") simp_all
  moreover have "tasks s' = (tasks s)(?t := ?f (tasks s ?t))" by (simp add: i(3) s1_def)
  moreover have "s' = s\<lparr>tasks := tasks s', lnk := lnk s'\<rparr>"
    by (subst i(5)) (simp add: i(3) s1_def upd_task_def)
  ultimately show ?thesis
    using eq i(2) by blast
qed

end
