(* ===== verification/SchedSteps.thy ===== *)
theory SchedSteps
  imports SchedTick
begin

text \<open>
  The kernel as a transition system.  A configuration is the set of live tasks, the set of live
  wait queues and the kernel state; a step is one routine of the scheduler or of the wait queues
  that no trap interrupts.  The code masks the interrupts around all of them but two: the body of
  \<^verbatim>\<open>task_yield\<close> and the end of \<^verbatim>\<open>task_create_kernel\<close>.  The steps \<open>Yield\<close> and \<open>Add\<close> stand for the runs
  of these two that are not interrupted; the finer relation at the end of the theory splits them.
  Every configuration reachable from \<^verbatim>\<open>sched_init\<close> by such steps satisfies the scheduler invariant
  and keeps every wait queue sorted.
\<close>

subsection \<open>Queues across an operation\<close>

definition queues_sorted :: "wq_t set \<Rightarrow> 'z kstate_scheme \<Rightarrow> bool" where
  "queues_sorted W s \<longleftrightarrow> (\<forall>w\<in>W. waiters_sorted s w)"

lemma sorted_wrt_remove1: "sorted_wrt P xs \<Longrightarrow> sorted_wrt P (remove1 x xs)"
proof (induction xs)
  case (Cons y ys)
  then show ?case using set_remove1_subset [of x ys] by auto
qed simp

lemma queues_sorted_cong:
  assumes "queues_sorted W s" and "\<And>t. priority (tasks s' t) = priority (tasks s t)"
    and "\<And>w. w \<in> W \<Longrightarrow> waiters s' w = waiters s w"
  shows "queues_sorted W s'"
  using assms by (simp add: queues_sorted_def waiters_sorted_def)

lemma queues_sorted_klist:
  assumes "queues_sorted W s" and "\<And>t. priority (tasks s' t) = priority (tasks s t)"
    and "\<And>w. w \<in> W \<Longrightarrow> klist s' (WaitHead w) = klist s (WaitHead w)"
  shows "queues_sorted W s'"
  using assms by (intro queues_sorted_cong [OF assms(1,2)]) (simp_all add: waiters_def)

lemma waiters_remove1:
  assumes k: "kinv T W s" and w: "w \<in> W"
    and l: "klist s' (WaitHead w) = remove1 (StateNode t) (klist s (WaitHead w))"
  shows "waiters s' w = remove1 t (waiters s w)"
proof -
  have "remove1 (StateNode t) (map StateNode us) = map StateNode (remove1 t us)" for us
    by (induction us) auto
  then show ?thesis
    using l waiter_nodes(1) [OF k w] by (simp add: waiters_def [of s'] comp_def)
qed

lemma mark_deleted_queues:
  assumes k: "kinv T W s" and w: "w \<in> W" and t: "t \<in> T" "t \<noteq> idle_task s"
    "task_state (tasks s t) \<noteq> TASK_DELETED"
  shows "waiters (sched_mark_deleted t s) w = remove1 t (waiters s w)"
proof (rule waiters_remove1 [OF k w])
  have "TimeoutNode t \<notin> set (klist s (WaitHead w))"
    using timeout_node_head [OF kinv_kbase [OF k], of "WaitHead w" t] w by auto
  then show "klist (sched_mark_deleted t s) (WaitHead w) = remove1 (StateNode t) (klist s (WaitHead w))"
    using mark_deleted(3) [OF k t, of "WaitHead w"] w by simp
qed

lemma mark_deleted_prio: "priority (tasks (sched_mark_deleted t s) u) = priority (tasks s u)"
  by (simp add: sched_mark_deleted_def Let_def)

lemma pop_deleted_queues:
  assumes k: "kinv T W s" and x: "klist s DeletedHead = StateNode t # xs" and w: "w \<in> W"
  shows "klist (snd (sched_pop_deleted s)) (WaitHead w) = klist s (WaitHead w)"
proof -
  note b = kinv_kbase [OF k]
  have m: "StateNode t \<in> set (klist s DeletedHead)" by (simp add: x)
  have t: "t \<in> T" using state_head_item [OF b _ _ m] by auto
  have n1: "StateNode t \<notin> set (klist s (WaitHead w))"
    using state_node_unique [OF b _ _ m, of "WaitHead w"] w by auto
  have n2: "MasterNode t \<notin> set (klist s (WaitHead w))"
    using kbaseD(4) [OF b, of "WaitHead w" "MasterNode t"] w by auto
  let ?s1 = "upd_lnk (list_del_init (StateNode t)) s"
  have wf: "lists_wf (list_del_init (StateNode t) (lnk s)) (kheads W) (knodes T)"
    using list_del_init_wf [OF kbaseD(3) [OF b]] t by simp
  have 1: "items (list_del_init (StateNode t) (lnk s)) (WaitHead w) = klist s (WaitHead w)"
    using klist_del_init(1) [OF b, of "StateNode t" "WaitHead w"] t w n1 by simp
  have "items (list_del_init (MasterNode t) (list_del_init (StateNode t) (lnk s))) (WaitHead w) =
      klist s (WaitHead w)"
    using items_list_del_init [OF wf, of "MasterNode t" "WaitHead w"] t w n2 1 by simp
  moreover have "\<not> list_empty DeletedHead (lnk s)" "nxt (lnk s) DeletedHead = StateNode t"
    using klist_first [OF b _ x] by simp_all
  ultimately show ?thesis by (simp add: sched_pop_deleted_def)
qed

lemma pick_next_queues:
  assumes k: "kinv T W s" and p: "sched_pick_next s = Some (t, s')"
  shows "priority (tasks s' u) = priority (tasks s u)"
    and "w \<in> W \<Longrightarrow> klist s' (WaitHead w) = klist s (WaitHead w)"
    and "klist s' TimeoutHead = klist s TimeoutHead"
    and "wakeup (tasks s' u) = wakeup (tasks s u)"
    and "tick_count s' = tick_count s"
proof -
  note rq = requeue_current [OF k]
  have tc: "tick_count (requeue_current s) = tick_count s"
    by (simp add: requeue_current_def Let_def)
  have 1: "priority (tasks (requeue_current s) u) = priority (tasks s u)"
    "wakeup (tasks (requeue_current s) u) = wakeup (tasks s u)" for u
    by (simp_all add: rq(7))
  have tc': "tick_count s' = tick_count (requeue_current s)"
    using p by (auto simp: sched_pick_next_def sched_ready_pop_highest_def Let_def split: if_splits)
  have all: "priority (tasks s' u) = priority (tasks s u) \<and> wakeup (tasks s' u) = wakeup (tasks s u) \<and>
    (\<forall>h\<in>kheads W. (\<forall>q. h \<noteq> ReadyHead q) \<longrightarrow> klist s' h = klist s h)" for u
  proof (cases "\<exists>q<32. ready_view s q \<noteq> []")
    case True
    then obtain q where q: "q < 32" "ready_view s q \<noteq> []" by blast
    show ?thesis
      using pick_next_ready [OF k q] p 1 rq(6) by auto
  next
    case False
    then have "s' = set_task_state (idle_task s) TASK_RUNNING (requeue_current s) \<or> s' = requeue_current s"
      using pick_next_idle(1) [OF k] pick_next_none(1) [OF k] p by (cases "idle_task s = 0") auto
    then show ?thesis using 1 rq(6) by (elim disjE) (simp_all add: 1)
  qed
  then show "priority (tasks s' u) = priority (tasks s u)"
    "w \<in> W \<Longrightarrow> klist s' (WaitHead w) = klist s (WaitHead w)"
    "klist s' TimeoutHead = klist s TimeoutHead" "wakeup (tasks s' u) = wakeup (tasks s u)"
    "tick_count s' = tick_count s" using tc tc' by simp_all
qed

subsection \<open>The transition system\<close>

text \<open>
  The parameter \<open>B\<close> bounds the finite waits, in ticks.  A step that stands for a call from a task
  needs a running task that is not the idle task, which never blocks.  The queue of an object
  joins when the object is created and leaves, empty, when it is freed.
\<close>

inductive kstep :: "nat \<Rightarrow> ptr set \<Rightarrow> wq_t set \<Rightarrow> 'z kstate_scheme \<Rightarrow> ptr set \<Rightarrow> wq_t set \<Rightarrow>
    'z kstate_scheme \<Rightarrow> bool" for B :: nat where
  Add: "t \<notin> T \<Longrightarrow> t \<noteq> 0 \<Longrightarrow> unat (priority k) < 32 \<Longrightarrow> task_state k = TASK_READY \<Longrightarrow>
    kstep B T W s (insert t T) W (sched_add_task t (upd_lnk (init_task_nodes t) (upd_task t (\<lambda>_. k) s)))"
| Queue: "w \<notin> W \<Longrightarrow> w \<noteq> NullWq \<Longrightarrow> kstep B T W s T (insert w W) (trt_wait_q_init w s)"
| Unqueue: "waiters s w = [] \<Longrightarrow> kstep B T W s T (W - {w}) s"
| Block: "app_running s \<Longrightarrow> w \<in> W \<Longrightarrow> us = TRT_TIME_FOREVER_US \<or> unat (timer_us_to_ticks us) \<le> B \<Longrightarrow>
    trt_wait_q_block_timeout_locked w us s = Some (e, s') \<Longrightarrow> kstep B T W s T W s'"
| Sleep: "app_running s \<Longrightarrow> 0 < unat n \<Longrightarrow> unat n \<le> B \<Longrightarrow> delay_block (tick_count s + n) s = Some s' \<Longrightarrow>
    kstep B T W s T W s'"
| Yield: "app_running s \<Longrightarrow> task_yield Some s = Some s' \<Longrightarrow> kstep B T W s T W s'"
| Wake: "w \<in> W \<Longrightarrow> kstep B T W s T W (snd (trt_wait_q_wake_one_result_locked w r s))"
| Wake_all: "w \<in> W \<Longrightarrow> trt_wait_q_wake_all_result_locked w r s = Some (n', s') \<Longrightarrow> kstep B T W s T W s'"
| Tick: "sched_wake_expired (next_tick s) = Some s' \<Longrightarrow> kstep B T W s T W s'"
| Slice: "kstep B T W s T W (snd (sched_on_tick s))"
| Switch: "sched_pick_next s = Some (t, s') \<Longrightarrow> kstep B T W s T W (s'\<lparr>current_task := t\<rparr>)"
| Reschedule: "sched_try_reschedule_from_trap s = Some (b, s') \<Longrightarrow> kstep B T W s T W s'"
| Delete: "t \<in> T \<Longrightarrow> kstep B T W s T W (sched_mark_deleted t s)"
| Reap: "sched_pop_deleted s = (t, s') \<Longrightarrow> t \<noteq> current_task s \<Longrightarrow> kstep B T W s (T - {t}) W s'"
| Idle: "t \<in> T \<Longrightarrow> idle_task s = 0 \<Longrightarrow> task_state (tasks s t) = TASK_READY \<Longrightarrow>
    kstep B T W s T W (sched_set_idle_task t s)"
| Flags: "tasks s' = tasks s \<Longrightarrow> lnk s' = lnk s \<Longrightarrow> ready_mask s' = ready_mask s \<Longrightarrow>
    current_task s' = current_task s \<Longrightarrow> idle_task s' = idle_task s \<Longrightarrow>
    tick_count s' = tick_count s \<Longrightarrow> kstep B T W s T W s'"

inductive kreach :: "nat \<Rightarrow> ptr set \<Rightarrow> wq_t set \<Rightarrow> 'z kstate_scheme \<Rightarrow> bool" for B :: nat where
  Init: "\<not> sched_initialized s \<Longrightarrow> kreach B {} {} (sched_init s)"
| Step: "kreach B T W s \<Longrightarrow> kstep B T W s T' W' s' \<Longrightarrow> kreach B T' W' s'"

text \<open>The invariant of the transition system.\<close>

definition ksafe :: "nat \<Rightarrow> ptr set \<Rightarrow> wq_t set \<Rightarrow> 'z kstate_scheme \<Rightarrow> bool" where
  "ksafe B T W s \<longleftrightarrow> kinv T W s \<and> queues_sorted W s \<and> (B < 2 ^ 31 \<longrightarrow> timeouts_ok s)"

lemma waiters_sorted_from:
  assumes "kinv T W s" and "w \<in> W" and "waiters_sorted s w"
    and "\<And>t. t \<in> T \<Longrightarrow> priority (tasks s' t) = priority (tasks s t)"
    and "waiters s' w = waiters s w \<or> (\<exists>t. waiters s' w = remove1 t (waiters s w))"
  shows "waiters_sorted s' w"
proof -
  have "set (waiters s' w) \<subseteq> T"
    using waiter_nodes(2) [OF assms(1,2)] assms(5) set_remove1_subset by fastforce
  moreover have "sorted_wrt (\<lambda>t u. prio s u \<le> prio s t) (waiters s' w)"
    using assms(3,5) sorted_wrt_remove1 unfolding waiters_sorted_def by metis
  ultimately show ?thesis
    unfolding waiters_sorted_def
    by (elim sorted_wrt_mono_rel [rotated]) (use assms(4) in \<open>metis subsetD\<close>)
qed

lemma ksafeI:
  assumes "ksafe B T W s" and "kinv T' W s'"
    and "\<And>t. t \<in> T \<Longrightarrow> priority (tasks s' t) = priority (tasks s t)"
    and "\<And>w. w \<in> W \<Longrightarrow> waiters s' w = waiters s w \<or> (\<exists>t. waiters s' w = remove1 t (waiters s w))"
    and "timeouts_ok s \<Longrightarrow> timeouts_ok s'"
  shows "ksafe B T' W s'"
proof -
  have k: "kinv T W s" "queues_sorted W s" using assms(1) by (simp_all add: ksafe_def)
  have "waiters_sorted s' w" if "w \<in> W" for w
    using waiters_sorted_from [OF k(1) that _ assms(3) assms(4) [OF that]] k(2) that
    by (simp add: queues_sorted_def)
  then show ?thesis
    using assms(1,2,5) by (simp add: ksafe_def queues_sorted_def)
qed

lemma timeouts_ok_cong:
  assumes "timeouts_ok s" and "klist s' TimeoutHead = klist s TimeoutHead"
    and "\<And>t. t \<in> set (timed_tasks s) \<Longrightarrow> wakeup (tasks s' t) = wakeup (tasks s t)"
    and "tick_count s' = tick_count s"
  shows "timeouts_ok s'"
proof -
  have t: "timed_tasks s' = timed_tasks s" by (simp add: timed_tasks_def assms(2))
  have "map (\<lambda>t. wakeup (tasks s' t)) (timed_tasks s) = map (\<lambda>t. wakeup (tasks s t)) (timed_tasks s)"
    using assms(3) by simp
  with assms(1,4) t show ?thesis by (simp only: timeouts_ok_def)
qed

lemma ksafe_kinv: "ksafe B T W s \<Longrightarrow> kinv T W s"
  by (simp add: ksafe_def)

lemma same_waiters: "klist s' (WaitHead w) = klist s (WaitHead w) \<Longrightarrow> waiters s' w = waiters s w"
  by (simp add: waiters_def)

lemma ksafe_add:
  assumes i: "ksafe B T W s" and t: "t \<notin> T" "t \<noteq> 0" and p: "unat (priority k) < 32"
    and st: "task_state k = TASK_READY"
  shows "ksafe B (insert t T) W
    (sched_add_task t (upd_lnk (init_task_nodes t) (upd_task t (\<lambda>_. k) s)))" (is "ksafe B _ W ?s")
proof (rule ksafeI [OF i])
  let ?u = "upd_task t (\<lambda>_. k) s"
  note a = add_task [OF kinv_upd_outside [OF ksafe_kinv [OF i] t(1), of "\<lambda>_. k"] t]
  have pk: "prio ?u t < 32" "task_state (tasks ?u t) = TASK_READY" using p st by simp_all
  note f = a [OF pk]
  show "kinv (insert t T) W ?s" by (rule f(1))
  show "priority (tasks ?s u) = priority (tasks s u)" if "u \<in> T" for u
    using that t(1) by (auto simp: f(2))
  show "waiters ?s w = waiters s w \<or> (\<exists>t. waiters ?s w = remove1 t (waiters s w))" if "w \<in> W" for w
    using f(6) [of "WaitHead w"] that by (intro disjI1 same_waiters) simp
  show "timeouts_ok ?s" if ok: "timeouts_ok s"
  proof (rule timeouts_ok_cong [OF ok])
    show "klist ?s TimeoutHead = klist s TimeoutHead" using f(6) [of TimeoutHead] by simp
    show "tick_count ?s = tick_count s" using f(5) by simp
    show "wakeup (tasks ?s u) = wakeup (tasks s u)" if "u \<in> set (timed_tasks s)" for u
    proof -
      have "u \<in> T" using that timeout_item [OF kinv_kbase [OF ksafe_kinv [OF i]]]
        by (fastforce simp: timed_tasks_def)
      then show ?thesis using t(1) by (auto simp: f(2))
    qed
  qed
qed

lemma ksafe_queue:
  assumes i: "ksafe B T W s" and w: "w \<notin> W" "w \<noteq> NullWq"
  shows "ksafe B T (insert w W) (trt_wait_q_init w s)"
proof -
  note q = wait_q_init [OF ksafe_kinv [OF i] w]
  have f: "tasks (trt_wait_q_init w s) = tasks s" "tick_count (trt_wait_q_init w s) = tick_count s"
    by (simp_all add: trt_wait_q_init_def)
  have "waiters_sorted (trt_wait_q_init w s) v" if "v \<in> insert w W" for v
    using i that q(2) q(3) [of v] by (cases "v = w") (auto simp: waiters_sorted_def f ksafe_def queues_sorted_def)
  moreover have "timeouts_ok (trt_wait_q_init w s)" if "timeouts_ok s"
    using q(4) [of TimeoutHead] by (intro timeouts_ok_cong [OF that]) (simp_all add: f)
  ultimately show ?thesis
    using i q(1) by (simp add: ksafe_def queues_sorted_def)
qed

lemma ksafe_unqueue:
  assumes i: "ksafe B T W s" and e: "waiters s w = []"
  shows "ksafe B T (W - {w}) s"
proof (cases "w \<in> W")
  case True
  then show ?thesis
    using i forget_queue [OF ksafe_kinv [OF i] True e] by (simp add: ksafe_def queues_sorted_def)
qed (use i in simp)

lemma ksafe_frame:
  assumes i: "ksafe B T W s" and "tasks s' = tasks s" "lnk s' = lnk s" "ready_mask s' = ready_mask s"
    "current_task s' = current_task s" "idle_task s' = idle_task s" "tick_count s' = tick_count s"
  shows "ksafe B T W s'"
  using assms by (intro ksafeI [OF i kinv_frame [OF ksafe_kinv [OF i]]])
    (auto simp: waiters_def elim!: timeouts_ok_cong)

lemma ksafe_set_pending: "ksafe B T W s \<Longrightarrow> ksafe B T W (sched_set_pending s)"
  by (rule ksafe_frame) simp_all

lemma running_may_block: "app_running s \<Longrightarrow> \<not> sched_is_locked s \<Longrightarrow> may_block s"
  by (simp add: app_running_def may_block_def)

text \<open>What is left to show when the running task entered a queue.\<close>

lemma ksafe_enter:
  assumes i: "ksafe B T W s" and k: "kinv T W s'" and w: "w \<in> W"
    and e: "waiters s' w = enter_waiters s t (waiters s w)"
    and o: "\<forall>v\<in>W. v \<noteq> w \<longrightarrow> waiters s' v = waiters s v"
    and p: "\<And>t. priority (tasks s' t) = priority (tasks s t)"
    and to: "B < 2 ^ 31 \<Longrightarrow> timeouts_ok s \<Longrightarrow> timeouts_ok s'"
  shows "ksafe B T W s'"
proof -
  have srt: "waiters_sorted s v" if "v \<in> W" for v
    using i that by (simp add: ksafe_def queues_sorted_def)
  have "waiters_sorted s' v" if "v \<in> W" for v
  proof (cases "v = w")
    case True
    then show ?thesis using block_sorted [OF e p srt [OF w]] by simp
  next
    case False
    then show ?thesis using o that srt [OF that] by (simp add: waiters_sorted_def p)
  qed
  with i k to show ?thesis by (simp add: ksafe_def queues_sorted_def)
qed

lemma ksafe_block_locked:
  assumes i: "ksafe B T W s" and r: "app_running s" and w: "w \<in> W"
    and b: "trt_wait_q_block_locked w s = Some (e, s')"
  shows "ksafe B T W s'"
proof (cases "sched_is_locked s")
  case True
  have "w \<noteq> NullWq" using kbaseD(2) [OF kinv_kbase [OF ksafe_kinv [OF i]]] w by blast
  then have "s' = sched_set_pending s"
    using block_locked_rejected(2) [of w s] r True b by (simp add: app_running_def)
  then show ?thesis using ksafe_set_pending [OF i] by simp
next
  case False
  obtain s1 where "trt_wait_q_block_locked w s = Some (ERR_OK, s1)" and f: "kinv T W s1"
    "waiters s1 w = enter_waiters s (current_task s) (waiters s w)"
    "\<forall>v\<in>W. v \<noteq> w \<longrightarrow> waiters s1 v = waiters s v"
    "\<forall>h\<in>kheads W. h \<noteq> WaitHead w \<longrightarrow> klist s1 h = klist s h"
    "tasks s1 = (tasks s)(current_task s := (tasks s (current_task s))
      \<lparr>wait_result := TASK_WAIT_NONE, task_state := TASK_BLOCKED, waiting_on_timer := False\<rparr>)"
    "s1 = s\<lparr>tasks := tasks s1, lnk := lnk s1\<rparr>"
    using block_locked [OF ksafe_kinv [OF i] w running_may_block [OF r False]] by blast
  then have s1: "s1 = s'" using b by simp
  show ?thesis
  proof (rule ksafe_enter [OF i _ w])
    show "timeouts_ok s'" if "timeouts_ok s"
    proof (rule timeouts_ok_cong [OF that])
      show "tick_count s' = tick_count s" using f(6) unfolding s1 by (metis kstate.select_convs(11) kstate.surjective kstate.update_convs(1,2))
    qed (use f(4,5) s1 in auto)
  qed (use f(1-3,5) s1 in auto)
qed

lemma ksafe_block_ticks:
  assumes i: "ksafe B T W s" and r: "app_running s" and w: "w \<in> W" and n: "unat n \<le> B"
    and b: "trt_wait_q_block_ticks_locked w n s = Some (e, s')"
  shows "ksafe B T W s'"
proof -
  have "w \<noteq> NullWq" using kbaseD(2) [OF kinv_kbase [OF ksafe_kinv [OF i]]] w by blast
  then have rej: "trt_wait_q_block_locked w s = Some (ERR_LOCKED, sched_set_pending s)" if "sched_is_locked s"
    using block_locked_rejected(2) [of w s] r that by (simp add: app_running_def)
  consider "n = 0" | "n \<noteq> 0" "sched_is_locked s" | "n \<noteq> 0" "\<not> sched_is_locked s" by blast
  then show ?thesis
  proof cases
    case 1
    then show ?thesis using b i by (simp add: trt_wait_q_block_ticks_locked_def)
  next
    case 2
    then have "s' = sched_set_pending s"
      using b rej by (simp add: trt_wait_q_block_ticks_locked_def)
    then show ?thesis using ksafe_set_pending [OF i] by simp
  next
    case 3
    obtain s1 where "trt_wait_q_block_ticks_locked w n s = Some (ERR_OK, s1)" and f: "kinv T W s1"
      "waiters s1 w = enter_waiters s (current_task s) (waiters s w)"
      "\<forall>v\<in>W. v \<noteq> w \<longrightarrow> waiters s1 v = waiters s v"
      "klist s1 TimeoutHead = enter_timeouts s (current_task s) (tick_count s + n) (klist s TimeoutHead)"
      "tasks s1 = (tasks s)(current_task s := (tasks s (current_task s))
        \<lparr>task_state := TASK_BLOCKED, wakeup := tick_count s + n, waiting_on_timer := True,
         wait_result := TASK_WAIT_NONE\<rparr>)"
      "s1 = s\<lparr>tasks := tasks s1, lnk := lnk s1\<rparr>"
      using block_ticks_locked [OF ksafe_kinv [OF i] w running_may_block [OF r 3(2)] 3(1)] by blast
    then have s1: "s1 = s'" using b by simp
    have tc: "tick_count s1 = tick_count s" by (subst f(6)) simp
    show ?thesis
    proof (rule ksafe_enter [OF i _ w])
      show "timeouts_ok s'" if "B < 2 ^ 31" "timeouts_ok s"
        using enter_timeouts_ok [OF ksafe_kinv [OF i] that(2) _ _ _ f(4)] n 3(1) r tc f(5) that(1)
        by (simp add: s1 app_running_def unat_gt_0)
    qed (use f(1-3,5) s1 in auto)
  qed
qed

lemma ksafe_block:
  assumes "ksafe B T W s" and "app_running s" and "w \<in> W"
    and "us = TRT_TIME_FOREVER_US \<or> unat (timer_us_to_ticks us) \<le> B"
    and "trt_wait_q_block_timeout_locked w us s = Some (e, s')"
  shows "ksafe B T W s'"
  using assms ksafe_block_locked [OF assms(1-3)] ksafe_block_ticks [OF assms(1-3)]
  by (simp add: trt_wait_q_block_timeout_locked_def split: if_splits)

lemma ksafe_sleep:
  assumes i: "ksafe B T W s" and r: "app_running s" and n: "0 < unat n" "unat n \<le> B"
    and b: "delay_block (tick_count s + n) s = Some s'"
  shows "ksafe B T W s'"
proof -
  obtain s1 where "delay_block (tick_count s + n) s = Some s1" and f: "kinv T W s1"
    "tasks s1 = (tasks s)(current_task s := (tasks s (current_task s))\<lparr>wakeup := tick_count s + n,
      waiting_on_timer := True, wait_result := TASK_WAIT_NONE, task_state := TASK_BLOCKED\<rparr>)"
    "\<forall>h\<in>kheads W. klist s1 h = (if h = TimeoutHead
      then enter_timeouts s (current_task s) (tick_count s + n) (klist s h) else klist s h)"
    "s1 = s\<lparr>tasks := tasks s1, lnk := lnk s1\<rparr>"
    using delay_block [OF ksafe_kinv [OF i] r] by blast
  then have s1: "s1 = s'" using b by (metis option.inject)
  have tc: "tick_count s1 = tick_count s" by (subst f(4)) simp
  have "queues_sorted W s'"
  proof (rule queues_sorted_klist)
    show "queues_sorted W s" using i by (simp add: ksafe_def)
    show "priority (tasks s' t) = priority (tasks s t)" for t
      using f(2) unfolding s1 by simp
    show "klist s' (WaitHead w) = klist s (WaitHead w)" if "w \<in> W" for w
      using bspec [OF f(3), of "WaitHead w"] that unfolding s1 by simp
  qed
  moreover have "timeouts_ok s'" if "B < 2 ^ 31" "timeouts_ok s"
  proof -
    have "klist s1 TimeoutHead = enter_timeouts s (current_task s) (tick_count s + n) (klist s TimeoutHead)"
      using bspec [OF f(3), of TimeoutHead] by simp
    moreover have "wakeup (tasks s1 u) =
        (if u = current_task s then tick_count s + n else wakeup (tasks s u))" for u
      by (simp add: f(2))
    moreover have "unat n < 2 ^ 31" using n(2) that(1) by linarith
    moreover have "task_state (tasks s (current_task s)) \<noteq> TASK_BLOCKED"
      using r by (simp add: app_running_def)
    ultimately show ?thesis
      using enter_timeouts_ok [OF ksafe_kinv [OF i] that(2) n(1), of "current_task s" s1] tc
      unfolding s1 by blast
  qed
  ultimately show ?thesis using i f(1) by (simp add: ksafe_def s1)
qed

lemma ksafe_requeue:
  assumes i: "ksafe B T W s"
  shows "ksafe B T W (requeue_current s)"
proof (rule ksafeI [OF i])
  note rq = requeue_current [OF ksafe_kinv [OF i]]
  show "kinv T W (requeue_current s)" by (rule rq(1))
  show "priority (tasks (requeue_current s) t) = priority (tasks s t)" for t by (simp add: rq(7))
  show "waiters (requeue_current s) w = waiters s w \<or> (\<exists>t. waiters (requeue_current s) w = remove1 t (waiters s w))"
    if "w \<in> W" for w
    using rq(6) [of "WaitHead w"] that by (intro disjI1 same_waiters) simp
  show "timeouts_ok (requeue_current s)" if "timeouts_ok s"
  proof (rule timeouts_ok_cong [OF that])
    show "klist (requeue_current s) TimeoutHead = klist s TimeoutHead" using rq(6) [of TimeoutHead] by simp
    show "wakeup (tasks (requeue_current s) t) = wakeup (tasks s t)" for t by (simp add: rq(7))
    show "tick_count (requeue_current s) = tick_count s" by (simp add: requeue_current_def Let_def)
  qed
qed

lemma yield_requeue:
  assumes "app_running s" and "\<not> sched_is_locked s"
  shows "task_yield f s = f (requeue_current s)"
  using assms by (simp add: task_yield_def requeue_current_def app_running_def sched_current_is_idle_def Let_def)

lemma ksafe_yield:
  assumes i: "ksafe B T W s" and r: "app_running s" and y: "task_yield Some s = Some s'"
  shows "ksafe B T W s'"
proof (cases "sched_is_locked s")
  case True
  then show ?thesis using y ksafe_set_pending [OF i] by (simp add: task_yield_def)
next
  case False
  then show ?thesis using y yield_requeue [OF r False, of Some] ksafe_requeue [OF i] by simp
qed

lemma ksafe_wake:
  assumes i: "ksafe B T W s" and w: "w \<in> W"
  shows "ksafe B T W (snd (trt_wait_q_wake_one_result_locked w r s))" (is "ksafe B T W ?s")
proof (cases "waiters s w")
  case Nil
  then show ?thesis using wake_result_empty [OF ksafe_kinv [OF i] w Nil, of r] i by simp
next
  case (Cons t ts)
  note f = wake_result_first [OF ksafe_kinv [OF i] w Cons, where r = r]
    and v = waiters_after_wake [OF ksafe_kinv [OF i] w Cons, where r = r]
  show ?thesis
  proof (rule ksafeI [OF i f(2)])
    show "priority (tasks ?s u) = priority (tasks s u)" for u by (simp add: f(3))
    show "waiters ?s v = waiters s v \<or> (\<exists>t. waiters ?s v = remove1 t (waiters s v))" if "v \<in> W" for v
    proof (cases "v = w")
      case True
      then have "waiters ?s v = remove1 t (waiters s v)" using v(1) Cons by simp
      then show ?thesis by blast
    qed (use v(2) that in simp)
    show "timeouts_ok ?s" if "timeouts_ok s"
    proof (rule timeouts_ok_remove1 [OF that])
      show "klist ?s TimeoutHead = remove1 (TimeoutNode t) (klist s TimeoutHead)"
        using f(4) [of TimeoutHead] by simp
      show "wakeup (tasks ?s u) = wakeup (tasks s u)" for u by (simp add: f(3))
    qed (rule f(8))
  qed
qed

lemma ksafe_wake_all_loop:
  assumes "ksafe B T W s" and "w \<in> W" and "wake_all_loop w r c s = Some (n, s')"
  shows "ksafe B T W s'"
  using assms
proof (induction "waiters s w" arbitrary: s c)
  case Nil
  then have "trt_wait_q_wake_one_result_locked w r s = (0, s)"
    using wake_result_empty [OF ksafe_kinv [OF Nil(2)] Nil(3)] by simp
  then show ?case using Nil by (simp add: wake_all_loop.simps)
next
  case (Cons t ts)
  let ?s1 = "snd (trt_wait_q_wake_one_result_locked w r s)"
  note k = ksafe_kinv [OF Cons(3)] and x = Cons(2) [symmetric]
  have "fst (trt_wait_q_wake_one_result_locked w r s) \<noteq> 0"
    using wake_result_first(1) [OF k Cons(4) x, where r = r] waiter_blocked(4) [OF k Cons(4), of t] x
    by (metis fst_conv list.set_intros(1))
  then have "wake_all_loop w r (c + 1) ?s1 = Some (n, s')"
    using Cons(5) by (subst (asm) wake_all_loop.simps) (simp add: Let_def)
  then show ?case
    using Cons(1) [OF _ ksafe_wake [OF Cons(3,4), of r] Cons(4)]
      waiters_after_wake(1) [OF k Cons(4) x, where r = r] by simp
qed

lemma ksafe_wake_all:
  assumes i: "ksafe B T W s" and w: "w \<in> W"
    and a: "trt_wait_q_wake_all_result_locked w r s = Some (n, s')"
  shows "ksafe B T W s'"
  using a ksafe_wake_all_loop [OF i w] i
  by (auto simp: trt_wait_q_wake_all_result_locked_def split: if_splits)

lemma expired_waiters:
  assumes k: "kinv T W s" and w: "w \<in> W" and e: "expired_from W ts s s'"
  shows "waiters s' w = filter (\<lambda>t. t \<notin> set ts) (waiters s w)"
proof -
  have "klist s' (WaitHead w) = filter (\<lambda>x. x \<notin> StateNode ` set ts) (map StateNode (waiters s w))"
    using e w waiter_nodes(1) [OF k w] by (simp add: expired_from_def)
  also have "\<dots> = map StateNode (filter (\<lambda>t. t \<notin> set ts) (waiters s w))"
    by (simp add: filter_map comp_def inj_image_mem_iff inj_def)
  finally show ?thesis by (simp add: waiters_def [of s'] comp_def)
qed

lemma ksafe_tick:
  assumes i: "ksafe B T W s" and w: "sched_wake_expired (next_tick s) = Some s'"
  shows "ksafe B T W s'"
proof -
  have k: "kinv T W (next_tick s)"
    by (rule kinv_frame [OF ksafe_kinv [OF i]]) (simp_all add: next_tick_def)
  obtain ts where k': "kinv T W s'" and e: "expired_from W ts (next_tick s) s'"
    using wake_expired_loop [OF k] w unfolding sched_wake_expired_def by (metis option.inject)
  have "waiters_sorted s' v" if v: "v \<in> W" for v
  proof -
    have f: "tasks (next_tick s) = tasks s" "waiters (next_tick s) v = waiters s v"
      by (simp_all add: next_tick_def waiters_def)
    have "priority (tasks s' t) = priority (tasks s t)" for t
      using e by (simp add: expired_from_def f timed_out_def)
    moreover have "waiters_sorted s v" using i v by (simp add: ksafe_def queues_sorted_def)
    ultimately show ?thesis
      using expired_waiters [OF k v e] by (simp add: waiters_sorted_def f sorted_wrt_filter)
  qed
  moreover have "timeouts_ok s'" if "timeouts_ok s"
    using wake_expired_on_tick [OF ksafe_kinv [OF i] that] w by auto
  ultimately show ?thesis using i k' by (simp add: ksafe_def queues_sorted_def)
qed

lemma ksafe_switch:
  assumes i: "ksafe B T W s" and p: "sched_pick_next s = Some (t, s')"
  shows "ksafe B T W (s'\<lparr>current_task := t\<rparr>)"
proof (rule ksafeI [OF i])
  note q = pick_next_queues [OF ksafe_kinv [OF i] p]
  show "kinv T W (s'\<lparr>current_task := t\<rparr>)"
    using pick_next_kinv [OF ksafe_kinv [OF i]] p by auto
  show "priority (tasks (s'\<lparr>current_task := t\<rparr>) u) = priority (tasks s u)" for u by (simp add: q(1))
  show "waiters (s'\<lparr>current_task := t\<rparr>) w = waiters s w \<or>
      (\<exists>u. waiters (s'\<lparr>current_task := t\<rparr>) w = remove1 u (waiters s w))" if "w \<in> W" for w
    using q(2) [OF that] by (intro disjI1 same_waiters) simp
  show "timeouts_ok (s'\<lparr>current_task := t\<rparr>)" if "timeouts_ok s"
    by (rule timeouts_ok_cong [OF that]) (simp_all add: q)
qed

lemma ksafe_reschedule:
  assumes i: "ksafe B T W s" and t: "sched_try_reschedule_from_trap s = Some (b, s')"
  shows "ksafe B T W s'"
proof -
  have "ksafe B T W (s\<lparr>resched_pending := False\<rparr>)" by (rule ksafe_frame [OF i]) simp_all
  then show ?thesis
    using t i ksafe_switch
    by (auto simp: sched_try_reschedule_from_trap_def Let_def bind_Some_iff split: if_splits)
qed

lemma ksafe_delete:
  assumes i: "ksafe B T W s" and t: "t \<in> T"
  shows "ksafe B T W (sched_mark_deleted t s)"
proof (cases "t = idle_task s \<or> task_state (tasks s t) = TASK_DELETED")
  case True
  then show ?thesis using i by (auto simp: sched_mark_deleted_def)
next
  case False
  note k = ksafe_kinv [OF i]
  have d: "t \<noteq> idle_task s" "task_state (tasks s t) \<noteq> TASK_DELETED" using False by simp_all
  show ?thesis
  proof (rule ksafeI [OF i mark_deleted(1) [OF k t d] mark_deleted_prio])
    show "waiters (sched_mark_deleted t s) w = waiters s w \<or>
        (\<exists>u. waiters (sched_mark_deleted t s) w = remove1 u (waiters s w))" if "w \<in> W" for w
      using mark_deleted_queues [OF k that t d] by blast
    show "timeouts_ok (sched_mark_deleted t s)" if "timeouts_ok s"
    proof (rule timeouts_ok_remove1 [OF that])
      have "StateNode t \<notin> set (klist s TimeoutHead)"
        using state_node_head [OF kinv_kbase [OF k], of TimeoutHead t] by auto
      then have "StateNode t \<notin> set (remove1 (TimeoutNode t) (klist s TimeoutHead))"
        using notin_set_remove1 by fast
      then show "klist (sched_mark_deleted t s) TimeoutHead = remove1 (TimeoutNode t) (klist s TimeoutHead)"
        using mark_deleted(3) [OF k t d, of TimeoutHead] by simp
    qed (simp_all add: sched_mark_deleted_def Let_def)
  qed
qed

lemma pop_deleted_timeouts:
  assumes k: "kinv T W s" and x: "klist s DeletedHead = StateNode t # xs"
  shows "klist (snd (sched_pop_deleted s)) TimeoutHead = klist s TimeoutHead"
proof -
  note b = kinv_kbase [OF k]
  have t: "t \<in> T" using state_head_item [OF b, of DeletedHead "StateNode t"] x by auto
  have n: "StateNode t \<notin> set (klist s TimeoutHead)" "MasterNode t \<notin> set (klist s TimeoutHead)"
    using kbaseD(4) [OF b, of TimeoutHead] by fastforce+
  have wf: "lists_wf (list_del_init (StateNode t) (lnk s)) (kheads W) (knodes T)"
    using list_del_init_wf [OF kbaseD(3) [OF b]] t by simp
  have "items (list_del_init (StateNode t) (lnk s)) TimeoutHead = klist s TimeoutHead"
    using klist_del_init(1) [OF b, of "StateNode t" TimeoutHead] t n by simp
  then have "items (list_del_init (MasterNode t) (list_del_init (StateNode t) (lnk s))) TimeoutHead =
      klist s TimeoutHead"
    using items_list_del_init [OF wf, of "MasterNode t" TimeoutHead] t n by simp
  moreover have "\<not> list_empty DeletedHead (lnk s)" "nxt (lnk s) DeletedHead = StateNode t"
    using klist_first [OF b _ x] by simp_all
  ultimately show ?thesis by (simp add: sched_pop_deleted_def)
qed

lemma deleted_list:
  assumes k: "kinv T W s"
  shows "klist s DeletedHead = [] \<or> (\<exists>t xs. klist s DeletedHead = StateNode t # xs)"
proof (cases "klist s DeletedHead")
  case (Cons x xs)
  then show ?thesis using state_head_item [OF kinv_kbase [OF k], of DeletedHead x] by auto
qed simp

lemma ksafe_reap:
  assumes i: "ksafe B T W s" and p: "sched_pop_deleted s = (t, s')" and c: "t \<noteq> current_task s"
  shows "ksafe B (T - {t}) W s'"
proof -
  note k = ksafe_kinv [OF i]
  consider "klist s DeletedHead = []" | u xs where "klist s DeletedHead = StateNode u # xs"
    using deleted_list [OF k] by blast
  then show ?thesis
  proof cases
    case 1
    then have "t = 0" "s' = s" using pop_deleted_empty [OF kinv_kbase [OF k]] p by simp_all
    then show ?thesis using i kbaseD(1) [OF kinv_kbase [OF k]] by simp
  next
    case 2
    have "fst (sched_pop_deleted s) = u"
      using klist_first [OF kinv_kbase [OF k] _ 2] by (simp add: sched_pop_deleted_def)
    then have u: "u = t" using p by simp
    note f = pop_deleted [OF k 2 c [folded u], unfolded u p snd_conv]
    show ?thesis
    proof (rule ksafeI [OF i f(3)])
      show "waiters s' w = waiters s w \<or> (\<exists>t. waiters s' w = remove1 t (waiters s w))" if "w \<in> W" for w
        using pop_deleted_queues [OF k 2 that] p by (intro disjI1 same_waiters) simp
      show "timeouts_ok s'" if "timeouts_ok s"
        using pop_deleted_timeouts [OF k 2] p f(5)
        by (intro timeouts_ok_cong [OF that]) (auto simp: sched_pop_deleted_def Let_def split: if_splits)
    qed (simp add: f(5))
  qed
qed

lemma ksafe_idle:
  assumes i: "ksafe B T W s" and "t \<in> T" and "idle_task s = 0" and "task_state (tasks s t) = TASK_READY"
  shows "ksafe B T W (sched_set_idle_task t s)"
  by (rule ksafeI [OF i set_idle [OF ksafe_kinv [OF i] assms(2,4,3)]])
    (auto simp: sched_set_idle_task_def waiters_def elim!: timeouts_ok_cong)

lemma ksafe_slice: "ksafe B T W s \<Longrightarrow> ksafe B T W (snd (sched_on_tick s))"
  using on_tick_shape [of s] by (auto intro: ksafe_frame)

lemma kstep_ksafe:
  assumes "kstep B T W s T' W' s'" and "ksafe B T W s"
  shows "ksafe B T' W' s'"
  using assms
proof (induction rule: kstep.induct)
  case Add then show ?case using ksafe_add by blast
next
  case Queue then show ?case using ksafe_queue by blast
next
  case Unqueue then show ?case using ksafe_unqueue by blast
next
  case Block then show ?case using ksafe_block by blast
next
  case Sleep then show ?case using ksafe_sleep by blast
next
  case Yield then show ?case using ksafe_yield by blast
next
  case Wake then show ?case using ksafe_wake by blast
next
  case Wake_all then show ?case using ksafe_wake_all by blast
next
  case Tick then show ?case using ksafe_tick by blast
next
  case Slice then show ?case using ksafe_slice by blast
next
  case Switch then show ?case using ksafe_switch by blast
next
  case Reschedule then show ?case using ksafe_reschedule by blast
next
  case Delete then show ?case using ksafe_delete by blast
next
  case Reap then show ?case using ksafe_reap by blast
next
  case Idle then show ?case using ksafe_idle by blast
next
  case Flags then show ?case using ksafe_frame by blast
qed

lemma ksafe_init: "\<not> sched_initialized s \<Longrightarrow> ksafe B {} {} (sched_init s)"
  using boot_links_wf(2) [of TimeoutHead "lnk s"] sched_init_kinv
  by (simp add: ksafe_def queues_sorted_def timeouts_ok_def timed_tasks_def sched_init_links)

lemma kreach_ksafe: "kreach B T W s \<Longrightarrow> ksafe B T W s"
  by (induction rule: kreach.induct) (auto intro: ksafe_init kstep_ksafe)

subsection \<open>The two sequences that run unmasked\<close>

text \<open>
  \<^verbatim>\<open>task_yield\<close> sets the running task ready and then links it into its ready list, and
  \<^verbatim>\<open>task_create_kernel\<close>, once the scheduler has started, writes the control block and links it into
  the master list and then into its ready list; neither masks the interrupts.  The control points
  tell where the running task stands: \<open>Whole\<close> outside the two sequences, \<open>Marked\<close> after the store of
  \<^verbatim>\<open>TASK_READY\<close>, \<open>Linked t\<close> with the new task \<open>t\<close> in the master list only.  A trap that falls inside one
  of the sequences and does anything to the kernel leads to \<open>Torn\<close>, which no later step leaves.
\<close>

datatype point = Whole | Marked | Linked ptr | Torn

inductive ustep :: "nat \<Rightarrow> point \<Rightarrow> ptr set \<Rightarrow> wq_t set \<Rightarrow> 'z kstate_scheme \<Rightarrow>
    point \<Rightarrow> ptr set \<Rightarrow> wq_t set \<Rightarrow> 'z kstate_scheme \<Rightarrow> bool" for B :: nat where
  Uncut: "kstep B T W s T' W' s' \<Longrightarrow> ustep B Whole T W s Whole T' W' s'"
| Mark: "app_running s \<Longrightarrow> \<not> sched_is_locked s \<Longrightarrow> ustep B Whole T W s Marked T W (task_yield_mark s)"
| Enqueue: "ustep B Marked T W s Whole T W (sched_ready_enqueue (current_task s) s)"
| Link: "t \<notin> T \<Longrightarrow> t \<noteq> 0 \<Longrightarrow> unat (priority k) < 32 \<Longrightarrow> task_state k = TASK_READY \<Longrightarrow>
    ustep B Whole T W s (Linked t) T W (upd_lnk (list_add_tail (MasterNode t) MasterHead)
      (upd_lnk (init_task_nodes t) (upd_task t (\<lambda>_. k) s)))"
| Ready: "ustep B (Linked t) T W s Whole (insert t T) W (sched_ready_enqueue t s)"
| Cut: "p \<noteq> Whole \<Longrightarrow> kstep B T W s T' W' s' \<Longrightarrow> ustep B p T W s Torn T' W' s'"

inductive ureach :: "nat \<Rightarrow> point \<Rightarrow> ptr set \<Rightarrow> wq_t set \<Rightarrow> 'z kstate_scheme \<Rightarrow> bool" for B :: nat where
  Start: "\<not> sched_initialized s \<Longrightarrow> ureach B Whole {} {} (sched_init s)"
| Next: "ureach B p T W s \<Longrightarrow> ustep B p T W s p' T' W' s' \<Longrightarrow> ureach B p' T' W' s'"

lemma kreach_ureach: "kreach B T W s \<Longrightarrow> ureach B Whole T W s"
  by (induction rule: kreach.induct) (auto intro: ureach.intros ustep.Uncut)

text \<open>What holds at each control point, in terms of the uninterrupted runs.\<close>

fun at_point :: "nat \<Rightarrow> point \<Rightarrow> ptr set \<Rightarrow> wq_t set \<Rightarrow> 'z kstate_scheme \<Rightarrow> bool" where
  "at_point B Whole T W s = kreach B T W s"
| "at_point B Marked T W s = (\<exists>s0. kreach B T W s0 \<and> app_running s0 \<and> \<not> sched_is_locked s0 \<and>
     s = task_yield_mark s0)"
| "at_point B (Linked t) T W s = (\<exists>s0 k. kreach B T W s0 \<and> t \<notin> T \<and> t \<noteq> 0 \<and> unat (priority k) < 32 \<and>
     task_state k = TASK_READY \<and> s = upd_lnk (list_add_tail (MasterNode t) MasterHead)
       (upd_lnk (init_task_nodes t) (upd_task t (\<lambda>_. k) s0)))"
| "at_point B Torn T W s = True"

lemma mark_enqueue:
  assumes "app_running s" and "\<not> sched_is_locked s"
  shows "task_yield Some s =
    Some (sched_ready_enqueue (current_task (task_yield_mark s)) (task_yield_mark s))"
  using assms by (simp add: task_yield_def app_running_def sched_current_is_idle_def Let_def)

lemma ustep_at_point:
  assumes "ustep B p T W s p' T' W' s'" and "at_point B p T W s"
  shows "at_point B p' T' W' s'"
  using assms
proof (induction rule: ustep.induct)
  case (Uncut T W s T' W' s')
  then show ?case by (auto intro: kreach.Step)
next
  case (Enqueue T W s)
  then show ?case by (auto intro: kreach.Step [OF _ kstep.Yield] simp: mark_enqueue simp del: task_yield_mark_def)
next
  case (Ready t T W s)
  then obtain s0 k where "kreach B T W s0" "t \<notin> T" "t \<noteq> 0" "unat (priority k) < 32"
    "task_state k = TASK_READY" "s = upd_lnk (list_add_tail (MasterNode t) MasterHead)
       (upd_lnk (init_task_nodes t) (upd_task t (\<lambda>_. k) s0))" by auto
  then show ?case using kreach.Step [OF _ kstep.Add, of B T W s0 t k] by (simp add: sched_add_task_def)
qed (auto simp del: task_yield_mark_def)

lemma ureach_at_point: "ureach B p T W s \<Longrightarrow> at_point B p T W s"
  by (induction rule: ureach.induct) (simp_all add: kreach.Init ustep_at_point)

end
