(* ===== verification/SchedProps.thy ===== *)
theory SchedProps
  imports SchedSteps
begin

text \<open>
  The properties of the scheduler and of the wait queues, each with an instance on the small
  system of \<open>SchedBoot\<close>: task 0x300 of priority 7 runs, the tasks 0x100 and 0x200 of priority 5
  are ready, 0x400 is the idle task, and one wait queue is empty.
\<close>

subsection \<open>The small system\<close>

abbreviation demo_w :: wq_t where "demo_w \<equiv> SemWq 0x500"

definition demo_k :: kstate where
  "demo_k = trt_wait_q_init demo_w (demo_run blank_kstate)"

lemma demo_k_fields:
  "tasks demo_k = (\<lambda>_. demo_task 0)(0x100 := demo_task 5, 0x200 := demo_task 5,
     0x300 := (demo_task 7)\<lparr>task_state := TASK_RUNNING\<rparr>)"
  "current_task demo_k = 0x300" "idle_task demo_k = 0x400" "lock_count demo_k = 0"
  by (simp_all add: demo_k_def trt_wait_q_init_def demo_run blank_kstate_def fun_eq_iff)

lemma demo_k:
  shows "kinv demo_T {demo_w} demo_k"
    and "waiters demo_k demo_w = []"
    and "h \<in> kheads {} \<Longrightarrow> klist demo_k h =
      (if h = MasterHead then [MasterNode 0x400, MasterNode 0x100, MasterNode 0x200, MasterNode 0x300]
       else if h = ReadyHead 0 then [StateNode 0x400]
       else if h = ReadyHead 5 then [StateNode 0x100, StateNode 0x200] else [])"
proof -
  have n: "\<not> sched_initialized blank_kstate" by (simp add: blank_kstate_def)
  note q = wait_q_init [OF demo_run(1) [OF n], of demo_w]
  show "kinv demo_T {demo_w} demo_k" "waiters demo_k demo_w = []"
    using q(1,2) by (simp_all add: demo_k_def)
  show "klist demo_k h =
      (if h = MasterHead then [MasterNode 0x400, MasterNode 0x100, MasterNode 0x200, MasterNode 0x300]
       else if h = ReadyHead 0 then [StateNode 0x400]
       else if h = ReadyHead 5 then [StateNode 0x100, StateNode 0x200] else [])"
    if "h \<in> kheads {}"
    using q(4) [OF _ _ that] demo_run(5) [OF n that] by (simp add: demo_k_def)
qed

lemma demo_k_running: "app_running demo_k" "may_block demo_k" "\<not> sched_is_locked demo_k"
  by (simp_all add: app_running_def may_block_def sched_is_locked_def demo_k_fields)

lemma demo_k_timeouts: "timeouts_ok demo_k"
  using demo_k(3) [of TimeoutHead] by (simp add: timeouts_ok_def timed_tasks_def)

lemma demo_k_ready:
  assumes "p < 32"
  shows "ready_view demo_k p = (if p = 0 then [StateNode 0x400]
    else if p = 5 then [StateNode 0x100, StateNode 0x200] else if p = 7 then [StateNode 0x300] else [])"
proof -
  have "ReadyHead p \<in> kheads {}" using assms by simp
  then show ?thesis
    unfolding ready_view_def by (simp add: demo_k(3) demo_k_fields demo_task_def)
qed

subsection \<open>Choosing a task\<close>

text \<open>C5. \<^verbatim>\<open>sched_pick_next\<close> always returns.  With the running task counted at the tail of its ready
  list, it chooses the first task of the highest non-empty ready list, takes it off that list and
  sets it running; with no ready task it chooses the idle task, and without one it keeps the
  current task.  The scheduler invariant holds after the choice.\<close>

theorem pick_next_highest:
  assumes "kinv T W s"
  shows "\<exists>t s'. sched_pick_next s = Some (t, s') \<and> kinv T W (s'\<lparr>current_task := t\<rparr>) \<and>
    (\<forall>p<32. ready_view s p \<noteq> [] \<and> (\<forall>q<32. p < q \<longrightarrow> ready_view s q = []) \<longrightarrow>
       ready_view s p = StateNode t # klist s' (ReadyHead p) \<and>
       task_state (tasks s' t) = TASK_RUNNING) \<and>
    ((\<forall>p<32. ready_view s p = []) \<longrightarrow> t = (if idle_task s \<noteq> 0 then idle_task s else current_task s))"
proof (cases "\<exists>q<32. ready_view s q \<noteq> []")
  case True
  then obtain q where q: "q < 32" "ready_view s q \<noteq> []" by blast
  from pick_next_ready [OF assms q] obtain p t xs s' where p: "p < 32" "ready_view s p = StateNode t # xs"
    "\<forall>r<32. ready_view s r \<noteq> [] \<longrightarrow> r \<le> p" "sched_pick_next s = Some (t, s')"
    "kinv T W (s'\<lparr>current_task := t\<rparr>)"
    "tasks s' = (tasks (requeue_current s))(t := (tasks s t)\<lparr>task_state := TASK_RUNNING\<rparr>)"
    "\<forall>h\<in>kheads W. klist s' h = (if h = ReadyHead p then xs else klist (requeue_current s) h)"
    by blast
  have r: "r = p" if "r < 32" "ready_view s r \<noteq> []" "\<forall>q<32. r < q \<longrightarrow> ready_view s q = []" for r
    using p(1-3) that by (metis antisym list.discI not_less)
  have "klist s' (ReadyHead p) = xs" "task_state (tasks s' t) = TASK_RUNNING"
    using p(1) bspec [OF p(7), of "ReadyHead p"] by (simp_all add: p(6))
  then have "\<forall>r<32. ready_view s r \<noteq> [] \<and> (\<forall>q<32. r < q \<longrightarrow> ready_view s q = []) \<longrightarrow>
      ready_view s r = StateNode t # klist s' (ReadyHead r) \<and> task_state (tasks s' t) = TASK_RUNNING"
    using r p(2) by metis
  moreover have "\<not> (\<forall>p<32. ready_view s p = [])" using q by blast
  ultimately show ?thesis using p(4,5) by blast
next
  case False
  then have "ready_view s p = []" if "p < 32" for p using that by blast
  then show ?thesis
    using pick_next_idle [OF assms] pick_next_none [OF assms] by (cases "idle_task s = 0") auto
qed

lemma pick_next_highest_witness:
  "\<exists>t s'. sched_pick_next demo_k = Some (t, s') \<and> StateNode t = StateNode 0x300"
proof -
  have v: "ready_view demo_k 7 = [StateNode 0x300]" "\<forall>q<32. 7 < q \<longrightarrow> ready_view demo_k q = []"
    using demo_k_ready by simp_all
  obtain t s' where "sched_pick_next demo_k = Some (t, s')"
    "\<forall>p<32. ready_view demo_k p \<noteq> [] \<and> (\<forall>q<32. p < q \<longrightarrow> ready_view demo_k q = []) \<longrightarrow>
       ready_view demo_k p = StateNode t # klist s' (ReadyHead p) \<and> task_state (tasks s' t) = TASK_RUNNING"
    using pick_next_highest [OF demo_k(1)] by blast
  moreover have "(7 :: nat) < 32" by simp
  ultimately show ?thesis using v by (metis list.inject list.discI)
qed

subsection \<open>Reachable kernels\<close>

lemma demo_add_step:
  assumes "kreach B T W s" and "t \<notin> T" "t \<noteq> 0" and "unat p < 32"
  shows "kreach B (insert t T) W (demo_add t p s)"
  unfolding demo_add_def
  by (rule kreach.Step [OF assms(1)], rule kstep.Add) (use assms in \<open>simp_all add: demo_task_def\<close>)

lemma demo_k_reach: "kreach B demo_T {demo_w} demo_k"
proof -
  have n: "\<not> sched_initialized blank_kstate" by (simp add: blank_kstate_def)
  let ?s1 = "demo_add 0x400 0 (sched_init blank_kstate)"
  have "kreach B {0x400} {} ?s1"
    by (rule demo_add_step [OF kreach.Init [OF n]]) simp_all
  moreover have "idle_task ?s1 = 0" "task_state (tasks ?s1 0x400) = TASK_READY"
    using demo_add(2,4) [OF sched_init_kinv [OF n], of "0x400" 0]
    by (simp_all add: demo_task_def sched_init_def blank_kstate_def)
  ultimately have "kreach B {0x400} {} (sched_set_idle_task 0x400 ?s1)"
    by (intro kreach.Step [OF _ kstep.Idle]) simp_all
  then have "kreach B {0x300, 0x200, 0x100, 0x400} {} (demo_boot blank_kstate)"
    unfolding demo_boot_def by (intro demo_add_step) simp_all
  then have b: "kreach B demo_T {} (demo_boot blank_kstate)"
    by (simp add: insert_commute)
  obtain t s' where p: "sched_pick_next (demo_boot blank_kstate) = Some (t, s')"
    using pick_next_kinv [OF demo_boot(1) [OF n]] by blast
  then have "kreach B demo_T {} (demo_run blank_kstate)"
    using kreach.Step [OF b kstep.Switch [OF p]] by (simp add: demo_run_def)
  then show ?thesis
    unfolding demo_k_def by (rule kreach.Step) (rule kstep.Queue; simp)
qed

lemma safe_consistent:
  assumes "ksafe B T W s"
  shows "\<forall>t\<in>T. task_state (tasks s t) = TASK_READY \<and> t \<noteq> idle_task s \<longrightarrow>
      (\<forall>h\<in>kheads W. StateNode t \<in> set (klist s h) \<longleftrightarrow> h = ReadyHead (prio s t))"
    and "\<forall>t\<in>T. task_state (tasks s t) = TASK_RUNNING \<longrightarrow>
      t = current_task s \<and> (\<forall>h\<in>kheads W. StateNode t \<notin> set (klist s h))"
    and "\<forall>p<32. bit (ready_mask s) p \<longleftrightarrow> klist s (ReadyHead p) \<noteq> []"
    and "\<forall>t\<in>T. t \<in> set (timed_tasks s) \<longleftrightarrow>
      task_state (tasks s t) = TASK_BLOCKED \<and> waiting_on_timer (tasks s t)"
    and "\<forall>w\<in>W. sorted_wrt (\<lambda>t u. prio s u \<le> prio s t) (waiters s w)"
proof -
  have i: "kinv T W s" "queues_sorted W s" using assms by (simp_all add: ksafe_def)
  note b = kinv_kbase [OF i(1)]
  have "StateNode t \<in> set (klist s h) \<longleftrightarrow> h = ReadyHead (prio s t)"
    if "t \<in> T" "task_state (tasks s t) = TASK_READY" "t \<noteq> idle_task s" "h \<in> kheads W" for t h
  proof -
    have "StateNode t \<in> set (klist s (ReadyHead (prio s t)))"
      using kinv_task_ok [OF i(1) that(1)] that(2,3) by (simp add: task_ok_def)
    then show ?thesis
      using state_node_unique [OF b that(4), of "ReadyHead (prio s t)"] kbaseD(7) [OF b that(1)] by auto
  qed
  then show "\<forall>t\<in>T. task_state (tasks s t) = TASK_READY \<and> t \<noteq> idle_task s \<longrightarrow>
      (\<forall>h\<in>kheads W. StateNode t \<in> set (klist s h) \<longleftrightarrow> h = ReadyHead (prio s t))" by blast
  show "\<forall>t\<in>T. task_state (tasks s t) = TASK_RUNNING \<longrightarrow>
      t = current_task s \<and> (\<forall>h\<in>kheads W. StateNode t \<notin> set (klist s h))"
    using running_facts [OF i(1)] list_empty_state [OF b] by simp
  show "\<forall>p<32. bit (ready_mask s) p \<longleftrightarrow> klist s (ReadyHead p) \<noteq> []"
    using kbaseD(6) [OF b] by (simp add: mask_ok_def)
  show "\<forall>t\<in>T. t \<in> set (timed_tasks s) \<longleftrightarrow>
      task_state (tasks s t) = TASK_BLOCKED \<and> waiting_on_timer (tasks s t)"
    using timed_tasks_iff [OF i(1)] by simp
  show "\<forall>w\<in>W. sorted_wrt (\<lambda>t u. prio s u \<le> prio s t) (waiters s w)"
    using i(2) by (simp add: queues_sorted_def waiters_sorted_def)
qed

text \<open>Between the two statements of \<^verbatim>\<open>task_yield\<close> and between the two links of a new task.\<close>

lemma marked_state:
  assumes "ksafe B T W s" and "app_running s"
  defines "c \<equiv> current_task s"
  shows "c \<in> T" and "c \<noteq> idle_task s" and "task_state (tasks s c) = TASK_RUNNING"
    and "\<forall>h\<in>kheads W. StateNode c \<notin> set (klist s h)" and "c \<notin> set (timed_tasks s)"
proof -
  have i: "kinv T W s" using assms(1) by (simp add: ksafe_def)
  show c: "c \<in> T" "c \<noteq> idle_task s" and r: "task_state (tasks s c) = TASK_RUNNING"
    using assms(2) current_in_T [OF i] by (simp_all add: c_def app_running_def)
  show "\<forall>h\<in>kheads W. StateNode c \<notin> set (klist s h)" using safe_consistent(2) [OF assms(1)] c(1) r by blast
  show "c \<notin> set (timed_tasks s)" using safe_consistent(4) [OF assms(1)] c(1) r by simp
qed

lemma linked_state:
  fixes s :: "'z kstate_scheme" and k :: task_t
  assumes "ksafe B T W s" and t: "t \<notin> T"
  defines "s' \<equiv> upd_lnk (list_add_tail (MasterNode t) MasterHead)
    (upd_lnk (init_task_nodes t) (upd_task t (\<lambda>_. k) s))"
  shows "h \<in> kheads W \<Longrightarrow>
      klist s' h = (if h = MasterHead then klist s h @ [MasterNode t] else klist s h)"
    and "\<forall>h\<in>kheads W. StateNode t \<notin> set (klist s h)"
    and "timed_tasks s' = timed_tasks s" and "w \<in> W \<Longrightarrow> waiters s' w = waiters s w"
    and "w \<in> W \<Longrightarrow> set (waiters s w) \<subseteq> T" and "tasks s' = (tasks s)(t := k)"
    and "ready_mask s' = ready_mask s" "current_task s' = current_task s" "idle_task s' = idle_task s"
proof -
  have i: "kinv T W s" using assms(1) by (simp add: ksafe_def)
  note b = kinv_kbase [OF i]
  note n = init_task_nodes [OF kbaseD(3) [OF b] t]
  have em: "list_empty (MasterNode t) (init_task_nodes t (lnk s))" by (rule n(3)) simp
  show l: "klist s' h = (if h = MasterHead then klist s h @ [MasterNode t] else klist s h)"
    if "h \<in> kheads W" for h
    using items_list_add_tail [OF n(1) _ _ em that, of MasterHead] n(2) that by (simp add: s'_def)
  show "\<forall>h\<in>kheads W. StateNode t \<notin> set (klist s h)" using lists_wfD(3) [OF kbaseD(3) [OF b]] t by fastforce
  show "timed_tasks s' = timed_tasks s" using l [of TimeoutHead] by (simp add: timed_tasks_def)
  show "waiters s' w = waiters s w" if "w \<in> W" for w
    using l [of "WaitHead w"] that by (simp add: waiters_def)
  show "set (waiters s w) \<subseteq> T" if "w \<in> W" for w using waiter_nodes(2) [OF i that] by auto
qed (simp_all add: s'_def fun_eq_iff)

text \<open>C6. In every kernel reachable from \<^verbatim>\<open>sched_init\<close> by the scheduler's and the wait queues'
  routines, the task states and the lists agree, as long as no trap has fallen inside one of the
  two sequences the code leaves unmasked (the two statements of \<^verbatim>\<open>task_yield\<close>, the two links of a
  new task): a ready task other than the idle task is in the ready list of its priority and in no
  other list, a running task is the current task and in no list, the ready mask has exactly the
  bits of the non-empty ready lists, a task is in the timeout list if and only if it is blocked
  with a timeout, and every wait queue is sorted by priority.  The control points inside the two
  sequences are covered too: between the statements of \<^verbatim>\<open>task_yield\<close> all of this holds but for
  the yielding task, which is ready and in no list, and between the two links of a new task it
  holds of all the others, while the new task is ready, last in the master list and in no ready
  list.  A trap at one of these points is excluded, and rightly so: the code loses the yielding
  task there, and the kernel is no longer consistent.\<close>

theorem consistent_unless_torn:
  fixes s :: "'z kstate_scheme"
  assumes "ureach B p T W s" and "p \<noteq> Torn"
  shows "(\<forall>t\<in>T. task_state (tasks s t) = TASK_READY \<and> t \<noteq> idle_task s \<and>
        \<not> (p = Marked \<and> t = current_task s) \<longrightarrow>
      (\<forall>h\<in>kheads W. StateNode t \<in> set (klist s h) \<longleftrightarrow> h = ReadyHead (prio s t))) \<and>
    (\<forall>t\<in>T. task_state (tasks s t) = TASK_RUNNING \<longrightarrow>
      p \<noteq> Marked \<and> t = current_task s \<and> (\<forall>h\<in>kheads W. StateNode t \<notin> set (klist s h))) \<and>
    (\<forall>q<32. bit (ready_mask s) q \<longleftrightarrow> klist s (ReadyHead q) \<noteq> []) \<and>
    (\<forall>t\<in>T. t \<in> set (timed_tasks s) \<longleftrightarrow>
      task_state (tasks s t) = TASK_BLOCKED \<and> waiting_on_timer (tasks s t)) \<and>
    (\<forall>w\<in>W. sorted_wrt (\<lambda>t u. prio s u \<le> prio s t) (waiters s w)) \<and>
    (p = Marked \<longrightarrow> current_task s \<in> T \<and> current_task s \<noteq> idle_task s \<and>
      task_state (tasks s (current_task s)) = TASK_READY \<and>
      (\<forall>h\<in>kheads W. StateNode (current_task s) \<notin> set (klist s h))) \<and>
    (\<forall>t. p = Linked t \<longrightarrow> t \<notin> T \<and> task_state (tasks s t) = TASK_READY \<and>
      (\<exists>xs. klist s MasterHead = xs @ [MasterNode t]) \<and>
      (\<forall>h\<in>kheads W. StateNode t \<notin> set (klist s h)))"
proof (cases p)
  case Whole
  then have "ksafe B T W s" using ureach_at_point [OF assms(1)] kreach_ksafe by simp
  from safe_consistent [OF this] Whole show ?thesis by auto
next
  case Marked
  then obtain s0 where s0: "kreach B T W s0" "app_running s0" "s = task_yield_mark s0"
    using ureach_at_point [OF assms(1)] by auto
  note k = kreach_ksafe [OF s0(1)]
  note c = marked_state [OF k s0(2)]
  have f: "tasks s = (tasks s0)(current_task s0 := (tasks s0 (current_task s0))\<lparr>task_state := TASK_READY\<rparr>)"
    "\<And>h. klist s h = klist s0 h" "timed_tasks s = timed_tasks s0" "\<And>w. waiters s w = waiters s0 w"
    "\<And>t. prio s t = prio s0 t" "ready_mask s = ready_mask s0" "current_task s = current_task s0"
    "idle_task s = idle_task s0"
    by (simp_all add: s0(3) fun_eq_iff timed_tasks_def waiters_def)
  have st: "task_state (tasks s t) = (if t = current_task s0 then TASK_READY else task_state (tasks s0 t))"
    "waiting_on_timer (tasks s t) = waiting_on_timer (tasks s0 t)" for t by (simp_all add: f(1))
  note g = safe_consistent [OF k]
  have "\<forall>t\<in>T. task_state (tasks s t) = TASK_READY \<and> t \<noteq> idle_task s \<and> t \<noteq> current_task s \<longrightarrow>
      (\<forall>h\<in>kheads W. StateNode t \<in> set (klist s h) \<longleftrightarrow> h = ReadyHead (prio s t))"
    using g(1) by (simp only: st f(2,5,7,8) if_False cong: conj_cong) metis
  moreover have "\<forall>t\<in>T. task_state (tasks s t) \<noteq> TASK_RUNNING"
    using g(2) by (auto simp: st)
  moreover have "\<forall>q<32. bit (ready_mask s) q \<longleftrightarrow> klist s (ReadyHead q) \<noteq> []"
    using g(3) by (simp only: f(2,6))
  moreover have "\<forall>t\<in>T. t \<in> set (timed_tasks s) \<longleftrightarrow>
      task_state (tasks s t) = TASK_BLOCKED \<and> waiting_on_timer (tasks s t)"
    using g(4) c(3,5) by (simp add: st f(3))
  moreover have "\<forall>w\<in>W. sorted_wrt (\<lambda>t u. prio s u \<le> prio s t) (waiters s w)"
    using g(5) by (simp only: f(4,5))
  moreover have "\<forall>h\<in>kheads W. StateNode (current_task s) \<notin> set (klist s h)"
    using c(4) by (simp only: f(2,7) simp_thms)
  moreover have "current_task s \<in> T" "current_task s \<noteq> idle_task s"
    "task_state (tasks s (current_task s)) = TASK_READY"
    using c(1,2) by (simp_all add: f(7,8) st)
  ultimately show ?thesis using Marked by simp
next
  case (Linked u)
  then obtain s0 k where s0: "kreach B T W s0" "u \<notin> T" "task_state k = TASK_READY"
    "s = upd_lnk (list_add_tail (MasterNode u) MasterHead)
      (upd_lnk (init_task_nodes u) (upd_task u (\<lambda>_. k) s0))"
    using ureach_at_point [OF assms(1)] by auto
  note i = kreach_ksafe [OF s0(1)]
  note l = linked_state [OF i s0(2)]
  note f = l(1) [of _ k, folded s0(4)] l(2) l(3) [of k, folded s0(4)] l(4) [of _ k, folded s0(4)] l(5)
    l(6-9) [of k, folded s0(4)]
  have ne: "t \<noteq> u" if "t \<in> T" for t using that s0(2) by blast
  have pr: "prio s t = prio s0 t" if "t \<in> T" for t using ne [OF that] by (simp add: f(6))
  have st: "tasks s t = tasks s0 t" if "t \<in> T" for t using ne [OF that] by (simp add: f(6))
  have m: "StateNode t \<in> set (klist s h) \<longleftrightarrow> StateNode t \<in> set (klist s0 h)" if "h \<in> kheads W" for t h
    by (simp add: f(1) [OF that])
  have "sorted_wrt (\<lambda>t v. prio s v \<le> prio s t) (waiters s w)" if "w \<in> W" for w
    unfolding f(4) [OF that]
    by (rule sorted_wrt_mono_rel [OF _ bspec [OF safe_consistent(5) [OF i] that]])
      (metis pr subsetD [OF f(5) [OF that]])
  moreover have "klist s MasterHead = klist s0 MasterHead @ [MasterNode u]" using f(1) [of MasterHead] by simp
  moreover have "klist s (ReadyHead q) = klist s0 (ReadyHead q)" if "q < 32" for q
    using f(1) [of "ReadyHead q"] that by simp
  ultimately show ?thesis
    using safe_consistent(1-4) [OF i] f(2) s0(2,3) Linked
    by (simp add: st m f(3,7,8,9)) (simp add: f(6))
qed (use assms(2) in simp)

lemma consistent_unless_torn_witness:
  "task_state (tasks (task_yield_mark demo_k) 0x300) = TASK_READY \<and>
    StateNode 0x300 \<notin> set (klist (task_yield_mark demo_k) (ReadyHead 7)) \<and>
    StateNode 0x100 \<in> set (klist (task_yield_mark demo_k) (ReadyHead 5)) \<and>
    \<not> bit (ready_mask (task_yield_mark demo_k)) 7"
proof -
  let ?s = "task_yield_mark demo_k"
  have u: "ureach 0 Marked demo_T {demo_w} ?s"
    by (rule ureach.Next [OF kreach_ureach [OF demo_k_reach] ustep.Mark]) (rule demo_k_running)+
  have st: "task_state (tasks ?s 0x100) = TASK_READY" "prio ?s 0x100 = 5" "current_task ?s = 0x300"
    "idle_task ?s = 0x400"
    by (simp_all add: demo_k_fields demo_task_def)
  have "klist ?s (ReadyHead 7) = []" using demo_k(3) [of "ReadyHead 7"] by simp
  then show ?thesis
    using consistent_unless_torn [OF u] st by (auto simp: demo_k_fields)
qed

subsection \<open>Timeouts\<close>

text \<open>C7. In a reachable kernel all of whose waits are shorter than half the range of the tick
  counter, a tick wakes exactly the tasks whose wake-up time is the new tick count, whatever the
  counter is: they become ready with the result \<^verbatim>\<open>TASK_WAIT_TIMEOUT\<close>, every other task keeps its
  record, and the loop of \<^verbatim>\<open>sched_wake_expired\<close> ends.\<close>

theorem tick_wakes_exactly:
  assumes "kreach B T W s" and "B < 2 ^ 31"
  shows "\<exists>s'. sched_wake_expired (next_tick s) = Some s' \<and> kreach B T W s' \<and>
    (\<forall>t. tasks s' t =
      (if t \<in> set (timed_tasks s) \<and> wakeup (tasks s t) = tick_count s + 1
       then (tasks s t)\<lparr>waiting_on_timer := False, wait_result := TASK_WAIT_TIMEOUT,
              task_state := TASK_READY\<rparr>
       else tasks s t))"
proof -
  have i: "kinv T W s" "timeouts_ok s" using kreach_ksafe [OF assms(1)] assms(2) by (simp_all add: ksafe_def)
  obtain s' where w: "sched_wake_expired (next_tick s) = Some s'"
    "expired_from W (filter (\<lambda>t. wakeup (tasks s t) = tick_count s + 1) (timed_tasks s)) (next_tick s) s'"
    using wake_expired_on_tick [OF i] by blast
  have "kreach B T W s'" using kreach.Step [OF assms(1) kstep.Tick [OF w(1)]] .
  with w show ?thesis
    by (auto simp: expired_from_def next_tick_def timed_out_def)
qed

lemma demo_sleep:
  "\<exists>s'. delay_block (tick_count demo_k + 1) demo_k = Some s' \<and> kreach 1 demo_T {demo_w} s' \<and>
     timed_tasks s' = [0x300] \<and> wakeup (tasks s' 0x300) = tick_count s' + 1"
proof -
  obtain s' where d: "delay_block (tick_count demo_k + 1) demo_k = Some s'"
    "tasks s' = (tasks demo_k)(current_task demo_k := (tasks demo_k (current_task demo_k))
      \<lparr>wakeup := tick_count demo_k + 1, waiting_on_timer := True, wait_result := TASK_WAIT_NONE,
       task_state := TASK_BLOCKED\<rparr>)"
    "\<forall>h\<in>kheads {demo_w}. klist s' h = (if h = TimeoutHead
      then enter_timeouts demo_k (current_task demo_k) (tick_count demo_k + 1) (klist demo_k h)
      else klist demo_k h)"
    "s' = demo_k\<lparr>tasks := tasks s', lnk := lnk s'\<rparr>"
    using delay_block [OF demo_k(1) demo_k_running(1)] by blast
  have "kreach 1 demo_T {demo_w} s'"
    by (rule kreach.Step [OF demo_k_reach kstep.Sleep [OF demo_k_running(1) _ _ d(1)]]) simp_all
  moreover have "tick_count s' = tick_count demo_k" by (subst d(4)) simp
  moreover have "klist s' TimeoutHead = [TimeoutNode 0x300]"
    using bspec [OF d(3), of TimeoutHead] demo_k(3) [of TimeoutHead]
    by (simp add: enter_timeouts_def demo_k_fields)
  ultimately show ?thesis
    using d(1) by (intro exI [of _ s']) (simp add: timed_tasks_def d(2) demo_k_fields)
qed

lemma tick_wakes_exactly_witness:
  "\<exists>(s :: kstate) s'. timed_tasks s = [0x300] \<and> sched_wake_expired (next_tick s) = Some s' \<and>
     task_state (tasks s' 0x300) = TASK_READY \<and> wait_result (tasks s' 0x300) = TASK_WAIT_TIMEOUT"
proof -
  obtain s :: kstate where s: "kreach 1 demo_T {demo_w} s" "timed_tasks s = [0x300]"
    "wakeup (tasks s 0x300) = tick_count s + 1"
    using demo_sleep by blast
  have "(1 :: nat) < 2 ^ 31" by simp
  from tick_wakes_exactly [OF s(1) this] obtain s' where
    "sched_wake_expired (next_tick s) = Some s'"
    "tasks s' 0x300 = (tasks s 0x300)\<lparr>waiting_on_timer := False, wait_result := TASK_WAIT_TIMEOUT,
       task_state := TASK_READY\<rparr>"
    using s(2,3) by (metis list.set_intros(1))
  then have "timed_tasks s = [0x300] \<and> sched_wake_expired (next_tick s) = Some s' \<and>
     task_state (tasks s' 0x300) = TASK_READY \<and> wait_result (tasks s' 0x300) = TASK_WAIT_TIMEOUT"
    using s(2) by simp
  then show ?thesis by blast
qed

subsection \<open>The tick\<close>

text \<open>What a tick decides for a running application task: with a ready task of higher priority
  it asks for a switch; without a ready task of its own priority it lets the task run on; otherwise
  it counts the tick against the time slice and asks for a switch when the slice is used up.  In
  every other case, with a current task, it asks for a switch.\<close>

theorem on_tick_decides:
  assumes "kinv T W s" and "current_task s \<noteq> 0"
  defines "p \<equiv> prio s (current_task s)"
  shows "sched_on_tick s =
    (if \<not> app_running s \<or> higher_ready s p then (True, s\<lparr>time_slice_ticks := 0\<rparr>)
     else if klist s (ReadyHead p) = [] then (False, s)
     else if RTOS_TIME_SLICE_TICKS \<le> time_slice_ticks s + 1 then (True, s\<lparr>time_slice_ticks := 0\<rparr>)
     else (False, s\<lparr>time_slice_ticks := time_slice_ticks s + 1\<rparr>))"
  using on_tick_running [OF assms(1)] on_tick_not_running [OF assms(2)]
  by (cases "app_running s") (simp_all add: p_def peer_ready_def)

lemma on_tick_decides_witness: "sched_on_tick demo_k = (False, demo_k)"
proof -
  have c: "current_task demo_k \<noteq> 0" by (simp add: demo_k_fields)
  have "klist demo_k (ReadyHead q) = []" if "q < 32" "6 < q" for q
    using demo_k(3) [of "ReadyHead q"] that by simp
  then have "\<not> higher_ready demo_k 7" "klist demo_k (ReadyHead 7) = []"
    by (auto simp: higher_ready_def)
  then show ?thesis
    using on_tick_decides [OF demo_k(1) c] demo_k_running(1) by (simp add: demo_k_fields demo_task_def)
qed

text \<open>A task with a peer and no superior, at a given point of its time slice.\<close>

definition sharing :: "'z kstate_scheme \<Rightarrow> bool" where
  "sharing s \<longleftrightarrow> app_running s \<and> peer_ready s (prio s (current_task s)) \<and>
     \<not> higher_ready s (prio s (current_task s))"

lemma sharing_slice [simp]:
  "app_running (s\<lparr>time_slice_ticks := n\<rparr>) = app_running s"
  "peer_ready (s\<lparr>time_slice_ticks := n\<rparr>) = peer_ready s"
  "higher_ready (s\<lparr>time_slice_ticks := n\<rparr>) = higher_ready s"
  by (simp_all add: app_running_def peer_ready_def higher_ready_def fun_eq_iff)

lemma on_tick_sharing:
  assumes k: "kinv T W s" and c: "sharing s" and n: "time_slice_ticks s = of_nat n" "n < 10"
  shows "sched_on_tick s =
    (if n = 9 then (True, s\<lparr>time_slice_ticks := 0\<rparr>) else (False, s\<lparr>time_slice_ticks := of_nat (Suc n)\<rparr>))"
proof -
  have "time_slice_ticks s + 1 = of_nat (Suc n)" by (simp add: n(1))
  moreover have "RTOS_TIME_SLICE_TICKS \<le> of_nat (Suc n) \<longleftrightarrow> 9 \<le> n"
    using n(2) by (simp add: RTOS_TIME_SLICE_TICKS_def word_le_nat_alt unat_of_nat del: of_nat_Suc)
  ultimately show ?thesis
    using on_tick_running [OF k] c n(2) by (auto simp: sharing_def simp del: of_nat_Suc)
qed

text \<open>C8. Round robin: as long as a task with ready peers and no superior runs, one tick in
  \<^verbatim>\<open>RTOS_TIME_SLICE_TICKS\<close> asks for a switch, the tenth, twentieth and so on, and no other.\<close>

theorem round_robin_quantum:
  assumes "kinv T W s" and "sharing s" and "time_slice_ticks s = 0"
  shows "fst (sched_on_tick (((\<lambda>u. snd (sched_on_tick u)) ^^ n) s)) \<longleftrightarrow> n mod 10 = 9"
proof -
  have st: "((\<lambda>u. snd (sched_on_tick u)) ^^ n) s = s\<lparr>time_slice_ticks := of_nat (n mod 10)\<rparr>" for n
  proof (induction n)
    case 0
    show ?case using assms(3) by simp
  next
    case (Suc n)
    let ?u = "s\<lparr>time_slice_ticks := of_nat (n mod 10)\<rparr>"
    have k: "kinv T W ?u" by (rule kinv_frame [OF assms(1)]) simp_all
    have c: "sharing ?u" using assms(2) by (simp add: sharing_def)
    show ?case
      using on_tick_sharing [OF k c, of "n mod 10"] by (simp add: Suc mod_Suc del: of_nat_Suc)
  qed
  have k: "kinv T W (s\<lparr>time_slice_ticks := of_nat (n mod 10)\<rparr>)"
    by (rule kinv_frame [OF assms(1)]) simp_all
  have c: "sharing (s\<lparr>time_slice_ticks := of_nat (n mod 10)\<rparr>)" using assms(2) by (simp add: sharing_def)
  show ?thesis unfolding st using on_tick_sharing [OF k c, of "n mod 10"] by simp
qed

lemma pick_next_slice:
  assumes "sched_pick_next s = Some (t, s')"
  shows "time_slice_ticks s' = time_slice_ticks s \<and> idle_task s' = idle_task s"
proof -
  have "time_slice_ticks s' = time_slice_ticks (requeue_current s) \<and>
      idle_task s' = idle_task (requeue_current s)"
    using assms by (auto simp: sched_pick_next_def sched_ready_pop_highest_def Let_def split: if_splits)
  then show ?thesis by (simp add: requeue_current_def Let_def)
qed

lemma demo_add_slice: "time_slice_ticks (demo_add t p s) = time_slice_ticks s"
  unfolding demo_add_def sched_add_task_def ready_enqueue_frame by simp

lemma demo_k_slice: "time_slice_ticks demo_k = 0"
proof -
  have n: "\<not> sched_initialized blank_kstate" by (simp add: blank_kstate_def)
  obtain t s' where p: "sched_pick_next (demo_boot blank_kstate) = Some (t, s')"
    using pick_next_kinv [OF demo_boot(1) [OF n]] by blast
  have "time_slice_ticks (demo_boot blank_kstate) = time_slice_ticks (sched_init blank_kstate)"
    unfolding demo_boot_def demo_add_slice by (simp add: sched_set_idle_task_def demo_add_slice)
  also have "\<dots> = 0" using n by (simp add: sched_init_def)
  finally have "time_slice_ticks (demo_run blank_kstate) = 0"
    using pick_next_slice [OF p] by (simp add: demo_run_def p)
  then show ?thesis by (simp add: demo_k_def trt_wait_q_init_def)
qed

lemma demo_shared:
  "\<exists>s :: kstate. kinv demo_T {demo_w} s \<and> sharing s \<and> time_slice_ticks s = 0"
proof -
  obtain u where d: "delay_block 5 demo_k = Some u" "kinv demo_T {demo_w} u"
    "tasks u = (tasks demo_k)(current_task demo_k := (tasks demo_k (current_task demo_k))
      \<lparr>wakeup := 5, waiting_on_timer := True, wait_result := TASK_WAIT_NONE, task_state := TASK_BLOCKED\<rparr>)"
    "\<forall>h\<in>kheads {demo_w}. klist u h = (if h = TimeoutHead
      then enter_timeouts demo_k (current_task demo_k) 5 (klist demo_k h) else klist demo_k h)"
    and shape: "u = demo_k\<lparr>tasks := tasks u, lnk := lnk u\<rparr>"
    using delay_block [OF demo_k(1) demo_k_running(1), of 5] by blast
  have f: "current_task u = 0x300" "time_slice_ticks u = 0" "idle_task u = 0x400"
    by (subst shape, simp add: demo_k_fields demo_k_slice)+
  have st: "task_state (tasks u 0x300) = TASK_BLOCKED" by (simp add: d(3) demo_k_fields)
  have rl: "klist u (ReadyHead p) = (if p = 0 then [StateNode 0x400]
      else if p = 5 then [StateNode 0x100, StateNode 0x200] else [])" if "p < 32" for p
    using bspec [OF d(4), of "ReadyHead p"] demo_k(3) [of "ReadyHead p"] that by simp
  have rv: "ready_view u p = klist u (ReadyHead p)" for p by (simp add: ready_view_def f(1) st)
  have rq: "requeue_current u = u" by (simp add: requeue_current_def f(1) st)
  have "(5 :: nat) < 32" "ready_view u 5 \<noteq> []" using rl [of 5] rv by simp_all
  from pick_next_ready [OF d(2) this] obtain p t xs s' where
    p: "p < 32" "ready_view u p = StateNode t # xs" "\<forall>r<32. ready_view u r \<noteq> [] \<longrightarrow> r \<le> p"
    and s': "sched_pick_next u = Some (t, s')" "kinv demo_T {demo_w} (s'\<lparr>current_task := t\<rparr>)"
    "tasks s' = (tasks u)(t := (tasks u t)\<lparr>task_state := TASK_RUNNING\<rparr>)"
    "\<forall>h\<in>kheads {demo_w}. klist s' h = (if h = ReadyHead p then xs else klist u h)"
    unfolding rq by blast
  have "5 \<le> p" using p(3) rl [of 5] rv by simp
  then have p5: "p = 5" "t = 0x100" "xs = [StateNode 0x200]"
    using p(1,2) rl [OF p(1)] rv by (simp_all split: if_splits)
  let ?s = "s'\<lparr>current_task := t\<rparr>"
  have pr: "prio ?s t = 5" by (simp add: s'(3) p5 d(3) demo_k_fields demo_task_def)
  have "klist s' (ReadyHead q) = (if q = 0 then [StateNode 0x400] else if q = 5 then [StateNode 0x200] else [])"
    if "q < 32" for q
    using bspec [OF s'(4), of "ReadyHead q"] rl [OF that] that by (auto simp: p5 split: if_splits)
  then have "\<not> higher_ready ?s 5" "peer_ready ?s 5"
    by (auto simp: higher_ready_def peer_ready_def)
  moreover have "app_running ?s"
    using pick_next_slice [OF s'(1)] f by (simp add: app_running_def p5 s'(3))
  moreover have "time_slice_ticks ?s = 0" using pick_next_slice [OF s'(1)] f by simp
  ultimately show ?thesis
    using s'(2) pr by (intro exI [of _ ?s]) (simp add: sharing_def)
qed

lemma round_robin_quantum_witness:
  "\<exists>s :: kstate. fst (sched_on_tick (((\<lambda>u. snd (sched_on_tick u)) ^^ 9) s)) \<and>
     \<not> fst (sched_on_tick (((\<lambda>u. snd (sched_on_tick u)) ^^ 8) s))"
proof -
  obtain s :: kstate where "kinv demo_T {demo_w} s" "sharing s" "time_slice_ticks s = 0"
    using demo_shared by blast
  from round_robin_quantum [OF this, of 9] round_robin_quantum [OF this, of 8] show ?thesis
    by (intro exI [of _ s]) simp
qed

end
