(* ===== verification/WaitProps.thy ===== *)
theory WaitProps
  imports SchedProps
begin

text \<open>
  The properties of blocking, waking, deletion and rescheduling, with instances on the small
  system of \<open>SchedProps\<close> and on the state in which its running task waits on the queue.
\<close>

subsection \<open>Waiting\<close>

lemma demo_waiting:
  "\<exists>s :: kstate. trt_wait_q_block_locked demo_w demo_k = Some (ERR_OK, s) \<and> kinv demo_T {demo_w} s \<and>
     waiters s demo_w = [0x300] \<and> kreach 0 demo_T {demo_w} s \<and> current_task s = 0x300 \<and>
     idle_task s = 0x400 \<and> task_state (tasks s 0x300) = TASK_BLOCKED"
proof -
  obtain s where s: "trt_wait_q_block_locked demo_w demo_k = Some (ERR_OK, s)" "kinv demo_T {demo_w} s"
    "waiters s demo_w = enter_waiters demo_k (current_task demo_k) (waiters demo_k demo_w)"
    "tasks s = (tasks demo_k)(current_task demo_k := (tasks demo_k (current_task demo_k))
      \<lparr>wait_result := TASK_WAIT_NONE, task_state := TASK_BLOCKED, waiting_on_timer := False\<rparr>)"
    and shape: "s = demo_k\<lparr>tasks := tasks s, lnk := lnk s\<rparr>"
    using block_locked [OF demo_k(1) _ demo_k_running(2), of demo_w] by blast
  have "trt_wait_q_block_timeout_locked demo_w TRT_TIME_FOREVER_US demo_k = Some (ERR_OK, s)"
    using s(1) by (simp add: trt_wait_q_block_timeout_locked_def)
  then have "kreach 0 demo_T {demo_w} s"
    by (rule kreach.Step [OF demo_k_reach kstep.Block [OF demo_k_running(1)], rotated 2]) simp_all
  moreover have "current_task s = 0x300" "idle_task s = 0x400"
    by (subst shape, simp add: demo_k_fields)+
  ultimately show ?thesis
    using s(1,2) by (intro exI [of _ s]) (simp add: s(3,4) demo_k(2) enter_waiters_def demo_k_fields)
qed

text \<open>Blocking with a timeout.  The running task leaves the processor with the result
  \<^verbatim>\<open>TASK_WAIT_NONE\<close>, enters the queue behind every waiter of at least its priority and before all
  others, and enters the timeout list behind every earlier deadline; the other queues and every
  other task are as before, and the call ends.  A zero timeout gives \<^verbatim>\<open>ERR_TIMEOUT\<close>, a locked scheduler
  \<^verbatim>\<open>ERR_LOCKED\<close>, and neither blocks.\<close>

theorem block_ticks_enters:
  assumes "kinv T W s" and "w \<in> W" and "app_running s"
  shows "\<exists>e s'. trt_wait_q_block_ticks_locked w n s = Some (e, s') \<and> kinv T W s' \<and>
    (if n = 0 then e = ERR_TIMEOUT \<and> s' = s
     else if sched_is_locked s then e = ERR_LOCKED \<and> s' = sched_set_pending s
     else e = ERR_OK \<and>
       waiters s' w = takeWhile (\<lambda>u. prio s (current_task s) \<le> prio s u) (waiters s w) @ current_task s #
         dropWhile (\<lambda>u. prio s (current_task s) \<le> prio s u) (waiters s w) \<and>
       (\<forall>v\<in>W. v \<noteq> w \<longrightarrow> waiters s' v = waiters s v) \<and>
       klist s' TimeoutHead =
         enter_timeouts s (current_task s) (tick_count s + n) (klist s TimeoutHead) \<and>
       tasks s' = (tasks s)(current_task s := (tasks s (current_task s))
         \<lparr>task_state := TASK_BLOCKED, wakeup := tick_count s + n, waiting_on_timer := True,
          wait_result := TASK_WAIT_NONE\<rparr>))"
proof -
  have nw: "w \<noteq> NullWq" using kbaseD(2) [OF kinv_kbase [OF assms(1)]] assms(2) by blast
  consider "n = 0" | "n \<noteq> 0" "sched_is_locked s" | "n \<noteq> 0" "\<not> sched_is_locked s" by blast
  then show ?thesis
  proof cases
    case 1
    then show ?thesis using assms(1) by (simp add: trt_wait_q_block_ticks_locked_def)
  next
    case 2
    then have "trt_wait_q_block_locked w s = Some (ERR_LOCKED, sched_set_pending s)"
      using block_locked_rejected(2) [OF nw, of s] assms(3) by (simp add: app_running_def)
    then show ?thesis using 2 assms(1) by (simp add: trt_wait_q_block_ticks_locked_def)
  next
    case 3
    obtain s' where "trt_wait_q_block_ticks_locked w n s = Some (ERR_OK, s')" "kinv T W s'"
      "waiters s' w = enter_waiters s (current_task s) (waiters s w)"
      "\<forall>v\<in>W. v \<noteq> w \<longrightarrow> waiters s' v = waiters s v"
      "klist s' TimeoutHead = enter_timeouts s (current_task s) (tick_count s + n) (klist s TimeoutHead)"
      "tasks s' = (tasks s)(current_task s := (tasks s (current_task s))
         \<lparr>task_state := TASK_BLOCKED, wakeup := tick_count s + n, waiting_on_timer := True,
          wait_result := TASK_WAIT_NONE\<rparr>)"
      using block_ticks_locked [OF assms(1,2) running_may_block [OF assms(3) 3(2)] 3(1)] by blast
    then show ?thesis using 3 by (intro exI [of _ ERR_OK] exI [of _ s']) (simp add: enter_waiters_def)
  qed
qed

lemma block_ticks_enters_witness:
  "\<exists>s'. trt_wait_q_block_ticks_locked demo_w 20 demo_k = Some (ERR_OK, s') \<and> waiters s' demo_w = [0x300]"
  using block_ticks_enters [OF demo_k(1) _ demo_k_running(1), of demo_w 20] demo_k_running(3)
  by (auto simp: demo_k_fields demo_k(2))

text \<open>C9. A wake takes the first waiter of the queue, which in a reachable kernel is one of the
  highest priority, makes it ready at the tail of its ready list with the result the waker gives,
  and cancels its timeout; the rest of the queue and every other task are as before.  On an empty
  queue nothing happens.\<close>

theorem wake_one_first:
  assumes "kreach B T W s" and "w \<in> W"
  shows "case waiters s w of
      [] \<Rightarrow> trt_wait_q_wake_one_result_locked w r s = (0, s)
    | t # ts \<Rightarrow> \<exists>s'. trt_wait_q_wake_one_result_locked w r s = (t, s') \<and> waiters s' w = ts \<and>
        (\<forall>u\<in>set ts. prio s u \<le> prio s t) \<and>
        klist s' (ReadyHead (prio s t)) = klist s (ReadyHead (prio s t)) @ [StateNode t] \<and>
        t \<notin> set (timed_tasks s') \<and>
        tasks s' = (tasks s)(t := (tasks s t)\<lparr>waiting_on_timer := False, task_state := TASK_READY,
          wait_result := r\<rparr>)"
proof (cases "waiters s w")
  case Nil
  then show ?thesis using wake_result_empty [OF ksafe_kinv [OF kreach_ksafe [OF assms(1)]] assms(2)] by simp
next
  case (Cons t ts)
  have i: "kinv T W s" "waiters_sorted s w"
    using kreach_ksafe [OF assms(1)] assms(2) by (simp_all add: ksafe_def queues_sorted_def)
  note f = wake_result_first [OF i(1) assms(2) Cons, where r = r]
    and v = waiters_after_wake(1) [OF i(1) assms(2) Cons, where r = r]
  have t: "t \<in> T" using waiter_blocked(1) [OF i(1) assms(2), of t] Cons by simp
  then have "prio s t < 32" using kbaseD(7) [OF kinv_kbase [OF i(1)]] by blast
  moreover have "t \<notin> set (timed_tasks (snd (trt_wait_q_wake_one_result_locked w r s)))"
    using timed_tasks_iff [OF f(2) t] by (simp add: f(3))
  moreover have "\<forall>u\<in>set ts. prio s u \<le> prio s t" using i(2) Cons by (simp add: waiters_sorted_def)
  ultimately show ?thesis
    using f(1,3) f(4) [of "ReadyHead (prio s t)"] v Cons by auto
qed

lemma wake_one_first_witness:
  "\<exists>(s :: kstate) s'. waiters s demo_w = [0x300] \<and>
     trt_wait_q_wake_one_result_locked demo_w TASK_WAIT_OBJECT s = (0x300, s') \<and>
     wait_result (tasks s' 0x300) = TASK_WAIT_OBJECT"
proof -
  obtain s :: kstate where s: "waiters s demo_w = [0x300]" "kreach 0 demo_T {demo_w} s"
    using demo_waiting by blast
  from wake_one_first [OF s(2), of demo_w TASK_WAIT_OBJECT] obtain s' where
    "trt_wait_q_wake_one_result_locked demo_w TASK_WAIT_OBJECT s = (0x300, s')"
    "wait_result (tasks s' 0x300) = TASK_WAIT_OBJECT"
    by (auto simp: s(1))
  with s(1) show ?thesis by blast
qed

text \<open>C10. Waking all waiters ends, returns their number, empties the queue and makes exactly the
  tasks that waited ready with the result given; the other queues are untouched.\<close>

theorem wake_all_empties:
  assumes "kinv T W s" and "w \<in> W"
  shows "\<exists>s'. trt_wait_q_wake_all_result_locked w r s = Some (of_nat (length (waiters s w)), s') \<and>
    kinv T W s' \<and> waiters s' w = [] \<and> (\<forall>v\<in>W. v \<noteq> w \<longrightarrow> waiters s' v = waiters s v) \<and>
    (\<forall>t. tasks s' t = (if t \<in> set (waiters s w)
       then (tasks s t)\<lparr>waiting_on_timer := False, task_state := TASK_READY, wait_result := r\<rparr>
       else tasks s t))"
  using wake_all [OF assms, of r] unfolding all_woken_def woken_def by (metis (no_types, lifting))

lemma wake_all_empties_witness:
  "\<exists>(s :: kstate) s'. waiters s demo_w = [0x300] \<and>
     trt_wait_q_wake_all_result_locked demo_w TASK_WAIT_DESTROYED s = Some (1, s') \<and>
     wait_result (tasks s' 0x300) = TASK_WAIT_DESTROYED"
proof -
  obtain s :: kstate where s: "waiters s demo_w = [0x300]" "kinv demo_T {demo_w} s"
    using demo_waiting by blast
  from wake_all_empties [OF s(2), of demo_w TASK_WAIT_DESTROYED] obtain s' where
    "trt_wait_q_wake_all_result_locked demo_w TASK_WAIT_DESTROYED s = Some (1, s')"
    "wait_result (tasks s' 0x300) = TASK_WAIT_DESTROYED"
    by (auto simp: s(1))
  with s(1) show ?thesis by blast
qed

subsection \<open>Deletion\<close>

text \<open>\<^verbatim>\<open>sched_mark_deleted\<close> takes the task off whatever list it is in, ready, waiting, sleeping
  or running, cancels its timeout and queues it for the clean-up; every other list keeps its other
  members in order, and the invariant holds.  When the deleted task is not the current one and is
  alone, \<^verbatim>\<open>sched_pop_deleted\<close> returns it and the kernel has forgotten it.\<close>

theorem delete_then_reap:
  assumes "kinv T W s" and "t \<in> T" and "t \<noteq> idle_task s" and "task_state (tasks s t) \<noteq> TASK_DELETED"
  shows "kinv T W (sched_mark_deleted t s) \<and>
    task_state (tasks (sched_mark_deleted t s) t) = TASK_DELETED \<and>
    (\<forall>h\<in>kheads W. klist (sched_mark_deleted t s) h =
      (if h = DeletedHead then klist s h @ [StateNode t]
       else remove1 (StateNode t) (remove1 (TimeoutNode t) (klist s h)))) \<and>
    (t \<noteq> current_task s \<and> klist s DeletedHead = [] \<longrightarrow>
      (\<exists>s'. sched_pop_deleted (sched_mark_deleted t s) = (t, s') \<and> kinv (T - {t}) W s' \<and>
        klist s' DeletedHead = []))"
proof -
  note m = mark_deleted [OF assms]
  have c: "current_task (sched_mark_deleted t s) = current_task s"
    by (simp add: sched_mark_deleted_def Let_def)
  have "\<exists>s'. sched_pop_deleted (sched_mark_deleted t s) = (t, s') \<and> kinv (T - {t}) W s' \<and>
      klist s' DeletedHead = []" if "t \<noteq> current_task s" "klist s DeletedHead = []"
  proof -
    have "klist (sched_mark_deleted t s) DeletedHead = [StateNode t]" using m(3) that(2) by simp
    from pop_deleted [OF m(1) this] that(1) c show ?thesis by (metis prod.collapse)
  qed
  then show ?thesis using m by blast
qed

lemma delete_then_reap_witness:
  "\<exists>s'. sched_pop_deleted (sched_mark_deleted 0x100 demo_k) = (0x100, s') \<and>
     kinv ({0x100, 0x200, 0x300, 0x400} - {0x100}) {demo_w} s'"
proof -
  have "klist demo_k DeletedHead = []" using demo_k(3) [of DeletedHead] by simp
  then show ?thesis
    using delete_then_reap [OF demo_k(1), of "0x100"] by (auto simp: demo_k_fields demo_task_def)
qed

subsection \<open>Locking and rescheduling\<close>

text \<open>Locking the scheduler around a section delays a switch and does not lose it: unlocking
  undoes the lock, and if a switch was requested meanwhile and this was the outermost lock, the
  running task is put back on its ready list and yields, with the request cleared.\<close>

theorem unlock_performs_pending:
  assumes "app_running s" and "started s" and "lock_count s \<noteq> - 1"
  shows "sched_unlock yield (sched_lock s) =
      (if lock_count s = 0 \<and> resched_pending s
       then yield (requeue_current (s\<lparr>resched_pending := False\<rparr>)) else Some s) \<and>
    task_yield yield (sched_lock s) = Some (sched_set_pending (sched_lock s))"
proof -
  have l: "lock_count s + 1 \<noteq> 0" using assms(3) by (simp add: eq_neg_iff_add_eq_0)
  let ?u = "s\<lparr>resched_pending := False\<rparr>"
  have r: "app_running ?u" using assms(1) by (simp add: app_running_def)
  have "task_yield yield ?u = yield (requeue_current ?u)" if "lock_count s = 0"
    using that by (intro yield_requeue [OF r]) (simp add: sched_is_locked_def)
  moreover have "s\<lparr>lock_count := lock_count s, resched_pending := False\<rparr> = ?u" by simp
  ultimately show ?thesis
    using l assms by (auto simp: sched_unlock_def sched_lock_def Let_def app_running_def task_yield_def
        sched_is_locked_def)
qed

lemma unlock_performs_pending_witness:
  "sched_unlock Some (sched_lock (demo_k\<lparr>started := True, resched_pending := False\<rparr>)) =
     Some (demo_k\<lparr>started := True, resched_pending := False\<rparr>)"
proof -
  have "app_running (demo_k\<lparr>started := True, resched_pending := False\<rparr>)"
    using demo_k_running(1) by (simp add: app_running_def)
  from unlock_performs_pending [OF this, of Some] show ?thesis by (simp add: demo_k_fields)
qed

text \<open>The rescheduling at the end of a trap always ends and keeps the invariant.  It switches
  exactly when the scheduler runs unlocked, a switch was requested, and the current task is not
  running, is the idle task, or is outranked by a ready task; then a task that no ready task
  outranks is running.  The request is cleared whenever the scheduler was unlocked.\<close>

theorem reschedule_from_trap:
  assumes "kinv T W s"
  shows "\<exists>b s'. sched_try_reschedule_from_trap s = Some (b, s') \<and> kinv T W s' \<and>
    (b \<longleftrightarrow> started s \<and> current_task s \<noteq> 0 \<and> resched_pending s \<and> lock_count s = 0 \<and>
      (task_state (tasks s (current_task s)) \<noteq> TASK_RUNNING \<or> current_task s = idle_task s \<or>
       higher_ready s (prio s (current_task s)))) \<and>
    (\<not> b \<longrightarrow> s' = (if started s \<and> current_task s \<noteq> 0 \<and> resched_pending s \<and> lock_count s = 0
       then s\<lparr>resched_pending := False\<rparr> else s)) \<and>
    (b \<longrightarrow> sched_pick_next (s\<lparr>resched_pending := False\<rparr>) =
       Some (current_task s', s'\<lparr>current_task := current_task s\<rparr>))"
proof (cases "started s \<and> current_task s \<noteq> 0 \<and> resched_pending s \<and> lock_count s = 0")
  case False
  then show ?thesis using assms by (auto simp: sched_try_reschedule_from_trap_def Let_def)
next
  case True
  let ?u = "s\<lparr>resched_pending := False\<rparr>"
  have k: "kinv T W ?u" by (rule kinv_frame [OF assms]) simp_all
  have h: "sched_has_higher_priority_ready ?u \<longleftrightarrow> higher_ready s (prio s (current_task s))"
    using has_higher_priority_ready [OF k] True by (simp add: higher_ready_def)
  have i: "sched_current_is_idle ?u \<longleftrightarrow> current_task s = idle_task s"
    using True by (auto simp: sched_current_is_idle_def)
  obtain t s2 where p: "sched_pick_next ?u = Some (t, s2)" "kinv T W (s2\<lparr>current_task := t\<rparr>)"
    using pick_next_kinv [OF k] by blast
  have "current_task s2 = current_task s"
  proof -
    have "current_task s2 = current_task (requeue_current ?u)"
      using p(1) by (auto simp: sched_pick_next_def sched_ready_pop_highest_def Let_def split: if_splits)
    then show ?thesis using requeue_current(3) [OF k] by simp
  qed
  then have s2: "s2\<lparr>current_task := t, current_task := current_task s\<rparr> = s2" by simp
  show ?thesis
    using True h i p k s2 by (auto simp: sched_try_reschedule_from_trap_def Let_def)
qed

lemma reschedule_from_trap_witness:
  "\<exists>s'. sched_try_reschedule_from_trap demo_k = Some (False, s')"
proof -
  have "klist demo_k (ReadyHead q) = []" if "q < 32" "6 < q" for q
    using demo_k(3) [of "ReadyHead q"] that by simp
  then have "\<not> higher_ready demo_k (prio demo_k (current_task demo_k))"
    by (auto simp: higher_ready_def demo_k_fields demo_task_def)
  then show ?thesis
    using reschedule_from_trap [OF demo_k(1)] by (auto simp: demo_k_fields)
qed

text \<open>C11. \<^verbatim>\<open>task_yield\<close> marks the running task as ready and then links it into its ready list,
  without masking interrupts.  Left alone it ends with the task in that list.  But if a trap that
  chooses the next task comes between the two statements, the choice falls on another task, and
  the yielding task is left ready but in no list the scheduler takes tasks from.\<close>

theorem yield_race_loses_task:
  assumes "kinv T W s" and "app_running s" and "peer_ready s p" and "p < 32" and "\<not> sched_is_locked s"
  defines "c \<equiv> current_task s"
  shows "(\<exists>s1. task_yield Some s = Some s1 \<and> StateNode c \<in> set (klist s1 (ReadyHead (prio s c)))) \<and>
    (\<exists>t s'. sched_pick_next (task_yield_mark s) = Some (t, s') \<and> t \<noteq> c \<and>
      task_state (tasks s' c) = TASK_READY \<and> c \<noteq> idle_task s' \<and>
      (\<forall>h\<in>kheads W. StateNode c \<notin> set (klist s' h)))"
proof -
  let ?u = "set_task_state c TASK_READY s"
  note b = kinv_kbase [OF assms(1)]
  have c: "c \<noteq> 0" "c \<noteq> idle_task s" "task_state (tasks s c) = TASK_RUNNING"
    using assms(2) by (simp_all add: c_def app_running_def)
  have cT: "c \<in> T" using current_in_T [OF assms(1)] c(1) by (simp add: c_def)
  note run = running_facts [OF assms(1) cT c(3)]
  have rq: "requeue_current ?u = ?u" by (simp add: requeue_current_def flip: c_def)
  have free: "StateNode c \<notin> set (klist s h)" if "h \<in> kheads W" for h
    using list_empty_state [OF b cT] run(1) that by simp
  have mok: "mask_ok s" using kbaseD(6) [OF b] .
  define q where "q = unat (31 - (of_nat (clz32 (ready_mask s)) :: u32))"
  have m0: "ready_mask s \<noteq> 0"
    using mask_zero_iff [OF mok] assms(3,4) by (auto simp: peer_ready_def)
  note hq = clz32_highest [OF m0, folded q_def]
  have hin: "ReadyHead q \<in> kheads W" using hq(1) by simp
  have "klist s (ReadyHead q) \<noteq> []" using mask_okD [OF mok hq(1)] hq(2) by simp
  then obtain x xs where x: "klist s (ReadyHead q) = x # xs" by (cases "klist s (ReadyHead q)") auto
  then obtain t where t: "t \<in> T" "x = StateNode t" using state_head_item [OF b hin, of x] by auto
  have ne: "t \<noteq> c" "t \<noteq> 0" using free [OF hin] x t kbaseD(1) [OF b] by auto
  note first = klist_first [OF b hin x]
  let ?l = "list_del_init (StateNode t) (lnk s)"
  obtain m where pop: "sched_ready_pop_highest ?u = Some (t, ?u\<lparr>lnk := ?l, ready_mask := m\<rparr>)"
  proof
    let ?m = "if list_empty (ReadyHead q) ?l then ready_mask s AND NOT (prio_bit q) else ready_mask s"
    show "sched_ready_pop_highest ?u = Some (t, ?u\<lparr>lnk := ?l, ready_mask := ?m\<rparr>)"
      using m0 first t(2)
      by (simp add: sched_ready_pop_highest_def Let_def upd_lnk_def flip: q_def)
  qed
  have pick: "sched_pick_next ?u = Some (t, set_task_state t TASK_RUNNING (?u\<lparr>lnk := ?l, ready_mask := m\<rparr>))"
    using pop ne(2) by (simp add: sched_pick_next_def rq)
  have "StateNode c \<notin> set (items ?l h)" if "h \<in> kheads W" for h
    using klist_del_init(2) [OF b _ that, of "StateNode t"] t(1) free [OF that] by simp
  with pick ne c have lost: "\<exists>t s'. sched_pick_next (task_yield_mark s) = Some (t, s') \<and> t \<noteq> c \<and>
      task_state (tasks s' c) = TASK_READY \<and> c \<noteq> idle_task s' \<and>
      (\<forall>h\<in>kheads W. StateNode c \<notin> set (klist s' h))"
    by (simp flip: c_def)
  have "klist (requeue_current s) (ReadyHead (prio s c)) = ready_view s (prio s c)"
    by (rule requeue_current(5) [OF assms(1)]) (use kbaseD(7) [OF b cT] in simp)
  then have "StateNode c \<in> set (klist (requeue_current s) (ReadyHead (prio s c)))"
    using c by (simp add: ready_view_def flip: c_def)
  moreover have "task_yield Some s = Some (requeue_current s)"
    by (rule yield_requeue [OF assms(2,5)])
  ultimately show ?thesis using lost by blast
qed

lemma yield_race_loses_task_witness:
  "\<exists>t s'. sched_pick_next (task_yield_mark demo_k) = Some (t, s') \<and> t \<noteq> 0x300 \<and>
     StateNode 0x300 \<notin> set (klist s' (ReadyHead 7))"
proof -
  have "peer_ready demo_k 5" using demo_k(3) [of "ReadyHead 5"] by (simp add: peer_ready_def)
  from yield_race_loses_task [OF demo_k(1) demo_k_running(1) this] show ?thesis
    by (auto simp: demo_k_fields sched_is_locked_def)
qed

end
