(* ===== verification/Handles.thy ===== *)
theory Handles
  imports Prelude
begin

unbundle bit_operations_syntax

text \<open>
  The object handle table, \<^verbatim>\<open>src/kernel/handle.c\<close> with \<^verbatim>\<open>src/kernel/handle_private.h\<close>.  A handle is
  a 32-bit word: the slot index in the low half, the generation of the slot in the high half.
  An out-parameter of the C code is part of the result; the argument \<open>out\<close> says whether the
  caller passed a non-null one.
\<close>

subsection \<open>Definitions\<close>

type_synonym trt_handle_t = u32

datatype trt_obj_type_t =
  TRT_OBJ_ANY | TRT_OBJ_TASK | TRT_OBJ_SEM | TRT_OBJ_MUTEX | TRT_OBJ_MSG_Q | TRT_OBJ_TIMER

definition TRT_RIGHT_READ :: u32 where "TRT_RIGHT_READ = 1"

definition TRT_RIGHT_WRITE :: u32 where "TRT_RIGHT_WRITE = 2"

definition TRT_RIGHT_WAIT :: u32 where "TRT_RIGHT_WAIT = 4"

definition TRT_RIGHT_POST :: u32 where "TRT_RIGHT_POST = 8"

definition TRT_RIGHT_DESTROY :: u32 where "TRT_RIGHT_DESTROY = 16"

definition TRT_HANDLE_INVALID :: trt_handle_t where "TRT_HANDLE_INVALID = 0"

definition RTOS_HANDLE_MAX :: nat where "RTOS_HANDLE_MAX = 64"

definition HANDLE_INDEX_MASK :: u32 where "HANDLE_INDEX_MASK = push_bit 16 1 - 1"

record handle_slot_t =
  slot_object :: ptr
  slot_type :: trt_obj_type_t
  slot_rights :: u32
  slot_generation :: u16
  slot_used :: bool

record handle_state =
  handle_table :: "handle_slot_t list"
  handle_initialized :: bool

definition handle_index :: "trt_handle_t \<Rightarrow> u16" where
  "handle_index h = ucast (h AND HANDLE_INDEX_MASK)"

definition handle_generation :: "trt_handle_t \<Rightarrow> u16" where
  "handle_generation h = ucast (drop_bit 16 h)"

definition handle_make :: "u16 \<Rightarrow> u16 \<Rightarrow> trt_handle_t" where
  "handle_make index generation = push_bit 16 (ucast generation) OR ucast index"

definition handle_table_init_locked :: "handle_state \<Rightarrow> handle_state" where
  "handle_table_init_locked s =
     (if handle_initialized s then s
      else s\<lparr>handle_table := replicate RTOS_HANDLE_MAX
               \<lparr>slot_object = 0, slot_type = TRT_OBJ_ANY, slot_rights = 0, slot_generation = 1,
                slot_used = False\<rparr>,
             handle_initialized := True\<rparr>)"

definition handle_get_slot_locked :: "trt_handle_t \<Rightarrow> handle_state \<Rightarrow> err_t + nat" where
  "handle_get_slot_locked h s =
     (if h = TRT_HANDLE_INVALID then Inl ERR_INVAL
      else
        let index = unat (handle_index h) in
        if index \<ge> RTOS_HANDLE_MAX then Inl ERR_INVAL
        else
          let slot = handle_table s ! index in
          if \<not> slot_used slot \<or> slot_generation slot \<noteq> handle_generation h then Inl ERR_INVAL
          else Inr index)"

text \<open>The loop of \<^verbatim>\<open>trt_handle_alloc\<close>: the index of the first slot that is not used.\<close>

fun first_free_slot :: "nat \<Rightarrow> handle_slot_t list \<Rightarrow> nat option" where
  "first_free_slot i [] = None"
| "first_free_slot i (slot # slots) =
     (if slot_used slot then first_free_slot (Suc i) slots else Some i)"

definition trt_handle_alloc ::
    "ptr \<Rightarrow> trt_obj_type_t \<Rightarrow> u32 \<Rightarrow> bool \<Rightarrow> handle_state \<Rightarrow> (err_t + trt_handle_t) \<times> handle_state"
    where
  "trt_handle_alloc object ty rights out s =
     (if object = 0 \<or> \<not> out \<or> ty = TRT_OBJ_ANY then (Inl ERR_INVAL, s)
      else
        let s1 = handle_table_init_locked s in
        case first_free_slot 0 (handle_table s1) of
          None \<Rightarrow> (Inl ERR_NO_MEM, s1)
        | Some i \<Rightarrow>
            let slot = handle_table s1 ! i;
                slot' = slot\<lparr>slot_object := object, slot_type := ty, slot_rights := rights,
                             slot_used := True\<rparr>
            in (Inr (handle_make (of_nat i) (slot_generation slot)),
                s1\<lparr>handle_table := (handle_table s1)[i := slot']\<rparr>))"

definition trt_handle_lookup ::
    "trt_handle_t \<Rightarrow> trt_obj_type_t \<Rightarrow> u32 \<Rightarrow> bool \<Rightarrow> handle_state \<Rightarrow> (err_t + ptr) \<times> handle_state"
    where
  "trt_handle_lookup h ty rights out s =
     (if \<not> out then (Inl ERR_INVAL, s)
      else
        let s1 = handle_table_init_locked s in
        case handle_get_slot_locked h s1 of
          Inl e \<Rightarrow> (Inl e, s1)
        | Inr i \<Rightarrow>
            let slot = handle_table s1 ! i in
            if ty \<noteq> TRT_OBJ_ANY \<and> slot_type slot \<noteq> ty then (Inl ERR_INVAL, s1)
            else if slot_rights slot AND rights \<noteq> rights then (Inl ERR_PERM, s1)
            else (Inr (slot_object slot), s1))"

definition trt_handle_close :: "trt_handle_t \<Rightarrow> handle_state \<Rightarrow> err_t \<times> handle_state" where
  "trt_handle_close h s =
     (let s1 = handle_table_init_locked s in
      case handle_get_slot_locked h s1 of
        Inl e \<Rightarrow> (e, s1)
      | Inr i \<Rightarrow>
          let slot = handle_table s1 ! i;
              g = slot_generation slot + 1;
              slot' = slot\<lparr>slot_object := 0, slot_type := TRT_OBJ_ANY, slot_rights := 0,
                           slot_used := False, slot_generation := (if g = 0 then 1 else g)\<rparr>
          in (ERR_OK, s1\<lparr>handle_table := (handle_table s1)[i := slot']\<rparr>))"

definition trt_handle_valid :: "trt_handle_t \<Rightarrow> handle_state \<Rightarrow> bool \<times> handle_state" where
  "trt_handle_valid h s =
     (let (r, s1) = trt_handle_lookup h TRT_OBJ_ANY 0 True s in (\<exists>x. r = Inr x, s1))"

subsection \<open>Packing a handle\<close>

lemma HANDLE_INDEX_MASK_mask: "HANDLE_INDEX_MASK = mask 16"
  by (simp add: HANDLE_INDEX_MASK_def mask_eq_exp_minus_1)

lemma bit_HANDLE_INDEX_MASK: "bit HANDLE_INDEX_MASK n \<longleftrightarrow> n < 16"
  by (auto simp: HANDLE_INDEX_MASK_mask bit_mask_iff)

lemma handle_index_make: "handle_index (handle_make i g) = i"
  by (rule bit_word_eqI)
    (auto simp: handle_index_def handle_make_def bit_simps bit_HANDLE_INDEX_MASK)

lemma handle_generation_make: "handle_generation (handle_make i g) = g"
  by (rule bit_word_eqI)
    (auto simp: handle_generation_def handle_make_def bit_simps dest: bit_imp_le_length)

lemma handle_make_split: "handle_make (handle_index h) (handle_generation h) = h"
  by (rule bit_word_eqI)
    (auto simp: handle_index_def handle_generation_def handle_make_def bit_simps
      bit_HANDLE_INDEX_MASK dest: bit_imp_le_length)

lemma handle_make_nonzero: "g \<noteq> 0 \<Longrightarrow> handle_make i g \<noteq> TRT_HANDLE_INVALID"
  using handle_generation_make [of i g]
  by (auto simp: TRT_HANDLE_INVALID_def handle_generation_def)

subsection \<open>The table invariant and the live handles\<close>

definition slot_ok :: "handle_slot_t \<Rightarrow> bool" where
  "slot_ok slot \<longleftrightarrow> slot_generation slot \<noteq> 0 \<and>
     (slot_used slot \<longrightarrow> slot_object slot \<noteq> 0 \<and> slot_type slot \<noteq> TRT_OBJ_ANY)"

definition handle_ok :: "handle_state \<Rightarrow> bool" where
  "handle_ok s \<longleftrightarrow> (let s1 = handle_table_init_locked s in
     length (handle_table s1) = RTOS_HANDLE_MAX \<and> (\<forall>slot\<in>set (handle_table s1). slot_ok slot))"

text \<open>What the table means: the object, type and rights of each handle that is open.\<close>

definition live_handles :: "handle_state \<Rightarrow> trt_handle_t \<Rightarrow> (ptr \<times> trt_obj_type_t \<times> u32) option" where
  "live_handles s h =
     (let s1 = handle_table_init_locked s in
      case handle_get_slot_locked h s1 of
        Inl _ \<Rightarrow> None
      | Inr i \<Rightarrow> let slot = handle_table s1 ! i in
          Some (slot_object slot, slot_type slot, slot_rights slot))"

abbreviation htab :: "handle_state \<Rightarrow> handle_slot_t list" where
  "htab s \<equiv> handle_table (handle_table_init_locked s)"

lemma init_locked_initialized [simp]: "handle_initialized (handle_table_init_locked s)"
  by (simp add: handle_table_init_locked_def)

lemma init_locked_idem [simp]:
  "handle_table_init_locked (handle_table_init_locked s) = handle_table_init_locked s"
  by (simp add: handle_table_init_locked_def)

lemma init_locked_update [simp]:
  "handle_table_init_locked ((handle_table_init_locked s)\<lparr>handle_table := xs\<rparr>) =
    (handle_table_init_locked s)\<lparr>handle_table := xs\<rparr>"
  by (simp add: handle_table_init_locked_def)

lemma handle_ok_init [simp]: "handle_ok (handle_table_init_locked s) = handle_ok s"
  by (simp add: handle_ok_def)

lemma live_init [simp]: "live_handles (handle_table_init_locked s) = live_handles s"
  by (rule ext) (simp add: live_handles_def)

lemma handle_okD:
  assumes "handle_ok s"
  shows "length (htab s) = RTOS_HANDLE_MAX" and "i < RTOS_HANDLE_MAX \<Longrightarrow> slot_ok (htab s ! i)"
  using assms by (auto simp: handle_ok_def Let_def)

lemma handle_ok_static: "handle_ok \<lparr>handle_table = xs, handle_initialized = False\<rparr>"
  by (simp add: handle_ok_def handle_table_init_locked_def slot_ok_def Let_def)

text \<open>A handle is open exactly when its slot is used and carries the handle's generation.\<close>

lemma get_slot_iff:
  assumes "handle_ok s"
  shows "handle_get_slot_locked h (handle_table_init_locked s) = Inr i \<longleftrightarrow>
    i < RTOS_HANDLE_MAX \<and> slot_used (htab s ! i) \<and>
    h = handle_make (of_nat i) (slot_generation (htab s ! i))"
proof
  assume "handle_get_slot_locked h (handle_table_init_locked s) = Inr i"
  then have "i = unat (handle_index h)" "i < RTOS_HANDLE_MAX" "slot_used (htab s ! i)"
    "slot_generation (htab s ! i) = handle_generation h"
    by (auto simp: handle_get_slot_locked_def Let_def split: if_splits)
  then show "i < RTOS_HANDLE_MAX \<and> slot_used (htab s ! i) \<and>
    h = handle_make (of_nat i) (slot_generation (htab s ! i))"
    by (simp add: handle_make_split)
next
  assume a: "i < RTOS_HANDLE_MAX \<and> slot_used (htab s ! i) \<and>
    h = handle_make (of_nat i) (slot_generation (htab s ! i))"
  then have "i < 65536" by (simp add: RTOS_HANDLE_MAX_def)
  then have "unat (of_nat i :: u16) = i"
    by (simp add: unat_of_nat)
  moreover have "h \<noteq> TRT_HANDLE_INVALID"
    using handle_okD(2) [OF assms, of i] a handle_make_nonzero by (auto simp: slot_ok_def)
  ultimately show "handle_get_slot_locked h (handle_table_init_locked s) = Inr i"
    using a by (simp add: handle_get_slot_locked_def handle_index_make handle_generation_make Let_def)
qed

lemma get_slot_error:
  "handle_get_slot_locked h s = Inl e \<Longrightarrow> e = ERR_INVAL"
  by (auto simp: handle_get_slot_locked_def Let_def split: if_splits)

lemma live_iff:
  assumes "handle_ok s"
  shows "live_handles s h = Some (p, ty, r) \<longleftrightarrow>
    (\<exists>i<RTOS_HANDLE_MAX. slot_used (htab s ! i) \<and>
      h = handle_make (of_nat i) (slot_generation (htab s ! i)) \<and>
      p = slot_object (htab s ! i) \<and> ty = slot_type (htab s ! i) \<and> r = slot_rights (htab s ! i))"
  (is "?l \<longleftrightarrow> ?r")
proof
  assume ?l
  then obtain i where "handle_get_slot_locked h (handle_table_init_locked s) = Inr i"
    "p = slot_object (htab s ! i)" "ty = slot_type (htab s ! i)" "r = slot_rights (htab s ! i)"
    by (auto simp: live_handles_def Let_def split: sum.splits)
  then show ?r using get_slot_iff [OF assms] by blast
next
  assume ?r
  then obtain i where "handle_get_slot_locked h (handle_table_init_locked s) = Inr i"
    "p = slot_object (htab s ! i)" "ty = slot_type (htab s ! i)" "r = slot_rights (htab s ! i)"
    using get_slot_iff [OF assms] by blast
  then show ?l by (simp add: live_handles_def Let_def)
qed

lemma open_not_invalid: "handle_ok s \<Longrightarrow> live_handles s h = Some x \<Longrightarrow> h \<noteq> TRT_HANDLE_INVALID"
  using live_iff [of s h "fst x" "fst (snd x)" "snd (snd x)"] handle_okD(2) [of s]
  by (auto simp: slot_ok_def handle_make_nonzero)

lemma handle_make_inj:
  assumes "handle_make (of_nat i) g = handle_make (of_nat j) g'"
    and "i < RTOS_HANDLE_MAX" "j < RTOS_HANDLE_MAX"
  shows "i = j" and "g = g'"
proof -
  have "(of_nat i :: u16) = of_nat j"
    using assms(1) by (metis handle_index_make)
  then have "unat (of_nat i :: u16) = unat (of_nat j :: u16)" by simp
  then show "i = j"
    using assms(2,3) by (simp add: unat_of_nat RTOS_HANDLE_MAX_def)
  show "g = g'"
    using assms(1) by (metis handle_generation_make)
qed

lemma live_none_iff:
  assumes "handle_ok s"
  shows "live_handles s h = None \<longleftrightarrow>
    (\<forall>i<RTOS_HANDLE_MAX. slot_used (htab s ! i) \<longrightarrow>
      h \<noteq> handle_make (of_nat i) (slot_generation (htab s ! i)))"
proof (cases "live_handles s h")
  case None
  then show ?thesis
    using live_iff [OF assms, of h] by auto
next
  case (Some x)
  obtain p ty r where "x = (p, ty, r)" by (cases x)
  with Some live_iff [OF assms, of h p ty r] show ?thesis by auto
qed

subsection \<open>The operations on the table\<close>

lemma first_free_slot_some:
  "first_free_slot k xs = Some i \<Longrightarrow> k \<le> i \<and> i - k < length xs \<and> \<not> slot_used (xs ! (i - k)) \<and>
    (\<forall>j<i - k. slot_used (xs ! j))"
proof (induction k xs rule: first_free_slot.induct)
  case (2 k slot xs)
  show ?case
  proof (cases "slot_used slot")
    case True
    with 2 have "k < i" "i - Suc k < length xs" "\<not> slot_used (xs ! (i - Suc k))"
      "\<forall>j<i - Suc k. slot_used (xs ! j)" by auto
    moreover from this have "i - k = Suc (i - Suc k)" by simp
    ultimately show ?thesis
      using True by (auto simp: less_Suc_eq_0_disj)
  qed (use 2 in auto)
qed simp

lemma first_free_slot_none: "first_free_slot k xs = None \<longleftrightarrow> (\<forall>slot\<in>set xs. slot_used slot)"
  by (induction k xs rule: first_free_slot.induct) auto

lemma live_update:
  assumes ok: "handle_ok s" and i: "i < RTOS_HANDLE_MAX" and slot: "slot_ok slot"
  defines "s' \<equiv> (handle_table_init_locked s)\<lparr>handle_table := (htab s)[i := slot]\<rparr>"
  shows "handle_ok s'"
    and "live_handles s' h =
      (if slot_used slot \<and> h = handle_make (of_nat i) (slot_generation slot)
       then Some (slot_object slot, slot_type slot, slot_rights slot)
       else if h = handle_make (of_nat i) (slot_generation (htab s ! i)) then None
       else live_handles s h)"
proof -
  have t: "htab s' = (htab s)[i := slot]" by (simp add: s'_def)
  note len = handle_okD(1) [OF ok]
  show ok': "handle_ok s'"
    using t len slot handle_okD(2) [OF ok] set_update_subset_insert [of "htab s" i slot]
      all_set_conv_all_nth [of "htab s" slot_ok]
    by (auto simp: handle_ok_def Let_def)
  have nth: "htab s' ! j = (if j = i then slot else htab s ! j)" if "j < RTOS_HANDLE_MAX" for j
    using t len that by simp
  consider (new) "slot_used slot" "h = handle_make (of_nat i) (slot_generation slot)"
    | (old) "\<not> (slot_used slot \<and> h = handle_make (of_nat i) (slot_generation slot))"
        "h = handle_make (of_nat i) (slot_generation (htab s ! i))"
    | (other) "\<not> (slot_used slot \<and> h = handle_make (of_nat i) (slot_generation slot))"
        "h \<noteq> handle_make (of_nat i) (slot_generation (htab s ! i))" by blast
  then show "live_handles s' h =
      (if slot_used slot \<and> h = handle_make (of_nat i) (slot_generation slot)
       then Some (slot_object slot, slot_type slot, slot_rights slot)
       else if h = handle_make (of_nat i) (slot_generation (htab s ! i)) then None
       else live_handles s h)"
  proof cases
    case new
    then show ?thesis using live_iff [OF ok', of h] nth [OF i] i by auto
  next
    case old
    then have "live_handles s' h = None"
      using live_none_iff [OF ok'] nth i handle_make_inj [of i] by (metis (no_types, opaque_lifting))
    with old show ?thesis by auto
  next
    case other
    have "live_handles s' h = Some (p, ty, r) \<longleftrightarrow> live_handles s h = Some (p, ty, r)" for p ty r
      unfolding live_iff [OF ok] live_iff [OF ok'] using other nth i by (metis (no_types, lifting))
    then have "live_handles s' h = live_handles s h"
      by (metis option.exhaust prod_cases3)
    with other show ?thesis by auto
  qed
qed

lemma alloc_inval:
  "object = 0 \<or> \<not> out \<or> ty = TRT_OBJ_ANY \<Longrightarrow>
    trt_handle_alloc object ty rights out s = (Inl ERR_INVAL, s)"
  by (simp add: trt_handle_alloc_def)

lemma alloc_full:
  assumes "object \<noteq> 0" "out" "ty \<noteq> TRT_OBJ_ANY" and "\<forall>slot\<in>set (htab s). slot_used slot"
  shows "trt_handle_alloc object ty rights out s = (Inl ERR_NO_MEM, handle_table_init_locked s)"
  using assms first_free_slot_none [of 0 "htab s"] by (simp add: trt_handle_alloc_def Let_def)

lemma alloc_free:
  assumes ok: "handle_ok s" and args: "object \<noteq> 0" "out" "ty \<noteq> TRT_OBJ_ANY"
    and free: "\<not> (\<forall>slot\<in>set (htab s). slot_used slot)"
  shows "\<exists>h s'. trt_handle_alloc object ty rights out s = (Inr h, s') \<and> h \<noteq> TRT_HANDLE_INVALID \<and>
    live_handles s h = None \<and> live_handles s' = (live_handles s)(h \<mapsto> (object, ty, rights)) \<and>
    handle_ok s'"
proof -
  obtain i where i: "first_free_slot 0 (htab s) = Some i"
    using free first_free_slot_none [of 0 "htab s"] by auto
  then have lt: "i < RTOS_HANDLE_MAX" and unused: "\<not> slot_used (htab s ! i)"
    using first_free_slot_some [OF i] handle_okD(1) [OF ok] by auto
  let ?slot = "(htab s ! i)\<lparr>slot_object := object, slot_type := ty, slot_rights := rights,
    slot_used := True\<rparr>" and ?h = "handle_make (of_nat i) (slot_generation (htab s ! i))"
  have slot: "slot_ok ?slot"
    using handle_okD(2) [OF ok lt] args by (simp add: slot_ok_def)
  have "live_handles s ?h = None"
    unfolding live_none_iff [OF ok] using unused lt handle_make_inj(1) by metis
  moreover have "trt_handle_alloc object ty rights out s = (Inr ?h,
      (handle_table_init_locked s)\<lparr>handle_table := (htab s)[i := ?slot]\<rparr>)"
    using args i by (simp add: trt_handle_alloc_def Let_def)
  moreover have "?h \<noteq> TRT_HANDLE_INVALID"
    using handle_okD(2) [OF ok lt] by (simp add: slot_ok_def handle_make_nonzero)
  moreover have "live_handles ((handle_table_init_locked s)\<lparr>handle_table := (htab s)[i := ?slot]\<rparr>) =
      (live_handles s)(?h \<mapsto> (object, ty, rights))"
    using live_update(2) [OF ok lt slot] by (intro ext) simp
  ultimately show ?thesis
    using live_update(1) [OF ok lt slot] by blast
qed

lemma alloc_error:
  assumes "handle_ok s" and "trt_handle_alloc object ty rights out s = (Inl e, s')"
  shows "live_handles s' = live_handles s" and "handle_ok s'"
proof -
  have "s' = s \<or> s' = handle_table_init_locked s"
    using assms(2) by (auto simp: trt_handle_alloc_def Let_def split: if_splits option.splits)
  then show "live_handles s' = live_handles s" and "handle_ok s'"
    using assms(1) by auto
qed

lemma lookup_spec:
  "trt_handle_lookup h ty rights True s =
    (case live_handles s h of
       None \<Rightarrow> Inl ERR_INVAL
     | Some (p, ty', r) \<Rightarrow> if ty \<noteq> TRT_OBJ_ANY \<and> ty' \<noteq> ty then Inl ERR_INVAL
         else if r AND rights \<noteq> rights then Inl ERR_PERM else Inr p,
     handle_table_init_locked s)"
  using get_slot_error [of h "handle_table_init_locked s"]
  by (auto simp: trt_handle_lookup_def live_handles_def Let_def split: sum.splits)

lemma close_closed:
  "live_handles s h = None \<Longrightarrow> trt_handle_close h s = (ERR_INVAL, handle_table_init_locked s)"
  using get_slot_error [of h "handle_table_init_locked s"]
  by (auto simp: trt_handle_close_def live_handles_def Let_def split: sum.splits)

definition next_generation :: "u16 \<Rightarrow> u16" where
  "next_generation g = (if g + 1 = 0 then 1 else g + 1)"

lemma next_generation_nonzero: "next_generation g \<noteq> 0"
  by (simp add: next_generation_def)

definition closed_slot :: "handle_slot_t \<Rightarrow> handle_slot_t" where
  "closed_slot slot = slot\<lparr>slot_object := 0, slot_type := TRT_OBJ_ANY, slot_rights := 0,
     slot_used := False, slot_generation := next_generation (slot_generation slot)\<rparr>"

lemma close_open_eq:
  assumes "handle_ok s" and "live_handles s h = Some x"
  shows "\<exists>i<RTOS_HANDLE_MAX. slot_used (htab s ! i) \<and>
    h = handle_make (of_nat i) (slot_generation (htab s ! i)) \<and>
    trt_handle_close h s = (ERR_OK,
      (handle_table_init_locked s)\<lparr>handle_table := (htab s)[i := closed_slot (htab s ! i)]\<rparr>)"
proof -
  obtain p ty r where "x = (p, ty, r)" by (cases x)
  then obtain i where i: "i < RTOS_HANDLE_MAX" "slot_used (htab s ! i)"
    "h = handle_make (of_nat i) (slot_generation (htab s ! i))"
    using live_iff [OF assms(1)] assms(2) by blast
  then have "handle_get_slot_locked h (handle_table_init_locked s) = Inr i"
    using get_slot_iff [OF assms(1)] by blast
  with i show ?thesis
    by (intro exI [of _ i])
      (auto simp: trt_handle_close_def closed_slot_def next_generation_def Let_def)
qed

lemma close_open:
  assumes ok: "handle_ok s" and live: "live_handles s h = Some x"
  shows "\<exists>s'. trt_handle_close h s = (ERR_OK, s') \<and> live_handles s' = (live_handles s)(h := None) \<and>
    handle_ok s'"
proof -
  obtain i where i: "i < RTOS_HANDLE_MAX" "h = handle_make (of_nat i) (slot_generation (htab s ! i))"
    and eq: "trt_handle_close h s = (ERR_OK,
      (handle_table_init_locked s)\<lparr>handle_table := (htab s)[i := closed_slot (htab s ! i)]\<rparr>)"
    using close_open_eq [OF assms] by blast
  have slot: "slot_ok (closed_slot (htab s ! i))"
    by (simp add: slot_ok_def closed_slot_def next_generation_nonzero)
  have "live_handles ((handle_table_init_locked s)
      \<lparr>handle_table := (htab s)[i := closed_slot (htab s ! i)]\<rparr>) = (live_handles s)(h := None)"
    using live_update(2) [OF ok i(1) slot] i(2) by (intro ext) (simp add: closed_slot_def)
  then show ?thesis
    using eq live_update(1) [OF ok i(1) slot] by blast
qed

subsection \<open>The contract of the table\<close>

text \<open>
  What the object modules rely on: a table of typed capabilities addressed by handles.  The
  client sees the open handles as a finite map; \<open>alloc\<close> picks a handle that is not open,
  \<open>close\<close> removes one, and an error changes nothing a client can observe.
\<close>

locale capability_table =
  fixes alloc :: "ptr \<Rightarrow> 'ty \<Rightarrow> u32 \<Rightarrow> 's \<Rightarrow> (err_t + u32) \<times> 's"
    and close_handle :: "u32 \<Rightarrow> 's \<Rightarrow> err_t \<times> 's"
    and live :: "'s \<Rightarrow> u32 \<Rightarrow> (ptr \<times> 'ty \<times> u32) option"
    and ok :: "'s \<Rightarrow> bool"
  assumes alloc_Inr: "ok s \<Longrightarrow> alloc p ty r s = (Inr h, s') \<Longrightarrow>
      live s h = None \<and> live s' = (live s)(h \<mapsto> (p, ty, r)) \<and> ok s'"
    and alloc_Inl: "ok s \<Longrightarrow> alloc p ty r s = (Inl e, s') \<Longrightarrow> live s' = live s \<and> ok s'"
    and close_live: "ok s \<Longrightarrow> live s h = Some x \<Longrightarrow> close_handle h s = (e, s') \<Longrightarrow>
      e = ERR_OK \<and> live s' = (live s)(h := None) \<and> ok s'"
    and close_dead: "ok s \<Longrightarrow> live s h = None \<Longrightarrow> close_handle h s = (e, s') \<Longrightarrow>
      e = ERR_INVAL \<and> live s' = live s \<and> ok s'"
begin

lemma alloc_close_roundtrip:
  assumes "ok s" and "alloc p ty r s = (Inr h, s1)" and "close_handle h s1 = (e, s2)"
  shows "e = ERR_OK \<and> live s2 = live s"
proof -
  have a: "live s h = None" "live s1 = (live s)(h \<mapsto> (p, ty, r))" "ok s1"
    using alloc_Inr [OF assms(1,2)] by auto
  then have "e = ERR_OK" "live s2 = (live s1)(h := None)"
    using close_live [OF a(3) _ assms(3)] by auto
  with a show ?thesis by (auto intro!: ext)
qed

lemma alloc_twice_distinct:
  assumes "ok s" and "alloc p ty r s = (Inr h, s1)" and "alloc p' ty' r' s1 = (Inr h', s2)"
  shows "h' \<noteq> h"
  using alloc_Inr [OF assms(1,2)] alloc_Inr [OF _ assms(3)] by auto

lemma step_keeps:
  assumes "ok s"
  shows "live s h = Some x \<Longrightarrow> live (snd (alloc p ty r s)) h = Some x"
    and "live s h = Some x \<Longrightarrow> h' \<noteq> h \<Longrightarrow> live (snd (close_handle h' s)) h = Some x"
    and "ok (snd (alloc p ty r s))" and "ok (snd (close_handle h' s))"
proof -
  obtain q s' where q: "alloc p ty r s = (q, s')" by fastforce
  obtain e s'' where e: "close_handle h' s = (e, s'')" by fastforce
  show "ok (snd (alloc p ty r s))" and "live s h = Some x \<Longrightarrow> live (snd (alloc p ty r s)) h = Some x"
    using q alloc_Inr [OF assms] alloc_Inl [OF assms] by (cases q; fastforce)+
  show "ok (snd (close_handle h' s))"
    and "live s h = Some x \<Longrightarrow> h' \<noteq> h \<Longrightarrow> live (snd (close_handle h' s)) h = Some x"
    using e close_live [OF assms _ e] close_dead [OF assms _ e]
    by (cases "live s h'"; fastforce)+
qed

end

interpretation handles: capability_table
  "\<lambda>p ty r. trt_handle_alloc p ty r True" trt_handle_close live_handles handle_ok
proof unfold_locales
  show "live_handles s h = None \<and> live_handles s' = (live_handles s)(h \<mapsto> (p, ty, r)) \<and> handle_ok s'"
    if "handle_ok s" "trt_handle_alloc p ty r True s = (Inr h, s')" for s s' p ty r h
    using that alloc_free [OF that(1), of p True ty r] alloc_full [of p True ty s r]
      alloc_inval [of p True ty r s] by (cases "p = 0 \<or> ty = TRT_OBJ_ANY") auto
  show "live_handles s' = live_handles s \<and> handle_ok s'"
    if "handle_ok s" "trt_handle_alloc p ty r True s = (Inl e, s')" for s s' p ty r e
    using alloc_error [OF that] by simp
  show "e = ERR_OK \<and> live_handles s' = (live_handles s)(h := None) \<and> handle_ok s'"
    if "handle_ok s" "live_handles s h = Some x" "trt_handle_close h s = (e, s')" for s s' h x e
    using close_open [OF that(1,2)] that(3) by auto
  show "e = ERR_INVAL \<and> live_handles s' = live_handles s \<and> handle_ok s'"
    if "handle_ok s" "live_handles s h = None" "trt_handle_close h s = (e, s')" for s s' h e
    using close_closed [OF that(2)] that by auto
qed

subsection \<open>Sequences of operations\<close>

datatype handle_op = HAlloc ptr trt_obj_type_t u32 | HClose trt_handle_t

fun run_handle_op :: "handle_op \<Rightarrow> handle_state \<Rightarrow> handle_state" where
  "run_handle_op (HAlloc p ty r) s = snd (trt_handle_alloc p ty r True s)"
| "run_handle_op (HClose h) s = snd (trt_handle_close h s)"

lemma run_handle_ops_keep:
  assumes "handle_ok s" and "live_handles s h = Some x" and "HClose h \<notin> set ops"
  shows "live_handles (fold run_handle_op ops s) h = Some x \<and> handle_ok (fold run_handle_op ops s)"
  using assms
proof (induction ops arbitrary: s)
  case (Cons op ops)
  then have "live_handles (run_handle_op op s) h = Some x" "handle_ok (run_handle_op op s)"
    using handles.step_keeps [OF Cons.prems(1)] by (cases op; auto)+
  then show ?case using Cons by simp
qed simp

text \<open>
  A closed handle comes back only when the generation of its slot has run through all its
  65535 values: \<open>gen_after g n\<close> is the generation \<open>n\<close> closes after \<open>g\<close>.
\<close>

definition gen_after :: "u16 \<Rightarrow> nat \<Rightarrow> u16" where
  "gen_after g n = (next_generation ^^ n) g"

lemma unat_next_generation:
  assumes "g \<noteq> 0"
  shows "unat (next_generation g) = unat g mod 65535 + 1"
proof (cases "g + 1 = 0")
  case True
  then have "g = - 1" by (simp add: eq_neg_iff_add_eq_0)
  moreover have "unat (- 1 :: u16) = 65535" by (simp add: unsigned_minus_1_eq_mask mask_eq_exp_minus_1)
  ultimately show ?thesis
    by (simp add: next_generation_def)
next
  case False
  have "unat (g + 1) = unat g + 1"
    using False by (simp add: Word.unatSuc add.commute)
  moreover have "unat (g + 1) < 65536" using unsigned_less [of "g + 1"] by simp
  ultimately show ?thesis using False by (simp add: next_generation_def)
qed

lemma unat_gen_after:
  assumes "g \<noteq> 0"
  shows "unat (gen_after g n) = (unat g - 1 + n) mod 65535 + 1 \<and> gen_after g n \<noteq> 0"
proof (induction n)
  case 0
  have "0 < unat g" "unat g < 65536"
    using assms unsigned_less [of g] by (simp_all add: unat_gt_0)
  then show ?case using assms by (simp add: gen_after_def)
next
  case (Suc n)
  have "gen_after g (Suc n) = next_generation (gen_after g n)"
    by (simp add: gen_after_def)
  then show ?case
    using Suc unat_next_generation [of "gen_after g n"]
    by (simp add: next_generation_nonzero mod_Suc_eq)
qed

lemma gen_after_eq:
  assumes "g \<noteq> 0" and "0 < n" and "n < 65535"
  shows "gen_after g n \<noteq> g"
proof
  assume eq: "gen_after g n = g"
  have b: "0 < unat g" "unat g < 65536"
    using assms(1) unsigned_less [of g] by (simp_all add: unat_gt_0)
  have "(unat g - 1 + n) mod 65535 + 1 = unat g"
    using unat_gen_after [OF assms(1), of n] eq by metis
  then have "(unat g - 1 + n) mod 65535 = unat g - 1" by linarith
  moreover have "(unat g - 1) mod 65535 = unat g - 1" using b by simp
  ultimately have "(unat g - 1 + n) mod 65535 = (unat g - 1) mod 65535" by simp
  then have "n mod 65535 = 0"
    using mod_eq_dvd_iff_nat [of "unat g - 1" "unat g - 1 + n" 65535] by simp
  with assms show False by simp
qed

lemma gen_after_period:
  assumes "g \<noteq> 0"
  shows "gen_after g 65535 = g"
proof -
  have "unat g < 65536" using unsigned_less [of g] by simp
  moreover have "0 < unat g" using assms by (simp add: unat_gt_0)
  ultimately have "(unat g - 1 + 65535) mod 65535 + 1 = unat g"
    by (subst mod_add_self2) simp
  then have "unat (gen_after g 65535) = unat g"
    using unat_gen_after [OF assms, of 65535] by argo
  then show ?thesis by (simp only: word_unat_eq_iff)
qed

lemma slot_generation_step:
  assumes ok: "handle_ok s" and i: "i < RTOS_HANDLE_MAX"
  shows "\<exists>n\<le>1. slot_generation (htab (run_handle_op op s) ! i) =
    gen_after (slot_generation (htab s ! i)) n"
proof (cases op)
  case (HAlloc p ty r)
  have "slot_generation (htab (snd (trt_handle_alloc p ty r True s)) ! i) =
      slot_generation (htab s ! i)"
    using handle_okD(1) [OF ok] i by (cases "first_free_slot 0 (htab s) = Some i")
      (auto simp: trt_handle_alloc_def Let_def split: option.splits)
  with HAlloc show ?thesis
    by (intro exI [of _ 0]) (simp add: gen_after_def)
next
  case (HClose h)
  show ?thesis
  proof (cases "live_handles s h")
    case None
    with HClose show ?thesis
      by (intro exI [of _ 0]) (simp add: gen_after_def close_closed)
  next
    case (Some x)
    obtain j where j: "trt_handle_close h s = (ERR_OK,
        (handle_table_init_locked s)\<lparr>handle_table := (htab s)[j := closed_slot (htab s ! j)]\<rparr>)"
      using close_open_eq [OF ok Some] by blast
    show ?thesis
    proof (cases "i = j")
      case True
      with j HClose i handle_okD(1) [OF ok] show ?thesis
        by (intro exI [of _ 1]) (simp add: gen_after_def closed_slot_def)
    next
      case False
      with j HClose i handle_okD(1) [OF ok] show ?thesis
        by (intro exI [of _ 0]) (simp add: gen_after_def)
    qed
  qed
qed

lemma run_handle_op_ok: "handle_ok s \<Longrightarrow> handle_ok (run_handle_op op s)"
  using handles.step_keeps(3,4) by (cases op) auto

lemma slot_generation_run:
  assumes "handle_ok s" and "i < RTOS_HANDLE_MAX"
  shows "\<exists>n\<le>length ops. slot_generation (htab (fold run_handle_op ops s) ! i) =
    gen_after (slot_generation (htab s ! i)) n \<and> handle_ok (fold run_handle_op ops s)"
  using assms
proof (induction ops arbitrary: s)
  case Nil
  then show ?case by (simp add: gen_after_def)
next
  case (Cons op ops)
  obtain m where m: "m \<le> 1" "slot_generation (htab (run_handle_op op s) ! i) =
      gen_after (slot_generation (htab s ! i)) m"
    using slot_generation_step [OF Cons.prems] by blast
  obtain n where n: "n \<le> length ops" "slot_generation (htab (fold run_handle_op (op # ops) s) ! i) =
      gen_after (slot_generation (htab (run_handle_op op s) ! i)) n"
      "handle_ok (fold run_handle_op (op # ops) s)"
    using Cons.IH [OF run_handle_op_ok [OF Cons.prems(1)] Cons.prems(2)] by auto
  show ?case
    using m n by (intro exI [of _ "n + m"]) (simp add: gen_after_def funpow_add)
qed

lemma stale_handle_dead:
  assumes ok: "handle_ok s" and live: "live_handles s h = Some x" and few: "length ops < 65534"
  shows "live_handles (fold run_handle_op (HClose h # ops) s) h = None"
proof -
  obtain i where i: "i < RTOS_HANDLE_MAX" "h = handle_make (of_nat i) (slot_generation (htab s ! i))"
    and eq: "trt_handle_close h s = (ERR_OK,
      (handle_table_init_locked s)\<lparr>handle_table := (htab s)[i := closed_slot (htab s ! i)]\<rparr>)"
    using close_open_eq [OF ok live] by blast
  let ?s1 = "run_handle_op (HClose h) s" and ?g = "slot_generation (htab s ! i)"
  have g: "?g \<noteq> 0" using handle_okD(2) [OF ok i(1)] by (simp add: slot_ok_def)
  have s1: "slot_generation (htab ?s1 ! i) = next_generation ?g"
    using eq i(1) handle_okD(1) [OF ok] by (simp add: closed_slot_def)
  obtain n where n: "n \<le> length ops" "slot_generation (htab (fold run_handle_op ops ?s1) ! i) =
      gen_after (next_generation ?g) n" and ok': "handle_ok (fold run_handle_op ops ?s1)"
    using slot_generation_run [OF run_handle_op_ok [OF ok, of "HClose h"] i(1), of ops] s1 by auto
  have "gen_after (next_generation ?g) n = gen_after ?g (Suc n)"
    unfolding gen_after_def by (simp add: funpow_swap1)
  then have "slot_generation (htab (fold run_handle_op ops ?s1) ! i) \<noteq> ?g"
    using gen_after_eq [OF g, of "Suc n"] n few by simp
  then have "live_handles (fold run_handle_op ops ?s1) h = None"
    using live_none_iff [OF ok', of h] i handle_make_inj by metis
  then show ?thesis by simp
qed

end
