(* ===== verification/Heap.thy ===== *)
theory Heap
  imports Links
begin

unbundle bit_operations_syntax

text \<open>
  The heap, \<^verbatim>\<open>src/kernel/malloc.c\<close>: one region between two linker symbols, cut into blocks that
  each start with a 16-byte header and are threaded, in address order, through one intrusive
  list.  The headers are kept in a map from the address of a header to its fields, the list
  cells of the headers in a \<open>links\<close> store, and the payload bytes in a byte memory.

  The first half of the theory translates the code.  The second half gives the abstract block
  list the code implements, with first-fit allocation and coalescing as list functions, and
  proves the refinement: every operation computes the list function on \<open>hview\<close> and keeps the
  blocks tiling the region.
\<close>

subsection \<open>Definitions\<close>

definition HEAP_ALIGN :: u32 where "HEAP_ALIGN = 8"

record heap_block_t =
  block_size :: u32
  block_free :: bool

text \<open>\<^verbatim>\<open>sizeof(heap_block_t)\<close> on RV32: two words and the two pointers of the list node.\<close>

definition sizeof_heap_block :: u32 where "sizeof_heap_block = 16"

datatype hnode = HeapBlocks | BlockNode ptr

fun entry_block :: "hnode \<Rightarrow> ptr" where
  "entry_block (BlockNode b) = b"
| "entry_block HeapBlocks = 0"

text \<open>
  The two linker symbols \<^verbatim>\<open>__heap_start\<close> and \<^verbatim>\<open>__heap_end\<close> are fields no operation writes.
\<close>

record heap_state =
  heap_start_sym :: ptr
  heap_end_sym :: ptr
  blocks :: "ptr \<Rightarrow> heap_block_t"
  heap_links :: "hnode links"
  heap_initialized :: bool
  heap_start_addr :: ptr
  heap_end_addr :: ptr
  heap_bytes :: "ptr \<Rightarrow> u8"

definition upd_block :: "ptr \<Rightarrow> (heap_block_t \<Rightarrow> heap_block_t) \<Rightarrow> heap_state \<Rightarrow> heap_state" where
  "upd_block b f s = s\<lparr>blocks := (blocks s)(b := f (blocks s b))\<rparr>"

definition upd_hlinks :: "(hnode links \<Rightarrow> hnode links) \<Rightarrow> heap_state \<Rightarrow> heap_state" where
  "upd_hlinks f s = s\<lparr>heap_links := f (heap_links s)\<rparr>"

definition align_up :: "u32 \<Rightarrow> u32 \<Rightarrow> u32" where
  "align_up v a = (v + a - 1) AND NOT (a - 1)"

definition align_down :: "u32 \<Rightarrow> u32 \<Rightarrow> u32" where
  "align_down v a = v AND NOT (a - 1)"

definition align_size :: "u32 \<Rightarrow> u32" where
  "align_size n = (n + HEAP_ALIGN - 1) AND NOT (HEAP_ALIGN - 1)"

definition heap_init_once :: "heap_state \<Rightarrow> heap_state" where
  "heap_init_once s =
     (if heap_initialized s then s
      else
        let s1 = upd_hlinks (INIT_LIST_HEAD HeapBlocks) s;
            start = align_up (heap_start_sym s1) HEAP_ALIGN;
            stop = align_down (heap_end_sym s1) HEAP_ALIGN;
            s2 = s1\<lparr>heap_start_addr := start, heap_end_addr := stop\<rparr>
        in if stop \<le> start + sizeof_heap_block then s2\<lparr>heap_initialized := True\<rparr>
           else
             let s3 = upd_block start (\<lambda>_. \<lparr>block_size = stop - start - sizeof_heap_block,
                        block_free = True\<rparr>) s2;
                 s4 = upd_hlinks (INIT_LIST_HEAD (BlockNode start)) s3;
                 s5 = upd_hlinks (list_add_tail (BlockNode start) HeapBlocks) s4
             in s5\<lparr>heap_initialized := True\<rparr>)"

definition split_block :: "ptr \<Rightarrow> u32 \<Rightarrow> heap_state \<Rightarrow> heap_state" where
  "split_block b n s =
     (if block_size (blocks s b) < n + sizeof_heap_block + HEAP_ALIGN then s
      else
        let new = b + sizeof_heap_block + n;
            s1 = upd_block new (\<lambda>_. \<lparr>block_size = block_size (blocks s b) - n - sizeof_heap_block,
                   block_free = True\<rparr>) s;
            s2 = upd_hlinks (INIT_LIST_HEAD (BlockNode new)) s1;
            s3 = upd_hlinks (list_add (BlockNode new) (BlockNode b)) s2
        in upd_block b (\<lambda>k. k\<lparr>block_size := n\<rparr>) s3)"

definition blocks_are_adjacent :: "ptr \<Rightarrow> ptr \<Rightarrow> heap_state \<Rightarrow> bool" where
  "blocks_are_adjacent left right s \<longleftrightarrow>
     left + sizeof_heap_block + block_size (blocks s left) = right"

definition merge_with_next :: "ptr \<Rightarrow> heap_state \<Rightarrow> heap_state" where
  "merge_with_next b s =
     (if nxt (heap_links s) (BlockNode b) = HeapBlocks then s
      else let next = entry_block (nxt (heap_links s) (BlockNode b)) in
        if \<not> block_free (blocks s next) \<or> \<not> blocks_are_adjacent b next s then s
        else upd_hlinks (list_del (BlockNode next))
               (upd_block b (\<lambda>k. k\<lparr>block_size :=
                  block_size k + (sizeof_heap_block + block_size (blocks s next))\<rparr>) s))"

definition malloc :: "u32 \<Rightarrow> heap_state \<Rightarrow> (ptr \<times> heap_state) option" where
  "malloc n s =
     (if n = 0 then Some (0, s)
      else
        let s1 = heap_init_once s;
            sz = align_size n
        in Option.bind
             (list_for_each
               (\<lambda>pos. block_free (blocks s1 (entry_block pos)) \<and>
                  sz \<le> block_size (blocks s1 (entry_block pos)))
               (heap_links s1) HeapBlocks (nxt (heap_links s1) HeapBlocks))
             (\<lambda>pos. Some
               (if pos = HeapBlocks then (0, s1)
                else
                  let b = entry_block pos;
                      s2 = upd_block b (\<lambda>k. k\<lparr>block_free := False\<rparr>) (split_block b sz s1)
                  in (b + sizeof_heap_block, s2))))"

definition free :: "ptr \<Rightarrow> heap_state \<Rightarrow> heap_state" where
  "free p s =
     (if p = 0 then s
      else
        let s1 = heap_init_once s;
            b = p - sizeof_heap_block;
            s2 = upd_block b (\<lambda>k. k\<lparr>block_free := True\<rparr>) s1;
            s3 = merge_with_next b s2
        in if prv (heap_links s3) (BlockNode b) \<noteq> HeapBlocks
           then let prev = entry_block (prv (heap_links s3) (BlockNode b)) in
             if block_free (blocks s3 prev) \<and> blocks_are_adjacent prev b s3
             then merge_with_next prev s3 else s3
           else s3)"

text \<open>The byte loops of \<^verbatim>\<open>calloc\<close> and \<^verbatim>\<open>realloc\<close>.\<close>

definition zero_bytes :: "ptr \<Rightarrow> u32 \<Rightarrow> (ptr \<Rightarrow> u8) \<Rightarrow> ptr \<Rightarrow> u8" where
  "zero_bytes p n m = fold (\<lambda>i m. m(p + of_nat i := 0)) [0..<unat n] m"

definition copy_bytes :: "ptr \<Rightarrow> ptr \<Rightarrow> u32 \<Rightarrow> (ptr \<Rightarrow> u8) \<Rightarrow> ptr \<Rightarrow> u8" where
  "copy_bytes dst src n m =
     fold (\<lambda>i m. m(dst + of_nat i := m (src + of_nat i))) [0..<unat n] m"

definition calloc :: "u32 \<Rightarrow> u32 \<Rightarrow> heap_state \<Rightarrow> (ptr \<times> heap_state) option" where
  "calloc count n s =
     (if count \<noteq> 0 \<and> n > (- 1) div count then Some (0, s)
      else
        let total = count * n in
        Option.bind (malloc total s) (\<lambda>(mem, s1). Some
          (if mem = 0 then (0, s1)
           else (mem, s1\<lparr>heap_bytes := zero_bytes mem total (heap_bytes s1)\<rparr>))))"

definition realloc :: "ptr \<Rightarrow> u32 \<Rightarrow> heap_state \<Rightarrow> (ptr \<times> heap_state) option" where
  "realloc p n s =
     (if p = 0 then malloc n s
      else if n = 0 then Some (0, free p s)
      else
        let b = p - sizeof_heap_block;
            sz = align_size n
        in if block_size (blocks s b) \<ge> sz then Some (p, split_block b sz s)
           else Option.bind (malloc sz s) (\<lambda>(new_ptr, s1). Some
             (if new_ptr = 0 then (0, s1)
              else
                let copy_size = (if block_size (blocks s1 b) < sz then block_size (blocks s1 b) else sz);
                    s2 = s1\<lparr>heap_bytes := copy_bytes new_ptr p copy_size (heap_bytes s1)\<rparr>
                in (new_ptr, free p s2))))"

definition heap_total_size :: "heap_state \<Rightarrow> u32 \<times> heap_state" where
  "heap_total_size s =
     (let s1 = heap_init_once s in
      (if heap_end_addr s1 > heap_start_addr s1
       then heap_end_addr s1 - heap_start_addr s1 - sizeof_heap_block else 0, s1))"

text \<open>The walk of \<^verbatim>\<open>heap_free_size\<close> visits every block, then sums the free ones.\<close>

definition heap_free_size :: "heap_state \<Rightarrow> (u32 \<times> heap_state) option" where
  "heap_free_size s =
     (let s1 = heap_init_once s in
      Option.bind (list_walk (heap_links s1) HeapBlocks (nxt (heap_links s1) HeapBlocks))
        (\<lambda>xs. Some (fold (\<lambda>pos total. if block_free (blocks s1 (entry_block pos))
             then total + block_size (blocks s1 (entry_block pos)) else total) xs 0, s1)))"

subsection \<open>The abstract block list\<close>

text \<open>
  A block is its header address, its payload size and whether it is free.  \<open>tiled lo hi\<close> says
  that the blocks cover the region from \<open>lo\<close> to \<open>hi\<close> without gap or overlap and have aligned
  sizes.
\<close>

type_synonym blk = "nat \<times> nat \<times> bool"

fun tiled :: "nat \<Rightarrow> nat \<Rightarrow> blk list \<Rightarrow> bool" where
  "tiled lo hi [] \<longleftrightarrow> lo = hi"
| "tiled lo hi ((a, sz, f) # bs) \<longleftrightarrow> a = lo \<and> 8 dvd sz \<and> tiled (lo + 16 + sz) hi bs"

definition cut_block :: "nat \<Rightarrow> bool \<Rightarrow> nat \<times> nat \<Rightarrow> blk list" where
  "cut_block n f b = (case b of (a, sz) \<Rightarrow>
     if sz < n + 24 then [(a, sz, f)] else [(a, n, f), (a + 16 + n, sz - n - 16, True)])"

text \<open>First fit: the first free block that is large enough, cut to size.\<close>

fun first_fit :: "nat \<Rightarrow> blk list \<Rightarrow> (nat \<times> blk list) option" where
  "first_fit n [] = None"
| "first_fit n ((a, sz, f) # bs) =
     (if f \<and> n \<le> sz then Some (a, cut_block n False (a, sz) @ bs)
      else map_option (\<lambda>(r, bs'). (r, (a, sz, f) # bs')) (first_fit n bs))"

text \<open>Coalescing: the first two blocks become one when both are free.\<close>

fun join :: "blk list \<Rightarrow> blk list" where
  "join ((a, sz, True) # (b, sz', True) # bs) = (a, sz + 16 + sz', True) # bs"
| "join bs = bs"

fun release :: "nat \<Rightarrow> blk list \<Rightarrow> blk list" where
  "release a [] = []"
| "release a [(b, sz, f)] = [(b, sz, if b = a then True else f)]"
| "release a ((b, sz, f) # (c, sz', f') # bs) =
     (if b = a then join ((b, sz, True) # (c, sz', f') # bs)
      else if c = a then join ((b, sz, f) # join ((c, sz', True) # bs))
      else (b, sz, f) # release a ((c, sz', f') # bs))"

definition blk_of :: "heap_state \<Rightarrow> hnode \<Rightarrow> blk" where
  "blk_of s x = (let b = entry_block x in
     (unat b, unat (block_size (blocks s b)), block_free (blocks s b)))"

definition hview :: "heap_state \<Rightarrow> blk list" where
  "hview s = map (blk_of s) (items (heap_links s) HeapBlocks)"

subsection \<open>Tilings\<close>

lemma tiled_le: "tiled lo hi bs \<Longrightarrow> lo \<le> hi"
  by (induction lo hi bs rule: tiled.induct) auto

lemma tiled_append: "tiled lo hi (as @ bs) \<longleftrightarrow> (\<exists>m. tiled lo m as \<and> tiled m hi bs)"
  by (induction lo hi as rule: tiled.induct) auto

lemma tiled_bounds: "tiled lo hi bs \<Longrightarrow> (a, sz, f) \<in> set bs \<Longrightarrow> lo \<le> a \<and> a + 16 + sz \<le> hi"
  by (induction lo hi bs rule: tiled.induct) (auto dest: tiled_le)

lemma tiled_aligned: "tiled lo hi bs \<Longrightarrow> 8 dvd lo \<Longrightarrow> (a, sz, f) \<in> set bs \<Longrightarrow> 8 dvd a \<and> 8 dvd sz"
proof (induction lo hi bs rule: tiled.induct)
  case (2 lo hi b s g bs)
  have "8 dvd lo + 16 + s" using 2 by (auto intro: dvd_add)
  with 2 show ?case by auto
qed simp

lemma tiled_middle:
  assumes "tiled lo hi (as @ (a, sz, f) # bs)"
  shows "tiled lo a as" and "8 dvd sz" and "tiled (a + 16 + sz) hi bs" and "a + 16 + sz \<le> hi" "lo \<le> a"
  using assms by (auto simp: tiled_append dest: tiled_le)

lemma tiled_disjoint:
  assumes t: "tiled lo hi (as @ (a, sz, f) # bs)" and x: "(c, sz', f') \<in> set (as @ bs)"
  shows "c + 16 + sz' \<le> a \<or> a + 16 + sz \<le> c"
  using tiled_bounds [OF tiled_middle(1) [OF t]] tiled_bounds [OF tiled_middle(3) [OF t]] x by auto

lemma tiled_middle_cong:
  assumes "tiled lo hi (as @ xs @ bs)" and "\<And>l h. tiled l h xs \<Longrightarrow> tiled l h ys"
  shows "tiled lo hi (as @ ys @ bs)"
  using assms by (auto simp: tiled_append)

lemma tiled_cut:
  "n \<le> sz \<Longrightarrow> 8 dvd n \<Longrightarrow> tiled lo hi [(a, sz, f)] \<Longrightarrow> tiled lo hi (cut_block n g (a, sz))"
  by (auto simp: cut_block_def intro: dvd_diff_nat)

lemma tiled_join: "tiled lo hi bs \<Longrightarrow> tiled lo hi (join bs)"
  by (induction bs rule: join.induct) (auto simp: algebra_simps intro: dvd_add)

definition blk_fits :: "nat \<Rightarrow> blk \<Rightarrow> bool" where
  "blk_fits n b = (case b of (a, sz, f) \<Rightarrow> f \<and> n \<le> sz)"

lemma first_fit_append:
  "\<forall>x\<in>set as. \<not> blk_fits n x \<Longrightarrow>
    first_fit n (as @ bs) = map_option (\<lambda>(r, bs'). (r, as @ bs')) (first_fit n bs)"
  by (induction n as rule: first_fit.induct)
    (auto simp: blk_fits_def option.map_comp comp_def case_prod_unfold option.map_ident)

lemma first_fit_none: "first_fit n bs = None \<longleftrightarrow> (\<forall>x\<in>set bs. \<not> blk_fits n x)"
  by (induction n bs rule: first_fit.induct) (auto simp: blk_fits_def)

lemma release_append:
  "a \<notin> fst ` set as \<Longrightarrow> release a (as @ (a, sz, f) # bs) =
    (case rev as of [] \<Rightarrow> join ((a, sz, True) # bs)
     | p # ps \<Rightarrow> rev ps @ join (p # join ((a, sz, True) # bs)))"
proof (induction as rule: induct_list012)
  case 1
  then show ?case by (cases bs) auto
next
  case (2 x)
  then show ?case by (cases x) auto
next
  case (3 x y as)
  obtain c sz' f' where y: "y = (c, sz', f')" by (cases y)
  obtain b sz'' f'' where x: "x = (b, sz'', f'')" by (cases x)
  have "release a ((x # y # as) @ (a, sz, f) # bs) = x # release a ((y # as) @ (a, sz, f) # bs)"
    using 3(3) by (auto simp: x y)
  also have "\<dots> = (case rev (x # y # as) of [] \<Rightarrow> join ((a, sz, True) # bs)
     | p # ps \<Rightarrow> rev ps @ join (p # join ((a, sz, True) # bs)))"
    using 3 by (auto split: list.splits)
  finally show ?case .
qed

subsection \<open>The heap invariant\<close>

abbreviation hitems :: "heap_state \<Rightarrow> hnode list" where
  "hitems s \<equiv> items (heap_links s) HeapBlocks"

definition heap_wf :: "heap_state \<Rightarrow> bool" where
  "heap_wf s \<longleftrightarrow> heap_initialized s \<and>
     lists_wf (heap_links s) {HeapBlocks} (set (hitems s)) \<and>
     8 dvd unat (heap_start_addr s) \<and> heap_start_addr s \<noteq> 0 \<and>
     (hview s = [] \<or> tiled (unat (heap_start_addr s)) (unat (heap_end_addr s)) (hview s))"

definition heap_ok :: "heap_state \<Rightarrow> bool" where
  "heap_ok s \<longleftrightarrow> heap_wf (heap_init_once s)"

lemma heap_init_once_idem [simp]: "heap_initialized s \<Longrightarrow> heap_init_once s = s"
  by (simp add: heap_init_once_def)

lemma heap_wf_ok: "heap_wf s \<Longrightarrow> heap_ok s"
  by (simp add: heap_ok_def heap_wf_def)

lemma upd_block_simps [simp]:
  "blocks (upd_block b f s) = (blocks s)(b := f (blocks s b))"
  "heap_links (upd_block b f s) = heap_links s"
  "heap_initialized (upd_block b f s) = heap_initialized s"
  "heap_start_addr (upd_block b f s) = heap_start_addr s"
  "heap_end_addr (upd_block b f s) = heap_end_addr s"
  "heap_bytes (upd_block b f s) = heap_bytes s"
  "heap_start_sym (upd_block b f s) = heap_start_sym s"
  "heap_end_sym (upd_block b f s) = heap_end_sym s"
  by (simp_all add: upd_block_def)

lemma upd_hlinks_simps [simp]:
  "blocks (upd_hlinks g s) = blocks s"
  "heap_links (upd_hlinks g s) = g (heap_links s)"
  "heap_initialized (upd_hlinks g s) = heap_initialized s"
  "heap_start_addr (upd_hlinks g s) = heap_start_addr s"
  "heap_end_addr (upd_hlinks g s) = heap_end_addr s"
  "heap_bytes (upd_hlinks g s) = heap_bytes s"
  "heap_start_sym (upd_hlinks g s) = heap_start_sym s"
  "heap_end_sym (upd_hlinks g s) = heap_end_sym s"
  by (simp_all add: upd_hlinks_def)

lemma heap_wfD:
  assumes "heap_wf s"
  shows "heap_initialized s" and "lists_wf (heap_links s) {HeapBlocks} (set (hitems s))"
    and "8 dvd unat (heap_start_addr s)" and "0 < unat (heap_start_addr s)"
    and "hview s \<noteq> [] \<Longrightarrow> tiled (unat (heap_start_addr s)) (unat (heap_end_addr s)) (hview s)"
  using assms by (auto simp: heap_wf_def unat_gt_0)

lemma hitems_node:
  assumes "heap_wf s" and "x \<in> set (hitems s)"
  shows "x = BlockNode (entry_block x)"
proof -
  have "HeapBlocks \<notin> set (hitems s)"
    using lists_wfD(2) [OF heap_wfD(2) [OF assms(1)]] by blast
  with assms(2) have "x \<noteq> HeapBlocks" by metis
  then show ?thesis by (cases x) simp_all
qed

lemma blk_of_node [simp]:
  "blk_of s (BlockNode b) = (unat b, unat (block_size (blocks s b)), block_free (blocks s b))"
  by (simp add: blk_of_def Let_def)

lemma hview_split:
  "hitems s = as @ BlockNode b # bs \<Longrightarrow>
    hview s = map (blk_of s) as @ (unat b, unat (block_size (blocks s b)), block_free (blocks s b)) #
      map (blk_of s) bs"
  by (simp add: hview_def blk_of_def Let_def)

text \<open>What the invariant says of one block.\<close>

lemma block_facts:
  assumes wf: "heap_wf s" and b: "hitems s = as @ BlockNode b # bs"
  shows "unat b + 16 + unat (block_size (blocks s b)) \<le> unat (heap_end_addr s)"
    and "unat (heap_start_addr s) \<le> unat b" and "8 \<le> unat b" and "8 dvd unat b"
    and "8 dvd unat (block_size (blocks s b))"
    and "tiled (unat (heap_start_addr s)) (unat (heap_end_addr s)) (hview s)"
proof -
  note v = hview_split [OF b]
  have ne: "hview s \<noteq> []" by (simp add: v)
  note t = heap_wfD(5) [OF wf ne]
  show "tiled (unat (heap_start_addr s)) (unat (heap_end_addr s)) (hview s)" by (rule t)
  show "unat b + 16 + unat (block_size (blocks s b)) \<le> unat (heap_end_addr s)"
    and le: "unat (heap_start_addr s) \<le> unat b"
    using tiled_middle(4,5) [OF t [unfolded v]] .
  show al: "8 dvd unat b" "8 dvd unat (block_size (blocks s b))"
    using tiled_aligned [OF t heap_wfD(3) [OF wf]] v by auto
  show "8 \<le> unat b"
    using al(1) le heap_wfD(4) [OF wf] by (auto elim!: dvdE)
qed

lemma adjacent_in_list:
  assumes wf: "heap_wf s" and b: "hitems s = as @ BlockNode b # BlockNode c # bs"
  shows "blocks_are_adjacent b c s" and "unat c = unat b + 16 + unat (block_size (blocks s b))"
    and "unat c + 16 + unat (block_size (blocks s c)) \<le> unat (heap_end_addr s)"
proof -
  have "tiled (unat b + 16 + unat (block_size (blocks s b))) (unat (heap_end_addr s))
      ((unat c, unat (block_size (blocks s c)), block_free (blocks s c)) # map (blk_of s) bs)"
    using tiled_middle(3) [OF block_facts(6) [OF wf b, unfolded hview_split [OF b]]] by simp
  then show c: "unat c = unat b + 16 + unat (block_size (blocks s b))"
    and "unat c + 16 + unat (block_size (blocks s c)) \<le> unat (heap_end_addr s)"
    by (auto dest: tiled_le)
  then have "unat (b + 16 + block_size (blocks s b)) = unat c"
    using unat_u32_less [of c] by (simp add: unat_word_ariths)
  then have "b + 16 + block_size (blocks s b) = c" by (simp only: word_unat_eq_iff)
  then show "blocks_are_adjacent b c s"
    by (simp add: blocks_are_adjacent_def sizeof_heap_block_def)
qed

text \<open>No block starts strictly inside another one.\<close>

lemma block_inside_fresh:
  assumes wf: "heap_wf s" and b: "hitems s = as @ BlockNode b # bs"
    and c: "unat b < unat c" "unat c < unat b + 16 + unat (block_size (blocks s b))"
  shows "BlockNode c \<notin> set (hitems s)"
proof
  assume "BlockNode c \<in> set (hitems s)"
  with c(1) have "BlockNode c \<in> set (as @ bs)" by (auto simp: b)
  then have "blk_of s (BlockNode c) \<in> set (map (blk_of s) as @ map (blk_of s) bs)"
    by (auto simp del: blk_of_node)
  then show False
    using tiled_disjoint [OF block_facts(6) [OF wf b, unfolded hview_split [OF b]],
        of "unat c" "unat (block_size (blocks s c))" "block_free (blocks s c)"] c
    by (simp add: blk_of_def)
qed

lemma hitems_distinct:
  assumes wf: "heap_wf s" and b: "hitems s = as @ BlockNode b # bs"
  shows "BlockNode b \<notin> set as" and "BlockNode b \<notin> set bs" and "distinct (as @ BlockNode b # bs)"
  using items_distinct [OF heap_wfD(2) [OF wf], of HeapBlocks] b by auto

lemma blk_of_other:
  "BlockNode b \<noteq> x \<Longrightarrow> x = BlockNode (entry_block x) \<Longrightarrow> blk_of (upd_block b f s) x = blk_of s x"
  by (cases x) (auto simp: blk_of_def)

lemma map_blk_of_other:
  assumes "heap_wf s" and "set xs \<subseteq> set (hitems s)" and "BlockNode b \<notin> set xs"
  shows "map (blk_of (upd_block b f s)) xs = map (blk_of s) xs"
  using assms hitems_node [OF assms(1)] by (intro map_cong [OF refl] blk_of_other) auto

lemma hview_upd_block:
  assumes wf: "heap_wf s" and b: "hitems s = as @ BlockNode b # bs"
  shows "hview (upd_block b f s) = map (blk_of s) as @
    (unat b, unat (block_size (f (blocks s b))), block_free (f (blocks s b))) # map (blk_of s) bs"
proof -
  have "set as \<subseteq> set (hitems s)" "set bs \<subseteq> set (hitems s)" by (auto simp: b)
  note m = map_blk_of_other [OF wf this(1) hitems_distinct(1) [OF wf b]]
    map_blk_of_other [OF wf this(2) hitems_distinct(2) [OF wf b]]
  have "hitems (upd_block b f s) = as @ BlockNode b # bs" by (simp add: b)
  from hview_split [OF this] show ?thesis by (simp only: m) simp
qed

lemma heap_wf_upd_block:
  assumes wf: "heap_wf s" and b: "hitems s = as @ BlockNode b # bs"
    and sz: "block_size (f (blocks s b)) = block_size (blocks s b)"
  shows "heap_wf (upd_block b f s)"
proof -
  have "tiled (unat (heap_start_addr s)) (unat (heap_end_addr s)) (hview (upd_block b f s))"
    using block_facts(6) [OF wf b]
    unfolding hview_upd_block [OF wf b] hview_split [OF b] sz by (simp add: tiled_append)
  then show ?thesis
    using heap_wfD [OF wf] by (simp add: heap_wf_def unat_gt_0)
qed

subsection \<open>Splitting and merging\<close>

lemma map_blk_of_cong:
  "(\<And>x. x \<in> set xs \<Longrightarrow> blocks s' (entry_block x) = blocks s (entry_block x)) \<Longrightarrow>
    map (blk_of s') xs = map (blk_of s) xs"
  by (simp add: blk_of_def Let_def)

lemma map_blk_of_frame:
  assumes wf: "heap_wf s" and xs: "set xs \<subseteq> set (hitems s)"
    and same: "\<And>c. BlockNode c \<in> set xs \<Longrightarrow> blocks s' c = blocks s c"
  shows "map (blk_of s') xs = map (blk_of s) xs"
proof (rule map_blk_of_cong)
  fix x assume x: "x \<in> set xs"
  then have "x = BlockNode (entry_block x)"
    using hitems_node [OF wf] xs by blast
  with x same show "blocks s' (entry_block x) = blocks s (entry_block x)" by metis
qed

text \<open>The operations change nothing but headers and links.\<close>

definition same_region :: "heap_state \<Rightarrow> heap_state \<Rightarrow> bool" where
  "same_region s s' \<longleftrightarrow> heap_initialized s' = heap_initialized s \<and>
     heap_start_addr s' = heap_start_addr s \<and> heap_end_addr s' = heap_end_addr s \<and>
     heap_bytes s' = heap_bytes s"

lemma same_region_refl [simp]: "same_region s s"
  by (simp add: same_region_def)

lemma same_region_trans: "same_region s s' \<Longrightarrow> same_region s' s'' \<Longrightarrow> same_region s s''"
  by (simp add: same_region_def)

lemma same_region_upd [simp]:
  "same_region s (upd_block b f s') = same_region s s'"
  "same_region s (upd_hlinks g s') = same_region s s'"
  "same_region (upd_block b f s) s' = same_region s s'"
  by (simp_all add: same_region_def)

lemma heap_wfI:
  assumes "heap_wf s" and "same_region s s'"
    and "lists_wf (heap_links s') {HeapBlocks} (set (hitems s'))"
    and "tiled (unat (heap_start_addr s)) (unat (heap_end_addr s)) (hview s')"
  shows "heap_wf s'"
  using assms by (simp add: heap_wf_def same_region_def)

lemma split_guard:
  assumes "unat n + 24 < 2 ^ 32"
  shows "b < n + sizeof_heap_block + HEAP_ALIGN \<longleftrightarrow> unat b < unat n + 24"
proof -
  have "n + sizeof_heap_block + HEAP_ALIGN = n + 24"
    by (simp add: sizeof_heap_block_def HEAP_ALIGN_def)
  moreover have "unat (n + 24) = unat n + 24"
    using assms by (simp add: unat_word_ariths)
  ultimately show ?thesis by (simp only: word_less_nat_alt)
qed

lemma split_small:
  assumes "unat (block_size (blocks s b)) < unat n + 24" and "unat n + 24 < 2 ^ 32"
  shows "split_block b n s = s"
  using assms unfolding split_block_def split_guard [OF assms(2)] by simp

lemma split_large:
  assumes wf: "heap_wf s" and b: "hitems s = as @ BlockNode b # bs"
    and big: "unat n + 24 \<le> unat (block_size (blocks s b))" and al: "8 dvd unat n"
  defines "new \<equiv> b + 16 + n" and "s' \<equiv> split_block b n s"
  shows "hitems s' = as @ BlockNode b # BlockNode new # bs"
    and "lists_wf (heap_links s') {HeapBlocks} (set (hitems s'))"
    and "hview s' = map (blk_of s) as @ (unat b, unat n, block_free (blocks s b)) #
      (unat b + 16 + unat n, unat (block_size (blocks s b)) - unat n - 16, True) # map (blk_of s) bs"
    and "same_region s s'"
proof -
  let ?sz = "block_size (blocks s b)" and ?A = "set (hitems s)"
  note f = block_facts [OF wf b]
  have "unat b + 16 + unat ?sz < 2 ^ 32"
    using f(1) unat_u32_less [of "heap_end_addr s"] by simp
  then have new: "unat new = unat b + 16 + unat n"
    using big by (simp add: new_def unat_word_ariths)
  have "unat n + 24 < 2 ^ 32"
    using big \<open>unat b + 16 + unat ?sz < 2 ^ 32\<close> by simp
  then have "\<not> ?sz < n + sizeof_heap_block + HEAP_ALIGN"
    using big by (simp only: split_guard)
  then have s': "s' = upd_block b (\<lambda>k. k\<lparr>block_size := n\<rparr>)
      (upd_hlinks (\<lambda>l. list_add (BlockNode new) (BlockNode b) (INIT_LIST_HEAD (BlockNode new) l))
        (upd_block new (\<lambda>_. \<lparr>block_size = ?sz - n - 16, block_free = True\<rparr>) s))"
    by (simp add: s'_def split_block_def Let_def new_def sizeof_heap_block_def upd_hlinks_def
      add.commute add.left_commute)
  have fresh: "BlockNode new \<notin> ?A"
    using new big by (intro block_inside_fresh [OF wf b]) simp_all
  let ?l = "INIT_LIST_HEAD (BlockNode new) (heap_links s)"
  note W = heap_wfD(2) [OF wf]
  have il: "lists_wf ?l {HeapBlocks} (insert (BlockNode new) ?A)"
    and ii: "items ?l HeapBlocks = as @ BlockNode b # bs"
    and ie: "list_empty (BlockNode new) ?l"
    using INIT_node_wf [OF W] items_INIT [OF W] list_empty_INIT [OF W] fresh by (auto simp: b)
  show it: "hitems s' = as @ BlockNode b # BlockNode new # bs"
    using items_list_add_after [OF il _ _ ie ii] by (simp add: s')
  show "lists_wf (heap_links s') {HeapBlocks} (set (hitems s'))"
    using list_add_after_wf [OF il _ _ ie ii] it by (simp add: s' b insert_commute)
  have other: "map (blk_of s') xs = map (blk_of s) xs" if "set xs \<subseteq> ?A" "BlockNode b \<notin> set xs" for xs
  proof (rule map_blk_of_frame [OF wf that(1)])
    fix c assume "BlockNode c \<in> set xs"
    then have "c \<noteq> b" "c \<noteq> new" using that fresh by auto
    then show "blocks s' c = blocks s c" by (simp add: s')
  qed
  have "new \<noteq> b" using new by auto
  then have fields: "block_size (blocks s' b) = n" "block_free (blocks s' b) = block_free (blocks s b)"
    "block_size (blocks s' new) = ?sz - n - 16" "block_free (blocks s' new)"
    by (simp_all add: s')
  have "unat (?sz - n - 16) = unat ?sz - unat n - 16"
    using big by (simp add: unat_sub word_le_nat_alt)
  then have "blk_of s' (BlockNode new) = (unat b + 16 + unat n, unat ?sz - unat n - 16, True)"
    by (simp add: blk_of_def fields new)
  moreover have "map (blk_of s') as = map (blk_of s) as" "map (blk_of s') bs = map (blk_of s) bs"
    using other [of as] other [of bs] hitems_distinct [OF wf b] by (auto simp: b)
  ultimately show "hview s' = map (blk_of s) as @ (unat b, unat n, block_free (blocks s b)) #
      (unat b + 16 + unat n, unat ?sz - unat n - 16, True) # map (blk_of s) bs"
    by (simp only: hview_split [OF it] fields list.map)
  show "same_region s s'" by (simp add: s')
qed

lemma split_block_refines:
  assumes wf: "heap_wf s" and b: "hitems s = as @ BlockNode b # bs"
    and n: "unat n \<le> unat (block_size (blocks s b))" and al: "8 dvd unat n"
  defines "s' \<equiv> split_block b n s"
  shows "heap_wf s'" and "\<exists>cs. hitems s' = as @ BlockNode b # cs" and "same_region s s'"
    and "hview s' = map (blk_of s) as @
      cut_block (unat n) (block_free (blocks s b)) (unat b, unat (block_size (blocks s b))) @
      map (blk_of s) bs"
proof -
  let ?sz = "block_size (blocks s b)"
  note f = block_facts [OF wf b]
  have "unat n + 24 < 2 ^ 32"
    using f(1,3) n unat_u32_less [of "heap_end_addr s"] by simp
  note small = split_small [OF _ this, of s b]
  have v: "hview s' = map (blk_of s) as @
      cut_block (unat n) (block_free (blocks s b)) (unat b, unat ?sz) @ map (blk_of s) bs"
    using split_large(3) [OF wf b _ al] small hview_split [OF b]
    by (cases "unat ?sz < unat n + 24") (simp_all add: s'_def cut_block_def)
  then show "hview s' = map (blk_of s) as @
      cut_block (unat n) (block_free (blocks s b)) (unat b, unat ?sz) @ map (blk_of s) bs" .
  show reg: "same_region s s'" and "\<exists>cs. hitems s' = as @ BlockNode b # cs"
    using split_large(1,4) [OF wf b _ al] small b
    by (cases "unat ?sz < unat n + 24"; simp add: s'_def)+
  have "lists_wf (heap_links s') {HeapBlocks} (set (hitems s'))"
    using split_large(2) [OF wf b _ al] small heap_wfD(2) [OF wf]
    by (cases "unat ?sz < unat n + 24") (simp_all add: s'_def)
  moreover have "tiled (unat (heap_start_addr s)) (unat (heap_end_addr s)) (hview s')"
    unfolding v by (rule tiled_middle_cong [where xs = "[(unat b, unat ?sz, block_free (blocks s b))]"])
      (use f(6) n al tiled_cut in \<open>simp_all add: hview_split [OF b]\<close>)
  ultimately show "heap_wf s'"
    using heap_wfI [OF wf reg] by simp
qed

lemma merge_refines:
  assumes wf: "heap_wf s" and b: "hitems s = as @ BlockNode b # bs"
    and fr: "block_free (blocks s b)"
  defines "s' \<equiv> merge_with_next b s"
  shows "heap_wf s'" and "\<exists>cs. hitems s' = as @ BlockNode b # cs" and "same_region s s'"
    and "hview s' = map (blk_of s) as @ join (blk_of s (BlockNode b) # map (blk_of s) bs)"
proof -
  note W = heap_wfD(2) [OF wf] and f = block_facts [OF wf b] and v = hview_split [OF b]
  have nx: "nxt (heap_links s) (BlockNode b) = hd (bs @ [HeapBlocks])"
    by (rule nxt_middle [OF W _ b]) simp
  consider (last) "bs = []" | (used) c cs where "bs = BlockNode c # cs" "\<not> block_free (blocks s c)"
    | (free) c cs where "bs = BlockNode c # cs" "block_free (blocks s c)"
  proof (cases bs)
    case (Cons x cs)
    then have "x = BlockNode (entry_block x)"
      using hitems_node [OF wf, of x] by (simp add: b)
    with Cons used free show thesis by metis
  qed (use last in simp)
  then have "heap_wf s' \<and> (\<exists>cs. hitems s' = as @ BlockNode b # cs) \<and> same_region s s' \<and>
      hview s' = map (blk_of s) as @ join (blk_of s (BlockNode b) # map (blk_of s) bs)"
  proof cases
    case last
    then have "s' = s" using nx by (simp add: s'_def merge_with_next_def)
    with last wf b v show ?thesis by (simp add: blk_of_def)
  next
    case used
    then have "s' = s" using nx by (simp add: s'_def merge_with_next_def Let_def)
    with used wf b v show ?thesis by (simp add: blk_of_def)
  next
    case free
    let ?n = "BlockNode c" and ?sz = "block_size (blocks s b)" and ?sc = "block_size (blocks s c)"
    note adj = adjacent_in_list [OF wf b [unfolded free(1)]]
    have t: "tiled (unat (heap_start_addr s)) (unat (heap_end_addr s))
        (map (blk_of s) as @ (unat b, unat ?sz, True) # (unat c, unat ?sc, True) # map (blk_of s) cs)"
      using f(6) free fr by (simp add: v)
    note c = adj(2,3)
    have s': "s' = upd_hlinks (list_del_init ?n)
        (upd_block b (\<lambda>k. k\<lparr>block_size := block_size k + (16 + ?sc)\<rparr>) s)"
      using free nx adj(1) by (simp add: s'_def merge_with_next_def
        sizeof_heap_block_def list_del_eq_list_del_init upd_hlinks_def)
    have d: "distinct (as @ BlockNode b # ?n # cs)"
      using hitems_distinct(3) [OF wf b] free by simp
    have cN: "?n \<in> set (hitems s)" by (simp add: b free)
    have it: "hitems s' = as @ BlockNode b # cs"
      using items_list_del_init [OF W cN, of HeapBlocks] d
      by (auto simp: s' b free remove1_append)
    have "lists_wf (heap_links s') {HeapBlocks} (set (hitems s) - {?n})"
      using lists_wf_remove_node [OF list_del_init_wf [OF W cN] cN list_empty_del_init [OF W cN]]
      by (simp add: s')
    moreover have "set (hitems s) - {?n} = set (hitems s')"
      using d by (auto simp: it b free)
    ultimately have W': "lists_wf (heap_links s') {HeapBlocks} (set (hitems s'))" by simp
    have other: "map (blk_of s') xs = map (blk_of s) xs"
      if "set xs \<subseteq> set (hitems s)" "BlockNode b \<notin> set xs" for xs
    proof (rule map_blk_of_frame [OF wf that(1)])
      fix d assume "BlockNode d \<in> set xs"
      then have "d \<noteq> b" using that by auto
      then show "blocks s' d = blocks s d" by (simp add: s')
    qed
    have usz: "unat (?sz + (16 + ?sc)) = unat ?sz + 16 + unat ?sc"
      using c unat_u32_less [of "heap_end_addr s"] by (simp add: unat_word_ariths)
    have v': "hview s' = map (blk_of s) as @ (unat b, unat ?sz + 16 + unat ?sc, True) #
        map (blk_of s) cs"
    proof -
      have "map (blk_of s') as = map (blk_of s) as" "map (blk_of s') cs = map (blk_of s) cs"
        using other [of as] other [of cs] d by (auto simp: b free)
      moreover have "block_size (blocks s' b) = ?sz + (16 + ?sc)" "block_free (blocks s' b)"
        using fr by (simp_all add: s')
      ultimately show ?thesis by (simp only: hview_split [OF it] usz)
    qed
    then have "hview s' = map (blk_of s) as @ join (blk_of s (BlockNode b) # map (blk_of s) bs)"
      using free fr by (simp add: blk_of_def)
    moreover have "tiled (unat (heap_start_addr s)) (unat (heap_end_addr s)) (hview s')"
      using t c unfolding v' by (auto simp: tiled_append algebra_simps intro: dvd_add)
    ultimately show ?thesis
      using heap_wfI [OF wf _ W'] it by (simp add: s')
  qed
  then show "heap_wf s'" and "\<exists>cs. hitems s' = as @ BlockNode b # cs" and "same_region s s'"
    and "hview s' = map (blk_of s) as @ join (blk_of s (BlockNode b) # map (blk_of s) bs)"
    by simp_all
qed

subsection \<open>Alignment\<close>

lemma align_mask: "NOT (HEAP_ALIGN - 1) = NOT (mask 3)"
  by (simp add: HEAP_ALIGN_def mask_eq_exp_minus_1)

lemma unat_and_not_mask: "unat ((w :: u32) AND NOT (mask 3)) = 8 * (unat w div 8)"
proof -
  have "w AND NOT (mask 3) = push_bit 3 (drop_bit 3 w)"
    by (rule bit_word_eqI) (auto simp: bit_simps)
  also have "unat \<dots> = take_bit 32 (push_bit 3 (drop_bit 3 (unat w)))"
    by (simp add: unsigned_push_bit_eq unsigned_drop_bit_eq take_bit_nat_eq_self unat_u32_less)
  also have "\<dots> = (8 * (unat w div 8)) mod 2 ^ 32"
    by (simp add: take_bit_eq_mod push_bit_eq_mult drop_bit_eq_div mult.commute)
  also have "\<dots> = 8 * (unat w div 8)"
    using unat_u32_less [of w] times_div_less_eq_dividend [of 8 "unat w"] by simp
  finally show ?thesis .
qed

lemma align_size_dvd: "8 dvd unat (align_size n)"
  by (simp add: align_size_def align_mask unat_and_not_mask)

lemma align_plus: "(v :: u32) + HEAP_ALIGN - 1 = v + 7"
  by (simp add: HEAP_ALIGN_def)

lemma align_size_exact:
  assumes "unat n + 7 < 2 ^ 32"
  shows "unat (align_size n) = 8 * ((unat n + 7) div 8)"
proof -
  have "unat (n + 7) = unat n + 7"
    using assms by (simp add: unat_word_ariths)
  then show ?thesis
    by (simp only: align_size_def align_mask align_plus unat_and_not_mask)
qed

lemma align_size_ge: "unat n + 7 < 2 ^ 32 \<Longrightarrow> unat n \<le> unat (align_size n)"
  by (simp add: align_size_exact)

lemma align_size_wrap:
  assumes "2 ^ 32 \<le> unat n + 7"
  shows "align_size n = 0"
proof -
  have "unat (n + 7) = unat n + 7 - 2 ^ 32"
    using assms unat_u32_less [of n] by (simp add: unat_word_ariths mod_if)
  then have "unat (n + 7) div 8 = 0"
    using unat_u32_less [of n] by simp
  then have "unat (align_size n) = 0"
    by (simp only: align_size_def align_mask align_plus unat_and_not_mask)
  then show ?thesis by (simp add: unat_eq_zero)
qed

lemma align_size_idem: "align_size (align_size n) = align_size n"
proof -
  obtain k where k: "unat (align_size n) = 8 * k"
    using align_size_dvd [of n] by (auto elim!: dvdE)
  then have "k < 536870912"
    using unat_u32_less [of "align_size n"] by simp
  then have "unat (align_size n) + 7 < 2 ^ 32" using k by simp
  then have "unat (align_size (align_size n)) = 8 * ((8 * k + 7) div 8)"
    using k by (simp only: align_size_exact)
  then show ?thesis using k by (simp add: word_unat_eq_iff)
qed

subsection \<open>Allocation\<close>

lemma blk_fits_of:
  "blk_fits (unat n) (blk_of s x) \<longleftrightarrow>
    block_free (blocks s (entry_block x)) \<and> n \<le> block_size (blocks s (entry_block x))"
  by (simp add: blk_fits_def blk_of_def Let_def word_le_nat_alt)

text \<open>\<^verbatim>\<open>malloc\<close> computes first fit on the block list.\<close>

lemma heap_ok_wf: "heap_ok s \<Longrightarrow> heap_wf (heap_init_once s)"
  by (simp add: heap_ok_def)

lemma malloc_refines:
  assumes wf: "heap_wf s" and n: "n \<noteq> 0"
  shows "case first_fit (unat (align_size n)) (hview s) of
      None \<Rightarrow> malloc n s = Some (0, s)
    | Some (a, bs) \<Rightarrow> \<exists>p s'. malloc n s = Some (p, s') \<and> unat p = a + 16 \<and> heap_wf s' \<and>
        hview s' = bs \<and> same_region s s' \<and> BlockNode (p - 16) \<in> set (hitems s')"
proof -
  let ?sz = "align_size n"
  let ?P = "\<lambda>x. block_free (blocks s (entry_block x)) \<and> ?sz \<le> block_size (blocks s (entry_block x))"
  note W = heap_wfD(2) [OF wf]
  have init: "heap_init_once s = s" by (simp add: heap_wfD(1) [OF wf])
  have loop: "list_for_each ?P (heap_links s) HeapBlocks (nxt (heap_links s) HeapBlocks) =
      Some (hd (dropWhile (\<lambda>x. \<not> ?P x) (hitems s) @ [HeapBlocks]))"
    by (rule list_for_each_wf [OF W]) simp
  show ?thesis
  proof (cases "dropWhile (\<lambda>x. \<not> ?P x) (hitems s)")
    case Nil
    then have "first_fit (unat ?sz) (hview s) = None"
      unfolding first_fit_none hview_def by (simp add: blk_fits_of)
    moreover have "list_for_each ?P (heap_links s) HeapBlocks (nxt (heap_links s) HeapBlocks) =
        Some HeapBlocks"
      unfolding loop Nil by simp
    then have "malloc n s = Some (0, s)"
      using n by (simp add: malloc_def Let_def init)
    ultimately show ?thesis by simp
  next
    case (Cons x bs)
    define as where "as = takeWhile (\<lambda>x. \<not> ?P x) (hitems s)"
    define b where "b = entry_block x"
    have items: "hitems s = as @ x # bs"
      using Cons unfolding as_def dropWhile_eq_Cons_conv by (rule conjunct1)
    then have x: "x = BlockNode b"
      using hitems_node [OF wf, of x] by (simp add: b_def)
    note b = items [unfolded x]
    have P: "?P x" using Cons unfolding dropWhile_eq_Cons_conv by blast
    have le: "unat ?sz \<le> unat (block_size (blocks s b))" and fr: "block_free (blocks s b)"
      using P by (simp_all add: b_def word_le_nat_alt)
    have skip: "\<forall>y\<in>set (map (blk_of s) as). \<not> blk_fits (unat ?sz) y"
      by (auto simp: blk_fits_of as_def dest: set_takeWhileD)
    have ff: "first_fit (unat ?sz) (hview s) = Some (unat b, map (blk_of s) as @
        cut_block (unat ?sz) False (unat b, unat (block_size (blocks s b))) @ map (blk_of s) bs)"
      using first_fit_append [OF skip] le fr by (simp add: hview_split [OF b])
    define s1 where "s1 = split_block b ?sz s"
    note sp = split_block_refines [OF wf b le align_size_dvd, folded s1_def]
    obtain cs where cs: "hitems s1 = as @ BlockNode b # cs" using sp(2) by blast
    let ?s2 = "upd_block b (\<lambda>k. k\<lparr>block_free := False\<rparr>) s1"
    have "list_for_each ?P (heap_links s) HeapBlocks (nxt (heap_links s) HeapBlocks) = Some x"
      unfolding loop Cons by simp
    then have m: "malloc n s = Some (b + 16, ?s2)"
      using n by (simp add: malloc_def Let_def init x s1_def sizeof_heap_block_def)
    have v1: "map (blk_of s1) as @ blk_of s1 (BlockNode b) # map (blk_of s1) cs =
        map (blk_of s) as @ cut_block (unat ?sz) True (unat b, unat (block_size (blocks s b))) @
        map (blk_of s) bs"
      using sp(4) fr cs by (simp add: hview_def)
    have "hview ?s2 = map (blk_of s) as @
        cut_block (unat ?sz) False (unat b, unat (block_size (blocks s b))) @ map (blk_of s) bs"
      unfolding hview_upd_block [OF sp(1) cs] using v1
      by (auto simp: cut_block_def blk_of_def append_eq_append_conv split: if_splits)
    moreover have "heap_wf ?s2"
      using heap_wf_upd_block [OF sp(1) cs] by simp
    moreover have "unat (b + 16) = unat b + 16"
      using block_facts(1) [OF wf b] unat_u32_less [of "heap_end_addr s"]
      by (simp add: unat_word_ariths)
    moreover have "BlockNode (b + 16 - 16) \<in> set (hitems ?s2)"
      by (simp add: cs)
    ultimately show ?thesis
      using m ff sp(3) by auto
  qed
qed

subsection \<open>Release\<close>

lemma free_refines:
  assumes wf: "heap_wf s" and b: "BlockNode (p - 16) \<in> set (hitems s)" and p: "p \<noteq> 0"
  shows "heap_wf (free p s)" and "hview (free p s) = release (unat (p - 16)) (hview s)"
    and "same_region s (free p s)"
proof -
  let ?b = "p - 16"
  obtain as bs where items: "hitems s = as @ BlockNode ?b # bs"
    using b by (auto simp: in_set_conv_decomp)
  note d = hitems_distinct [OF wf items]
  define s2 where "s2 = upd_block ?b (\<lambda>k. k\<lparr>block_free := True\<rparr>) s"
  have wf2: "heap_wf s2" and i2: "hitems s2 = as @ BlockNode ?b # bs"
    using heap_wf_upd_block [OF wf items] by (simp_all add: s2_def items)
  let ?blk = "(unat ?b, unat (block_size (blocks s ?b)), True)"
  have v2: "map (blk_of s2) as = map (blk_of s) as" "map (blk_of s2) bs = map (blk_of s) bs"
    "blk_of s2 (BlockNode ?b) = ?blk"
  proof -
    have "set as \<subseteq> set (hitems s)" "set bs \<subseteq> set (hitems s)" by (auto simp: items)
    then show "map (blk_of s2) as = map (blk_of s) as" "map (blk_of s2) bs = map (blk_of s) bs"
      unfolding s2_def by (simp_all only: map_blk_of_other [OF wf] d(1,2) simp_thms)
  qed (simp add: s2_def)
  define s3 where "s3 = merge_with_next ?b s2"
  have fr2: "block_free (blocks s2 ?b)" by (simp add: s2_def)
  note m3 = merge_refines [OF wf2 i2 fr2, folded s3_def]
  obtain cs where i3: "hitems s3 = as @ BlockNode ?b # cs" using m3(2) by blast
  have v3: "hview s3 = map (blk_of s) as @ join (?blk # map (blk_of s) bs)"
    using m3(4) v2 by simp
  have w3: "map (blk_of s3) as @ blk_of s3 (BlockNode ?b) # map (blk_of s3) cs =
      map (blk_of s) as @ join (?blk # map (blk_of s) bs)"
    using v3 by (simp add: hview_def i3)
  have rel: "release (unat ?b) (hview s) =
      (case rev (map (blk_of s) as) of [] \<Rightarrow> join (?blk # map (blk_of s) bs)
       | q # qs \<Rightarrow> rev qs @ join (q # join (?blk # map (blk_of s) bs)))"
  proof -
    have "unat ?b \<notin> fst ` set (map (blk_of s) as)"
    proof
      assume "unat ?b \<in> fst ` set (map (blk_of s) as)"
      then obtain x where x: "x \<in> set as" "unat (entry_block x) = unat ?b"
        by (auto simp: blk_of_def Let_def)
      from x(2) have "entry_block x = ?b" by (simp only: word_unat_eq_iff)
      with x(1) have "x = BlockNode ?b"
        using hitems_node [OF wf, of x] by (simp add: items)
      with x d(1) show False by simp
    qed
    from release_append [OF this] show ?thesis by (simp add: hview_split [OF items])
  qed
  have pv: "prv (heap_links s3) (BlockNode ?b) = last (HeapBlocks # as)"
    by (rule prv_middle [OF heap_wfD(2) [OF m3(1)] _ i3]) simp
  have fre: "free p s = (if prv (heap_links s3) (BlockNode ?b) \<noteq> HeapBlocks
      then let prev = entry_block (prv (heap_links s3) (BlockNode ?b)) in
        if block_free (blocks s3 prev) \<and> blocks_are_adjacent prev ?b s3
        then merge_with_next prev s3 else s3 else s3)"
    using p heap_wfD(1) [OF wf] by (simp add: free_def Let_def s3_def s2_def sizeof_heap_block_def)
  have "heap_wf (free p s) \<and> same_region s (free p s) \<and>
      hview (free p s) = release (unat ?b) (hview s)"
  proof (cases as rule: rev_cases)
    case Nil
    then show ?thesis
      using pv m3(1,3) v3 by (simp add: fre rel) (simp add: s2_def)
  next
    case (snoc as' x)
    then obtain c where x: "x = BlockNode c"
      using hitems_node [OF wf, of x] items by auto
    have i3': "hitems s3 = as' @ BlockNode c # BlockNode ?b # cs"
      using i3 by (simp add: snoc x)
    have e: "map (blk_of s3) as' = map (blk_of s) as'" "blk_of s3 (BlockNode c) = blk_of s (BlockNode c)"
      "blk_of s3 (BlockNode ?b) # map (blk_of s3) cs = join (?blk # map (blk_of s) bs)"
      using w3 by (auto simp: snoc x)
    show ?thesis
    proof (cases "block_free (blocks s3 c)")
      case True
      then have "free p s = merge_with_next c s3"
        using pv adjacent_in_list(1) [OF m3(1) i3'] by (simp add: fre snoc x)
      then show ?thesis
        using merge_refines [OF m3(1) i3' True] m3(3) e
        by (auto simp: rel snoc x same_region_def s2_def)
    next
      case False
      then have "free p s = s3" using pv by (simp add: fre snoc x)
      then show ?thesis
        using m3(1,3) v3 False e(2) by (simp add: rel snoc x same_region_def s2_def)
    qed
  qed
  then show "heap_wf (free p s)" and "hview (free p s) = release (unat ?b) (hview s)"
    and "same_region s (free p s)" by simp_all
qed

subsection \<open>Live allocations\<close>

text \<open>
  The client's view: the payload size of each address handed out and not yet freed.
\<close>

definition used_blocks :: "blk list \<Rightarrow> (nat \<times> nat) list" where
  "used_blocks bs = map (\<lambda>(a, sz, f). (a + 16, sz)) (filter (\<lambda>(a, sz, f). \<not> f) bs)"

definition live_allocs :: "heap_state \<Rightarrow> ptr \<Rightarrow> nat option" where
  "live_allocs s p = map_of (used_blocks (hview (heap_init_once s))) (unat p)"

lemma used_blocks_simps [simp]:
  "used_blocks [] = []"
  "used_blocks ((a, sz, True) # bs) = used_blocks bs"
  "used_blocks ((a, sz, False) # bs) = (a + 16, sz) # used_blocks bs"
  "used_blocks (as @ bs) = used_blocks as @ used_blocks bs"
  by (simp_all add: used_blocks_def)

lemma used_blocks_join [simp]: "used_blocks (join bs) = used_blocks bs"
  by (induction bs rule: join.induct) auto

lemma used_blocks_set: "(p, sz) \<in> set (used_blocks bs) \<longleftrightarrow> 16 \<le> p \<and> (p - 16, sz, False) \<in> set bs"
proof (induction bs)
  case (Cons b bs)
  obtain a z f where "b = (a, z, f)" by (cases b)
  with Cons show ?case by (cases f) auto
qed simp

lemma tiled_distinct: "tiled lo hi bs \<Longrightarrow> distinct (map fst bs)"
  by (induction lo hi bs rule: tiled.induct) (auto dest: tiled_bounds)

lemma used_blocks_fst:
  "fst ` set (used_blocks bs) \<subseteq> (\<lambda>a. a + 16) ` fst ` set bs"
proof (induction bs)
  case (Cons b bs)
  obtain a z f where "b = (a, z, f)" by (cases b)
  with Cons show ?case by (cases f) auto
qed simp

lemma used_fst_notin: "a \<notin> fst ` set bs \<Longrightarrow> a + 16 \<notin> fst ` set (used_blocks bs)"
proof
  assume "a \<notin> fst ` set bs" and "a + 16 \<in> fst ` set (used_blocks bs)"
  then have "a + 16 \<in> (\<lambda>a. a + 16) ` fst ` set bs"
    using used_blocks_fst by blast
  then have "a \<in> fst ` set bs" by force
  with \<open>a \<notin> fst ` set bs\<close> show False by contradiction
qed

lemma used_distinct: "distinct (map fst bs) \<Longrightarrow> distinct (map fst (used_blocks bs))"
proof (induction bs)
  case (Cons b bs)
  obtain a sz f where "b = (a, sz, f)" by (cases b)
  then show ?case
    using Cons used_fst_notin [of a bs] by (cases f) auto
qed simp

lemma live_iff_mem:
  assumes "tiled lo hi bs"
  shows "map_of (used_blocks bs) p = Some sz \<longleftrightarrow> 16 \<le> p \<and> (p - 16, sz, False) \<in> set bs"
  using map_of_eq_Some_iff [OF used_distinct [OF tiled_distinct [OF assms]]]
  by (simp add: used_blocks_set)

lemma first_fit_decomp:
  assumes "first_fit n bs = Some (a, bs')"
  shows "\<exists>as sz cs. bs = as @ (a, sz, True) # cs \<and> n \<le> sz \<and>
    bs' = as @ cut_block n False (a, sz) @ cs \<and> (\<forall>x\<in>set as. \<not> blk_fits n x)"
  using assms
proof (induction n bs arbitrary: bs' rule: first_fit.induct)
  case (2 n b sz f bs)
  show ?case
  proof (cases "f \<and> n \<le> sz")
    case True
    with 2(2) show ?thesis
      by (intro exI [of _ "[]"], intro exI [of _ sz], intro exI [of _ bs]) simp
  next
    case False
    then obtain bs'' where b: "first_fit n bs = Some (a, bs'')" "bs' = (b, sz, f) # bs''"
      using 2(2) by auto
    then obtain as sz' cs where d: "bs = as @ (a, sz', True) # cs" "n \<le> sz'"
      "bs'' = as @ cut_block n False (a, sz') @ cs" "\<forall>x\<in>set as. \<not> blk_fits n x"
      using 2(1) [OF False] by blast
    have "\<not> blk_fits n (b, sz, f)" using False by (simp add: blk_fits_def)
    with d b(2) show ?thesis
      by (intro exI [of _ "(b, sz, f) # as"], intro exI [of _ sz'], intro exI [of _ cs]) simp
  qed
qed simp

lemma used_cut: "used_blocks (cut_block n False (a, sz)) = [(a + 16, if sz < n + 24 then sz else n)]"
  by (simp add: cut_block_def)

lemma first_fit_live:
  assumes t: "tiled lo hi bs" and ff: "first_fit n bs = Some (a, bs')"
  shows "map_of (used_blocks bs) (a + 16) = None"
    and "\<exists>sz\<ge>n. sz < n + 24 \<and> map_of (used_blocks bs') = (map_of (used_blocks bs))(a + 16 \<mapsto> sz)"
proof -
  obtain as sz cs where d: "bs = as @ (a, sz, True) # cs" "n \<le> sz"
    "bs' = as @ cut_block n False (a, sz) @ cs"
    using first_fit_decomp [OF ff] by blast
  have a: "a \<notin> fst ` set as" "a \<notin> fst ` set cs"
    using tiled_distinct [OF t] by (auto simp: d)
  then have n: "a + 16 \<notin> fst ` set (used_blocks as)" "a + 16 \<notin> fst ` set (used_blocks cs)"
    using used_fst_notin by blast+
  show "map_of (used_blocks bs) (a + 16) = None"
    using map_of_mid_none [OF n] by (simp add: d)
  have "map_of (used_blocks bs') =
      (map_of (used_blocks bs))(a + 16 \<mapsto> (if sz < n + 24 then sz else n))"
    using map_of_mid_insert [OF n(1), of _ "used_blocks cs"] by (simp add: d used_cut)
  then show "\<exists>sz\<ge>n. sz < n + 24 \<and>
      map_of (used_blocks bs') = (map_of (used_blocks bs))(a + 16 \<mapsto> sz)"
    using d(2) by (intro exI [of _ "if sz < n + 24 then sz else n"]) auto
qed

lemma used_release_mid:
  assumes "a \<notin> fst ` set as"
  shows "used_blocks (release a (as @ (a, sz, f) # bs)) = used_blocks as @ used_blocks bs"
proof (cases as rule: rev_cases)
  case (snoc ps p)
  obtain c sz' f' where p: "p = (c, sz', f')" by (cases p)
  have "used_blocks (join ((c, sz', f') # join ((a, sz, True) # bs))) =
      used_blocks [(c, sz', f')] @ used_blocks bs"
    by (cases f') simp_all
  then show ?thesis
    using release_append [OF assms, of sz f bs] by (simp add: snoc p)
qed (use release_append [OF assms, of sz f bs] in simp)

lemma release_live:
  assumes t: "tiled lo hi bs" and l: "map_of (used_blocks bs) (a + 16) = Some sz"
  shows "map_of (used_blocks (release a bs)) = (map_of (used_blocks bs))(a + 16 := None)"
proof -
  have "(a, sz, False) \<in> set bs"
    using l by (simp add: live_iff_mem [OF t])
  then obtain as cs where d: "bs = as @ (a, sz, False) # cs"
    by (auto simp: in_set_conv_decomp)
  have a: "a \<notin> fst ` set as" "a \<notin> fst ` set cs"
    using tiled_distinct [OF t] by (auto simp: d)
  then have n: "a + 16 \<notin> fst ` set (used_blocks as)" "a + 16 \<notin> fst ` set (used_blocks cs)"
    using used_fst_notin by blast+
  show ?thesis
    using map_of_mid_delete [OF n, of sz] used_release_mid [OF a(1), of sz False cs]
    by (simp add: d)
qed

subsection \<open>The two operations on the client's view\<close>

lemma heap_init_once_wf: "heap_ok s \<Longrightarrow> heap_initialized (heap_init_once s)"
  using heap_wfD(1) heap_ok_wf by blast

lemma malloc_init:
  assumes "heap_ok s"
  shows "n \<noteq> 0 \<Longrightarrow> malloc n s = malloc n (heap_init_once s)"
    and "p \<noteq> 0 \<Longrightarrow> free p s = free p (heap_init_once s)"
    and "live_allocs (heap_init_once s) = live_allocs s"
    and "heap_ok (heap_init_once s)"
  using heap_init_once_wf [OF assms] assms
  by (simp_all add: malloc_def free_def live_allocs_def heap_ok_def fun_eq_iff Let_def)

lemma hview_tiled:
  assumes "heap_wf s" and "hview s \<noteq> []"
  shows "tiled (unat (heap_start_addr s)) (unat (heap_end_addr s)) (hview s)"
  using heap_wfD(5) [OF assms] .

lemma live_allocs_wf: "heap_wf s \<Longrightarrow> live_allocs s p = map_of (used_blocks (hview s)) (unat p)"
  by (simp add: live_allocs_def heap_wfD(1))

lemma live_iff_used:
  assumes wf: "heap_wf s"
  shows "live_allocs s p = Some m \<longleftrightarrow> 16 \<le> unat p \<and> (unat p - 16, m, False) \<in> set (hview s)"
proof (cases "hview s = []")
  case True
  then show ?thesis by (simp add: live_allocs_wf [OF wf])
next
  case False
  show ?thesis
    unfolding live_allocs_wf [OF wf] by (rule live_iff_mem [OF hview_tiled [OF wf False]])
qed

lemma malloc_zero [simp]: "malloc 0 s = Some (0, s)"
  by (simp add: malloc_def)

lemma malloc_cases:
  assumes ok: "heap_ok s"
  shows "(\<exists>s'. malloc n s = Some (0, s') \<and> live_allocs s' = live_allocs s \<and> heap_ok s' \<and>
      (n \<noteq> 0 \<longrightarrow> (\<forall>b\<in>set (hview (heap_init_once s)). \<not> blk_fits (unat (align_size n)) b))) \<or>
    (\<exists>p s' m. n \<noteq> 0 \<and> malloc n s = Some (p, s') \<and> p \<noteq> 0 \<and> heap_wf s' \<and> live_allocs s p = None \<and>
      live_allocs s' = (live_allocs s)(p \<mapsto> m) \<and> unat (align_size n) \<le> m \<and>
      m < unat (align_size n) + 24 \<and> same_region (heap_init_once s) s')"
proof (cases "n = 0")
  case False
  let ?s = "heap_init_once s" and ?n = "unat (align_size n)"
  note wf = heap_ok_wf [OF ok] and i = malloc_init [OF ok]
  note r = malloc_refines [OF wf False]
  show ?thesis
  proof (cases "first_fit ?n (hview ?s)")
    case None
    then have "malloc n s = Some (0, ?s)" using r i(1) [OF False] by simp
    with None i(3,4) show ?thesis by (auto simp: first_fit_none)
  next
    case (Some x)
    obtain a bs where "x = (a, bs)" by (cases x)
    with Some have ff: "first_fit ?n (hview ?s) = Some (a, bs)" by simp
    then obtain p s' where m: "malloc n s = Some (p, s')" "unat p = a + 16" "heap_wf s'"
        "hview s' = bs" "same_region ?s s'"
      using r i(1) [OF False] by auto
    have ne: "hview ?s \<noteq> []" using ff by auto
    note t = hview_tiled [OF wf ne]
    obtain k where k: "?n \<le> k" "k < ?n + 24"
        "map_of (used_blocks bs) = (map_of (used_blocks (hview ?s)))(a + 16 \<mapsto> k)"
      using first_fit_live(2) [OF t ff] by blast
    have "live_allocs s p = None"
      using first_fit_live(1) [OF t ff] by (simp add: live_allocs_def m(2))
    moreover have "live_allocs s' = (live_allocs s)(p \<mapsto> k)"
    proof
      fix q
      have "unat q = a + 16 \<longleftrightarrow> q = p" using m(2) by (metis word_unat_eq_iff)
      then show "live_allocs s' q = ((live_allocs s)(p \<mapsto> k)) q"
        unfolding live_allocs_wf [OF m(3)] m(4) k(3) by (simp add: live_allocs_def)
    qed
    moreover have "p \<noteq> 0" using m(2) by auto
    ultimately show ?thesis using m k False by blast
  qed
qed (use ok in auto)

lemma live_node:
  assumes wf: "heap_wf s" and l: "live_allocs s p = Some m"
  shows "BlockNode (p - 16) \<in> set (hitems s)" and "unat (p - 16) = unat p - 16" and "p \<noteq> 0"
    and "block_size (blocks s (p - 16)) = of_nat m" and "\<not> block_free (blocks s (p - 16))"
    and "unat (block_size (blocks s (p - 16))) = m"
proof -
  have p: "16 \<le> unat p" "(unat p - 16, m, False) \<in> set (hview s)"
    using l by (simp_all add: live_iff_used [OF wf])
  then show "p \<noteq> 0" by auto
  show u: "unat (p - 16) = unat p - 16"
    using p(1) by (simp add: unat_sub word_le_nat_alt)
  obtain x where x: "x \<in> set (hitems s)" "blk_of s x = (unat p - 16, m, False)"
    using p(2) by (auto simp: hview_def)
  then have "unat (entry_block x) = unat (p - 16)"
    by (auto simp: blk_of_def Let_def u)
  then have "entry_block x = p - 16" by (simp only: word_unat_eq_iff)
  then have xb: "x = BlockNode (p - 16)"
    using hitems_node [OF wf x(1)] by simp
  show "BlockNode (p - 16) \<in> set (hitems s)" using x(1) xb by simp
  show "\<not> block_free (blocks s (p - 16))" and "unat (block_size (blocks s (p - 16))) = m"
    using x(2) xb by simp_all
  then show "block_size (blocks s (p - 16)) = of_nat m" by auto
qed

lemma free_live:
  assumes ok: "heap_ok s" and l: "live_allocs s p = Some m"
  shows "heap_wf (free p s)" and "live_allocs (free p s) = (live_allocs s)(p := None)"
    and "same_region (heap_init_once s) (free p s)"
proof -
  let ?s = "heap_init_once s"
  note wf = heap_ok_wf [OF ok] and i = malloc_init [OF ok]
  have l': "live_allocs ?s p = Some m" using l i(3) by simp
  note n = live_node [OF wf l']
  note f = free_refines [OF wf n(1,3), folded i(2) [OF n(3)]]
  show "heap_wf (free p s)" and "same_region ?s (free p s)" by (rule f)+
  have ne: "hview ?s \<noteq> []" using l' by (auto simp: live_iff_used [OF wf])
  have p: "unat p - 16 + 16 = unat p" using l' by (simp add: live_iff_used [OF wf])
  have "map_of (used_blocks (hview ?s)) (unat p - 16 + 16) = Some m"
    using l' by (simp add: live_allocs_wf [OF wf] p)
  from release_live [OF hview_tiled [OF wf ne] this]
  have "map_of (used_blocks (hview (free p s))) = (map_of (used_blocks (hview ?s)))(unat p := None)"
    by (simp only: f(2) n(2) p)
  then show "live_allocs (free p s) = (live_allocs s)(p := None)"
    using live_allocs_wf [OF f(1)]
    by (intro ext) (simp add: live_allocs_def flip: word_unat_eq_iff)
qed

lemma live_iff_ok:
  assumes "heap_ok s"
  shows "live_allocs s p = Some m \<longleftrightarrow>
    16 \<le> unat p \<and> (unat p - 16, m, False) \<in> set (hview (heap_init_once s))"
  using live_iff_used [OF heap_ok_wf [OF assms]] malloc_init(3) [OF assms] by simp

lemma live_disjoint:
  assumes ok: "heap_ok s" and "live_allocs s p = Some m" and "live_allocs s q = Some k" and "p \<noteq> q"
  shows "unat p + m + 16 \<le> unat q \<or> unat q + k + 16 \<le> unat p"
proof -
  let ?s = "heap_init_once s"
  note wf = heap_ok_wf [OF ok]
  have p: "16 \<le> unat p" "(unat p - 16, m, False) \<in> set (hview ?s)"
    and q: "16 \<le> unat q" "(unat q - 16, k, False) \<in> set (hview ?s)"
    using assms(2,3) by (simp_all add: live_iff_ok [OF ok])
  have ne: "hview ?s \<noteq> []" using p by auto
  note t = hview_tiled [OF wf ne]
  obtain as bs where d: "hview ?s = as @ (unat p - 16, m, False) # bs"
    using p(2) by (auto simp: in_set_conv_decomp)
  have "unat q - 16 \<noteq> unat p - 16"
    using p(1) q(1) assms(4) by (auto simp: word_unat_eq_iff)
  then have "(unat q - 16, k, False) \<in> set (as @ bs)" using q(2) by (auto simp: d)
  then show ?thesis
    using tiled_disjoint [OF t [unfolded d]] p(1) q(1) by fastforce
qed

lemma live_in_heap:
  assumes ok: "heap_ok s" and "live_allocs s p = Some m"
  shows "unat (heap_start_addr (heap_init_once s)) + 16 \<le> unat p"
    and "unat p + m \<le> unat (heap_end_addr (heap_init_once s))" and "8 dvd unat p" and "8 dvd m"
proof -
  let ?s = "heap_init_once s"
  note wf = heap_ok_wf [OF ok]
  have p: "16 \<le> unat p" "(unat p - 16, m, False) \<in> set (hview ?s)"
    using assms(2) by (simp_all add: live_iff_ok [OF ok])
  have ne: "hview ?s \<noteq> []" using p by auto
  note t = hview_tiled [OF wf ne]
  note b = tiled_bounds [OF t p(2)] and a = tiled_aligned [OF t heap_wfD(3) [OF wf] p(2)]
  show "unat (heap_start_addr ?s) + 16 \<le> unat p" and "unat p + m \<le> unat (heap_end_addr ?s)"
    using b p(1) by auto
  show "8 dvd unat p"
    using a p(1) dvd_add [of 8 "unat p - 16" 16] by simp
  show "8 dvd m" using a by simp
qed

subsection \<open>The contract of an allocator\<close>

text \<open>
  What the creators of tasks and objects rely on.  \<open>lim\<close> is the largest request whose size
  rounding does not wrap; above it the contract promises nothing about the size of a block.
\<close>

locale allocator =
  fixes alloc :: "u32 \<Rightarrow> 's \<Rightarrow> (ptr \<times> 's) option"
    and dealloc :: "ptr \<Rightarrow> 's \<Rightarrow> 's"
    and live :: "'s \<Rightarrow> ptr \<Rightarrow> nat option"
    and ok :: "'s \<Rightarrow> bool"
    and lim :: nat
  assumes alloc_returns: "ok s \<Longrightarrow> \<exists>p s'. alloc n s = Some (p, s') \<and> ok s'"
    and alloc_null: "ok s \<Longrightarrow> alloc n s = Some (0, s') \<Longrightarrow> live s' = live s"
    and alloc_block: "ok s \<Longrightarrow> alloc n s = Some (p, s') \<Longrightarrow> p \<noteq> 0 \<Longrightarrow>
      live s p = None \<and> (\<exists>m. live s' = (live s)(p \<mapsto> m) \<and> (unat n \<le> lim \<longrightarrow> unat n \<le> m))"
    and dealloc_live: "ok s \<Longrightarrow> live s p = Some m \<Longrightarrow>
      ok (dealloc p s) \<and> live (dealloc p s) = (live s)(p := None)"
    and disjoint: "ok s \<Longrightarrow> live s p = Some m \<Longrightarrow> live s q = Some k \<Longrightarrow> p \<noteq> q \<Longrightarrow>
      unat p + m \<le> unat q \<or> unat q + k \<le> unat p"
begin

lemma alloc_dealloc:
  assumes "ok s" and "alloc n s = Some (p, s')" and "p \<noteq> 0"
  shows "ok (dealloc p s') \<and> live (dealloc p s') = live s"
proof -
  have "ok s'" using alloc_returns [OF assms(1), of n] assms(2) by auto
  obtain m where m: "live s p = None" "live s' = (live s)(p \<mapsto> m)"
    using alloc_block [OF assms] by blast
  then have "live s' p = Some m" by simp
  from dealloc_live [OF \<open>ok s'\<close> this] m show ?thesis
    by (simp add: fun_upd_idem)
qed

lemma alloc_separate:
  assumes "ok s" and "alloc n s = Some (p, s')" and "p \<noteq> 0" and "unat n \<le> lim"
    and "live s q = Some k"
  shows "live s' q = Some k \<and> (unat p + unat n \<le> unat q \<or> unat q + k \<le> unat p)"
proof -
  have "ok s'" using alloc_returns [OF assms(1), of n] assms(2) by auto
  obtain m where m: "live s p = None" "live s' = (live s)(p \<mapsto> m)" "unat n \<le> m"
    using alloc_block [OF assms(1-3)] assms(4) by blast
  then have "p \<noteq> q" using assms(5) by auto
  with m assms(5) have "live s' p = Some m" "live s' q = Some k" by auto
  with disjoint [OF \<open>ok s'\<close> this \<open>p \<noteq> q\<close>] m(3) show ?thesis by auto
qed

end

interpretation heap: allocator malloc free live_allocs heap_ok "2 ^ 32 - 8"
proof unfold_locales
  show "\<exists>p s'. malloc n s = Some (p, s') \<and> heap_ok s'" if "heap_ok s" for n s
    using malloc_cases [OF that, of n] heap_wf_ok by blast
  show "live_allocs s' = live_allocs s" if "heap_ok s" "malloc n s = Some (0, s')" for n s s'
    using malloc_cases [OF that(1), of n] that(2) by auto
  show "live_allocs s p = None \<and> (\<exists>m. live_allocs s' = (live_allocs s)(p \<mapsto> m) \<and>
      (unat n \<le> 2 ^ 32 - 8 \<longrightarrow> unat n \<le> m))"
    if h: "heap_ok s" "malloc n s = Some (p, s')" "p \<noteq> 0" for n s p s'
  proof -
    obtain m where m: "live_allocs s p = None" "live_allocs s' = (live_allocs s)(p \<mapsto> m)"
      "unat (align_size n) \<le> m"
      using malloc_cases [OF h(1), of n] h(2,3) by auto
    moreover have "unat n \<le> m" if "unat n \<le> 2 ^ 32 - 8"
      using align_size_ge [of n] m(3) that by simp
    ultimately show ?thesis by blast
  qed
  show "heap_ok (free p s) \<and> live_allocs (free p s) = (live_allocs s)(p := None)"
    if "heap_ok s" "live_allocs s p = Some m" for s p m
    using free_live [OF that] heap_wf_ok by blast
  show "unat p + m \<le> unat q \<or> unat q + k \<le> unat p"
    if "heap_ok s" "live_allocs s p = Some m" "live_allocs s q = Some k" "p \<noteq> q" for s p m q k
    using live_disjoint [OF that] by linarith
qed

subsection \<open>Coalescing\<close>

definition coalesced :: "blk list \<Rightarrow> bool" where
  "coalesced bs \<longleftrightarrow> successively (\<lambda>(_, _, f) (_, _, g). \<not> (f \<and> g)) bs"

lemma coalesced_append:
  "coalesced (as @ bs) \<longleftrightarrow> coalesced as \<and> coalesced bs \<and>
    (as \<noteq> [] \<longrightarrow> bs \<noteq> [] \<longrightarrow> \<not> (snd (snd (last as)) \<and> snd (snd (hd bs))))"
  by (auto simp: coalesced_def successively_append_iff case_prod_unfold)

lemma coalesced_Cons:
  "coalesced (b # bs) \<longleftrightarrow> coalesced bs \<and> (bs \<noteq> [] \<longrightarrow> \<not> (snd (snd b) \<and> snd (snd (hd bs))))"
  using coalesced_append [of "[b]" bs] by (auto simp: coalesced_def)

lemma coalesced_Nil [simp]: "coalesced []"
  by (simp add: coalesced_def)

lemma join_hd: "bs \<noteq> [] \<Longrightarrow> join bs \<noteq> [] \<and> fst (hd (join bs)) = fst (hd bs) \<and>
    snd (snd (hd (join bs))) = snd (snd (hd bs))"
  by (induction bs rule: join.induct) auto

lemma coalesced_join: "coalesced bs \<Longrightarrow> coalesced (join (b # bs))"
proof (cases bs)
  case (Cons c cs)
  assume *: "coalesced bs"
  obtain a sz f where b: "b = (a, sz, f)" by (cases b)
  obtain a' sz' f' where c: "c = (a', sz', f')" by (cases c)
  from * show ?thesis
    by (cases f; cases f') (simp_all add: Cons b c coalesced_Cons)
qed (cases b; simp add: coalesced_Cons)

lemma join_coalesced: "coalesced bs \<Longrightarrow> join bs = bs"
  by (cases bs rule: join.cases) (auto simp: coalesced_Cons)

lemma coalesced_cut:
  assumes "coalesced (as @ (a, sz, True) # bs)"
  shows "coalesced (as @ cut_block n False (a, sz) @ bs)"
  using assms by (auto simp: coalesced_append coalesced_Cons cut_block_def)

lemma coalesced_first_fit: "first_fit n bs = Some (a, bs') \<Longrightarrow> coalesced bs \<Longrightarrow> coalesced bs'"
  using first_fit_decomp coalesced_cut by blast

lemma coalesced_release:
  assumes "a \<notin> fst ` set as" and c: "coalesced (as @ (a, sz, f) # bs)"
  shows "coalesced (release a (as @ (a, sz, f) # bs))"
proof -
  have parts: "coalesced as" "coalesced bs"
    using c by (simp_all add: coalesced_append coalesced_Cons)
  note j = coalesced_join [OF parts(2), of "(a, sz, True)"]
  show ?thesis
  proof (cases as rule: rev_cases)
    case Nil
    then show ?thesis using release_append [OF assms(1), of sz f bs] j by simp
  next
    case (snoc ps p)
    have "join (p # join ((a, sz, True) # bs)) \<noteq> []"
      and "snd (snd (hd (join (p # join ((a, sz, True) # bs))))) = snd (snd p)"
      using join_hd [of "p # join ((a, sz, True) # bs)"] by simp_all
    moreover have "coalesced (join (p # join ((a, sz, True) # bs)))"
      using coalesced_join [OF j] .
    ultimately show ?thesis
      using release_append [OF assms(1), of sz f bs] parts(1)
      by (simp add: snoc coalesced_append coalesced_Cons)
  qed
qed

lemma release_first_fit:
  assumes t: "tiled lo hi bs" and c: "coalesced bs" and ff: "first_fit n bs = Some (a, bs')"
  shows "release a bs' = bs"
proof -
  obtain as sz cs where d: "bs = as @ (a, sz, True) # cs" "n \<le> sz"
    "bs' = as @ cut_block n False (a, sz) @ cs"
    using first_fit_decomp [OF ff] by blast
  have a: "a \<notin> fst ` set as"
    using tiled_distinct [OF t] by (auto simp: d)
  have cc: "coalesced ((a, sz, True) # cs)" "coalesced (p # (a, sz, True) # cs)"
    if "as = ps @ [p]" for ps p
    using c that by (auto simp: d(1) coalesced_append coalesced_Cons)
  have c1: "coalesced ((a, sz, True) # cs)"
    using c by (simp add: d(1) coalesced_append)
  define k where "k = (if sz < n + 24 then sz else n)"
  define cs' where "cs' = (if sz < n + 24 then cs else (a + 16 + n, sz - n - 16, True) # cs)"
  have bs': "bs' = as @ (a, k, False) # cs'"
    by (simp add: d(3) cut_block_def k_def cs'_def)
  have j: "join ((a, k, True) # cs') = (a, sz, True) # cs"
    using join_coalesced [OF c1] d(2) by (simp add: k_def cs'_def)
  show ?thesis
  proof (cases as rule: rev_cases)
    case Nil
    then show ?thesis using release_append [OF a, of k False cs'] j by (simp add: bs' d(1))
  next
    case (snoc ps p)
    then show ?thesis
      using release_append [OF a, of k False cs'] j join_coalesced [OF cc(2) [OF snoc]]
      by (simp add: bs' d(1))
  qed
qed

lemma coalesced_all_free:
  assumes "coalesced bs" and "\<forall>b\<in>set bs. snd (snd b)"
  shows "length bs \<le> 1"
  using assms by (cases bs rule: remdups_adj.cases) (auto simp: coalesced_Cons)

text \<open>With nothing allocated a coalesced heap is one free block.\<close>

lemma all_freed_single:
  assumes t: "tiled lo hi bs" and c: "coalesced bs" and ne: "bs \<noteq> []" and u: "used_blocks bs = []"
  shows "bs = [(lo, hi - lo - 16, True)]"
proof -
  have "\<forall>b\<in>set bs. snd (snd b)"
    using u by (auto simp: used_blocks_def filter_empty_conv)
  moreover from coalesced_all_free [OF c this] ne obtain a sz f where "bs = [(a, sz, f)]"
    by (cases bs) auto
  ultimately show ?thesis using t by auto
qed

subsection \<open>Accounting\<close>

definition free_bytes :: "blk list \<Rightarrow> nat" where
  "free_bytes bs = sum_list (map (\<lambda>(a, sz, f). if f then sz else 0) bs)"

definition used_bytes :: "blk list \<Rightarrow> nat" where
  "used_bytes bs = sum_list (map (\<lambda>(a, sz, f). if f then 0 else sz) bs)"

lemma tiled_sum: "tiled lo hi bs \<Longrightarrow> lo + free_bytes bs + used_bytes bs + 16 * length bs = hi"
  by (induction lo hi bs rule: tiled.induct) (auto simp: free_bytes_def used_bytes_def)

lemma fold_free_sum:
  "unat acc + free_bytes (map (blk_of s) xs) < 2 ^ 32 \<Longrightarrow>
    unat (fold (\<lambda>pos acc. if block_free (blocks s (entry_block pos))
      then acc + block_size (blocks s (entry_block pos)) else acc) xs acc) =
    unat acc + free_bytes (map (blk_of s) xs)"
proof (induction xs arbitrary: acc)
  case (Cons x xs)
  let ?k = "blocks s (entry_block x)"
  show ?case
  proof (cases "block_free ?k")
    case True
    have "unat (acc + block_size ?k) = unat acc + unat (block_size ?k)"
      using Cons.prems True by (simp add: unat_word_ariths free_bytes_def blk_of_def Let_def)
    then show ?thesis
      using Cons True by (simp add: free_bytes_def blk_of_def Let_def)
  next
    case False
    then show ?thesis
      using Cons by (simp add: free_bytes_def blk_of_def Let_def)
  qed
qed (simp add: free_bytes_def)

lemma heap_free_size_eq:
  assumes ok: "heap_ok s"
  shows "\<exists>r. heap_free_size s = Some (r, heap_init_once s) \<and>
    unat r = free_bytes (hview (heap_init_once s))"
proof -
  let ?s = "heap_init_once s"
  note wf = heap_ok_wf [OF ok]
  have w: "list_walk (heap_links ?s) HeapBlocks (nxt (heap_links ?s) HeapBlocks) = Some (hitems ?s)"
    by (rule list_walk_wf [OF heap_wfD(2) [OF wf]]) simp
  have "free_bytes (hview ?s) < 2 ^ 32"
  proof (cases "hview ?s = []")
    case False
    from tiled_sum [OF hview_tiled [OF wf this]] show ?thesis
      using unat_u32_less [of "heap_end_addr ?s"] by simp
  qed (simp add: free_bytes_def)
  then show ?thesis
    using w fold_free_sum [of 0 ?s "hitems ?s"] by (simp add: heap_free_size_def Let_def hview_def)
qed

subsection \<open>The first call\<close>

lemma unat_align_up:
  assumes "unat v + 7 < 2 ^ 32"
  shows "unat (align_up v HEAP_ALIGN) = 8 * ((unat v + 7) div 8)"
proof -
  have "unat (v + 7) = unat v + 7"
    using assms by (simp add: unat_word_ariths)
  then show ?thesis
    by (simp only: align_up_def align_mask align_plus unat_and_not_mask)
qed

lemma unat_align_down: "unat (align_down v HEAP_ALIGN) = 8 * (unat v div 8)"
  by (simp add: align_down_def align_mask unat_and_not_mask)

text \<open>
  Whatever the static storage holds, the first operation leaves an aligned region that is either
  one free block or, when it cannot hold a header, an empty list.
\<close>

lemma heap_boot:
  assumes un: "\<not> heap_initialized s" and lo: "heap_start_sym s \<noteq> 0"
    and fits: "unat (heap_start_sym s) + 23 < 2 ^ 32"
  defines "s' \<equiv> heap_init_once s"
  defines "lo \<equiv> 8 * ((unat (heap_start_sym s) + 7) div 8)" and "hi \<equiv> 8 * (unat (heap_end_sym s) div 8)"
  shows "heap_wf s'" and "hview s' = (if hi \<le> lo + 16 then [] else [(lo, hi - lo - 16, True)])"
    and "unat (heap_start_addr s') = lo" and "unat (heap_end_addr s') = hi"
proof -
  let ?start = "align_up (heap_start_sym s) HEAP_ALIGN" and ?stop = "align_down (heap_end_sym s) HEAP_ALIGN"
  have st: "unat ?start = lo" using unat_align_up [of "heap_start_sym s"] fits by (simp add: lo_def)
  have en: "unat ?stop = hi" by (simp add: unat_align_down hi_def)
  have lo_small: "lo \<le> unat (heap_start_sym s) + 7" and lo0: "0 < lo" and al: "8 dvd lo" "8 dvd hi"
    using unat_eq_zero [of "heap_start_sym s"] lo
    by (auto simp: lo_def hi_def div_greater_zero_iff)
  have s16: "unat (?start + sizeof_heap_block) = lo + 16"
    using st lo_small fits by (simp add: sizeof_heap_block_def unat_word_ariths)
  have le: "?stop \<le> ?start + sizeof_heap_block \<longleftrightarrow> hi \<le> lo + 16"
    by (simp only: word_le_nat_alt s16 en)
  let ?l = "INIT_LIST_HEAD HeapBlocks (heap_links s)"
  have e: "lists_wf ?l {HeapBlocks} {}" "items ?l HeapBlocks = []"
    using INIT_head_wf [OF lists_wf_empty] by (simp_all add: items_INIT_same)
  have addr: "heap_start_addr s' = ?start" "heap_end_addr s' = ?stop" "heap_initialized s'"
    using un by (simp_all add: s'_def heap_init_once_def Let_def)
  then show "unat (heap_start_addr s') = lo" "unat (heap_end_addr s') = hi"
    using st en by simp_all
  have ne0: "?start \<noteq> 0" using st lo0 by auto
  have "heap_wf s' \<and> hview s' = (if hi \<le> lo + 16 then [] else [(lo, hi - lo - 16, True)])"
  proof (cases "hi \<le> lo + 16")
    case True
    then have "heap_links s' = ?l"
      using un le by (simp add: s'_def heap_init_once_def Let_def)
    then show ?thesis
      using e addr True st al ne0 by (simp add: heap_wf_def hview_def)
  next
    case False
    let ?n = "BlockNode ?start"
    let ?l1 = "INIT_LIST_HEAD ?n ?l" and ?sz = "?stop - ?start - sizeof_heap_block"
    have ln: "heap_links s' = list_add_tail ?n HeapBlocks ?l1"
      and bl: "blocks s' ?start = \<lparr>block_size = ?sz, block_free = True\<rparr>"
      using un le False by (simp_all add: s'_def heap_init_once_def Let_def)
    have w1: "lists_wf ?l1 {HeapBlocks} {?n}" and i1: "items ?l1 HeapBlocks = []"
      and e1: "list_empty ?n ?l1"
      using INIT_node_wf [OF e(1), of ?n] items_INIT [OF e(1), of ?n] list_empty_INIT [OF e(1), of ?n]
        e(2) by auto
    have it: "hitems s' = [?n]"
      using items_list_add_tail [OF w1 _ _ e1, of HeapBlocks] i1 by (simp add: ln)
    have W: "lists_wf (heap_links s') {HeapBlocks} (set (hitems s'))"
      using list_add_tail_wf [OF w1 _ _ e1, of HeapBlocks] it by (simp add: ln)
    have "unat ?sz = hi - lo - 16"
      using False st en s16 by (simp add: unat_sub word_le_nat_alt sizeof_heap_block_def)
    then have v: "hview s' = [(lo, hi - lo - 16, True)]"
      using it bl st by (simp add: hview_def)
    have "8 dvd hi - lo - 16" using al by (intro dvd_diff_nat) auto
    then show ?thesis
      using v W addr False st en al ne0 by (simp add: heap_wf_def)
  qed
  then show "heap_wf s'" and "hview s' = (if hi \<le> lo + 16 then [] else [(lo, hi - lo - 16, True)])"
    by simp_all
qed

subsection \<open>Payload bytes\<close>

definition region :: "ptr \<Rightarrow> nat \<Rightarrow> ptr set" where
  "region p n = (\<lambda>i. p + of_nat i) ` {..<n}"

lemma region_iff: "n < 2 ^ 32 \<Longrightarrow> a \<in> region p n \<longleftrightarrow> unat (a - p) < n"
proof
  assume n: "n < 2 ^ 32" and "a \<in> region p n"
  then obtain i where "i < n" "a = p + of_nat i" by (auto simp: region_def)
  with n show "unat (a - p) < n" by (simp add: unat_of_nat take_bit_nat_eq_self)
next
  assume "unat (a - p) < n"
  then have "a = p + of_nat (unat (a - p))" by simp
  with \<open>unat (a - p) < n\<close> show "a \<in> region p n" unfolding region_def by blast
qed

lemma zero_bytes_fold:
  "n < 2 ^ 32 \<Longrightarrow> fold (\<lambda>i m. m(p + of_nat i := 0)) [0..<n] m =
    (\<lambda>a. if a \<in> region p n then 0 else m a)"
  by (induction n) (auto simp: region_def lessThan_Suc fun_eq_iff)

lemma zero_bytes_eq: "zero_bytes p n m = (\<lambda>a. if a \<in> region p (unat n) then 0 else m a)"
  unfolding zero_bytes_def by (rule zero_bytes_fold) (use unat_u32_less [of n] in simp)

lemma offset_inj:
  "i < 2 ^ 32 \<Longrightarrow> j < 2 ^ 32 \<Longrightarrow> (p :: u32) + of_nat i = p + of_nat j \<longleftrightarrow> i = j"
  using word_unat_eq_iff [of "of_nat i :: u32" "of_nat j"]
  by (simp add: unat_of_nat take_bit_nat_eq_self)

lemma copy_bytes_fold:
  assumes "n < 2 ^ 32" and "region dst n \<inter> region src n = {}"
  shows "fold (\<lambda>i m. m(dst + of_nat i := m (src + of_nat i))) [0..<n] m =
    (\<lambda>a. if a \<in> region dst n then m (src + (a - dst)) else m a)"
  using assms
proof (induction n)
  case (Suc n)
  have sub: "region dst n \<subseteq> region dst (Suc n)" "region src n \<subseteq> region src (Suc n)"
    by (auto simp: region_def)
  have last: "src + of_nat n \<in> region src (Suc n)" by (auto simp: region_def)
  have R: "region dst (Suc n) = insert (dst + of_nat n) (region dst n)"
    by (auto simp: region_def lessThan_Suc)
  have nd: "src + of_nat n \<notin> region dst n" using Suc.prems(2) sub last by blast
  have IH: "fold (\<lambda>i m. m(dst + of_nat i := m (src + of_nat i))) [0..<n] m =
      (\<lambda>a. if a \<in> region dst n then m (src + (a - dst)) else m a)"
    using Suc.prems sub by (intro Suc.IH) auto
  let ?f = "fold (\<lambda>i m. m(dst + of_nat i := m (src + of_nat i)))"
  have "?f [0..<Suc n] m = (?f [0..<n] m)(dst + of_nat n := ?f [0..<n] m (src + of_nat n))"
    by simp
  also have "\<dots> = (\<lambda>a. if a \<in> region dst (Suc n) then m (src + (a - dst)) else m a)"
    unfolding IH R using nd by auto
  finally show ?case .
qed (simp add: region_def)

lemma copy_bytes_eq:
  "region dst (unat n) \<inter> region src (unat n) = {} \<Longrightarrow>
    copy_bytes dst src n m = (\<lambda>a. if a \<in> region dst (unat n) then m (src + (a - dst)) else m a)"
  unfolding copy_bytes_def by (rule copy_bytes_fold) (use unat_u32_less [of n] in simp_all)

text \<open>Two live blocks do not share a byte.\<close>

lemma live_region:
  assumes ok: "heap_ok s" and l: "live_allocs s p = Some m" and k: "k \<le> m" and a: "a \<in> region p k"
  shows "unat p \<le> unat a \<and> unat a < unat p + k"
proof -
  have "unat p + m < 2 ^ 32"
    using live_in_heap(2) [OF ok l] unat_u32_less [of "heap_end_addr (heap_init_once s)"] by simp
  obtain i where i: "i < k" "a = p + of_nat i" using a by (auto simp: region_def)
  then have "unat a = unat p + i"
    using \<open>unat p + m < 2 ^ 32\<close> k by (simp add: unat_word_ariths unat_of_nat take_bit_nat_eq_self)
  with i show ?thesis by simp
qed

lemma live_regions_disjoint:
  assumes ok: "heap_ok s" and p: "live_allocs s p = Some m" and q: "live_allocs s q = Some k"
    and "p \<noteq> q" and "m' \<le> m" "k' \<le> k"
  shows "region p m' \<inter> region q k' = {}"
  using live_disjoint [OF ok p q] live_region [OF ok p assms(5)] live_region [OF ok q assms(6)] assms
  by fastforce

subsection \<open>calloc and realloc\<close>

lemma heap_bytes_init [simp]: "heap_bytes (heap_init_once s) = heap_bytes s"
  by (simp add: heap_init_once_def Let_def)

lemma blk_of_bytes [simp]: "blk_of (s\<lparr>heap_bytes := m\<rparr>) = blk_of s"
  by (rule ext) (simp add: blk_of_def)

lemma hview_bytes [simp]: "hview (s\<lparr>heap_bytes := m\<rparr>) = hview s"
  by (simp add: hview_def)

lemma heap_wf_bytes [simp]: "heap_wf (s\<lparr>heap_bytes := m\<rparr>) = heap_wf s"
  by (simp add: heap_wf_def)

lemma heap_init_bytes:
  "heap_init_once (s\<lparr>heap_bytes := m\<rparr>) = (heap_init_once s)\<lparr>heap_bytes := m\<rparr>"
  by (simp add: heap_init_once_def Let_def upd_block_def upd_hlinks_def)

lemma heap_ok_bytes [simp]: "heap_ok (s\<lparr>heap_bytes := m\<rparr>) = heap_ok s"
  by (simp add: heap_ok_def heap_init_bytes)

lemma live_bytes [simp]: "live_allocs (s\<lparr>heap_bytes := m\<rparr>) = live_allocs s"
  by (simp add: live_allocs_def heap_init_bytes fun_eq_iff)

lemma mult_overflow_check:
  fixes count n :: u32
  assumes "count \<noteq> 0"
  shows "n > (- 1) div count \<longleftrightarrow> 2 ^ 32 \<le> unat count * unat n"
proof -
  have "unat (- 1 :: u32) = 4294967295"
    by (simp add: unsigned_minus_1_eq_mask mask_eq_exp_minus_1)
  then have "n > (- 1) div count \<longleftrightarrow> 4294967295 div unat count < unat n"
    by (simp add: word_less_nat_alt unat_div)
  also have "\<dots> \<longleftrightarrow> 4294967295 < unat n * unat count"
    using assms by (simp add: div_less_iff_less_mult unat_gt_0)
  finally show ?thesis by (auto simp: mult.commute)
qed

text \<open>\<^verbatim>\<open>calloc\<close> is \<^verbatim>\<open>malloc\<close> of the product, zeroed, unless the product overflows.\<close>

lemma calloc_overflow: "2 ^ 32 \<le> unat count * unat n \<Longrightarrow> calloc count n s = Some (0, s)"
  using mult_overflow_check [of count n] by (cases "count = 0") (simp_all add: calloc_def)

lemma calloc_malloc:
  assumes "unat count * unat n < 2 ^ 32"
  shows "calloc count n s = map_option (\<lambda>(p, s1). if p = 0 then (0, s1)
    else (p, s1\<lparr>heap_bytes := zero_bytes p (count * n) (heap_bytes s1)\<rparr>)) (malloc (count * n) s)"
proof -
  have "\<not> (count \<noteq> 0 \<and> n > (- 1) div count)"
    using mult_overflow_check [of count n] assms by auto
  then have "calloc count n s = Option.bind (malloc (count * n) s) (\<lambda>(mem, s1). Some
      (if mem = 0 then (0, s1)
       else (mem, s1\<lparr>heap_bytes := zero_bytes mem (count * n) (heap_bytes s1)\<rparr>)))"
    unfolding calloc_def Let_def by (simp only: if_False)
  then show ?thesis
    by (cases "malloc (count * n) s") (auto split: prod.splits)
qed

lemma live_split:
  assumes wf: "heap_wf s" and l: "live_allocs s p = Some m" and n: "unat n \<le> m" and al: "8 dvd unat n"
  defines "s' \<equiv> split_block (p - 16) n s"
  shows "heap_wf s'" and "same_region s s'"
    and "live_allocs s' = (live_allocs s)(p \<mapsto> (if m < unat n + 24 then m else unat n))"
proof -
  note ln = live_node [OF wf l]
  obtain as bs where b: "hitems s = as @ BlockNode (p - 16) # bs"
    using ln(1) by (auto simp: in_set_conv_decomp)
  have "unat n \<le> unat (block_size (blocks s (p - 16)))" using n ln(6) by simp
  note sp = split_block_refines [OF wf b this al, folded s'_def]
  show "heap_wf s'" and "same_region s s'" by (rule sp)+
  have p: "unat p - 16 + 16 = unat p" using l by (simp add: live_iff_used [OF wf])
  let ?k = "if m < unat n + 24 then m else unat n"
  have v: "hview s = map (blk_of s) as @ (unat p - 16, m, False) # map (blk_of s) bs"
    using hview_split [OF b] ln by simp
  have v': "used_blocks (hview s') =
      used_blocks (map (blk_of s) as) @ (unat p, ?k) # used_blocks (map (blk_of s) bs)"
    using sp(4) ln used_cut [of "unat n" "unat p - 16" m] p by simp
  have "hview s \<noteq> []" by (simp add: v)
  from tiled_distinct [OF hview_tiled [OF wf this]] have "unat p - 16 \<notin> fst ` set (map (blk_of s) as)"
    unfolding v by (simp add: image_image)
  from used_fst_notin [OF this] have fresh: "unat p \<notin> fst ` set (used_blocks (map (blk_of s) as))"
    by (simp only: p not_False_eq_True)
  show "live_allocs s' = (live_allocs s)(p \<mapsto> ?k)"
  proof
    fix q
    have "map_of (used_blocks (hview s')) = (map_of (used_blocks (hview s)))(unat p \<mapsto> ?k)"
      unfolding v v' using map_of_mid_insert [OF fresh, of _ "used_blocks (map (blk_of s) bs)"]
      by (simp add: p del: map_of_append)
    then show "live_allocs s' q = ((live_allocs s)(p \<mapsto> ?k)) q"
      by (simp add: live_allocs_wf [OF wf] live_allocs_wf [OF sp(1)] flip: word_unat_eq_iff)
  qed
qed

lemma realloc_shrink:
  assumes wf: "heap_wf s" and l: "live_allocs s p = Some m" and n: "n \<noteq> 0"
    and le: "unat (align_size n) \<le> m"
  shows "\<exists>s'. realloc p n s = Some (p, s') \<and> heap_wf s' \<and> heap_bytes s' = heap_bytes s \<and>
    live_allocs s' = (live_allocs s)
      (p \<mapsto> (if m < unat (align_size n) + 24 then m else unat (align_size n)))"
proof -
  note ln = live_node [OF wf l]
  have "block_size (blocks s (p - 16)) \<ge> align_size n"
    using le ln(6) by (simp add: word_le_nat_alt)
  then have "realloc p n s = Some (p, split_block (p - 16) (align_size n) s)"
    using ln(3) n by (simp add: realloc_def Let_def sizeof_heap_block_def)
  then show ?thesis
    using live_split [OF wf l le align_size_dvd] by (auto simp: same_region_def)
qed

lemma realloc_grow:
  assumes wf: "heap_wf s" and l: "live_allocs s p = Some m" and n: "n \<noteq> 0"
    and gt: "m < unat (align_size n)"
  shows "realloc p n s = Some (0, s) \<or>
    (\<exists>q k s'. realloc p n s = Some (q, s') \<and> q \<noteq> 0 \<and> heap_wf s' \<and> live_allocs s q = None \<and>
      live_allocs s' = (live_allocs s)(p := None, q \<mapsto> k) \<and> unat (align_size n) \<le> k \<and>
      (\<forall>i<m. heap_bytes s' (q + of_nat i) = heap_bytes s (p + of_nat i)) \<and>
      (\<forall>a. a \<notin> region q m \<longrightarrow> heap_bytes s' a = heap_bytes s a))"
proof -
  let ?sz = "align_size n" and ?b = "p - 16"
  note ln = live_node [OF wf l] and ok = heap_wf_ok [OF wf]
  have init: "heap_init_once s = s" by (simp add: heap_wfD(1) [OF wf])
  have sz0: "?sz \<noteq> 0" using gt by auto
  have "\<not> block_size (blocks s ?b) \<ge> ?sz" using gt ln(6) by (simp add: word_le_nat_alt)
  then have re: "realloc p n s = Option.bind (malloc ?sz s) (\<lambda>(new_ptr, s1). Some
      (if new_ptr = 0 then (0, s1)
       else let copy_size = (if block_size (blocks s1 ?b) < ?sz then block_size (blocks s1 ?b) else ?sz);
                s2 = s1\<lparr>heap_bytes := copy_bytes new_ptr p copy_size (heap_bytes s1)\<rparr>
            in (new_ptr, free p s2)))"
    using ln(3) n by (simp add: realloc_def Let_def sizeof_heap_block_def)
  consider (none) "first_fit (unat (align_size ?sz)) (hview s) = None" "malloc ?sz s = Some (0, s)"
    | (some) q s1 where "malloc ?sz s = Some (q, s1)" "q \<noteq> 0"
    using malloc_refines [OF wf sz0] malloc_cases [OF ok, of ?sz]
    by (cases "first_fit (unat (align_size ?sz)) (hview s)") (auto split: prod.splits)
  then show ?thesis
  proof cases
    case none
    then show ?thesis using re by simp
  next
    case (some q s1)
    then obtain k where k: "heap_wf s1" "live_allocs s q = None"
      "live_allocs s1 = (live_allocs s)(q \<mapsto> k)" "unat ?sz \<le> k" "same_region s s1"
      using malloc_cases [OF ok, of ?sz] align_size_idem [of n] init by auto
    have pq: "p \<noteq> q" using l k(2) by auto
    have l1: "live_allocs s1 p = Some m" "live_allocs s1 q = Some k" using l k(3) pq by auto
    note ln1 = live_node [OF k(1) l1(1)] and ok1 = heap_wf_ok [OF k(1)]
    define s2 where "s2 = s1\<lparr>heap_bytes := copy_bytes q p (of_nat m) (heap_bytes s1)\<rparr>"
    have "block_size (blocks s1 ?b) < ?sz" using gt ln1(6) by (simp add: word_less_nat_alt)
    then have r: "realloc p n s = Some (q, free p s2)"
      using re some ln1(4) by (simp add: Let_def s2_def)
    have um: "unat (of_nat m :: u32) = m" using ln1(4,6) by metis
    have "region q m \<inter> region p m = {}"
      using live_regions_disjoint [OF ok1 l1(2,1), of m m] pq gt k(4) by auto
    then have bytes: "heap_bytes s2 = (\<lambda>a. if a \<in> region q m then heap_bytes s (p + (a - q))
        else heap_bytes s a)"
      using copy_bytes_eq [of q "of_nat m" p] k(5) um by (simp add: s2_def same_region_def)
    have l2: "live_allocs s2 p = Some m" and ok2: "heap_ok s2" using l1 ok1 by (simp_all add: s2_def)
    note fl = free_live [OF ok2 l2]
    have fb: "heap_bytes (free p s2) = heap_bytes s2" using fl(3) by (simp add: same_region_def)
    have "live_allocs (free p s2) = (live_allocs s)(p := None, q \<mapsto> k)"
      using fl(2) k(3) pq by (simp add: s2_def fun_upd_twist)
    moreover have "\<forall>i<m. heap_bytes (free p s2) (q + of_nat i) = heap_bytes s (p + of_nat i)"
      unfolding fb bytes by (auto simp: region_def)
    moreover have "\<forall>a. a \<notin> region q m \<longrightarrow> heap_bytes (free p s2) a = heap_bytes s a"
      unfolding fb bytes by simp
    ultimately show ?thesis using r some(2) fl(1) k(2,4) by blast
  qed
qed

end
