(* ===== verification/System.thy ===== *)
theory System
  imports WaitQueue Handles Heap
begin

unbundle bit_operations_syntax

text \<open>
  The state of the whole kernel: the scheduler state of \<open>KernelState\<close> extended with the handle
  table, the heap, the objects behind each kind of pointer, the counters of
  \<^verbatim>\<open>src/kernel/task.c\<close> and the statics of \<^verbatim>\<open>src/kernel/timer.c\<close> and of the interrupt part of
  \<^verbatim>\<open>boards/esp32c3/hal.c\<close>.  The structures are those of
  \<^verbatim>\<open>semaphore.c\<close>, \<^verbatim>\<open>mutex.c\<close>, \<^verbatim>\<open>msg_queue.c\<close> and \<^verbatim>\<open>timer.c\<close>; the wait queues they embed live
  in the list cells of \<open>KernelState\<close>, the list node of a timer in \<open>timer_links\<close>.  A C \<^verbatim>\<open>int\<close>
  field is its 32 bits and is read with \<open>sint\<close>.

  The second half lifts the operations of the heap and of the handle table to this state.
\<close>

subsection \<open>Objects\<close>

record trt_sem_t =
  sem_cnt :: u32
  sem_max :: u32
  sem_destroyed :: bool

record trt_mutex_t =
  mtx_owner :: ptr
  mtx_lock_count :: u32
  mtx_destroyed :: bool

record trt_msg_q_t =
  mq_buf :: ptr
  mq_cap :: u32
  mq_qlen :: u32
  mq_head :: u32
  mq_tail :: u32
  mq_destroyed :: bool

record timer_t =
  tm_deadline :: u32
  tm_period :: u32
  tm_callback :: ptr
  tm_arg :: ptr
  tm_active :: bool

record intr_handler_t =
  intr_fn :: ptr
  intr_arg :: ptr

datatype tnode = TimerHead | TimerNode ptr | TimerNull

text \<open>The sizes of the structures on RV32.\<close>

definition sizeof_task :: u32 where "sizeof_task = 96"

definition sizeof_sem :: u32 where "sizeof_sem = 20"

definition sizeof_mutex :: u32 where "sizeof_mutex = 20"

definition sizeof_msg_q :: u32 where "sizeof_msg_q = 40"

definition sizeof_timer :: u32 where "sizeof_timer = 28"

lemmas sizeof_defs =
  sizeof_task_def sizeof_sem_def sizeof_mutex_def sizeof_msg_q_def sizeof_timer_def

subsection \<open>The system state\<close>

record sys = kstate +
  sys_handles :: handle_state
  sys_heap :: heap_state
  sems :: "ptr \<Rightarrow> trt_sem_t"
  mutexes :: "ptr \<Rightarrow> trt_mutex_t"
  msgqs :: "ptr \<Rightarrow> trt_msg_q_t"
  timers :: "ptr \<Rightarrow> timer_t"
  timer_links :: "tnode links"
  timer_initialized :: bool
  timer_tick_started :: bool
  task_count :: u32
  task_initialized :: bool
  intr_table :: "nat \<Rightarrow> intr_handler_t"
  cpu_int_allocated :: u32
  systimer_cpu_irq :: int
  systimer_initialized :: bool
  systimer_started :: bool

definition upd_sem :: "ptr \<Rightarrow> (trt_sem_t \<Rightarrow> trt_sem_t) \<Rightarrow> 'z sys_scheme \<Rightarrow> 'z sys_scheme" where
  "upd_sem p f s = s\<lparr>sems := (sems s)(p := f (sems s p))\<rparr>"

definition upd_mutex :: "ptr \<Rightarrow> (trt_mutex_t \<Rightarrow> trt_mutex_t) \<Rightarrow> 'z sys_scheme \<Rightarrow> 'z sys_scheme" where
  "upd_mutex p f s = s\<lparr>mutexes := (mutexes s)(p := f (mutexes s p))\<rparr>"

definition upd_msgq :: "ptr \<Rightarrow> (trt_msg_q_t \<Rightarrow> trt_msg_q_t) \<Rightarrow> 'z sys_scheme \<Rightarrow> 'z sys_scheme" where
  "upd_msgq p f s = s\<lparr>msgqs := (msgqs s)(p := f (msgqs s p))\<rparr>"

definition upd_timer :: "ptr \<Rightarrow> (timer_t \<Rightarrow> timer_t) \<Rightarrow> 'z sys_scheme \<Rightarrow> 'z sys_scheme" where
  "upd_timer p f s = s\<lparr>timers := (timers s)(p := f (timers s p))\<rparr>"

text \<open>
  What the linker and the processor fix: the global and thread pointer registers a new task
  starts with, and the addresses of the static functions the kernel stores in its structures.
\<close>

record board_env =
  env_gp :: u32
  env_tp :: u32
  fn_task_exit_trap :: ptr
  fn_idle_task :: ptr
  fn_SysTick_Handler :: ptr

subsection \<open>Lifted operations\<close>

definition sys_malloc :: "u32 \<Rightarrow> 'z sys_scheme \<Rightarrow> (ptr \<times> 'z sys_scheme) option" where
  "sys_malloc n s = Option.bind (malloc n (sys_heap s)) (\<lambda>(p, h). Some (p, s\<lparr>sys_heap := h\<rparr>))"

definition sys_calloc :: "u32 \<Rightarrow> u32 \<Rightarrow> 'z sys_scheme \<Rightarrow> (ptr \<times> 'z sys_scheme) option" where
  "sys_calloc count n s =
     Option.bind (calloc count n (sys_heap s)) (\<lambda>(p, h). Some (p, s\<lparr>sys_heap := h\<rparr>))"

definition sys_free :: "ptr \<Rightarrow> 'z sys_scheme \<Rightarrow> 'z sys_scheme" where
  "sys_free p s = s\<lparr>sys_heap := free p (sys_heap s)\<rparr>"

definition upd_bytes :: "((ptr \<Rightarrow> u8) \<Rightarrow> ptr \<Rightarrow> u8) \<Rightarrow> 'z sys_scheme \<Rightarrow> 'z sys_scheme" where
  "upd_bytes f s = s\<lparr>sys_heap := (sys_heap s)\<lparr>heap_bytes := f (heap_bytes (sys_heap s))\<rparr>\<rparr>"

definition sys_handle_alloc ::
    "ptr \<Rightarrow> trt_obj_type_t \<Rightarrow> u32 \<Rightarrow> 'z sys_scheme \<Rightarrow> (err_t + trt_handle_t) \<times> 'z sys_scheme" where
  "sys_handle_alloc p ty rights s =
     (let (r, h) = trt_handle_alloc p ty rights True (sys_handles s) in (r, s\<lparr>sys_handles := h\<rparr>))"

definition sys_handle_lookup ::
    "trt_handle_t \<Rightarrow> trt_obj_type_t \<Rightarrow> u32 \<Rightarrow> 'z sys_scheme \<Rightarrow> (err_t + ptr) \<times> 'z sys_scheme" where
  "sys_handle_lookup h ty rights s =
     (let (r, t) = trt_handle_lookup h ty rights True (sys_handles s) in (r, s\<lparr>sys_handles := t\<rparr>))"

definition sys_handle_close :: "trt_handle_t \<Rightarrow> 'z sys_scheme \<Rightarrow> 'z sys_scheme" where
  "sys_handle_close h s = s\<lparr>sys_handles := snd (trt_handle_close h (sys_handles s))\<rparr>"

text \<open>
  The entry of every public operation: look the handle up, return its error, or run the body
  on the object.
\<close>

definition with_object ::
    "(err_t + ptr) \<times> 'z sys_scheme \<Rightarrow> (ptr \<Rightarrow> 'z sys_scheme \<Rightarrow> (err_t \<times> 'z sys_scheme) option) \<Rightarrow>
      (err_t \<times> 'z sys_scheme) option" where
  "with_object look body =
     (case look of (Inl e, s) \<Rightarrow> Some (e, s) | (Inr p, s) \<Rightarrow> body p s)"

text \<open>Word accesses to the byte memory; the target is little endian.\<close>

definition store32 :: "ptr \<Rightarrow> u32 \<Rightarrow> (ptr \<Rightarrow> u8) \<Rightarrow> ptr \<Rightarrow> u8" where
  "store32 a w m = m(a := ucast w, a + 1 := ucast (drop_bit 8 w), a + 2 := ucast (drop_bit 16 w),
     a + 3 := ucast (drop_bit 24 w))"

definition load32 :: "ptr \<Rightarrow> (ptr \<Rightarrow> u8) \<Rightarrow> u32" where
  "load32 a m = ucast (m a) OR push_bit 8 (ucast (m (a + 1))) OR push_bit 16 (ucast (m (a + 2))) OR
     push_bit 24 (ucast (m (a + 3)))"

end
