(* ===== verification/Hal.thy ===== *)
theory Hal
  imports System
begin

unbundle bit_operations_syntax

text \<open>
  The interrupt bookkeeping and the tick source of \<^verbatim>\<open>boards/esp32c3/hal.c\<close>.  Writes to device
  registers leave no trace in the kernel's memory and are not part of the state; the value of
  the hardware counter is an argument.
\<close>

subsection \<open>Definitions\<close>

text \<open>\<^verbatim>\<open>TICK_PERIOD_TICKS\<close>: counter increments of 1/16 microsecond in one millisecond tick.\<close>

definition TICK_PERIOD_TICKS :: u64 where
  "TICK_PERIOD_TICKS = 16000"

definition intr_register :: "nat \<Rightarrow> intr_handler_t \<Rightarrow> 'z sys_scheme \<Rightarrow> 'z sys_scheme" where
  "intr_register i handler s = s\<lparr>intr_table := (intr_table s)(i := handler)\<rparr>"

definition systimer_get_tick :: "u64 \<Rightarrow> u32" where
  "systimer_get_tick count = ucast (count div TICK_PERIOD_TICKS)"

definition SysTick_Handler :: "u64 \<Rightarrow> 'z sys_scheme \<Rightarrow> 'z sys_scheme" where
  "SysTick_Handler count s = s\<lparr>tick_count := systimer_get_tick count\<rparr>"

text \<open>The loop of \<^verbatim>\<open>cpu_alloc_interrupt\<close> over the lines from \<open>no\<close> on; \<open>- 1\<close> when none is left.\<close>

fun alloc_line :: "nat list \<Rightarrow> u32 \<Rightarrow> int \<times> u32" where
  "alloc_line [] allocated = (- 1, allocated)"
| "alloc_line (no # nos) allocated =
     (if bit allocated no then alloc_line nos allocated
      else (int no, allocated OR push_bit no 1))"

definition cpu_alloc_interrupt :: "'z sys_scheme \<Rightarrow> int \<times> 'z sys_scheme" where
  "cpu_alloc_interrupt s =
     (let (no, allocated) = alloc_line [1..<31] (cpu_int_allocated s)
      in (no, s\<lparr>cpu_int_allocated := allocated\<rparr>))"

definition systimer_init :: "board_env \<Rightarrow> 'z sys_scheme \<Rightarrow> 'z sys_scheme" where
  "systimer_init env s =
     (if systimer_initialized s then s
      else
        let (no, s1) = cpu_alloc_interrupt (s\<lparr>cpu_int_allocated := 0\<rparr>) in
        if no < 0 then s1
        else s1\<lparr>systimer_cpu_irq := no,
          intr_table := (intr_table s1)(nat no := (intr_table s1 (nat no))
            \<lparr>intr_fn := fn_SysTick_Handler env\<rparr>),
          tick_count := 0, systimer_started := False, systimer_initialized := True\<rparr>)"

definition systimer_start :: "'z sys_scheme \<Rightarrow> 'z sys_scheme" where
  "systimer_start s = (if systimer_started s then s else s\<lparr>systimer_started := True\<rparr>)"

end
