(* ===== verification/TaskMgmt.thy ===== *)
theory TaskMgmt
  imports Hal
begin

unbundle bit_operations_syntax

text \<open>
  Task creation, deletion, clean-up and delays, \<^verbatim>\<open>src/kernel/task.c\<close>, with the initial stack
  frame of \<^verbatim>\<open>include/arch/riscv/port.h\<close>.  A task that deletes itself never returns from the
  yield that follows; what it did to the kernel state before is \<open>task_delete_mark\<close>.
\<close>

subsection \<open>The initial frame\<close>

definition ARCH_MSTATUS_MPP_M :: u32 where "ARCH_MSTATUS_MPP_M = 0x1800"

definition ARCH_MSTATUS_MPIE :: u32 where "ARCH_MSTATUS_MPIE = 0x80"

definition ARCH_TASK_FRAME_WORDS :: nat where "ARCH_TASK_FRAME_WORDS = 33"

definition ARCH_TASK_CONTEXT_SIZE :: u32 where "ARCH_TASK_CONTEXT_SIZE = 144"

definition frame_word :: "ptr \<Rightarrow> nat \<Rightarrow> ptr" where
  "frame_word frame i = frame + 4 * of_nat i"

definition arch_task_init_frame ::
    "board_env \<Rightarrow> ptr \<Rightarrow> u32 \<Rightarrow> ptr \<Rightarrow> ptr \<Rightarrow> (ptr \<Rightarrow> u8) \<Rightarrow> ptr \<times> (ptr \<Rightarrow> u8)" where
  "arch_task_init_frame env base bytes entry arg m =
     (let top = (base + bytes) AND NOT 0xf;
          frame = top - ARCH_TASK_CONTEXT_SIZE;
          m1 = fold (\<lambda>i. store32 (frame_word frame i) 0) [0..<ARCH_TASK_FRAME_WORDS] m
      in (frame,
          store32 (frame_word frame 32) (ARCH_MSTATUS_MPP_M OR ARCH_MSTATUS_MPIE)
            (store32 (frame_word frame 31) entry
              (store32 (frame_word frame 8) arg
                (store32 (frame_word frame 2) (env_tp env)
                  (store32 (frame_word frame 1) (env_gp env)
                    (store32 (frame_word frame 0) (fn_task_exit_trap env) m1)))))))"

subsection \<open>Creation\<close>

definition task_init :: "'z sys_scheme \<Rightarrow> 'z sys_scheme" where
  "task_init s =
     (if task_initialized s then s
      else (sched_init s)\<lparr>task_count := 0, task_initialized := True\<rparr>)"

text \<open>
  The name is the characters before the terminating zero, \<open>None\<close> the null pointer; \<^verbatim>\<open>strncpy\<close>
  copies at most 19 of them and pads the field with zeros.
\<close>

definition task_set_name :: "u8 list option \<Rightarrow> u8 list" where
  "task_set_name name =
     (let cs = take 19 (takeWhile (\<lambda>c. c \<noteq> 0) (case name of None \<Rightarrow> [] | Some cs \<Rightarrow> cs))
      in cs @ replicate (20 - length cs) 0)"

definition task_lookup :: "trt_handle_t \<Rightarrow> u32 \<Rightarrow> 'z sys_scheme \<Rightarrow> (err_t + ptr) \<times> 'z sys_scheme" where
  "task_lookup h rights s = sys_handle_lookup h TRT_OBJ_TASK rights s"

definition task_create_kernel ::
    "board_env \<Rightarrow> u8 list option \<Rightarrow> ptr \<Rightarrow> ptr \<Rightarrow> u32 \<Rightarrow> u8 \<Rightarrow> 'z sys_scheme \<Rightarrow>
      (ptr \<times> 'z sys_scheme) option" where
  "task_create_kernel env name entry arg bytes pr s =
     (if entry = 0 \<or> bytes < ARCH_TASK_CONTEXT_SIZE \<or> (ucast pr :: u32) > RTOS_PRIORITY_MAX
      then Some (0, s)
      else if task_count s \<ge> RTOS_TASK_MAX then Some (0, s)
      else
        let rounded = (bytes + 15) AND NOT 15 in
        Option.bind (sys_malloc sizeof_task s) (\<lambda>(t, s1).
          if t = 0 then Some (0, s1)
          else Option.bind (sys_malloc rounded s1) (\<lambda>(stack, s2).
            if stack = 0 then Some (0, sys_free t s2)
            else
              let (sp, m) = arch_task_init_frame env stack rounded entry arg (heap_bytes (sys_heap s2));
                  s3 = upd_bytes (\<lambda>_. m) s2;
                  s4 = upd_task t (\<lambda>k. \<lparr>task_name = task_set_name name, task_sp = sp,
                         stack_base = stack, stack_size = rounded, wakeup = 0, waiting_on_timer = False,
                         wait_result = TASK_WAIT_NONE, task_state = TASK_READY,
                         priority = ucast pr, base_priority = ucast pr,
                         effective_priority = ucast pr, task_handle = TRT_HANDLE_INVALID,
                         task_entry = entry, task_arg = arg\<rparr>) s3;
                  s5 = upd_lnk (\<lambda>l. INIT_LIST_HEAD (TimeoutNode t)
                         (INIT_LIST_HEAD (StateNode t) (INIT_LIST_HEAD (MasterNode t) l))) s4;
                  s6 = sched_add_task t s5
              in Some (t, s6\<lparr>task_count := task_count s6 + 1\<rparr>))))"

subsection \<open>Deletion\<close>

definition task_delete_mark :: "ptr \<Rightarrow> 'z sys_scheme \<Rightarrow> err_t \<times> bool \<times> 'z sys_scheme" where
  "task_delete_mark arg s =
     (let t = (if arg = 0 then current_task s else arg) in
      if t = 0 \<or> t = idle_task s then (ERR_INVAL, False, s)
      else
        let delete_self = (t = current_task s) in
        if task_state (tasks s t) = TASK_DELETED then (ERR_STATE, False, s)
        else if delete_self \<and> sched_is_locked s then (ERR_LOCKED, False, s)
        else
          let s1 = (if task_handle (tasks s t) \<noteq> TRT_HANDLE_INVALID
                    then upd_task t (\<lambda>k. k\<lparr>task_handle := TRT_HANDLE_INVALID\<rparr>)
                           (sys_handle_close (task_handle (tasks s t)) s)
                    else s);
              s2 = sched_mark_deleted t s1;
              s3 = (if task_count s2 \<noteq> 0 then s2\<lparr>task_count := task_count s2 - 1\<rparr> else s2);
              s4 = (if delete_self then s3\<lparr>resched_pending := True\<rparr> else s3)
          in (ERR_OK, delete_self, s4))"

text \<open>The endless loop of a deleted task: it yields again whenever it is resumed.\<close>

partial_function (option) yield_forever ::
    "('z sys_scheme \<Rightarrow> 'z sys_scheme option) \<Rightarrow> 'z sys_scheme \<Rightarrow> (err_t \<times> 'z sys_scheme) option" where
  "yield_forever arch_yield s = Option.bind (arch_yield s) (yield_forever arch_yield)"

definition task_delete_obj ::
    "('z sys_scheme \<Rightarrow> 'z sys_scheme option) \<Rightarrow> ptr \<Rightarrow> 'z sys_scheme \<Rightarrow>
      (err_t \<times> 'z sys_scheme) option" where
  "task_delete_obj arch_yield t s =
     (let (result, delete_self, s1) = task_delete_mark t s in
      if delete_self then Option.bind (arch_yield s1) (yield_forever arch_yield)
      else Some (result, s1))"

definition task_delete_kernel ::
    "('z sys_scheme \<Rightarrow> 'z sys_scheme option) \<Rightarrow> ptr \<Rightarrow> 'z sys_scheme \<Rightarrow>
      (err_t \<times> 'z sys_scheme) option" where
  "task_delete_kernel arch_yield t s = task_delete_obj arch_yield t s"

definition task_delete ::
    "('z sys_scheme \<Rightarrow> 'z sys_scheme option) \<Rightarrow> trt_handle_t \<Rightarrow> 'z sys_scheme \<Rightarrow>
      (err_t \<times> 'z sys_scheme) option" where
  "task_delete arch_yield h s =
     with_object (task_lookup h TRT_RIGHT_DESTROY s) (task_delete_obj arch_yield)"

definition task_exit ::
    "('z sys_scheme \<Rightarrow> 'z sys_scheme option) \<Rightarrow> 'z sys_scheme \<Rightarrow> (err_t \<times> 'z sys_scheme) option" where
  "task_exit arch_yield s =
     Option.bind (task_delete_obj arch_yield 0 s) (\<lambda>(_, s1). yield_forever arch_yield s1)"

definition task_create ::
    "('z sys_scheme \<Rightarrow> 'z sys_scheme option) \<Rightarrow> board_env \<Rightarrow> u8 list option \<Rightarrow> ptr \<Rightarrow> ptr \<Rightarrow> u32 \<Rightarrow>
      u8 \<Rightarrow> 'z sys_scheme \<Rightarrow> (trt_handle_t \<times> 'z sys_scheme) option" where
  "task_create arch_yield env name entry arg bytes pr s =
     Option.bind (task_create_kernel env name entry arg bytes pr s) (\<lambda>(t, s1).
       if t = 0 then Some (TRT_HANDLE_INVALID, s1)
       else
         case sys_handle_alloc t TRT_OBJ_TASK TRT_RIGHT_DESTROY s1 of
           (Inl _, s2) \<Rightarrow> Option.bind (task_delete_kernel arch_yield t s2)
             (\<lambda>(_, s3). Some (TRT_HANDLE_INVALID, s3))
         | (Inr h, s2) \<Rightarrow> Some (h, upd_task t (\<lambda>k. k\<lparr>task_handle := h\<rparr>) s2))"

partial_function (option) task_cleanup_deleted :: "'z sys_scheme \<Rightarrow> 'z sys_scheme option" where
  "task_cleanup_deleted s =
     (let r = sched_pop_deleted s in
      if fst r = 0 then Some (snd r)
      else task_cleanup_deleted
        (sys_free (fst r) (sys_free (stack_base (tasks (snd r) (fst r))) (snd r))))"

subsection \<open>Delays\<close>

text \<open>
  The loop of \<^verbatim>\<open>task_delay_ticks\<close>; its critical section is \<open>delay_block\<close> of the theory \<open>Sched\<close>.  The code tests the deadline once more after masking
  interrupts; with one counter value for both tests the second one never differs.
\<close>

partial_function (option) task_delay_loop ::
    "('z sys_scheme \<Rightarrow> 'z sys_scheme option) \<Rightarrow> u32 \<Rightarrow> 'z sys_scheme \<Rightarrow> 'z sys_scheme option" where
  "task_delay_loop arch_yield at s =
     (if timer_expired (tick_count s) at then Some s
      else Option.bind (delay_block at s) (\<lambda>s1.
        Option.bind (task_yield arch_yield s1) (task_delay_loop arch_yield at)))"

definition task_delay_ticks ::
    "('z sys_scheme \<Rightarrow> 'z sys_scheme option) \<Rightarrow> u32 \<Rightarrow> 'z sys_scheme \<Rightarrow> 'z sys_scheme option" where
  "task_delay_ticks arch_yield ticks s =
     (if current_task s = 0 then Some s
      else if sched_is_locked s then Some (sched_set_pending s)
      else task_delay_loop arch_yield (tick_count s + ticks) s)"

definition task_sleep ::
    "('z sys_scheme \<Rightarrow> 'z sys_scheme option) \<Rightarrow> trt_time_t \<Rightarrow> 'z sys_scheme \<Rightarrow> 'z sys_scheme option" where
  "task_sleep arch_yield delay s = task_delay_ticks arch_yield (timer_us_to_ticks delay) s"

end
