(* ===== verification/TaskFrame.thy ===== *)
theory TaskFrame
  imports TaskMgmt
begin

unbundle bit_operations_syntax

text \<open>
  The word accesses of the little-endian memory and the initial frame of a task: what it holds,
  where it lies, and that it touches nothing else.
\<close>

subsection \<open>Words in byte memory\<close>

lemma load_store_same: "load32 a (store32 a w m) = w"
proof -
  have n: "a \<noteq> a + 1" "a \<noteq> a + 2" "a \<noteq> a + 3" "a + 1 \<noteq> a + 2" "a + 1 \<noteq> a + 3" "a + 2 \<noteq> a + 3"
    by simp_all
  have "load32 a (store32 a w m) = ucast (ucast w :: u8) OR push_bit 8 (ucast (ucast (drop_bit 8 w) :: u8)) OR
      push_bit 16 (ucast (ucast (drop_bit 16 w) :: u8)) OR push_bit 24 (ucast (ucast (drop_bit 24 w) :: u8))"
    using n by (simp add: load32_def store32_def)
  also have "\<dots> = w"
  proof (rule bit_word_eqI)
    fix i assume "i < LENGTH(32)"
    then have i: "i < 32" by simp
    consider "i < 8" | "8 \<le> i" "i < 16" | "16 \<le> i" "i < 24" | "24 \<le> i" by linarith
    then show "bit (ucast (ucast w :: u8) OR push_bit 8 (ucast (ucast (drop_bit 8 w) :: u8)) OR
      push_bit 16 (ucast (ucast (drop_bit 16 w) :: u8)) OR push_bit 24 (ucast (ucast (drop_bit 24 w) :: u8)) :: u32) i
      = bit w i"
      using i by cases (auto simp: bit_or_iff bit_push_bit_iff bit_unsigned_iff bit_drop_bit_eq)
  qed
  finally show ?thesis .
qed

lemma store_outside: "b \<notin> region a 4 \<Longrightarrow> store32 a w m b = m b"
  by (auto simp: store32_def region_def numeral_eq_Suc lessThan_Suc)

lemma load_store_other:
  assumes "region a 4 \<inter> region b 4 = {}"
  shows "load32 a (store32 b w m) = load32 a m"
proof -
  have e: "{..<4 :: nat} = {0, 1, 2, 3}" by auto
  have "a \<in> region a 4" "a + 1 \<in> region a 4" "a + 2 \<in> region a 4" "a + 3 \<in> region a 4"
    by (simp_all add: region_def e)
  then have "a \<notin> region b 4" "a + 1 \<notin> region b 4" "a + 2 \<notin> region b 4" "a + 3 \<notin> region b 4"
    using assms by blast+
  then show ?thesis by (simp add: load32_def store_outside)
qed

lemma frame_word_region: "region (frame_word f i) 4 = (\<lambda>j. f + of_nat j) ` {4 * i..<4 * i + 4}"
proof -
  have "{4 * i..<4 * i + 4} = (\<lambda>k. k + 4 * i) ` {0..<4}" by (simp add: add.commute)
  then have "{4 * i..<4 * i + 4} = (\<lambda>k. 4 * i + k) ` {..<4}" by (simp add: add.commute lessThan_atLeast0)
  then show ?thesis by (simp add: region_def frame_word_def image_image add.assoc)
qed

lemma frame_words_apart:
  assumes "i \<noteq> j" and "i < 36" "j < 36"
  shows "region (frame_word f i) 4 \<inter> region (frame_word f j) 4 = {}"
proof -
  have "f + of_nat k \<noteq> f + of_nat l" if "k \<in> {4 * i..<4 * i + 4}" "l \<in> {4 * j..<4 * j + 4}" for k l
  proof -
    have "k \<noteq> l" "k < 2 ^ 32" "l < 2 ^ 32" using that assms by auto
    then show ?thesis using offset_inj [of k l f] by auto
  qed
  then show ?thesis unfolding frame_word_region by blast
qed

lemma load_frame_word:
  assumes "i < 36" "j < 36"
  shows "load32 (frame_word f i) (store32 (frame_word f j) w m) =
    (if i = j then w else load32 (frame_word f i) m)"
  using load_store_same load_store_other [OF frame_words_apart [OF _ assms]] by simp

lemma load_zeroed_frame:
  assumes "i < 36"
  shows "n \<le> 36 \<Longrightarrow> load32 (frame_word f i) (fold (\<lambda>j. store32 (frame_word f j) 0) [0..<n] m) =
    (if i < n then 0 else load32 (frame_word f i) m)"
proof (induction n)
  case (Suc n)
  then show ?case using assms by (auto simp: load_frame_word less_Suc_eq)
qed simp

lemma store_frame_outside:
  assumes "a \<notin> region f 132" and "j < 33"
  shows "store32 (frame_word f j) w m a = m a"
proof (rule store_outside)
  have "(\<lambda>k. f + of_nat k) ` {4 * j..<4 * j + 4} \<subseteq> region f 132"
    unfolding region_def using assms(2) by (intro image_mono) auto
  then show "a \<notin> region (frame_word f j) 4" using assms(1) unfolding frame_word_region by blast
qed

lemma zeroed_frame_outside:
  assumes "a \<notin> region f 132"
  shows "n \<le> 33 \<Longrightarrow> fold (\<lambda>j. store32 (frame_word f j) 0) [0..<n] m a = m a"
  by (induction n) (simp_all add: store_frame_outside [OF assms])

subsection \<open>The initial frame\<close>

definition initial_word :: "board_env \<Rightarrow> ptr \<Rightarrow> ptr \<Rightarrow> nat \<Rightarrow> u32" where
  "initial_word env entry arg i =
     (if i = 0 then fn_task_exit_trap env else if i = 1 then env_gp env else if i = 2 then env_tp env
      else if i = 8 then arg else if i = 31 then entry else if i = 32 then 0x1880 else 0)"

definition frame_stores :: "board_env \<Rightarrow> ptr \<Rightarrow> ptr \<Rightarrow> ptr \<Rightarrow> (ptr \<Rightarrow> u8) \<Rightarrow> ptr \<Rightarrow> u8" where
  "frame_stores env entry arg frame m =
     store32 (frame_word frame 32) (ARCH_MSTATUS_MPP_M OR ARCH_MSTATUS_MPIE)
       (store32 (frame_word frame 31) entry (store32 (frame_word frame 8) arg
         (store32 (frame_word frame 2) (env_tp env) (store32 (frame_word frame 1) (env_gp env)
           (store32 (frame_word frame 0) (fn_task_exit_trap env)
             (fold (\<lambda>i. store32 (frame_word frame i) 0) [0..<33] m))))))"

lemma init_frame_shape:
  assumes "arch_task_init_frame env base bytes entry arg m = (frame, m')"
  shows "frame = ((base + bytes) AND NOT 0xf) - ARCH_TASK_CONTEXT_SIZE"
    and "m' = frame_stores env entry arg frame m"
  using assms unfolding arch_task_init_frame_def Let_def prod.inject ARCH_TASK_FRAME_WORDS_def
    frame_stores_def by blast+

lemma init_frame_words:
  assumes "arch_task_init_frame env base bytes entry arg m = (frame, m')" and "i < 33"
  shows "load32 (frame_word frame i) m' = initial_word env entry arg i"
proof -
  have c: "ARCH_MSTATUS_MPP_M OR ARCH_MSTATUS_MPIE = 0x1880"
    by (simp add: ARCH_MSTATUS_MPP_M_def ARCH_MSTATUS_MPIE_def)
  show ?thesis
    using assms(2) unfolding init_frame_shape(2) [OF assms(1)] frame_stores_def c
    by (simp add: load_frame_word load_zeroed_frame initial_word_def)
qed

lemma init_frame_outside:
  assumes "arch_task_init_frame env base bytes entry arg m = (frame, m')" and "a \<notin> region frame 132"
  shows "m' a = m a"
  unfolding init_frame_shape(2) [OF assms(1)] frame_stores_def
  by (simp add: store_frame_outside [OF assms(2)] zeroed_frame_outside [OF assms(2)])

lemma and_not_15: "unat ((w :: u32) AND NOT 15) = 16 * (unat w div 16)"
proof -
  have m: "(15 :: u32) = mask 4" by (simp add: mask_eq_exp_minus_1)
  have "w AND NOT (mask 4) = push_bit 4 (drop_bit 4 w)"
    by (rule bit_word_eqI) (auto simp: bit_simps)
  also have "unat \<dots> = take_bit 32 (push_bit 4 (drop_bit 4 (unat w)))"
    by (simp add: unsigned_push_bit_eq unsigned_drop_bit_eq take_bit_nat_eq_self unat_u32_less)
  also have "\<dots> = (16 * (unat w div 16)) mod 2 ^ 32"
    by (simp add: take_bit_eq_mod push_bit_eq_mult drop_bit_eq_div mult.commute)
  also have "\<dots> = 16 * (unat w div 16)"
    using unat_u32_less [of w] times_div_less_eq_dividend [of 16 "unat w"] by simp
  finally show ?thesis unfolding m .
qed

text \<open>Where the frame lies: its upper end is the end of the stack rounded down to sixteen bytes, so
  the rounding must leave room for it.\<close>

lemma init_frame_place:
  assumes "arch_task_init_frame env base bytes entry arg m = (frame, m')"
    and "unat base + unat bytes < 2 ^ 32" and "144 \<le> unat bytes" and "16 \<le> unat base"
  shows "unat frame + 144 + (unat base + unat bytes) mod 16 = unat base + unat bytes"
proof -
  let ?top = "(base + bytes) AND NOT 0xf"
  have f: "frame = ?top - 144"
    using init_frame_shape(1) [OF assms(1)] by (simp only: ARCH_TASK_CONTEXT_SIZE_def)
  have t: "unat ?top = 16 * ((unat base + unat bytes) div 16)"
    unfolding and_not_15 using assms(2) by (simp add: unat_word_ariths)
  have "144 \<le> unat ?top" unfolding t using assms(3,4) by simp
  then have "unat frame = unat ?top - 144" unfolding f by (simp add: unat_sub word_le_nat_alt)
  with \<open>144 \<le> unat ?top\<close> t show ?thesis
    using mult_div_mod_eq [of 16 "unat base + unat bytes"] by linarith
qed

end
