(* ===== verification/Context.thy ===== *)
theory Context
  imports TaskFrame
begin

unbundle bit_operations_syntax

text \<open>
  The context switch of \<^verbatim>\<open>boards/esp32c3/startup.c\<close>: the trap entry and exit \<^verbatim>\<open>_isr\<close>, the start of
  the first task and the reset code, as instruction sequences of a small RV32 machine.  The
  machine has the registers and control registers those sequences use and the byte memory; the
  addresses of linker symbols are arguments.
\<close>

subsection \<open>The machine\<close>

datatype reg =
    Zero | Ra | Sp | Gp | Tp | T0 | T1 | T2 | T3 | T4 | T5 | T6
  | S0 | S1 | S2 | S3 | S4 | S5 | S6 | S7 | S8 | S9 | S10 | S11
  | A0 | A1 | A2 | A3 | A4 | A5 | A6 | A7

datatype csr = Mcause | Mepc | Mstatus | Mscratch | Mtvec | Mie

datatype instr =
    ADDI reg reg u32
  | SW reg u32 reg
  | LW reg u32 reg
  | MV reg reg
  | LA reg ptr
  | LI reg u32
  | CSRR reg csr
  | CSRW csr reg
  | CSRS csr reg
  | CSRSI csr u32
  | CSRCI csr u32
  | MRET

record machine =
  gpr :: "reg \<Rightarrow> u32"
  csrs :: "csr \<Rightarrow> u32"
  pc :: ptr
  mem :: "ptr \<Rightarrow> u8"

definition reg_val :: "machine \<Rightarrow> reg \<Rightarrow> u32" where
  "reg_val M r = (if r = Zero then 0 else gpr M r)"

definition reg_set :: "reg \<Rightarrow> u32 \<Rightarrow> machine \<Rightarrow> machine" where
  "reg_set r v M = (if r = Zero then M else M\<lparr>gpr := (gpr M)(r := v)\<rparr>)"

text \<open>\<^verbatim>\<open>mret\<close> moves \<^verbatim>\<open>MPIE\<close> to \<^verbatim>\<open>MIE\<close> and sets \<^verbatim>\<open>MPIE\<close>; the privilege field plays no part here.\<close>

definition mret_status :: "u32 \<Rightarrow> u32" where
  "mret_status w = (if bit w 7 then w OR 8 else w AND NOT 8) OR 0x80"

fun exec :: "instr \<Rightarrow> machine \<Rightarrow> machine" where
  "exec (ADDI d r i) M = reg_set d (reg_val M r + i) M"
| "exec (SW r i b) M = M\<lparr>mem := store32 (reg_val M b + i) (reg_val M r) (mem M)\<rparr>"
| "exec (LW d i b) M = reg_set d (load32 (reg_val M b + i) (mem M)) M"
| "exec (MV d r) M = reg_set d (reg_val M r) M"
| "exec (LA d a) M = reg_set d a M"
| "exec (LI d i) M = reg_set d i M"
| "exec (CSRR d c) M = reg_set d (csrs M c) M"
| "exec (CSRW c r) M = M\<lparr>csrs := (csrs M)(c := reg_val M r)\<rparr>"
| "exec (CSRS c r) M = M\<lparr>csrs := (csrs M)(c := csrs M c OR reg_val M r)\<rparr>"
| "exec (CSRSI c i) M = M\<lparr>csrs := (csrs M)(c := csrs M c OR i)\<rparr>"
| "exec (CSRCI c i) M = M\<lparr>csrs := (csrs M)(c := csrs M c AND NOT i)\<rparr>"
| "exec MRET M = M\<lparr>pc := csrs M Mepc, csrs := (csrs M)(Mstatus := mret_status (csrs M Mstatus))\<rparr>"

definition run :: "instr list \<Rightarrow> machine \<Rightarrow> machine" where
  "run = fold exec"

subsection \<open>The sequences\<close>

definition CONTEXT_SIZE :: u32 where "CONTEXT_SIZE = 144"

text \<open>The order of the general registers in a frame.\<close>

definition frame_regs :: "reg list" where
  "frame_regs = [Ra, Gp, Tp, T0, T1, T2, S0, S1, A0, A1, A2, A3, A4, A5, A6, A7,
     S2, S3, S4, S5, S6, S7, S8, S9, S10, S11, T3, T4, T5, T6]"

definition save_regs :: "instr list" where
  "save_regs = map (\<lambda>(r, i). SW r (4 * of_nat i) Sp) (zip frame_regs [0..<30])"

definition restore_regs :: "instr list" where
  "restore_regs = map (\<lambda>(r, i). LW r (4 * of_nat i) Sp) (zip frame_regs [0..<30])"

text \<open>\<^verbatim>\<open>_isr\<close> up to the call of \<^verbatim>\<open>do_trap\<close>, and after it; \<open>isr_top\<close> is the address of \<^verbatim>\<open>isr_stack_top\<close>.\<close>

definition isr_entry :: "ptr \<Rightarrow> instr list" where
  "isr_entry isr_top = [ADDI Sp Sp (- CONTEXT_SIZE)] @ save_regs @
     [CSRR A0 Mcause, SW A0 (30 * 4) Sp, CSRR A0 Mepc, SW A0 (31 * 4) Sp,
      CSRR A0 Mstatus, SW A0 (32 * 4) Sp,
      MV A0 Sp, LA T0 isr_top, LW T0 0 T0, CSRW Mscratch Zero, MV Sp T0, CSRR A1 Mcause]"

definition restore_context :: "ptr \<Rightarrow> instr list" where
  "restore_context isr_top =
     [LW T0 (31 * 4) Sp, CSRW Mepc T0, LW T0 (32 * 4) Sp, CSRW Mstatus T0,
      LA T0 isr_top, LW T0 0 T0, CSRW Mscratch T0] @ restore_regs @ [ADDI Sp Sp CONTEXT_SIZE, MRET]"

definition isr_exit :: "ptr \<Rightarrow> instr list" where
  "isr_exit isr_top = MV Sp A0 # restore_context isr_top"

text \<open>\<open>scheduler\<close> is the address of the scheduler structure, \<open>off\<close> the offset of its field \<^verbatim>\<open>started\<close>.\<close>

definition task_start_first_code :: "ptr \<Rightarrow> ptr \<Rightarrow> u32 \<Rightarrow> instr list" where
  "task_start_first_code isr_top scheduler off =
     [MV Sp A0, LI T0 1, LA T1 scheduler, SW T0 off T1] @ restore_context isr_top"

definition start_code :: "ptr \<Rightarrow> ptr \<Rightarrow> ptr \<Rightarrow> ptr \<Rightarrow> instr list" where
  "start_code global_pointer tp_start stack_top isr_top =
     [LA Gp global_pointer, LA Tp tp_start, LA Sp stack_top, LA T0 isr_top, LW T0 0 T0, CSRW Mscratch T0,
      LI T0 0x1800, CSRW Mstatus T0]"

text \<open>
  The inline assembly of \<^verbatim>\<open>include/arch/riscv/port.h\<close> and \<^verbatim>\<open>boards/esp32c3/include/intr.h\<close>; the compiler
  chooses the register \<open>r\<close>.
\<close>

definition arch_interrupt_enable :: "instr list" where "arch_interrupt_enable = [CSRSI Mstatus 8]"

definition arch_interrupt_disable :: "instr list" where "arch_interrupt_disable = [CSRCI Mstatus 8]"

definition arch_critical_enter :: "reg \<Rightarrow> instr list" where
  "arch_critical_enter r = [CSRR r Mstatus, CSRCI Mstatus 8]"

definition arch_critical_exit :: "reg \<Rightarrow> instr list" where
  "arch_critical_exit r = [CSRW Mstatus r]"

definition mtvec_set :: "reg \<Rightarrow> ptr \<Rightarrow> instr list" where
  "mtvec_set r handler = [LI r (handler OR 1), CSRW Mtvec r]"

definition mie_set :: "reg \<Rightarrow> u32 \<Rightarrow> instr list" where
  "mie_set r sources = [LI r sources, CSRS Mie r]"

definition arch_read_gp :: "reg \<Rightarrow> instr list" where "arch_read_gp r = [MV r Gp]"

definition arch_read_tp :: "reg \<Rightarrow> instr list" where "arch_read_tp r = [MV r Tp]"

definition arch_task_frame_entry :: "ptr \<Rightarrow> (ptr \<Rightarrow> u8) \<Rightarrow> ptr" where
  "arch_task_frame_entry sp m = (if sp \<noteq> 0 then load32 (frame_word sp 31) m else 0)"

text \<open>
  The macros of \<^verbatim>\<open>include/arch/riscv/csr.h\<close> for a register and a control register.  \<^verbatim>\<open>do_trap\<close> writes \<^verbatim>\<open>mepc\<close> with the second.
\<close>

definition read_csr :: "reg \<Rightarrow> csr \<Rightarrow> instr list" where "read_csr d c = [CSRR d c]"

definition write_csr :: "csr \<Rightarrow> reg \<Rightarrow> instr list" where "write_csr c r = [CSRW c r]"

text \<open>The loop of \<^verbatim>\<open>_cstart\<close> that clears \<^verbatim>\<open>.bss\<close>.\<close>

function clear_bss :: "ptr \<Rightarrow> ptr \<Rightarrow> (ptr \<Rightarrow> u8) \<Rightarrow> ptr \<Rightarrow> u8" where
  "clear_bss p bss_end m = (if p < bss_end then clear_bss (p + 1) bss_end (m(p := 0)) else m)"
  by pat_completeness auto

termination
proof (relation "measure (\<lambda>(p, bss_end, m). unat bss_end - unat p)")
  fix p bss_end :: ptr and m :: "ptr \<Rightarrow> u8"
  assume "p < bss_end"
  then have "unat p < unat bss_end" "unat (p + 1) = unat p + 1"
    using unat_u32_less [of bss_end] by (simp_all add: word_less_nat_alt unat_word_ariths)
  then show "((p + 1, bss_end, m(p := 0)), p, bss_end, m) \<in> measure (\<lambda>(p, bss_end, m). unat bss_end - unat p)" by simp
qed simp

declare clear_bss.simps [simp del]

lemma clear_bss_zeroes: "clear_bss p bss_end m a = (if p \<le> a \<and> a < bss_end then 0 else m a)"
proof (induction p bss_end m rule: clear_bss.induct)
  case (1 p bss_end m)
  show ?case
  proof (cases "p < bss_end")
    case True
    then have "unat (p + 1) = unat p + 1"
      using unat_u32_less [of bss_end] by (simp add: word_less_nat_alt unat_word_ariths)
    then have "p + 1 \<le> a \<longleftrightarrow> p \<le> a \<and> a \<noteq> p"
      by (auto simp: word_le_nat_alt word_unat_eq_iff)
    moreover have "clear_bss p bss_end m a = clear_bss (p + 1) bss_end (m(p := 0)) a"
      using True by (subst clear_bss.simps) (simp del: fun_upd_apply)
    moreover have "\<dots> = (if p + 1 \<le> a \<and> a < bss_end then 0 else (m(p := 0)) a)" by (rule 1 [OF True])
    ultimately show ?thesis using True by auto
  next
    case False
    then show ?thesis by (subst clear_bss.simps) auto
  qed
qed

subsection \<open>Saving and restoring registers\<close>

lemma reg_set_simps [simp]:
  "mem (reg_set r v M) = mem M" "csrs (reg_set r v M) = csrs M" "pc (reg_set r v M) = pc M"
  by (simp_all add: reg_set_def)

lemma reg_val_set: "r \<noteq> Zero \<Longrightarrow> reg_val (reg_set r v M) q = (if q = r then v else reg_val M q)"
  by (simp add: reg_val_def reg_set_def)

lemma reg_val_upd [simp]:
  "reg_val (M\<lparr>mem := m\<rparr>) = reg_val M" "reg_val (M\<lparr>csrs := c\<rparr>) = reg_val M" "reg_val (M\<lparr>pc := p\<rparr>) = reg_val M"
  by (simp_all add: reg_val_def fun_eq_iff)

lemma run_Nil [simp]: "run [] M = M"
  and run_Cons [simp]: "run (c # cs) M = run cs (exec c M)"
  and run_append: "run (cs @ ds) M = run ds (run cs M)"
  by (simp_all add: run_def)

lemma frame_word_eq: "f + 4 * of_nat i = frame_word f i"
  by (simp add: frame_word_def)

abbreviation stores :: "(reg \<times> nat) list \<Rightarrow> instr list" where
  "stores xs \<equiv> map (\<lambda>(r, i). SW r (4 * of_nat i) Sp) xs"

abbreviation loads :: "(reg \<times> nat) list \<Rightarrow> instr list" where
  "loads xs \<equiv> map (\<lambda>(r, i). LW r (4 * of_nat i) Sp) xs"

lemma run_stores_frame:
  "gpr (run (stores xs) M) = gpr M" "csrs (run (stores xs) M) = csrs M"
  by (induction xs arbitrary: M) auto

lemma run_stores_mem:
  assumes "\<forall>(r, i)\<in>set xs. i < 36" and "distinct (map snd xs)" and "j < 36"
  shows "load32 (frame_word (reg_val M Sp) j) (mem (run (stores xs) M)) =
    (case map_of (map (\<lambda>(r, i). (i, r)) xs) j of
       Some r \<Rightarrow> reg_val M r | None \<Rightarrow> load32 (frame_word (reg_val M Sp) j) (mem M))"
  using assms
proof (induction xs arbitrary: M)
  case (Cons x xs)
  obtain r i where x: "x = (r, i)" by (cases x)
  let ?M = "M\<lparr>mem := store32 (frame_word (reg_val M Sp) i) (reg_val M r) (mem M)\<rparr>"
  have e: "run (stores (x # xs)) M = run (stores xs) ?M" by (simp add: x frame_word_eq)
  have i: "i < 36" "i \<notin> snd ` set xs" using Cons.prems x by auto
  have "map_of (map (\<lambda>(r, i). (i, r)) xs) i = None"
    using i(2) by (auto simp: map_of_eq_None_iff image_image case_prod_beta)
  moreover have "load32 (frame_word (reg_val M Sp) j) (mem (run (stores xs) ?M)) =
      (case map_of (map (\<lambda>(r, i). (i, r)) xs) j of
         Some r \<Rightarrow> reg_val ?M r | None \<Rightarrow> load32 (frame_word (reg_val M Sp) j) (mem ?M))"
    using Cons.IH [of ?M] Cons.prems by (simp cong: option.case_cong)
  ultimately show ?case
    unfolding e using load_frame_word [OF Cons.prems(3) i(1)] x by (auto split: option.splits)
qed simp

lemma run_loads_frame:
  "mem (run (loads xs) M) = mem M" "csrs (run (loads xs) M) = csrs M" "pc (run (loads xs) M) = pc M"
  by (induction xs arbitrary: M) auto

lemma run_loads_gpr:
  assumes "\<forall>(r, i)\<in>set xs. r \<noteq> Sp \<and> r \<noteq> Zero" and "distinct (map fst xs)"
  shows "gpr (run (loads xs) M) r = (case map_of xs r of
       Some i \<Rightarrow> load32 (frame_word (reg_val M Sp) i) (mem M) | None \<Rightarrow> gpr M r)"
  using assms
proof (induction xs arbitrary: M)
  case (Cons x xs)
  obtain q i where x: "x = (q, i)" by (cases x)
  let ?M = "reg_set q (load32 (frame_word (reg_val M Sp) i) (mem M)) M"
  have e: "run (loads (x # xs)) M = run (loads xs) ?M" by (simp add: x frame_word_eq)
  have q: "q \<noteq> Sp" "q \<noteq> Zero" "q \<notin> fst ` set xs" using Cons.prems x by auto
  have sp: "reg_val ?M Sp = reg_val M Sp" using q by (simp add: reg_val_set)
  have n: "map_of xs q = None" using q(3) by (auto simp: map_of_eq_None_iff)
  have g: "gpr ?M p = (if p = q then load32 (frame_word (reg_val M Sp) i) (mem M) else gpr M p)" for p
    using q(2) by (simp add: reg_set_def)
  have "gpr (run (loads xs) ?M) r = (case map_of xs r of
       Some i \<Rightarrow> load32 (frame_word (reg_val M Sp) i) (mem M) | None \<Rightarrow> gpr ?M r)"
    using Cons.IH [of ?M] Cons.prems by (simp add: sp cong: option.case_cong)
  then show ?case unfolding e using n x by (auto simp: g split: option.splits)
qed simp

lemmas frame_list = frame_regs_def upt_rec

lemma save_regs_eq: "save_regs = stores (zip frame_regs [0..<30])"
  by (simp add: save_regs_def)

lemma restore_regs_eq: "restore_regs = loads (zip frame_regs [0..<30])"
  by (simp add: restore_regs_def)

lemma frame_regs_facts:
  "length frame_regs = 30" "distinct frame_regs" "Sp \<notin> set frame_regs" "Zero \<notin> set frame_regs"
  "r \<noteq> Sp \<Longrightarrow> r \<noteq> Zero \<Longrightarrow> r \<in> set frame_regs"
  by (simp_all add: frame_regs_def) (cases r; simp)

lemma zip_frame:
  "\<forall>(r, i)\<in>set (zip frame_regs [0..<30]). i < 36"
  "\<forall>(r, i)\<in>set (zip frame_regs [0..<30]). r \<noteq> Sp \<and> r \<noteq> Zero"
  "distinct (map snd (zip frame_regs [0..<30]))" "distinct (map fst (zip frame_regs [0..<30]))"
  using frame_regs_facts(1-4) by (auto dest: set_zip_leftD set_zip_rightD)

lemma frame_index:
  assumes "i < 30"
  shows "map_of (zip frame_regs [0..<30]) (frame_regs ! i) = Some i"
    and "map_of (map (\<lambda>(r, i). (i, r)) (zip frame_regs [0..<30])) i = Some (frame_regs ! i)"
proof -
  have m: "(frame_regs ! i, i) \<in> set (zip frame_regs [0..<30])"
    using assms frame_regs_facts(1) by (auto simp: set_zip)
  then show "map_of (zip frame_regs [0..<30]) (frame_regs ! i) = Some i"
    by (rule map_of_is_SomeI [OF zip_frame(4)])
  have "distinct (map fst (map (\<lambda>(r, i). (i, r)) (zip frame_regs [0..<30])))"
    using zip_frame(3) by (simp add: comp_def case_prod_beta)
  moreover have "(i, frame_regs ! i) \<in> set (map (\<lambda>(r, i). (i, r)) (zip frame_regs [0..<30]))"
    using m by force
  ultimately show "map_of (map (\<lambda>(r, i). (i, r)) (zip frame_regs [0..<30])) i = Some (frame_regs ! i)"
    by (rule map_of_is_SomeI)
qed

lemma frame_index_none:
  "30 \<le> i \<Longrightarrow> map_of (map (\<lambda>(r, i). (i, r)) (zip frame_regs [0..<30])) i = None"
  "map_of (zip frame_regs [0..<30]) Sp = None" "map_of (zip frame_regs [0..<30]) Zero = None"
  using frame_regs_facts(3,4)
  by (auto simp: map_of_eq_None_iff image_image case_prod_beta dest: set_zip_leftD set_zip_rightD)

text \<open>What the entry leaves in the frame.\<close>

lemma isr_entry_run:
  fixes M :: machine and isr_top :: ptr
  defines "f \<equiv> reg_val M Sp - 144" and "M1 \<equiv> run (isr_entry isr_top) M"
  shows "gpr M1 A0 = f" and "gpr M1 A1 = csrs M Mcause" and "csrs M1 Mscratch = 0"
    and "i < 30 \<Longrightarrow> load32 (frame_word f i) (mem M1) = gpr M (frame_regs ! i)"
    and "load32 (frame_word f 30) (mem M1) = csrs M Mcause" and "load32 (frame_word f 31) (mem M1) = csrs M Mepc"
    and "load32 (frame_word f 32) (mem M1) = csrs M Mstatus"
proof -
  define Ma where "Ma = exec (ADDI Sp Sp (- CONTEXT_SIZE)) M"
  define Mb where "Mb = run save_regs Ma"
  have a: "reg_val Ma Sp = f" "csrs Ma = csrs M" "mem Ma = mem M" "r \<noteq> Sp \<Longrightarrow> gpr Ma r = gpr M r" for r
    by (simp_all add: Ma_def f_def CONTEXT_SIZE_def reg_val_def reg_set_def)
  have b: "gpr Mb = gpr Ma" "csrs Mb = csrs M" "reg_val Mb Sp = f"
    using run_stores_frame a by (simp_all add: Mb_def save_regs_eq reg_val_def)
  have w: "load32 (frame_word f i) (mem Mb) = gpr M (frame_regs ! i)" if i: "i < 30" for i
  proof -
    have "frame_regs ! i \<in> set frame_regs" using i frame_regs_facts(1) by simp
    then have "frame_regs ! i \<noteq> Sp" "frame_regs ! i \<noteq> Zero" using frame_regs_facts(3,4) by metis+
    then show ?thesis
      using run_stores_mem [OF zip_frame(1,3), of i Ma] frame_index(2) [OF i] a i
      by (simp add: Mb_def save_regs_eq reg_val_def)
  qed
  define m1 where "m1 = store32 (frame_word f 32) (csrs M Mstatus) (store32 (frame_word f 31) (csrs M Mepc)
    (store32 (frame_word f 30) (csrs M Mcause) (mem Mb)))"
  have c: "M1 = run [MV A0 Sp, LA T0 isr_top, LW T0 0 T0, CSRW Mscratch Zero, MV Sp T0, CSRR A1 Mcause]
      (reg_set A0 (csrs M Mstatus) Mb\<lparr>mem := m1\<rparr>)"
  proof -
    have "M1 = run [CSRR A0 Mcause, SW A0 (30 * 4) Sp, CSRR A0 Mepc, SW A0 (31 * 4) Sp,
        CSRR A0 Mstatus, SW A0 (32 * 4) Sp, MV A0 Sp, LA T0 isr_top, LW T0 0 T0,
        CSRW Mscratch Zero, MV Sp T0, CSRR A1 Mcause] Mb"
      by (simp only: M1_def isr_entry_def run_append run_Cons run_Nil Mb_def Ma_def)
    then show ?thesis
      using b(2,3) by (simp add: m1_def reg_set_def reg_val_def frame_word_def)
  qed
  show "gpr M1 A0 = f" "gpr M1 A1 = csrs M Mcause" "csrs M1 Mscratch = 0"
    using b(2,3) by (simp_all add: c reg_set_def reg_val_def)
  have m: "mem M1 = m1" by (simp add: c)
  show "i < 30 \<Longrightarrow> load32 (frame_word f i) (mem M1) = gpr M (frame_regs ! i)"
    "load32 (frame_word f 30) (mem M1) = csrs M Mcause" "load32 (frame_word f 31) (mem M1) = csrs M Mepc"
    "load32 (frame_word f 32) (mem M1) = csrs M Mstatus"
    using w by (simp_all add: m m1_def load_frame_word)
qed

text \<open>What the exit takes from a frame.\<close>

lemma restore_run:
  fixes M :: machine and isr_top :: ptr
  defines "f \<equiv> reg_val M Sp" and "M3 \<equiv> run (restore_context isr_top) M"
  shows "i < 30 \<Longrightarrow> gpr M3 (frame_regs ! i) = load32 (frame_word f i) (mem M)"
    and "gpr M3 Sp = f + 144" and "gpr M3 Zero = gpr M Zero"
    and "pc M3 = load32 (frame_word f 31) (mem M)" and "mem M3 = mem M"
    and "csrs M3 Mstatus = mret_status (load32 (frame_word f 32) (mem M))"
    and "csrs M3 Mscratch = load32 isr_top (mem M)"
proof -
  define Ma where "Ma = run [LW T0 (31 * 4) Sp, CSRW Mepc T0, LW T0 (32 * 4) Sp, CSRW Mstatus T0,
      LA T0 isr_top, LW T0 0 T0, CSRW Mscratch T0] M"
  define Mb where "Mb = run restore_regs Ma"
  have a: "reg_val Ma Sp = f" "mem Ma = mem M" "gpr Ma Zero = gpr M Zero"
    "csrs Ma Mepc = load32 (frame_word f 31) (mem M)" "csrs Ma Mstatus = load32 (frame_word f 32) (mem M)"
    "csrs Ma Mscratch = load32 isr_top (mem M)"
    by (simp_all add: Ma_def f_def reg_set_def reg_val_def frame_word_def)
  have b: "mem Mb = mem M" "csrs Mb = csrs Ma"
    using run_loads_frame a(2) by (simp_all add: Mb_def restore_regs_eq)
  have g: "gpr Mb r = (case map_of (zip frame_regs [0..<30]) r of
       Some i \<Rightarrow> load32 (frame_word f i) (mem M) | None \<Rightarrow> gpr Ma r)" for r
    using run_loads_gpr [OF zip_frame(2,4), of Ma r]
    by (simp add: Mb_def restore_regs_eq a cong: option.case_cong)
  have e: "M3 = exec MRET (exec (ADDI Sp Sp CONTEXT_SIZE) Mb)"
    by (simp only: M3_def restore_context_def run_append run_Cons run_Nil Mb_def Ma_def)
  have sp: "reg_val Mb Sp = f" using g [of Sp] a(1) frame_index_none(2) by (simp add: reg_val_def)
  show "gpr M3 Sp = f + 144" "mem M3 = mem M" "pc M3 = load32 (frame_word f 31) (mem M)"
    "csrs M3 Mstatus = mret_status (load32 (frame_word f 32) (mem M))" "csrs M3 Mscratch = load32 isr_top (mem M)"
    using sp a b by (simp_all add: e reg_set_def CONTEXT_SIZE_def)
  show "gpr M3 Zero = gpr M Zero"
    using g [of Zero] a(3) frame_index_none(3) by (simp add: e reg_set_def)
  show "gpr M3 (frame_regs ! i) = load32 (frame_word f i) (mem M)" if i: "i < 30"
  proof -
    have "frame_regs ! i \<noteq> Sp" using i frame_regs_facts(1,3) by (metis nth_mem)
    then show ?thesis using g [of "frame_regs ! i"] frame_index(1) [OF i] by (simp add: e reg_set_def)
  qed
qed

text \<open>
  The write to \<^verbatim>\<open>mepc\<close> in \<^verbatim>\<open>do_trap\<close> has no effect of its own: the exit loads \<^verbatim>\<open>mepc\<close> from the frame.
\<close>

lemma mepc_write_dead:
  "run (isr_exit isr_top) (M\<lparr>csrs := (csrs M)(Mepc := w)\<rparr>) = run (isr_exit isr_top) M"
proof -
  have e: "isr_exit isr_top = [MV Sp A0, LW T0 (31 * 4) Sp, CSRW Mepc T0] @ drop 3 (isr_exit isr_top)"
    by (simp add: isr_exit_def restore_context_def)
  show ?thesis
    by (subst (1 2) e, simp only: run_append) (simp add: reg_set_def reg_val_def)
qed

end
