(* ===== verification/Timers.thy ===== *)
theory Timers
  imports Hal
begin

unbundle bit_operations_syntax

text \<open>
  Software timers, the second half of \<^verbatim>\<open>src/kernel/timer.c\<close>: one list of active timers in
  deadline order, run from the trap handler.  A callback is code of the application and an
  argument of the routine that calls it.  Before \<^verbatim>\<open>timer_init\<close> the list head is all zero, its
  next pointer is \<open>TimerNull\<close> and following it is a fault, the result \<open>None\<close>.
\<close>

subsection \<open>Definitions\<close>

fun entry_timer :: "tnode \<Rightarrow> ptr" where
  "entry_timer (TimerNode p) = p"
| "entry_timer _ = 0"

definition upd_tlinks :: "(tnode links \<Rightarrow> tnode links) \<Rightarrow> 'z sys_scheme \<Rightarrow> 'z sys_scheme" where
  "upd_tlinks f s = s\<lparr>timer_links := f (timer_links s)\<rparr>"

definition timer_insert_locked :: "ptr \<Rightarrow> 'z sys_scheme \<Rightarrow> 'z sys_scheme option" where
  "timer_insert_locked p s =
     (if nxt (timer_links s) TimerHead = TimerNull then None
      else Option.bind
        (list_for_each
          (\<lambda>pos. sint (tm_deadline (timers s p) - tm_deadline (timers s (entry_timer pos))) < 0)
          (timer_links s) TimerHead (nxt (timer_links s) TimerHead))
        (\<lambda>pos. Some
          (if pos \<noteq> TimerHead then upd_tlinks (list_add_tail (TimerNode p) pos) s
           else upd_tlinks (list_add_tail (TimerNode p) TimerHead) s)))"

definition timer_init :: "board_env \<Rightarrow> 'z sys_scheme \<Rightarrow> 'z sys_scheme" where
  "timer_init env s =
     (if timer_initialized s then s
      else (systimer_init env (upd_tlinks (INIT_LIST_HEAD TimerHead) s))\<lparr>timer_initialized := True\<rparr>)"

definition timer_start_tick :: "'z sys_scheme \<Rightarrow> 'z sys_scheme" where
  "timer_start_tick s =
     (if timer_tick_started s then s else (systimer_start s)\<lparr>timer_tick_started := True\<rparr>)"

definition timer_ticks :: "'z sys_scheme \<Rightarrow> u32" where
  "timer_ticks s = tick_count s"

definition timer_lookup :: "trt_handle_t \<Rightarrow> u32 \<Rightarrow> 'z sys_scheme \<Rightarrow> (err_t + ptr) \<times> 'z sys_scheme" where
  "timer_lookup h rights s = sys_handle_lookup h TRT_OBJ_TIMER rights s"

definition timer_setup_obj :: "ptr \<Rightarrow> ptr \<Rightarrow> ptr \<Rightarrow> 'z sys_scheme \<Rightarrow> 'z sys_scheme" where
  "timer_setup_obj p callback arg s =
     (if p = 0 then s
      else upd_timer p (\<lambda>_. \<lparr>tm_deadline = 0, tm_period = 0, tm_callback = callback, tm_arg = arg,
             tm_active = False\<rparr>) (upd_tlinks (INIT_LIST_HEAD (TimerNode p)) s))"

definition trt_timer_create :: "ptr \<Rightarrow> ptr \<Rightarrow> 'z sys_scheme \<Rightarrow> (trt_handle_t \<times> 'z sys_scheme) option" where
  "trt_timer_create callback arg s =
     (if callback = 0 then Some (TRT_HANDLE_INVALID, s)
      else Option.bind (sys_malloc sizeof_timer s) (\<lambda>(p, s1).
        if p = 0 then Some (TRT_HANDLE_INVALID, s1)
        else
          let s2 = timer_setup_obj p callback arg s1 in
          case sys_handle_alloc p TRT_OBJ_TIMER
              (TRT_RIGHT_READ OR TRT_RIGHT_WRITE OR TRT_RIGHT_DESTROY) s2 of
            (Inl _, s3) \<Rightarrow> Some (TRT_HANDLE_INVALID, sys_free p s3)
          | (Inr h, s3) \<Rightarrow> Some (h, s3)))"

definition timer_start_ticks_obj :: "ptr \<Rightarrow> u32 \<Rightarrow> u32 \<Rightarrow> 'z sys_scheme \<Rightarrow> 'z sys_scheme option" where
  "timer_start_ticks_obj p delay_ticks period_ticks s =
     (if p = 0 \<or> tm_callback (timers s p) = 0 then Some s
      else
        let s1 = (if tm_active (timers s p) then upd_tlinks (list_del_init (TimerNode p)) s else s);
            s2 = upd_timer p (\<lambda>k. k\<lparr>tm_deadline := timer_ticks s1 + delay_ticks,
                   tm_period := period_ticks, tm_active := True\<rparr>) s1
        in timer_insert_locked p s2)"

definition timer_start_ticks :: "trt_handle_t \<Rightarrow> u32 \<Rightarrow> u32 \<Rightarrow> 'z sys_scheme \<Rightarrow> 'z sys_scheme option" where
  "timer_start_ticks h delay_ticks period_ticks s =
     (case timer_lookup h TRT_RIGHT_WRITE s of
        (Inl _, s1) \<Rightarrow> Some s1
      | (Inr p, s1) \<Rightarrow> timer_start_ticks_obj p delay_ticks period_ticks s1)"

definition trt_timer_start :: "trt_handle_t \<Rightarrow> trt_time_t \<Rightarrow> trt_time_t \<Rightarrow> 'z sys_scheme \<Rightarrow>
    'z sys_scheme option" where
  "trt_timer_start h delay period s =
     (if delay = TRT_TIME_FOREVER_US \<or> period = TRT_TIME_FOREVER_US then Some s
      else timer_start_ticks h (timer_us_to_ticks delay) (timer_us_to_ticks period) s)"

definition timer_stop_obj :: "ptr \<Rightarrow> 'z sys_scheme \<Rightarrow> 'z sys_scheme" where
  "timer_stop_obj p s =
     (if p = 0 then s
      else if tm_active (timers s p)
      then upd_timer p (\<lambda>k. k\<lparr>tm_active := False\<rparr>) (upd_tlinks (list_del_init (TimerNode p)) s)
      else s)"

definition trt_timer_stop :: "trt_handle_t \<Rightarrow> 'z sys_scheme \<Rightarrow> 'z sys_scheme" where
  "trt_timer_stop h s =
     (case timer_lookup h TRT_RIGHT_WRITE s of
        (Inl _, s1) \<Rightarrow> s1 | (Inr p, s1) \<Rightarrow> timer_stop_obj p s1)"

definition timer_destroy_obj :: "ptr \<Rightarrow> 'z sys_scheme \<Rightarrow> err_t \<times> 'z sys_scheme" where
  "timer_destroy_obj p s =
     (if p = 0 then (ERR_INVAL, s)
      else
        let s1 = (if tm_active (timers s p) then upd_tlinks (list_del_init (TimerNode p)) s
                  else if \<not> list_empty (TimerNode p) (timer_links s)
                  then upd_tlinks (list_del_init (TimerNode p)) s else s)
        in (ERR_OK, upd_timer p (\<lambda>_. \<lparr>tm_deadline = 0, tm_period = 0, tm_callback = 0, tm_arg = 0,
             tm_active = False\<rparr>) s1))"

definition trt_timer_destroy :: "trt_handle_t \<Rightarrow> 'z sys_scheme \<Rightarrow> (err_t \<times> 'z sys_scheme) option" where
  "trt_timer_destroy h s =
     (if arch_in_isr s then Some (ERR_STATE, s)
      else with_object (timer_lookup h TRT_RIGHT_DESTROY s) (\<lambda>p s1.
        let (result, s2) = timer_destroy_obj p s1 in
        if result \<noteq> ERR_OK then Some (result, s2)
        else Some (ERR_OK, sys_free p (sys_handle_close h s2))))"

definition timer_active_obj :: "ptr \<Rightarrow> 'z sys_scheme \<Rightarrow> bool" where
  "timer_active_obj p s \<longleftrightarrow> p \<noteq> 0 \<and> tm_active (timers s p)"

definition trt_timer_active :: "trt_handle_t \<Rightarrow> 'z sys_scheme \<Rightarrow> bool \<times> 'z sys_scheme" where
  "trt_timer_active h s =
     (case timer_lookup h TRT_RIGHT_READ s of
        (Inl _, s1) \<Rightarrow> (False, s1) | (Inr p, s1) \<Rightarrow> (timer_active_obj p s1, s1))"

text \<open>One round of \<^verbatim>\<open>timer_run_expired\<close> on the due timer \<open>p\<close>, up to the call of the callback.\<close>

definition timer_expire :: "ptr \<Rightarrow> 'z sys_scheme \<Rightarrow> 'z sys_scheme option" where
  "timer_expire p s =
     (let s1 = upd_tlinks (list_del_init (TimerNode p)) s in
      if tm_period (timers s1 p) \<noteq> 0
      then timer_insert_locked p
        (upd_timer p (\<lambda>k. k\<lparr>tm_deadline := tm_deadline k + tm_period k\<rparr>) s1)
      else Some (upd_timer p (\<lambda>k. k\<lparr>tm_active := False\<rparr>) s1))"

partial_function (option) timer_run_expired ::
    "(ptr \<Rightarrow> ptr \<Rightarrow> 'z sys_scheme \<Rightarrow> 'z sys_scheme option) \<Rightarrow> 'z sys_scheme \<Rightarrow>
      'z sys_scheme option" where
  "timer_run_expired call s =
     (if list_empty TimerHead (timer_links s) then Some s
      else if nxt (timer_links s) TimerHead = TimerNull then None
      else
        let p = entry_timer (nxt (timer_links s) TimerHead);
            t = timers s p
        in if \<not> timer_expired (timer_ticks s) (tm_deadline t) then Some s
           else Option.bind (timer_expire p s) (\<lambda>s1.
             Option.bind (call (tm_callback t) (tm_arg t) s1) (timer_run_expired call)))"

end
