(* ===== verification/Trap.thy ===== *)
theory Trap
  imports TaskMgmt Timers
begin

unbundle bit_operations_syntax

text \<open>
  The trap handler \<^verbatim>\<open>do_trap\<close> of \<^verbatim>\<open>boards/esp32c3/hal.c\<close> and the start-up sequence of
  \<^verbatim>\<open>src/kernel/kernel.c\<close>.  The registered interrupt handlers, the timer callbacks and the value
  of the hardware counter are arguments; \<open>None\<close> is a trap that does not return.
\<close>

subsection \<open>The trap handler\<close>

definition MSTATUS_MPIE :: u32 where "MSTATUS_MPIE = 0x80"

text \<open>Dispatch of an interrupt; the result says whether it was the system tick.\<close>

definition dispatch_interrupt ::
    "(ptr \<Rightarrow> ptr \<Rightarrow> 'z sys_scheme \<Rightarrow> 'z sys_scheme option) \<Rightarrow> u64 \<Rightarrow> nat \<Rightarrow> 'z sys_scheme \<Rightarrow>
      (bool \<times> 'z sys_scheme) option" where
  "dispatch_interrupt isr count i s =
     (if systimer_initialized s \<and> int i = systimer_cpu_irq s
      then Some (True, SysTick_Handler count s)
      else if intr_fn (intr_table s i) \<noteq> 0
      then Option.bind (isr (intr_fn (intr_table s i)) (intr_arg (intr_table s i)) s)
             (\<lambda>s1. Some (False, s1))
      else Some (False, s))"

definition leave_trap :: "'z sys_scheme \<Rightarrow> 'z sys_scheme" where
  "leave_trap s = s\<lparr>trap_nesting := trap_nesting s - 1\<rparr>"

definition enter_trap :: "'z sys_scheme \<Rightarrow> 'z sys_scheme" where
  "enter_trap s = s\<lparr>trap_nesting := trap_nesting s + 1\<rparr>"

definition advance_ecall :: "ptr \<Rightarrow> 'z sys_scheme \<Rightarrow> 'z sys_scheme" where
  "advance_ecall sp s =
     upd_bytes (\<lambda>m.
       let m1 = store32 (frame_word sp 31) (load32 (frame_word sp 31) m + 4) m
       in store32 (frame_word sp 32) (load32 (frame_word sp 32) m1 OR MSTATUS_MPIE) m1) s"

text \<open>The scheduling part at the end of a trap.\<close>

definition trap_reschedule :: "bool \<Rightarrow> 'z sys_scheme \<Rightarrow> 'z sys_scheme option" where
  "trap_reschedule systick_fired s =
     Option.bind
       (if task_state (tasks s (current_task s)) \<noteq> TASK_RUNNING \<or> sched_current_is_idle s
        then Option.bind (sched_pick_next s) (\<lambda>(t, s1). Some (s1\<lparr>current_task := t\<rparr>))
        else if systick_fired
        then let (due, s1) = sched_on_tick s in
          if due
          then if sched_is_locked s1 then Some (sched_set_pending s1)
               else Option.bind (sched_pick_next s1) (\<lambda>(t, s2). Some (s2\<lparr>current_task := t\<rparr>))
          else Some s1
        else Some s)
       (\<lambda>s1. if systick_fired then Some s1
             else map_option snd (sched_try_reschedule_from_trap s1))"

definition do_trap ::
    "(ptr \<Rightarrow> ptr \<Rightarrow> 'z sys_scheme \<Rightarrow> 'z sys_scheme option) \<Rightarrow>
     (ptr \<Rightarrow> ptr \<Rightarrow> 'z sys_scheme \<Rightarrow> 'z sys_scheme option) \<Rightarrow> u64 \<Rightarrow> ptr \<Rightarrow> u32 \<Rightarrow> 'z sys_scheme \<Rightarrow>
      (ptr \<times> 'z sys_scheme) option" where
  "do_trap isr callback count sp cause s =
     (let s1 = enter_trap s;
          i = unat (cause AND 0xff)
      in
      if \<not> started s1
      then if bit cause 31
           then if i \<ge> 32 then Some (sp, leave_trap s1)
                else Option.bind (dispatch_interrupt isr count i s1) (\<lambda>(_, s2).
                  Some (sp, leave_trap s2))
           else Some (sp, leave_trap s1)
      else
        let s2 = (if current_task s1 \<noteq> 0
                  then upd_task (current_task s1) (\<lambda>k. k\<lparr>task_sp := sp\<rparr>) s1 else s1)
        in
        if bit cause 31 \<and> i \<ge> 32 then Some (sp, leave_trap s2)
        else Option.bind
          (if bit cause 31 then dispatch_interrupt isr count i s2
           else if cause AND 0x7fffffff = 11 then Some (False, advance_ecall sp s2)
           else None)
          (\<lambda>(systick_fired, s3).
            if current_task s3 = 0 then Some (sp, leave_trap s3)
            else Option.bind (sched_wake_expired s3) (\<lambda>s4.
              Option.bind (timer_run_expired callback s4) (\<lambda>s5.
                Option.bind (trap_reschedule systick_fired s5) (\<lambda>s6.
                  Some (task_sp (tasks s6 (current_task s6)), leave_trap s6))))))"

subsection \<open>Start-up\<close>

text \<open>One round of the idle task: free what was deleted, then wait for an interrupt.\<close>

definition idle_round :: "'z sys_scheme \<Rightarrow> 'z sys_scheme option" where
  "idle_round s = task_cleanup_deleted s"

definition kernel_init :: "board_env \<Rightarrow> 'z sys_scheme \<Rightarrow> 'z sys_scheme option" where
  "kernel_init env s =
     Option.bind
       (task_create_kernel env (Some [0x69, 0x64, 0x6c, 0x65, 0x5f, 0x74, 0x61, 0x73, 0x6b])
         (fn_idle_task env) 0 RTOS_TASK_STACK_SIZE 0 (task_init s))
       (\<lambda>(idle, s1). if idle = 0 then None else Some (sched_set_idle_task idle s1))"

text \<open>
  \<^verbatim>\<open>task_start_first\<close> of \<^verbatim>\<open>startup.c\<close> stores 1 to \<^verbatim>\<open>scheduler.started\<close> and restores the registers
  of the first frame, whose address is the first component of the result of \<open>rtos_start\<close>.
\<close>

definition task_start_first :: "'z sys_scheme \<Rightarrow> 'z sys_scheme" where
  "task_start_first s = s\<lparr>started := True\<rparr>"

definition rtos_start :: "board_env \<Rightarrow> 'z sys_scheme \<Rightarrow> (ptr \<times> 'z sys_scheme) option" where
  "rtos_start env s =
     Option.bind (sched_pick_next s) (\<lambda>(t, s1).
       let s2 = s1\<lparr>current_task := t\<rparr> in
       if current_task s2 = 0 then None
       else
         let s3 = timer_start_tick (timer_init env s2)
         in Some (task_sp (tasks s3 (current_task s3)), task_start_first s3))"

definition kernel_main ::
    "('z sys_scheme \<Rightarrow> 'z sys_scheme option) \<Rightarrow> board_env \<Rightarrow> 'z sys_scheme \<Rightarrow>
      (ptr \<times> 'z sys_scheme) option" where
  "kernel_main app_main env s =
     Option.bind (kernel_init env s) (\<lambda>s1. Option.bind (app_main s1) (rtos_start env))"

end
