(* ===== verification/Devices.thy ===== *)
theory Devices
  imports Trap "HOL-Library.State_Monad"
begin

unbundle bit_operations_syntax

text \<open>
  The register accesses of \<^verbatim>\<open>boards/esp32c3/hal.c\<close> and \<^verbatim>\<open>boards/esp32c3/include/intr.h\<close>.  The devices are
  a parameter: a record of what a read answers and what a read and a write do to a device state of
  any type.  The routines are programs of the state monad over it, one access per volatile access of
  the code, in its order; \<^verbatim>\<open>io_sync\<close> is a fence and has no counterpart.
\<close>

subsection \<open>Accesses\<close>

record 'd device =
  rd :: "ptr \<Rightarrow> 'd \<Rightarrow> u32 \<times> 'd"
  wr :: "ptr \<Rightarrow> u32 \<Rightarrow> 'd \<Rightarrow> 'd"

definition REG_READ :: "'d device \<Rightarrow> ptr \<Rightarrow> ('d, u32) state" where
  "REG_READ v a = State (rd v a)"

definition REG_WRITE :: "'d device \<Rightarrow> ptr \<Rightarrow> u32 \<Rightarrow> ('d, unit) state" where
  "REG_WRITE v a w = State (\<lambda>d. ((), wr v a w d))"

text \<open>The compound assignments \<^verbatim>\<open>|=\<close> and \<^verbatim>\<open>&= ~\<close>, and a read for its effect alone.\<close>

definition reg_set_mask :: "'d device \<Rightarrow> ptr \<Rightarrow> u32 \<Rightarrow> ('d, unit) state" where
  "reg_set_mask v a m = do { x \<leftarrow> REG_READ v a; REG_WRITE v a (x OR m) }"

definition reg_clear_mask :: "'d device \<Rightarrow> ptr \<Rightarrow> u32 \<Rightarrow> ('d, unit) state" where
  "reg_clear_mask v a m = do { x \<leftarrow> REG_READ v a; REG_WRITE v a (x AND NOT m) }"

definition reg_touch :: "'d device \<Rightarrow> ptr \<Rightarrow> ('d, unit) state" where
  "reg_touch v a = do { _ \<leftarrow> REG_READ v a; State_Monad.return () }"

definition BIT :: "nat \<Rightarrow> u32" where "BIT n = push_bit n 1"

definition REG_SET_BIT :: "'d device \<Rightarrow> ptr \<Rightarrow> nat \<Rightarrow> ('d, unit) state" where
  "REG_SET_BIT v a n = reg_set_mask v a (push_bit n 1)"

definition REG_CLR_BIT :: "'d device \<Rightarrow> ptr \<Rightarrow> nat \<Rightarrow> ('d, unit) state" where
  "REG_CLR_BIT v a n = reg_clear_mask v a (push_bit n 1)"

text \<open>\<^verbatim>\<open>REG(base)[i]\<close>.\<close>

definition REG :: "ptr \<Rightarrow> nat \<Rightarrow> ptr" where "REG base i = base + 4 * of_nat i"

subsection \<open>Addresses\<close>

definition C3_GPIO :: ptr where "C3_GPIO = 0x60004000"
definition C3_IO_MUX :: ptr where "C3_IO_MUX = 0x60009000"
definition C3_RTCCNTL :: ptr where "C3_RTCCNTL = 0x60008000"
definition C3_TIMERGROUP0 :: ptr where "C3_TIMERGROUP0 = 0x6001F000"
definition C3_TIMERGROUP1 :: ptr where "C3_TIMERGROUP1 = 0x60020000"
definition C3_SYSTEM :: ptr where "C3_SYSTEM = 0x600c0000"

definition SYSTEM_PERIP_CLK_EN0_IDX :: nat where "SYSTEM_PERIP_CLK_EN0_IDX = 4"
definition SYSTEM_PERIP_RST_EN0_IDX :: nat where "SYSTEM_PERIP_RST_EN0_IDX = 6"
definition GPIO_OUT_FUNC :: nat where "GPIO_OUT_FUNC = 341"
definition GPIO_OUT_EN :: nat where "GPIO_OUT_EN = 8"

definition DR_REG_SYSTIMER_BASE :: ptr where "DR_REG_SYSTIMER_BASE = 0x60023000"
definition DR_REG_INTERRUPT_BASE :: ptr where "DR_REG_INTERRUPT_BASE = 0x600c2000"

definition INTERRUPT_CORE0_CPU_INT_ENABLE_REG :: ptr where
  "INTERRUPT_CORE0_CPU_INT_ENABLE_REG = DR_REG_INTERRUPT_BASE + 0x104"
definition INTERRUPT_CORE0_CPU_INT_TYPE_REG :: ptr where
  "INTERRUPT_CORE0_CPU_INT_TYPE_REG = DR_REG_INTERRUPT_BASE + 0x108"
definition INTERRUPT_CORE0_CPU_INT_CLEAR_REG :: ptr where
  "INTERRUPT_CORE0_CPU_INT_CLEAR_REG = DR_REG_INTERRUPT_BASE + 0x10C"
definition INTC_INT_PRIO_REG :: "nat \<Rightarrow> ptr" where
  "INTC_INT_PRIO_REG n = DR_REG_INTERRUPT_BASE + 0x114 + 4 * of_nat n"
definition INTERRUPT_CORE0_CPU_INT_THRESH_REG :: ptr where
  "INTERRUPT_CORE0_CPU_INT_THRESH_REG = DR_REG_INTERRUPT_BASE + 0x194"

definition ETS_SYSTIMER_TARGET0_INTR_SOURCE :: nat where "ETS_SYSTIMER_TARGET0_INTR_SOURCE = 37"

text \<open>The members of \<^verbatim>\<open>struct systimer\<close> the code uses, by their position.\<close>

datatype systimer_field =
    CONF | UNIT0_OP | UNIT0_LOAD_HI | UNIT0_LOAD_LO | TARGET0_CONF | UNIT0_VALUE_HI | UNIT0_VALUE_LO
  | COMP0_LOAD | UNIT0_LOAD | INT_ENA | INT_CLR | INT_ST

fun systimer :: "systimer_field \<Rightarrow> nat" where
  "systimer CONF = 0"
| "systimer UNIT0_OP = 1"
| "systimer UNIT0_LOAD_HI = 3"
| "systimer UNIT0_LOAD_LO = 4"
| "systimer TARGET0_CONF = 13"
| "systimer UNIT0_VALUE_HI = 16"
| "systimer UNIT0_VALUE_LO = 17"
| "systimer COMP0_LOAD = 20"
| "systimer UNIT0_LOAD = 23"
| "systimer INT_ENA = 25"
| "systimer INT_CLR = 27"
| "systimer INT_ST = 28"

definition SYSTIMER :: "systimer_field \<Rightarrow> ptr" where
  "SYSTIMER f = REG DR_REG_SYSTIMER_BASE (systimer f)"

definition SYSTIMER_TARGET0_WORK_EN :: u32 where "SYSTIMER_TARGET0_WORK_EN = BIT 24"
definition SYSTIMER_TIMER_UNIT0_WORK_EN :: u32 where "SYSTIMER_TIMER_UNIT0_WORK_EN = BIT 30"
definition SYSTIMER_CLK_EN :: u32 where "SYSTIMER_CLK_EN = BIT 31"
definition SYSTIMER_TIMER_UNIT0_VALUE_VALID :: u32 where "SYSTIMER_TIMER_UNIT0_VALUE_VALID = BIT 29"
definition SYSTIMER_TIMER_UNIT0_UPDATE :: u32 where "SYSTIMER_TIMER_UNIT0_UPDATE = BIT 30"
definition SYSTIMER_TARGET0_PERIOD_MODE :: u32 where "SYSTIMER_TARGET0_PERIOD_MODE = BIT 30"
definition SYSTIMER_TIMER_UNIT0_VALUE_HI :: u32 where "SYSTIMER_TIMER_UNIT0_VALUE_HI = 0xFFFFF"
definition SYSTIMER_TIMER_COMP0_LOAD :: u32 where "SYSTIMER_TIMER_COMP0_LOAD = BIT 0"
definition SYSTIMER_TARGET0_INT_ENA :: u32 where "SYSTIMER_TARGET0_INT_ENA = BIT 0"

subsection \<open>Watchdogs and pins\<close>

definition wdt_disable :: "'d device \<Rightarrow> ('d, unit) state" where
  "wdt_disable v = do {
     REG_WRITE v (REG C3_RTCCNTL 42) 0x50D83AA1;
     REG_WRITE v (REG C3_RTCCNTL 36) 0;
     REG_WRITE v (REG C3_RTCCNTL 35) 0;
     REG_WRITE v (REG C3_RTCCNTL 44) 0x8F1D312A;
     reg_set_mask v (REG C3_RTCCNTL 43) (BIT 31);
     REG_WRITE v (REG C3_RTCCNTL 45) 0;
     REG_WRITE v (REG C3_TIMERGROUP0 41) 0x50D83AA1;
     REG_WRITE v (REG C3_TIMERGROUP0 18) 0;
     REG_WRITE v (REG C3_TIMERGROUP0 41) 0;
     REG_WRITE v (REG C3_TIMERGROUP1 41) 0x50D83AA1;
     REG_WRITE v (REG C3_TIMERGROUP1 18) 0;
     REG_WRITE v (REG C3_TIMERGROUP1 41) 0
   }"

definition gpio_output :: "'d device \<Rightarrow> nat \<Rightarrow> ('d, unit) state" where
  "gpio_output v pin = do {
     x \<leftarrow> REG_READ v (C3_IO_MUX + 4 + of_nat pin * 4);
     REG_WRITE v (C3_IO_MUX + 4 + of_nat pin * 4) (x AND NOT (push_bit 12 7) OR push_bit 12 1);
     REG_WRITE v (REG C3_GPIO (GPIO_OUT_FUNC + pin)) 128;
     reg_clear_mask v (REG C3_GPIO GPIO_OUT_EN) (BIT pin);
     reg_set_mask v (REG C3_GPIO GPIO_OUT_EN) (BIT pin)
   }"

definition gpio_write :: "'d device \<Rightarrow> nat \<Rightarrow> int \<Rightarrow> ('d, unit) state" where
  "gpio_write v pin val = do {
     reg_clear_mask v (REG C3_GPIO 1) (BIT pin);
     reg_set_mask v (REG C3_GPIO 1) (push_bit pin (if val \<noteq> 0 then 1 else 0))
   }"

subsection \<open>Interrupt lines\<close>

definition interrupt_intc_route :: "'d device \<Rightarrow> nat \<Rightarrow> nat \<Rightarrow> ('d, unit) state" where
  "interrupt_intc_route v src no = REG_WRITE v (DR_REG_INTERRUPT_BASE + 4 * of_nat src) (of_nat no)"

definition get_interrupt_unmask :: "'d device \<Rightarrow> ('d, u32) state" where
  "get_interrupt_unmask v = REG_READ v INTERRUPT_CORE0_CPU_INT_ENABLE_REG"

datatype intr_type = INTR_TYPE_LEVEL | INTR_TYPE_EDGE

definition get_intr_type :: "'d device \<Rightarrow> nat \<Rightarrow> ('d, intr_type) state" where
  "get_intr_type v no = do {
     x \<leftarrow> REG_READ v INTERRUPT_CORE0_CPU_INT_TYPE_REG;
     State_Monad.return (if x AND push_bit no 1 \<noteq> 0 then INTR_TYPE_EDGE else INTR_TYPE_LEVEL)
   }"

definition int_get_priority :: "'d device \<Rightarrow> nat \<Rightarrow> ('d, u32) state" where
  "int_get_priority v no = REG_READ v (INTC_INT_PRIO_REG no)"

text \<open>The accesses of \<^verbatim>\<open>cpu_alloc_interrupt\<close> for the line it claims.\<close>

definition claim_line :: "'d device \<Rightarrow> nat \<Rightarrow> u8 \<Rightarrow> ('d, unit) state" where
  "claim_line v no pr = do {
     REG_WRITE v INTERRUPT_CORE0_CPU_INT_THRESH_REG 0;
     REG_WRITE v INTERRUPT_CORE0_CPU_INT_CLEAR_REG (BIT no);
     REG_WRITE v (INTC_INT_PRIO_REG no) (ucast pr);
     reg_clear_mask v INTERRUPT_CORE0_CPU_INT_TYPE_REG (BIT no);
     REG_SET_BIT v INTERRUPT_CORE0_CPU_INT_ENABLE_REG no;
     reg_touch v INTERRUPT_CORE0_CPU_INT_ENABLE_REG
   }"

subsection \<open>The system timer\<close>

text \<open>\<^verbatim>\<open>systimer_init\<close> up to the allocation of the interrupt line.\<close>

definition systimer_setup :: "'d device \<Rightarrow> ('d, unit) state" where
  "systimer_setup v = do {
     REG_WRITE v INTERRUPT_CORE0_CPU_INT_ENABLE_REG 0;
     REG_WRITE v INTERRUPT_CORE0_CPU_INT_CLEAR_REG 0xffffffff;
     REG_WRITE v INTERRUPT_CORE0_CPU_INT_THRESH_REG 0;
     reg_touch v INTERRUPT_CORE0_CPU_INT_ENABLE_REG;
     reg_set_mask v (REG C3_SYSTEM SYSTEM_PERIP_CLK_EN0_IDX) (BIT 29);
     reg_clear_mask v (REG C3_SYSTEM SYSTEM_PERIP_RST_EN0_IDX) (BIT 29);
     reg_touch v (REG C3_SYSTEM SYSTEM_PERIP_CLK_EN0_IDX);
     REG_WRITE v (SYSTIMER INT_ENA) 0;
     REG_WRITE v (SYSTIMER INT_CLR) 7;
     reg_touch v (SYSTIMER INT_ENA);
     reg_clear_mask v (SYSTIMER CONF) SYSTIMER_TARGET0_WORK_EN;
     reg_set_mask v (SYSTIMER CONF) (SYSTIMER_CLK_EN OR SYSTIMER_TIMER_UNIT0_WORK_EN);
     reg_touch v (SYSTIMER CONF);
     REG_WRITE v (SYSTIMER UNIT0_LOAD_HI) 0;
     REG_WRITE v (SYSTIMER UNIT0_LOAD_LO) 0;
     REG_WRITE v (SYSTIMER UNIT0_LOAD) 1;
     reg_touch v (SYSTIMER UNIT0_LOAD);
     REG_WRITE v (SYSTIMER TARGET0_CONF) (ucast TICK_PERIOD_TICKS);
     reg_touch v (SYSTIMER TARGET0_CONF);
     REG_WRITE v (SYSTIMER COMP0_LOAD) SYSTIMER_TIMER_COMP0_LOAD;
     reg_touch v (SYSTIMER COMP0_LOAD);
     reg_set_mask v (SYSTIMER TARGET0_CONF) SYSTIMER_TARGET0_PERIOD_MODE;
     reg_touch v (SYSTIMER TARGET0_CONF)
   }"

text \<open>\<^verbatim>\<open>systimer_init\<close> on the kernel and the devices; its kernel part is \<open>systimer_init\<close>.\<close>

definition systimer_init_io ::
    "'d device \<Rightarrow> board_env \<Rightarrow> 'z sys_scheme \<Rightarrow> 'd \<Rightarrow> 'z sys_scheme \<times> 'd" where
  "systimer_init_io v env s d =
     (systimer_init env s,
      if systimer_initialized s then wr v (SYSTIMER INT_CLR) 7 d
      else
        let d1 = snd (run_state (systimer_setup v) d);
            no = fst (cpu_alloc_interrupt (s\<lparr>cpu_int_allocated := 0\<rparr>))
        in if no < 0 then d1
           else snd (run_state (do {
                  claim_line v (nat no) 1;
                  interrupt_intc_route v ETS_SYSTIMER_TARGET0_INTR_SOURCE (nat no)
                }) d1))"

definition systimer_start_io :: "'d device \<Rightarrow> 'z sys_scheme \<Rightarrow> 'd \<Rightarrow> 'z sys_scheme \<times> 'd" where
  "systimer_start_io v s d =
     (systimer_start s,
      if systimer_started s then d
      else snd (run_state (do {
        REG_WRITE v (SYSTIMER INT_CLR) 7;
        reg_touch v (SYSTIMER INT_ST);
        REG_WRITE v (SYSTIMER COMP0_LOAD) SYSTIMER_TIMER_COMP0_LOAD;
        reg_touch v (SYSTIMER COMP0_LOAD);
        REG_WRITE v (SYSTIMER INT_ENA) SYSTIMER_TARGET0_INT_ENA;
        reg_touch v (SYSTIMER INT_ENA);
        REG_WRITE v (SYSTIMER INT_CLR) 7;
        reg_touch v (SYSTIMER INT_ST);
        conf \<leftarrow> REG_READ v (SYSTIMER CONF);
        REG_WRITE v (SYSTIMER CONF)
          (conf OR (SYSTIMER_CLK_EN OR SYSTIMER_TIMER_UNIT0_WORK_EN OR SYSTIMER_TARGET0_WORK_EN))
      }) d))"

subsection \<open>Reading the counter\<close>

text \<open>The wait for a valid snapshot: \<open>n\<close> is the rest of the timeout, the result whether it is valid.\<close>

fun systimer_wait :: "'d device \<Rightarrow> nat \<Rightarrow> ('d, bool) state" where
  "systimer_wait v 0 = State_Monad.return False"
| "systimer_wait v (Suc n) = do {
     x \<leftarrow> REG_READ v (SYSTIMER UNIT0_OP);
     if x AND SYSTIMER_TIMER_UNIT0_VALUE_VALID \<noteq> 0 then State_Monad.return True
     else systimer_wait v n
   }"

text \<open>The loop that reads the low word, the high word and the low word again until it is stable.\<close>

partial_function (option) systimer_read_loop :: "'d device \<Rightarrow> u32 \<Rightarrow> 'd \<Rightarrow> (u64 \<times> 'd) option" where
  "systimer_read_loop v lo d =
     (let r1 = rd v (SYSTIMER UNIT0_VALUE_HI) d;
          r2 = rd v (SYSTIMER UNIT0_VALUE_LO) (snd r1)
      in if fst r2 \<noteq> lo then systimer_read_loop v (fst r2) (snd r2)
         else Some (push_bit 32 (ucast (fst r1 AND SYSTIMER_TIMER_UNIT0_VALUE_HI)) OR ucast lo, snd r2))"

definition systimer_get_count :: "'d device \<Rightarrow> 'd \<Rightarrow> (u64 \<times> 'd) option" where
  "systimer_get_count v d =
     (let (valid, d1) = run_state (do {
            reg_set_mask v (SYSTIMER UNIT0_OP) SYSTIMER_TIMER_UNIT0_UPDATE;
            systimer_wait v 1000000
          }) d
      in if \<not> valid then Some (0, d1)
         else let (lo, d2) = rd v (SYSTIMER UNIT0_VALUE_LO) d1 in systimer_read_loop v lo d2)"

text \<open>\<^verbatim>\<open>SysTick_Handler\<close> on the kernel and the devices; its kernel part is \<open>SysTick_Handler\<close>.\<close>

definition SysTick_Handler_io ::
    "'d device \<Rightarrow> 'z sys_scheme \<Rightarrow> 'd \<Rightarrow> ('z sys_scheme \<times> 'd) option" where
  "SysTick_Handler_io v s d =
     Option.bind (systimer_get_count v (snd (run_state (do {
         REG_WRITE v (SYSTIMER INT_CLR) 7;
         reg_touch v (SYSTIMER INT_ST)
       }) d)))
       (\<lambda>(count, d1). Some (SysTick_Handler count s, d1))"

end
