(* ===== verification/App.thy ===== *)
theory App
  imports Context Devices
begin

text \<open>
  The whole program from the reset vector: \<^verbatim>\<open>_cstart\<close> of \<^verbatim>\<open>boards/esp32c3/startup.c\<close>, start-up with
  its register accesses, and the application \<^verbatim>\<open>app/main.c\<close>.  The machine, the devices and the kernel
  state are threaded through together; the address of \<^verbatim>\<open>led_task\<close> is an argument, like those
  of the static functions in \<open>board_env\<close>.
\<close>

subsection \<open>The application\<close>

definition BOARD_LED_PIN :: nat where "BOARD_LED_PIN = 2"

text \<open>The string \<^verbatim>\<open>main_led\<close>.\<close>

definition led_name :: "u8 list" where
  "led_name = [0x6d, 0x61, 0x69, 0x6e, 0x5f, 0x6c, 0x65, 0x64]"

definition app_main ::
    "'d device \<Rightarrow> ('z sys_scheme \<Rightarrow> 'z sys_scheme option) \<Rightarrow> board_env \<Rightarrow> ptr \<Rightarrow> 'z sys_scheme \<Rightarrow> 'd \<Rightarrow>
      ('z sys_scheme \<times> 'd) option" where
  "app_main v arch_yield env led_task s d =
     (let d1 = snd (run_state (gpio_output v BOARD_LED_PIN) d) in
      Option.bind (task_create arch_yield env (Some led_name) led_task 0 RTOS_TASK_STACK_SIZE 1 s)
        (\<lambda>(_, s1). Some (s1, d1)))"

text \<open>One round of the loop of \<^verbatim>\<open>led_task\<close>.\<close>

definition led_round ::
    "'d device \<Rightarrow> ('z sys_scheme \<Rightarrow> 'z sys_scheme option) \<Rightarrow> 'z sys_scheme \<Rightarrow> 'd \<Rightarrow>
      ('z sys_scheme \<times> 'd) option" where
  "led_round v arch_yield s d =
     (let d1 = snd (run_state (gpio_write v BOARD_LED_PIN 1) d) in
      Option.bind (task_sleep arch_yield (TRT_MS 500) s) (\<lambda>s1.
        let d2 = snd (run_state (gpio_write v BOARD_LED_PIN 0) d1) in
        Option.bind (task_sleep arch_yield (TRT_MS 500) s1) (\<lambda>s2. Some (s2, d2))))"

subsection \<open>Start-up with its register accesses\<close>

text \<open>The kernel parts are \<open>timer_init\<close>, \<open>timer_start_tick\<close>, \<open>rtos_start\<close> and \<open>kernel_main\<close>.\<close>

definition timer_init_io :: "'d device \<Rightarrow> board_env \<Rightarrow> 'z sys_scheme \<Rightarrow> 'd \<Rightarrow> 'z sys_scheme \<times> 'd" where
  "timer_init_io v env s d =
     (if timer_initialized s then (s, d)
      else let (s1, d1) = systimer_init_io v env (upd_tlinks (INIT_LIST_HEAD TimerHead) s) d
           in (s1\<lparr>timer_initialized := True\<rparr>, d1))"

definition timer_start_tick_io :: "'d device \<Rightarrow> 'z sys_scheme \<Rightarrow> 'd \<Rightarrow> 'z sys_scheme \<times> 'd" where
  "timer_start_tick_io v s d =
     (if timer_tick_started s then (s, d)
      else let (s1, d1) = systimer_start_io v s d in (s1\<lparr>timer_tick_started := True\<rparr>, d1))"

definition rtos_start_io ::
    "'d device \<Rightarrow> board_env \<Rightarrow> 'z sys_scheme \<Rightarrow> 'd \<Rightarrow> (ptr \<times> 'z sys_scheme \<times> 'd) option" where
  "rtos_start_io v env s d =
     Option.bind (sched_pick_next s) (\<lambda>(t, s1).
       let s2 = s1\<lparr>current_task := t\<rparr> in
       if current_task s2 = 0 then None
       else
         let (s3, d3) = timer_init_io v env s2 d;
             (s4, d4) = timer_start_tick_io v s3 d3
         in Some (task_sp (tasks s4 (current_task s4)), task_start_first s4, d4))"

definition kernel_main_io ::
    "'d device \<Rightarrow> ('z sys_scheme \<Rightarrow> 'z sys_scheme option) \<Rightarrow> board_env \<Rightarrow> ptr \<Rightarrow> 'z sys_scheme \<Rightarrow> 'd \<Rightarrow>
      (ptr \<times> 'z sys_scheme \<times> 'd) option" where
  "kernel_main_io v arch_yield env led_task s d =
     Option.bind (kernel_init env s) (\<lambda>s1.
       Option.bind (app_main v arch_yield env led_task s1 d) (\<lambda>(s2, d2). rtos_start_io v env s2 d2))"

text \<open>
  \<^verbatim>\<open>_cstart\<close>: clear \<^verbatim>\<open>.bss\<close>, stop the watchdogs, install the vector table \<open>vt\<close>, enter the kernel.  The
  result holds the frame the first task starts from and the machine before \<^verbatim>\<open>task_start_first\<close>.
\<close>

definition cstart ::
    "'d device \<Rightarrow> reg \<Rightarrow> ptr \<Rightarrow> ptr \<Rightarrow> ptr \<Rightarrow> ('z sys_scheme \<Rightarrow> 'z sys_scheme option) \<Rightarrow> board_env \<Rightarrow> ptr \<Rightarrow>
      machine \<Rightarrow> 'z sys_scheme \<Rightarrow> 'd \<Rightarrow> (ptr \<times> machine \<times> 'z sys_scheme \<times> 'd) option" where
  "cstart v r vt bss_start bss_end arch_yield env led_task M s d =
     (let M1 = M\<lparr>mem := clear_bss bss_start bss_end (mem M)\<rparr>;
          d1 = snd (run_state (wdt_disable v) d);
          M2 = run (mtvec_set r vt) M1
      in map_option (\<lambda>(sp, s', d'). (sp, M2, s', d')) (kernel_main_io v arch_yield env led_task s d1))"

subsection \<open>The kernel part alone\<close>

lemma timer_io_fst:
  "fst (timer_init_io v env s d) = timer_init env s"
  "fst (timer_start_tick_io v s d) = timer_start_tick s"
  by (simp_all add: timer_init_io_def timer_init_def timer_start_tick_io_def timer_start_tick_def
      systimer_init_io_def systimer_start_io_def Let_def)

lemma rtos_start_io_eq:
  "rtos_start_io v env s d = map_option (\<lambda>(sp, s'). (sp, s',
     snd (timer_start_tick_io v
       (timer_init env ((snd (the (sched_pick_next s)))\<lparr>current_task := fst (the (sched_pick_next s))\<rparr>))
       (snd (timer_init_io v env
         ((snd (the (sched_pick_next s)))\<lparr>current_task := fst (the (sched_pick_next s))\<rparr>) d))))) (rtos_start env s)"
  by (cases "sched_pick_next s")
     (auto simp: rtos_start_io_def rtos_start_def Let_def case_prod_beta timer_io_fst)

end
