(* ===== verification/SysFrame.thy ===== *)
theory SysFrame
  imports System SchedSteps
begin

text \<open>
  How the kernel lemmas apply to the system state: an update of an object leaves the scheduler
  state alone, and a scheduler operation, which keeps the extension of the kernel record, leaves
  the objects alone.  The small system of the scheduler theories is extended with blank objects.
\<close>

subsection \<open>Updates of objects\<close>

lemma upd_sem_simps [simp]:
  "sems (upd_sem p f s) = (sems s)(p := f (sems s p))" "tasks (upd_sem p f s) = tasks s"
  "lnk (upd_sem p f s) = lnk s" "ready_mask (upd_sem p f s) = ready_mask s"
  "current_task (upd_sem p f s) = current_task s" "idle_task (upd_sem p f s) = idle_task s"
  "time_slice_ticks (upd_sem p f s) = time_slice_ticks s" "started (upd_sem p f s) = started s"
  "lock_count (upd_sem p f s) = lock_count s" "resched_pending (upd_sem p f s) = resched_pending s"
  "tick_count (upd_sem p f s) = tick_count s" "trap_nesting (upd_sem p f s) = trap_nesting s"
  "sys_handles (upd_sem p f s) = sys_handles s" "sys_heap (upd_sem p f s) = sys_heap s"
  "mutexes (upd_sem p f s) = mutexes s" "msgqs (upd_sem p f s) = msgqs s"
  "timers (upd_sem p f s) = timers s" "timer_links (upd_sem p f s) = timer_links s"
  "timer_initialized (upd_sem p f s) = timer_initialized s"
  "timer_tick_started (upd_sem p f s) = timer_tick_started s"
  "task_count (upd_sem p f s) = task_count s"
  "task_initialized (upd_sem p f s) = task_initialized s"
  "intr_table (upd_sem p f s) = intr_table s"
  "cpu_int_allocated (upd_sem p f s) = cpu_int_allocated s"
  "systimer_cpu_irq (upd_sem p f s) = systimer_cpu_irq s"
  "systimer_initialized (upd_sem p f s) = systimer_initialized s"
  "systimer_started (upd_sem p f s) = systimer_started s"
  by (simp_all add: upd_sem_def)

lemma upd_mutex_simps [simp]:
  "mutexes (upd_mutex p f s) = (mutexes s)(p := f (mutexes s p))"
  "tasks (upd_mutex p f s) = tasks s" "lnk (upd_mutex p f s) = lnk s"
  "ready_mask (upd_mutex p f s) = ready_mask s" "current_task (upd_mutex p f s) = current_task s"
  "idle_task (upd_mutex p f s) = idle_task s"
  "time_slice_ticks (upd_mutex p f s) = time_slice_ticks s" "started (upd_mutex p f s) = started s"
  "lock_count (upd_mutex p f s) = lock_count s"
  "resched_pending (upd_mutex p f s) = resched_pending s"
  "tick_count (upd_mutex p f s) = tick_count s" "trap_nesting (upd_mutex p f s) = trap_nesting s"
  "sys_handles (upd_mutex p f s) = sys_handles s" "sys_heap (upd_mutex p f s) = sys_heap s"
  "sems (upd_mutex p f s) = sems s" "msgqs (upd_mutex p f s) = msgqs s"
  "timers (upd_mutex p f s) = timers s" "timer_links (upd_mutex p f s) = timer_links s"
  "timer_initialized (upd_mutex p f s) = timer_initialized s"
  "timer_tick_started (upd_mutex p f s) = timer_tick_started s"
  "task_count (upd_mutex p f s) = task_count s"
  "task_initialized (upd_mutex p f s) = task_initialized s"
  "intr_table (upd_mutex p f s) = intr_table s"
  "cpu_int_allocated (upd_mutex p f s) = cpu_int_allocated s"
  "systimer_cpu_irq (upd_mutex p f s) = systimer_cpu_irq s"
  "systimer_initialized (upd_mutex p f s) = systimer_initialized s"
  "systimer_started (upd_mutex p f s) = systimer_started s"
  by (simp_all add: upd_mutex_def)

lemma upd_msgq_simps [simp]:
  "msgqs (upd_msgq p f s) = (msgqs s)(p := f (msgqs s p))" "tasks (upd_msgq p f s) = tasks s"
  "lnk (upd_msgq p f s) = lnk s" "ready_mask (upd_msgq p f s) = ready_mask s"
  "current_task (upd_msgq p f s) = current_task s" "idle_task (upd_msgq p f s) = idle_task s"
  "time_slice_ticks (upd_msgq p f s) = time_slice_ticks s" "started (upd_msgq p f s) = started s"
  "lock_count (upd_msgq p f s) = lock_count s"
  "resched_pending (upd_msgq p f s) = resched_pending s"
  "tick_count (upd_msgq p f s) = tick_count s" "trap_nesting (upd_msgq p f s) = trap_nesting s"
  "sys_handles (upd_msgq p f s) = sys_handles s" "sys_heap (upd_msgq p f s) = sys_heap s"
  "sems (upd_msgq p f s) = sems s" "mutexes (upd_msgq p f s) = mutexes s"
  "timers (upd_msgq p f s) = timers s" "timer_links (upd_msgq p f s) = timer_links s"
  "timer_initialized (upd_msgq p f s) = timer_initialized s"
  "timer_tick_started (upd_msgq p f s) = timer_tick_started s"
  "task_count (upd_msgq p f s) = task_count s"
  "task_initialized (upd_msgq p f s) = task_initialized s"
  "intr_table (upd_msgq p f s) = intr_table s"
  "cpu_int_allocated (upd_msgq p f s) = cpu_int_allocated s"
  "systimer_cpu_irq (upd_msgq p f s) = systimer_cpu_irq s"
  "systimer_initialized (upd_msgq p f s) = systimer_initialized s"
  "systimer_started (upd_msgq p f s) = systimer_started s"
  by (simp_all add: upd_msgq_def)

lemma upd_timer_simps [simp]:
  "timers (upd_timer p f s) = (timers s)(p := f (timers s p))" "tasks (upd_timer p f s) = tasks s"
  "lnk (upd_timer p f s) = lnk s" "ready_mask (upd_timer p f s) = ready_mask s"
  "current_task (upd_timer p f s) = current_task s" "idle_task (upd_timer p f s) = idle_task s"
  "time_slice_ticks (upd_timer p f s) = time_slice_ticks s" "started (upd_timer p f s) = started s"
  "lock_count (upd_timer p f s) = lock_count s"
  "resched_pending (upd_timer p f s) = resched_pending s"
  "tick_count (upd_timer p f s) = tick_count s" "trap_nesting (upd_timer p f s) = trap_nesting s"
  "sys_handles (upd_timer p f s) = sys_handles s" "sys_heap (upd_timer p f s) = sys_heap s"
  "sems (upd_timer p f s) = sems s" "mutexes (upd_timer p f s) = mutexes s"
  "msgqs (upd_timer p f s) = msgqs s" "timer_links (upd_timer p f s) = timer_links s"
  "timer_initialized (upd_timer p f s) = timer_initialized s"
  "timer_tick_started (upd_timer p f s) = timer_tick_started s"
  "task_count (upd_timer p f s) = task_count s"
  "task_initialized (upd_timer p f s) = task_initialized s"
  "intr_table (upd_timer p f s) = intr_table s"
  "cpu_int_allocated (upd_timer p f s) = cpu_int_allocated s"
  "systimer_cpu_irq (upd_timer p f s) = systimer_cpu_irq s"
  "systimer_initialized (upd_timer p f s) = systimer_initialized s"
  "systimer_started (upd_timer p f s) = systimer_started s"
  by (simp_all add: upd_timer_def)

lemma upd_bytes_simps [simp]:
  "heap_bytes (sys_heap (upd_bytes f s)) = f (heap_bytes (sys_heap s))"
  "tasks (upd_bytes f s) = tasks s" "lnk (upd_bytes f s) = lnk s"
  "ready_mask (upd_bytes f s) = ready_mask s" "current_task (upd_bytes f s) = current_task s"
  "idle_task (upd_bytes f s) = idle_task s" "time_slice_ticks (upd_bytes f s) = time_slice_ticks s"
  "started (upd_bytes f s) = started s" "lock_count (upd_bytes f s) = lock_count s"
  "resched_pending (upd_bytes f s) = resched_pending s" "tick_count (upd_bytes f s) = tick_count s"
  "trap_nesting (upd_bytes f s) = trap_nesting s" "sys_handles (upd_bytes f s) = sys_handles s"
  "sems (upd_bytes f s) = sems s" "mutexes (upd_bytes f s) = mutexes s"
  "msgqs (upd_bytes f s) = msgqs s" "timers (upd_bytes f s) = timers s"
  "timer_links (upd_bytes f s) = timer_links s"
  "timer_initialized (upd_bytes f s) = timer_initialized s"
  "timer_tick_started (upd_bytes f s) = timer_tick_started s"
  "task_count (upd_bytes f s) = task_count s"
  "task_initialized (upd_bytes f s) = task_initialized s"
  "intr_table (upd_bytes f s) = intr_table s"
  "cpu_int_allocated (upd_bytes f s) = cpu_int_allocated s"
  "systimer_cpu_irq (upd_bytes f s) = systimer_cpu_irq s"
  "systimer_initialized (upd_bytes f s) = systimer_initialized s"
  "systimer_started (upd_bytes f s) = systimer_started s"
  by (simp_all add: upd_bytes_def)

text \<open>A scheduler operation that keeps the extension of the record keeps every object.\<close>

lemma same_more:
  assumes "kstate.more s' = kstate.more (s :: 'z sys_scheme)"
  shows "sys_handles s' = sys_handles s"
    and "sys_heap s' = sys_heap s"
    and "sems s' = sems s"
    and "mutexes s' = mutexes s"
    and "msgqs s' = msgqs s"
    and "timers s' = timers s"
    and "timer_links s' = timer_links s"
    and "timer_initialized s' = timer_initialized s"
    and "timer_tick_started s' = timer_tick_started s"
    and "task_count s' = task_count s"
    and "task_initialized s' = task_initialized s"
    and "intr_table s' = intr_table s"
    and "cpu_int_allocated s' = cpu_int_allocated s"
    and "systimer_cpu_irq s' = systimer_cpu_irq s"
    and "systimer_initialized s' = systimer_initialized s"
    and "systimer_started s' = systimer_started s"
  using assms by (cases s; cases s'; simp)+

lemma kinv_upd_object [simp]:
  "kinv T W (upd_sem p f s) \<longleftrightarrow> kinv T W s" "kinv T W (upd_mutex p g s) \<longleftrightarrow> kinv T W s"
  "kinv T W (upd_msgq p h s) \<longleftrightarrow> kinv T W s" "kinv T W (upd_timer p k s) \<longleftrightarrow> kinv T W s"
  "kinv T W (upd_bytes b s) \<longleftrightarrow> kinv T W s"
  by (auto elim!: kinv_frame)

lemma waiters_upd_object [simp]:
  "waiters (upd_sem p f s) w = waiters s w" "waiters (upd_mutex p g s) w = waiters s w"
  "waiters (upd_msgq p h s) w = waiters s w" "waiters (upd_timer p k s) w = waiters s w"
  "waiters (upd_bytes b s) w = waiters s w"
  by (simp_all add: waiters_def)

lemma may_block_upd_object [simp]:
  "may_block (upd_sem p f s) \<longleftrightarrow> may_block s" "may_block (upd_mutex p g s) \<longleftrightarrow> may_block s"
  "may_block (upd_msgq p h s) \<longleftrightarrow> may_block s" "may_block (upd_bytes b s) \<longleftrightarrow> may_block s"
  by (simp_all add: may_block_def sched_is_locked_def)

subsection \<open>What a blocked or woken task leaves of the objects\<close>

text \<open>A task that has just blocked gives the processor up without entering a ready list.\<close>

lemma yield_blocked:
  assumes "task_state (tasks s (current_task s)) \<noteq> TASK_RUNNING" and "\<not> sched_is_locked s"
  shows "task_yield f s = f s"
  using assms by (simp add: task_yield_def)

lemma pop_frame:
  assumes "sched_ready_pop_highest s = Some (t, s')"
  shows "kstate.more s' = kstate.more s \<and> trap_nesting s' = trap_nesting s \<and> started s' = started s"
proof (cases "ready_mask s = 0")
  case False
  with assms show ?thesis
    unfolding sched_ready_pop_highest_def Let_def by (clarsimp split: if_split_asm)
qed (use assms in \<open>simp add: sched_ready_pop_highest_def\<close>)

lemma pick_frame:
  assumes "sched_pick_next s = Some (t, s')"
  shows "kstate.more s' = kstate.more s \<and> trap_nesting s' = trap_nesting s \<and> started s' = started s"
proof -
  obtain u s2 where p: "sched_ready_pop_highest (requeue_current s) = Some (u, s2)"
    and s': "kstate.more s' = kstate.more s2 \<and> trap_nesting s' = trap_nesting s2 \<and> started s' = started s2"
    using assms unfolding sched_pick_next_def Let_def bind_Some_iff
    by (auto simp: set_task_state_def split: if_splits)
  have "kstate.more (requeue_current s) = kstate.more s \<and>
      trap_nesting (requeue_current s) = trap_nesting s \<and> started (requeue_current s) = started s"
    by (simp add: requeue_current_def set_task_state_def Let_def)
  with pop_frame [OF p] s' show ?thesis by simp
qed

lemmas pick_more = pick_frame [THEN conjunct1]

lemma wake_more:
  assumes "kinv T W s" and "w \<in> W"
  shows "kstate.more (snd (trt_wait_q_wake_one_result_locked w r s)) = kstate.more s"
  using wake_result_empty [OF assms, of r] wake_result_first(11) [OF assms, where r = r]
  by (cases "waiters s w") auto

text \<open>The state \<open>s'\<close> at the yield of a task that has blocked on queue \<open>w\<close> in state \<open>s\<close>.\<close>

definition blocked_on :: "wq_t set \<Rightarrow> wq_t \<Rightarrow> 'z kstate_scheme \<Rightarrow> 'z kstate_scheme \<Rightarrow> bool" where
  "blocked_on W w s s' \<longleftrightarrow>
     waiters s' w = enter_waiters s (current_task s) (waiters s w) \<and>
     (\<forall>v\<in>W. v \<noteq> w \<longrightarrow> waiters s' v = waiters s v) \<and>
     task_state (tasks s' (current_task s)) = TASK_BLOCKED \<and>
     wait_result (tasks s' (current_task s)) = TASK_WAIT_NONE \<and>
     (\<forall>t. t \<noteq> current_task s \<longrightarrow> tasks s' t = tasks s t) \<and>
     s' = s\<lparr>tasks := tasks s', lnk := lnk s'\<rparr>"

lemma blocked_onD:
  assumes "blocked_on W w s s'"
  shows "waiters s' w = enter_waiters s (current_task s) (waiters s w)"
    and "v \<in> W \<Longrightarrow> v \<noteq> w \<Longrightarrow> waiters s' v = waiters s v"
    and "task_state (tasks s' (current_task s)) = TASK_BLOCKED"
    and "wait_result (tasks s' (current_task s)) = TASK_WAIT_NONE"
    and "t \<noteq> current_task s \<Longrightarrow> tasks s' t = tasks s t"
    and "current_task s' = current_task s" and "lock_count s' = lock_count s"
    and "idle_task s' = idle_task s" and "kstate.more s' = kstate.more s"
proof -
  show "waiters s' w = enter_waiters s (current_task s) (waiters s w)"
    "v \<in> W \<Longrightarrow> v \<noteq> w \<Longrightarrow> waiters s' v = waiters s v"
    "task_state (tasks s' (current_task s)) = TASK_BLOCKED"
    "wait_result (tasks s' (current_task s)) = TASK_WAIT_NONE"
    "t \<noteq> current_task s \<Longrightarrow> tasks s' t = tasks s t"
    using assms by (simp_all add: blocked_on_def)
  have e: "s' = s\<lparr>tasks := tasks s', lnk := lnk s'\<rparr>" using assms by (simp add: blocked_on_def)
  show "current_task s' = current_task s" "lock_count s' = lock_count s" "idle_task s' = idle_task s"
    "kstate.more s' = kstate.more s"
    by (subst e, simp)+
qed

lemma block_timeout:
  assumes k: "kinv T W s" and w: "w \<in> W" and r: "app_running s" and l: "\<not> sched_is_locked s"
    and n: "us = TRT_TIME_FOREVER_US \<or> timer_us_to_ticks us \<noteq> 0"
  shows "\<exists>s'. trt_wait_q_block_timeout_locked w us s = Some (ERR_OK, s') \<and> kinv T W s' \<and>
    blocked_on W w s s'"
proof (cases "us = TRT_TIME_FOREVER_US")
  case True
  obtain s' where b: "trt_wait_q_block_locked w s = Some (ERR_OK, s')" "kinv T W s'"
    "waiters s' w = enter_waiters s (current_task s) (waiters s w)"
    "\<forall>v\<in>W. v \<noteq> w \<longrightarrow> waiters s' v = waiters s v"
    "tasks s' = (tasks s)(current_task s := (tasks s (current_task s))
      \<lparr>wait_result := TASK_WAIT_NONE, task_state := TASK_BLOCKED, waiting_on_timer := False\<rparr>)"
    "s' = s\<lparr>tasks := tasks s', lnk := lnk s'\<rparr>"
    using block_locked [OF k w running_may_block [OF r l]] by blast
  have "blocked_on W w s s'"
    unfolding blocked_on_def using b(3-5) by (intro conjI b(6)) simp_all
  with b(1,2) show ?thesis using True by (simp add: trt_wait_q_block_timeout_locked_def)
next
  case False
  with n have n0: "timer_us_to_ticks us \<noteq> 0" by simp
  obtain s' where b: "trt_wait_q_block_ticks_locked w (timer_us_to_ticks us) s = Some (ERR_OK, s')"
    "kinv T W s'"
    "waiters s' w = enter_waiters s (current_task s) (waiters s w)"
    "\<forall>v\<in>W. v \<noteq> w \<longrightarrow> waiters s' v = waiters s v"
    "tasks s' = (tasks s)(current_task s := (tasks s (current_task s))
      \<lparr>task_state := TASK_BLOCKED, wakeup := tick_count s + timer_us_to_ticks us,
       waiting_on_timer := True, wait_result := TASK_WAIT_NONE\<rparr>)"
    "s' = s\<lparr>tasks := tasks s', lnk := lnk s'\<rparr>"
    using block_ticks_locked [OF k w running_may_block [OF r l] n0] by blast
  have "blocked_on W w s s'"
    unfolding blocked_on_def using b(3-5) by (intro conjI b(6)) simp_all
  with b(1,2) show ?thesis using False by (simp add: trt_wait_q_block_timeout_locked_def)
qed

lemma block_zero_timeout:
  "us \<noteq> TRT_TIME_FOREVER_US \<Longrightarrow> timer_us_to_ticks us = 0 \<Longrightarrow>
    trt_wait_q_block_timeout_locked w us s = Some (ERR_TIMEOUT, s)"
  by (simp add: trt_wait_q_block_timeout_locked_def trt_wait_q_block_ticks_locked_def)

lemma block_forever: "trt_wait_q_block_locked w = trt_wait_q_block_timeout_locked w TRT_TIME_FOREVER_US"
  by (rule ext) (simp add: trt_wait_q_block_timeout_locked_def)

text \<open>After it the yield is the bare trap.\<close>

lemma blocked_yield:
  assumes "blocked_on W w s s'" and "\<not> sched_is_locked s"
  shows "task_yield f s' = f s'"
  using blocked_onD [OF assms(1)] assms(2) by (intro yield_blocked) (simp_all add: sched_is_locked_def)

end
