(* ===== verification/Tokens.thy ===== *)
theory Tokens
  imports SysFrame
begin

text \<open>
  The contract semaphores and mutexes share: an object holds a number of units and a queue of
  tasks that wait for one.  A release hands its unit to the first waiter and adds it to the object
  only when nobody waits, so no task waits beside an available unit.
\<close>

datatype token_event = Released | Handed_to ptr | Acquired

text \<open>The units given back, and the units that reached a task.\<close>

fun releases :: "token_event list \<Rightarrow> nat" where
  "releases [] = 0"
| "releases (Acquired # es) = releases es"
| "releases (_ # es) = Suc (releases es)"

fun grants :: "token_event list \<Rightarrow> nat" where
  "grants [] = 0"
| "grants (Released # es) = grants es"
| "grants (_ # es) = Suc (grants es)"

lemma releases_append [simp]: "releases (es @ fs) = releases es + releases fs"
  by (induction es rule: releases.induct) auto

lemma grants_append [simp]: "grants (es @ fs) = grants es + grants fs"
  by (induction es rule: grants.induct) auto

inductive token_run ::
    "('s \<Rightarrow> ptr list) \<Rightarrow> ('s \<Rightarrow> bool) \<Rightarrow> ('s \<Rightarrow> err_t \<times> 's) \<Rightarrow> ('s \<Rightarrow> bool) \<Rightarrow> ('s \<Rightarrow> err_t \<times> 's) \<Rightarrow>
      ('s \<Rightarrow> 's \<Rightarrow> bool) \<Rightarrow> 's \<Rightarrow> token_event list \<Rightarrow> 's \<Rightarrow> bool"
  for queue :: "'s \<Rightarrow> ptr list" and may_rel :: "'s \<Rightarrow> bool" and rel :: "'s \<Rightarrow> err_t \<times> 's"
    and may_acq :: "'s \<Rightarrow> bool" and acq :: "'s \<Rightarrow> err_t \<times> 's" and other :: "'s \<Rightarrow> 's \<Rightarrow> bool" and s :: 's
  where
  Start: "token_run queue may_rel rel may_acq acq other s [] s"
| Release: "token_run queue may_rel rel may_acq acq other s es s1 \<Longrightarrow> may_rel s1 \<Longrightarrow>
    queue s1 = [] \<Longrightarrow> rel s1 = (ERR_OK, s2) \<Longrightarrow>
    token_run queue may_rel rel may_acq acq other s (es @ [Released]) s2"
| Hand_over: "token_run queue may_rel rel may_acq acq other s es s1 \<Longrightarrow> may_rel s1 \<Longrightarrow>
    queue s1 = t # ts \<Longrightarrow> rel s1 = (ERR_OK, s2) \<Longrightarrow>
    token_run queue may_rel rel may_acq acq other s (es @ [Handed_to t]) s2"
| Acquire: "token_run queue may_rel rel may_acq acq other s es s1 \<Longrightarrow> may_acq s1 \<Longrightarrow>
    acq s1 = (ERR_OK, s2) \<Longrightarrow> token_run queue may_rel rel may_acq acq other s (es @ [Acquired]) s2"
| Other: "token_run queue may_rel rel may_acq acq other s es s1 \<Longrightarrow> other s1 s2 \<Longrightarrow>
    token_run queue may_rel rel may_acq acq other s es s2"

locale token_object =
  fixes ok :: "'s \<Rightarrow> bool" and queue :: "'s \<Rightarrow> ptr list" and units :: "'s \<Rightarrow> nat"
    and may_rel :: "'s \<Rightarrow> bool" and rel :: "'s \<Rightarrow> err_t \<times> 's"
    and may_acq :: "'s \<Rightarrow> bool" and acq :: "'s \<Rightarrow> err_t \<times> 's" and other :: "'s \<Rightarrow> 's \<Rightarrow> bool"
  assumes no_idle_unit: "ok s \<Longrightarrow> queue s \<noteq> [] \<Longrightarrow> units s = 0"
    and rel_adds: "ok s \<Longrightarrow> may_rel s \<Longrightarrow> queue s = [] \<Longrightarrow>
      \<exists>s'. rel s = (ERR_OK, s') \<and> ok s' \<and> queue s' = [] \<and> units s' = Suc (units s)"
    and rel_hands: "ok s \<Longrightarrow> may_rel s \<Longrightarrow> queue s = t # ts \<Longrightarrow>
      \<exists>s'. rel s = (ERR_OK, s') \<and> ok s' \<and> queue s' = ts \<and> units s' = units s"
    and acq_takes: "ok s \<Longrightarrow> may_acq s \<Longrightarrow> 0 < units s \<Longrightarrow>
      \<exists>s'. acq s = (ERR_OK, s') \<and> ok s' \<and> queue s' = queue s \<and> units s = Suc (units s')"
    and acq_fails: "ok s \<Longrightarrow> may_acq s \<Longrightarrow> units s = 0 \<Longrightarrow> acq s = (ERR_BUSY, s)"
    and other_keeps: "ok s \<Longrightarrow> other s s' \<Longrightarrow> ok s' \<and> units s' = units s"
begin

lemma acq_iff: "ok s \<Longrightarrow> may_acq s \<Longrightarrow> fst (acq s) = ERR_OK \<longleftrightarrow> 0 < units s"
  using acq_takes [of s] acq_fails [of s] by (cases "units s") auto

text \<open>Units are neither lost nor made.\<close>

lemma run_conserves:
  assumes "token_run queue may_rel rel may_acq acq other s es s'" and "ok s"
  shows "ok s' \<and> units s + releases es = units s' + grants es \<and> (queue s' \<noteq> [] \<longrightarrow> units s' = 0)"
  using assms
proof (induction rule: token_run.induct)
  case Start
  then show ?case using no_idle_unit by simp
next
  case (Release es s1 s2)
  then show ?case using rel_adds [of s1] by auto
next
  case (Hand_over es s1 t ts s2)
  then have i: "ok s1" "units s + releases es = units s1 + grants es" by auto
  from rel_hands [OF i(1) Hand_over(2,3)] Hand_over(4) have "ok s2" "units s2 = units s1" by auto
  with i no_idle_unit [of s2] show ?case by simp
next
  case (Acquire es s1 s2)
  then have i: "ok s1" "units s + releases es = units s1 + grants es" by auto
  from acq_iff [OF i(1) Acquire(2)] Acquire(3) have "0 < units s1" by simp
  from acq_takes [OF i(1) Acquire(2) this] Acquire(3) have "ok s2" "units s1 = Suc (units s2)" by auto
  with i no_idle_unit [of s2] show ?case by simp
next
  case (Other es s1 s2)
  then have i: "ok s1" "units s + releases es = units s1 + grants es" by auto
  from other_keeps [OF i(1) Other(2)] i no_idle_unit [of s2] show ?case by simp
qed

end

end
