(* ===== verification/Semaphore.thy ===== *)
theory Semaphore
  imports Tokens
begin

unbundle bit_operations_syntax

text \<open>
  Counting semaphores, \<^verbatim>\<open>src/kernel/semaphore.c\<close>.  The \<open>_obj\<close> functions work on a pointer, the
  public ones on a handle.
\<close>

subsection \<open>Definitions\<close>

definition sem_lookup :: "trt_handle_t \<Rightarrow> u32 \<Rightarrow> 'z sys_scheme \<Rightarrow> (err_t + ptr) \<times> 'z sys_scheme" where
  "sem_lookup h rights s = sys_handle_lookup h TRT_OBJ_SEM rights s"

definition sem_init_obj :: "ptr \<Rightarrow> u32 \<Rightarrow> u32 \<Rightarrow> 'z sys_scheme \<Rightarrow> 'z sys_scheme" where
  "sem_init_obj p mx cnt s =
     trt_wait_q_init (SemWq p) (upd_sem p (\<lambda>_.
       \<lparr>sem_cnt = (if sint cnt < 0 then 0 else cnt),
        sem_max = (if sint mx < sint cnt then cnt else mx),
        sem_destroyed = False\<rparr>) s)"

definition trt_sem_create :: "u32 \<Rightarrow> u32 \<Rightarrow> 'z sys_scheme \<Rightarrow> (trt_handle_t \<times> 'z sys_scheme) option" where
  "trt_sem_create mx cnt s =
     Option.bind (sys_malloc sizeof_sem s) (\<lambda>(p, s1).
       if p = 0 then Some (TRT_HANDLE_INVALID, s1)
       else
         let s2 = sem_init_obj p mx cnt s1 in
         case sys_handle_alloc p TRT_OBJ_SEM
             (TRT_RIGHT_WAIT OR TRT_RIGHT_POST OR TRT_RIGHT_DESTROY) s2 of
           (Inl _, s3) \<Rightarrow> Some (TRT_HANDLE_INVALID, sys_free p s3)
         | (Inr h, s3) \<Rightarrow> Some (h, s3))"

definition sem_destroy_obj :: "ptr \<Rightarrow> 'z sys_scheme \<Rightarrow> (err_t \<times> u32 \<times> 'z sys_scheme) option" where
  "sem_destroy_obj p s =
     (if p = 0 then Some (ERR_INVAL, 0, s)
      else if sem_destroyed (sems s p) then Some (ERR_STATE, 0, s)
      else
        let s1 = upd_sem p (\<lambda>k. k\<lparr>sem_destroyed := True, sem_cnt := 0\<rparr>) s in
        Option.bind (trt_wait_q_wake_all_result_locked (SemWq p) TASK_WAIT_DESTROYED s1)
          (\<lambda>(woken, s2). Some (ERR_OK, woken, s2)))"

definition trt_sem_destroy ::
    "('z sys_scheme \<Rightarrow> 'z sys_scheme option) \<Rightarrow> trt_handle_t \<Rightarrow> 'z sys_scheme \<Rightarrow>
      (err_t \<times> 'z sys_scheme) option" where
  "trt_sem_destroy arch_yield h s =
     (if arch_in_isr s then Some (ERR_STATE, s)
      else with_object (sem_lookup h TRT_RIGHT_DESTROY s) (\<lambda>p s1.
        Option.bind (sem_destroy_obj p s1) (\<lambda>(result, woken, s2).
          if result \<noteq> ERR_OK then Some (result, s2)
          else
            let s3 = sys_free p (sys_handle_close h s2) in
            if woken \<noteq> 0 then Option.bind (task_yield arch_yield s3) (\<lambda>s4. Some (ERR_OK, s4))
            else Some (ERR_OK, s3))))"

definition sem_post_obj :: "ptr \<Rightarrow> 'z sys_scheme \<Rightarrow> err_t \<times> 'z sys_scheme" where
  "sem_post_obj p s =
     (if p = 0 then (ERR_INVAL, s)
      else if sem_destroyed (sems s p) then (ERR_DESTROYED, s)
      else if \<not> trt_wait_q_empty (SemWq p) s
      then (ERR_OK, snd (trt_wait_q_wake_one_locked (SemWq p) s))
      else if sem_cnt (sems s p) = sem_max (sems s p) then (ERR_BUSY, s)
      else (ERR_OK, upd_sem p (\<lambda>k. k\<lparr>sem_cnt := sem_cnt k + 1\<rparr>) s))"

definition trt_sem_post :: "trt_handle_t \<Rightarrow> 'z sys_scheme \<Rightarrow> (err_t \<times> 'z sys_scheme) option" where
  "trt_sem_post h s = with_object (sem_lookup h TRT_RIGHT_POST s) (\<lambda>p s1. Some (sem_post_obj p s1))"

definition sem_post_from_isr_obj :: "ptr \<Rightarrow> 'z sys_scheme \<Rightarrow> err_t \<times> 'z sys_scheme" where
  "sem_post_from_isr_obj p s =
     (if \<not> arch_in_isr s then (ERR_STATE, s)
      else if p = 0 then (ERR_INVAL, s)
      else if sem_destroyed (sems s p) then (ERR_DESTROYED, s)
      else if \<not> trt_wait_q_empty (SemWq p) s
      then (ERR_OK, snd (trt_wait_q_wake_one_from_isr (SemWq p) s))
      else if sem_cnt (sems s p) = sem_max (sems s p) then (ERR_BUSY, s)
      else (ERR_OK, sched_request_from_isr (upd_sem p (\<lambda>k. k\<lparr>sem_cnt := sem_cnt k + 1\<rparr>) s)))"

definition trt_sem_post_from_isr ::
    "trt_handle_t \<Rightarrow> 'z sys_scheme \<Rightarrow> (err_t \<times> 'z sys_scheme) option" where
  "trt_sem_post_from_isr h s =
     with_object (sem_lookup h TRT_RIGHT_POST s) (\<lambda>p s1. Some (sem_post_from_isr_obj p s1))"

definition sem_wait_obj ::
    "('z sys_scheme \<Rightarrow> 'z sys_scheme option) \<Rightarrow> ptr \<Rightarrow> 'z sys_scheme \<Rightarrow>
      (err_t \<times> 'z sys_scheme) option" where
  "sem_wait_obj arch_yield p s =
     (if p = 0 then Some (ERR_INVAL, s)
      else if sem_destroyed (sems s p) then Some (ERR_DESTROYED, s)
      else if 0 < sint (sem_cnt (sems s p))
      then Some (ERR_OK, upd_sem p (\<lambda>k. k\<lparr>sem_cnt := sem_cnt k - 1\<rparr>) s)
      else if sched_is_locked s then Some (ERR_LOCKED, sched_set_pending s)
      else Option.bind (trt_wait_q_block_locked (SemWq p) s) (\<lambda>(result, s1).
        if result \<noteq> ERR_OK then Some (result, s1)
        else Option.bind (task_yield arch_yield s1) (\<lambda>s2. Some (wait_outcome ERR_STATE s2, s2))))"

definition trt_sem_wait ::
    "('z sys_scheme \<Rightarrow> 'z sys_scheme option) \<Rightarrow> trt_handle_t \<Rightarrow> 'z sys_scheme \<Rightarrow>
      (err_t \<times> 'z sys_scheme) option" where
  "trt_sem_wait arch_yield h s =
     with_object (sem_lookup h TRT_RIGHT_WAIT s) (sem_wait_obj arch_yield)"

definition sem_wait_timeout_obj ::
    "('z sys_scheme \<Rightarrow> 'z sys_scheme option) \<Rightarrow> ptr \<Rightarrow> trt_time_t \<Rightarrow> 'z sys_scheme \<Rightarrow>
      (err_t \<times> 'z sys_scheme) option" where
  "sem_wait_timeout_obj arch_yield p timeout s =
     (if timeout = TRT_TIME_FOREVER_US then sem_wait_obj arch_yield p s
      else if p = 0 then Some (ERR_INVAL, s)
      else if sem_destroyed (sems s p) then Some (ERR_DESTROYED, s)
      else if 0 < sint (sem_cnt (sems s p))
      then Some (ERR_OK, upd_sem p (\<lambda>k. k\<lparr>sem_cnt := sem_cnt k - 1\<rparr>) s)
      else if sched_is_locked s then Some (ERR_LOCKED, sched_set_pending s)
      else Option.bind (trt_wait_q_block_timeout_locked (SemWq p) timeout s) (\<lambda>(result, s1).
        if result \<noteq> ERR_OK then Some (result, s1)
        else Option.bind (task_yield arch_yield s1) (\<lambda>s2. Some (wait_outcome ERR_TIMEOUT s2, s2))))"

definition trt_sem_wait_timeout ::
    "('z sys_scheme \<Rightarrow> 'z sys_scheme option) \<Rightarrow> trt_handle_t \<Rightarrow> trt_time_t \<Rightarrow> 'z sys_scheme \<Rightarrow>
      (err_t \<times> 'z sys_scheme) option" where
  "trt_sem_wait_timeout arch_yield h timeout s =
     with_object (sem_lookup h TRT_RIGHT_WAIT s) (\<lambda>p. sem_wait_timeout_obj arch_yield p timeout)"

definition sem_trywait_obj :: "ptr \<Rightarrow> 'z sys_scheme \<Rightarrow> err_t \<times> 'z sys_scheme" where
  "sem_trywait_obj p s =
     (if p = 0 then (ERR_INVAL, s)
      else if sem_destroyed (sems s p) then (ERR_DESTROYED, s)
      else if sem_cnt (sems s p) = 0 then (ERR_BUSY, s)
      else (ERR_OK, upd_sem p (\<lambda>k. k\<lparr>sem_cnt := sem_cnt k - 1\<rparr>) s))"

definition trt_sem_trywait :: "trt_handle_t \<Rightarrow> 'z sys_scheme \<Rightarrow> (err_t \<times> 'z sys_scheme) option" where
  "trt_sem_trywait h s =
     with_object (sem_lookup h TRT_RIGHT_WAIT s) (\<lambda>p s1. Some (sem_trywait_obj p s1))"

subsection \<open>The semaphore invariant\<close>

text \<open>
  The counter is between zero and the maximum, and while a task waits it is zero: no task waits
  for a unit that is there.
\<close>

definition sem_ok :: "ptr \<Rightarrow> 'z sys_scheme \<Rightarrow> bool" where
  "sem_ok p s \<longleftrightarrow> 0 \<le> sint (sem_cnt (sems s p)) \<and> sint (sem_cnt (sems s p)) \<le> sint (sem_max (sems s p)) \<and>
     (waiters s (SemWq p) \<noteq> [] \<longrightarrow> sem_cnt (sems s p) = 0)"

definition sem_units :: "ptr \<Rightarrow> 'z sys_scheme \<Rightarrow> nat" where
  "sem_units p s = unat (sem_cnt (sems s p))"

lemma sem_ok_cong:
  assumes "sem_ok p s" and "sems s' p = sems s p"
    and "set (waiters s' (SemWq p)) \<subseteq> set (waiters s (SemWq p))"
  shows "sem_ok p s'"
  using assms by (auto simp: sem_ok_def)

text \<open>The same in natural numbers: a C \<^verbatim>\<open>int\<close> that is not negative is its 32 bits.\<close>

lemma sem_ok_iff:
  "sem_ok p s \<longleftrightarrow> sem_units p s \<le> unat (sem_max (sems s p)) \<and> unat (sem_max (sems s p)) < 2 ^ 31 \<and>
     (waiters s (SemWq p) \<noteq> [] \<longrightarrow> sem_units p s = 0)"
proof -
  have "0 \<le> sint x \<and> sint x \<le> sint y \<longleftrightarrow> unat x \<le> unat y \<and> unat y < 2 ^ 31" for x y :: u32
    using sint_nonneg_unat [of x] sint_nonneg_unat [of y] sint_nonneg_iff [of x] sint_nonneg_iff [of y]
    by linarith
  then show ?thesis by (auto simp: sem_ok_def sem_units_def unsigned_eq_0_iff)
qed

lemma sem_init_ok:
  assumes k: "kinv T W s" and w: "SemWq p \<notin> W"
  fixes mx cnt :: u32
  defines "s' \<equiv> sem_init_obj p mx cnt s"
  shows "kinv T (insert (SemWq p) W) s'"
    and "waiters s' (SemWq p) = []" and "v \<in> W \<Longrightarrow> waiters s' v = waiters s v"
    and "sem_ok p s' \<longleftrightarrow> 0 \<le> sint mx \<or> 0 \<le> sint cnt"
    and "\<not> sem_destroyed (sems s' p)"
proof -
  note q = wait_q_init [OF _ w, where s = "upd_sem p _ s"]
  have n: "SemWq p \<noteq> NullWq" by simp
  show "kinv T (insert (SemWq p) W) s'" "waiters s' (SemWq p) = []" "v \<in> W \<Longrightarrow> waiters s' v = waiters s v"
    unfolding s'_def sem_init_obj_def using q [OF _ n] k by simp_all
  then show "sem_ok p s' \<longleftrightarrow> 0 \<le> sint mx \<or> 0 \<le> sint cnt" "\<not> sem_destroyed (sems s' p)"
    by (auto simp: sem_ok_def s'_def sem_init_obj_def trt_wait_q_init_def upd_lnk_def)
qed

subsection \<open>Posting\<close>

text \<open>A live semaphore of the system, as the operations find it.\<close>

definition sem_live :: "ptr set \<Rightarrow> wq_t set \<Rightarrow> ptr \<Rightarrow> 'z sys_scheme \<Rightarrow> bool" where
  "sem_live T W p s \<longleftrightarrow> kinv T W s \<and> SemWq p \<in> W \<and> p \<noteq> 0 \<and> sem_ok p s \<and> \<not> sem_destroyed (sems s p)"

lemma sem_liveD:
  assumes "sem_live T W p s"
  shows "kinv T W s" "SemWq p \<in> W" "p \<noteq> 0" "sem_ok p s" "\<not> sem_destroyed (sems s p)"
  using assms by (simp_all add: sem_live_def)

text \<open>A post with a waiter hands the unit over and leaves the counter at zero.\<close>

lemma sem_post_wakes:
  assumes l: "sem_live T W p s" and x: "waiters s (SemWq p) = t # ts"
  defines "s' \<equiv> snd (trt_wait_q_wake_one_result_locked (SemWq p) TASK_WAIT_OBJECT s)"
  shows "sem_post_obj p s = (ERR_OK, s')" and "sem_live T W p s'"
    and "waiters s' (SemWq p) = ts" and "sems s' = sems s"
    and "tasks s' = (tasks s)(t := woken TASK_WAIT_OBJECT (tasks s t))"
proof -
  note d = sem_liveD [OF l]
  note f = wake_result_first [OF d(1,2) x, where r = TASK_WAIT_OBJECT, folded s'_def]
    and v = waiters_after_wake(1) [OF d(1,2) x, where r = TASK_WAIT_OBJECT, folded s'_def]
  have "\<not> trt_wait_q_empty (SemWq p) s"
    using empty_waiters [OF d(1,2)] x by (auto simp: waiters_def)
  then show "sem_post_obj p s = (ERR_OK, s')"
    using d(3,5) by (simp add: sem_post_obj_def trt_wait_q_wake_one_locked_def s'_def)
  show "waiters s' (SemWq p) = ts" by (rule v)
  show sm: "sems s' = sems s" by (rule same_more(3) [OF f(11)])
  have "sem_ok p s'" by (rule sem_ok_cong [OF d(4)]) (use sm v x in auto)
  then show "sem_live T W p s'" using d f(2) sm by (simp add: sem_live_def)
  show "tasks s' = (tasks s)(t := woken TASK_WAIT_OBJECT (tasks s t))"
    by (simp add: f(3) woken_def)
qed

text \<open>Without a waiter it adds a unit, up to the maximum.\<close>

lemma sem_post_counts:
  assumes l: "sem_live T W p s" and x: "waiters s (SemWq p) = []"
  defines "s' \<equiv> upd_sem p (\<lambda>k. k\<lparr>sem_cnt := sem_cnt k + 1\<rparr>) s"
  shows "sem_units p s < unat (sem_max (sems s p)) \<Longrightarrow> sem_post_obj p s = (ERR_OK, s')"
    and "sem_units p s < unat (sem_max (sems s p)) \<Longrightarrow> sem_live T W p s'"
    and "sem_units p s < unat (sem_max (sems s p)) \<Longrightarrow> sem_units p s' = Suc (sem_units p s)"
    and "sem_units p s = unat (sem_max (sems s p)) \<Longrightarrow> sem_post_obj p s = (ERR_BUSY, s)"
proof -
  note d = sem_liveD [OF l]
  have e: "trt_wait_q_empty (SemWq p) s"
    using empty_waiters [OF d(1,2)] x by (simp add: waiters_def)
  have eq: "sem_cnt (sems s p) = sem_max (sems s p) \<longleftrightarrow> sem_units p s = unat (sem_max (sems s p))"
    by (simp add: sem_units_def word_unat_eq_iff)
  show "sem_units p s < unat (sem_max (sems s p)) \<Longrightarrow> sem_post_obj p s = (ERR_OK, s')"
    "sem_units p s = unat (sem_max (sems s p)) \<Longrightarrow> sem_post_obj p s = (ERR_BUSY, s)"
    using d e eq by (auto simp: sem_post_obj_def s'_def)
  assume m: "sem_units p s < unat (sem_max (sems s p))"
  then show u: "sem_units p s' = Suc (sem_units p s)"
    using unat_u32_less [of "sem_max (sems s p)"]
    by (simp add: sem_units_def s'_def unat_word_ariths)
  then show "sem_live T W p s'"
    using d m x by (simp add: sem_live_def sem_ok_iff) (simp add: s'_def)
qed

subsection \<open>Waiting\<close>

lemma sem_cnt_zero_iff: "sem_cnt (sems s p) = 0 \<longleftrightarrow> sem_units p s = 0"
  by (simp add: sem_units_def unsigned_eq_0_iff)

lemma sem_positive_iff:
  assumes "sem_ok p s"
  shows "0 < sint (sem_cnt (sems s p)) \<longleftrightarrow> 0 < sem_units p s"
proof -
  have "sint (sem_cnt (sems s p)) = int (sem_units p s)"
    using assms unfolding sem_ok_def sem_units_def by (intro sint_nonneg_unat) blast
  then show ?thesis by (simp only: of_nat_0_less_iff)
qed

lemma sem_take:
  assumes l: "sem_live T W p s" and u: "0 < sem_units p s"
  defines "s' \<equiv> upd_sem p (\<lambda>k. k\<lparr>sem_cnt := sem_cnt k - 1\<rparr>) s"
  shows "sem_live T W p s'" and "sem_units p s = Suc (sem_units p s')"
    and "sem_trywait_obj p s = (ERR_OK, s')"
    and "sem_wait_obj f p s = Some (ERR_OK, s')"
    and "sem_wait_timeout_obj f p us s = Some (ERR_OK, s')"
proof -
  note d = sem_liveD [OF l]
  show su: "sem_units p s = Suc (sem_units p s')"
    using u unat_minus_one [of "sem_cnt (sems s p)"] sem_cnt_zero_iff [of s p]
    by (simp add: sem_units_def s'_def)
  have "waiters s (SemWq p) = []" using u d(4) by (auto simp: sem_ok_iff)
  then show "sem_live T W p s'"
    using d su by (simp add: sem_live_def sem_ok_iff) (simp add: s'_def)
  show "sem_trywait_obj p s = (ERR_OK, s')"
    using d u sem_cnt_zero_iff [of s p] by (simp add: sem_trywait_obj_def s'_def)
  show w: "sem_wait_obj f p s = Some (ERR_OK, s')"
    using d u sem_positive_iff [OF d(4)] by (simp add: sem_wait_obj_def s'_def)
  show "sem_wait_timeout_obj f p us s = Some (ERR_OK, s')"
    using d u sem_positive_iff [OF d(4)] w by (simp add: sem_wait_timeout_obj_def s'_def)
qed

lemma sem_try_empty:
  assumes "sem_live T W p s" and "sem_units p s = 0"
  shows "sem_trywait_obj p s = (ERR_BUSY, s)"
  using sem_liveD [OF assms(1)] assms(2) sem_cnt_zero_iff [of s p] by (simp add: sem_trywait_obj_def)

text \<open>
  Without a unit the caller blocks.  The continuation \<open>f\<close> is the system from the yield until the
  caller runs again; a semaphore never looks at its counter again, the wait result decides.
\<close>

lemma sem_wait_blocked:
  assumes l: "sem_live T W p s" and u: "sem_units p s = 0" and nl: "\<not> sched_is_locked s"
    and n: "us = TRT_TIME_FOREVER_US \<or> timer_us_to_ticks us \<noteq> 0"
    and b: "trt_wait_q_block_timeout_locked (SemWq p) us s = Some (ERR_OK, s')" "blocked_on W (SemWq p) s s'"
  shows "sem_wait_timeout_obj f p us s = Option.bind (f s') (\<lambda>s2. Some (wait_outcome
      (if us = TRT_TIME_FOREVER_US then ERR_STATE else ERR_TIMEOUT) s2, s2))"
proof -
  note d = sem_liveD [OF l]
  have "\<not> 0 < sint (sem_cnt (sems s p))" using sem_positive_iff [OF d(4)] u by simp
  moreover have "task_yield f s' = f s'" by (rule blocked_yield [OF b(2) nl])
  ultimately show ?thesis
    using d nl b(1)
    by (cases "us = TRT_TIME_FOREVER_US") (simp_all add: sem_wait_timeout_obj_def sem_wait_obj_def block_forever)
qed

lemma sem_wait_blocks:
  assumes l: "sem_live T W p s" and u: "sem_units p s = 0" and r: "app_running s"
    and nl: "\<not> sched_is_locked s" and n: "us = TRT_TIME_FOREVER_US \<or> timer_us_to_ticks us \<noteq> 0"
  shows "\<exists>s'. blocked_on W (SemWq p) s s' \<and> sem_live T W p s' \<and>
    sem_wait_timeout_obj f p us s = Option.bind (f s') (\<lambda>s2. Some (wait_outcome
      (if us = TRT_TIME_FOREVER_US then ERR_STATE else ERR_TIMEOUT) s2, s2))"
proof -
  note d = sem_liveD [OF l]
  obtain s' where b: "trt_wait_q_block_timeout_locked (SemWq p) us s = Some (ERR_OK, s')"
    "kinv T W s'" "blocked_on W (SemWq p) s s'"
    using block_timeout [OF d(1,2) r nl n] by blast
  have sm: "sems s' = sems s" by (rule same_more(3) [OF blocked_onD(9) [OF b(3)]])
  have "sem_live T W p s'"
    using d b(2) u by (simp add: sem_live_def sem_ok_iff sem_units_def sm)
  with sem_wait_blocked [OF l u nl n b(1,3), of f] b(3) show ?thesis by blast
qed

lemma sem_wait_refused:
  assumes l: "sem_live T W p s" and u: "sem_units p s = 0"
  shows "sched_is_locked s \<Longrightarrow> sem_wait_timeout_obj f p us s = Some (ERR_LOCKED, sched_set_pending s)"
    and "\<not> sched_is_locked s \<Longrightarrow> us \<noteq> TRT_TIME_FOREVER_US \<Longrightarrow> timer_us_to_ticks us = 0 \<Longrightarrow>
      sem_wait_timeout_obj f p us s = Some (ERR_TIMEOUT, s)"
proof -
  note d = sem_liveD [OF l]
  have ng: "\<not> 0 < sint (sem_cnt (sems s p))" using sem_positive_iff [OF d(4)] u by simp
  show "sched_is_locked s \<Longrightarrow> sem_wait_timeout_obj f p us s = Some (ERR_LOCKED, sched_set_pending s)"
    using d ng by (simp add: sem_wait_timeout_obj_def sem_wait_obj_def)
  show "\<not> sched_is_locked s \<Longrightarrow> us \<noteq> TRT_TIME_FOREVER_US \<Longrightarrow> timer_us_to_ticks us = 0 \<Longrightarrow>
      sem_wait_timeout_obj f p us s = Some (ERR_TIMEOUT, s)"
    using d ng by (simp add: sem_wait_timeout_obj_def block_zero_timeout)
qed

lemma sem_wait_forever: "sem_wait_obj f p s = sem_wait_timeout_obj f p TRT_TIME_FOREVER_US s"
  by (simp add: sem_wait_timeout_obj_def)

text \<open>On a destroyed semaphore every operation reports it.\<close>

lemma sem_dead:
  assumes "sem_destroyed (sems s p)" and "p \<noteq> 0"
  shows "sem_post_obj p s = (ERR_DESTROYED, s)" "sem_trywait_obj p s = (ERR_DESTROYED, s)"
    "sem_wait_timeout_obj f p us s = Some (ERR_DESTROYED, s)"
    "sem_destroy_obj p s = Some (ERR_STATE, 0, s)"
  using assms by (simp_all add: sem_post_obj_def sem_trywait_obj_def sem_wait_timeout_obj_def
      sem_wait_obj_def sem_destroy_obj_def)

subsection \<open>Destruction\<close>

lemma sem_destroy:
  assumes k: "kinv T W s" and w: "SemWq p \<in> W" and p: "p \<noteq> 0" "\<not> sem_destroyed (sems s p)"
  shows "\<exists>s'. sem_destroy_obj p s = Some (ERR_OK, of_nat (length (waiters s (SemWq p))), s') \<and>
    kinv T W s' \<and> sem_destroyed (sems s' p) \<and> sem_units p s' = 0 \<and> waiters s' (SemWq p) = [] \<and>
    (\<forall>t. tasks s' t = (if t \<in> set (waiters s (SemWq p)) then woken TASK_WAIT_DESTROYED (tasks s t)
       else tasks s t)) \<and>
    sems s' = (sems s)(p := (sems s p)\<lparr>sem_destroyed := True, sem_cnt := 0\<rparr>) \<and>
    (\<forall>v\<in>W. v \<noteq> SemWq p \<longrightarrow> waiters s' v = waiters s v) \<and>
    kstate.more s' = kstate.more (upd_sem p (\<lambda>k. k\<lparr>sem_destroyed := True, sem_cnt := 0\<rparr>) s)"
proof -
  let ?u = "upd_sem p (\<lambda>k. k\<lparr>sem_destroyed := True, sem_cnt := 0\<rparr>) s"
  have k': "kinv T W ?u" using k by simp
  from wake_all [OF k' w, of TASK_WAIT_DESTROYED] obtain s' where
    a: "trt_wait_q_wake_all_result_locked (SemWq p) TASK_WAIT_DESTROYED ?u =
      Some (of_nat (length (waiters s (SemWq p))), s')" "kinv T W s'"
      "all_woken W (SemWq p) TASK_WAIT_DESTROYED ?u s'"
    by auto
  have m: "kstate.more s' = kstate.more ?u" using a(3) by (simp add: all_woken_def)
  have "sems s' = sems ?u" by (rule same_more(3) [OF m])
  with a m p show ?thesis
    by (intro exI [of _ s']) (simp add: sem_destroy_obj_def all_woken_def sem_units_def)
qed

subsection \<open>The contract\<close>

text \<open>A post may be refused at the maximum; the contract is about the posts that are not.\<close>

definition sem_may_post :: "ptr \<Rightarrow> 'z sys_scheme \<Rightarrow> bool" where
  "sem_may_post p s \<longleftrightarrow> waiters s (SemWq p) = [] \<longrightarrow> sem_units p s < unat (sem_max (sems s p))"

definition sem_quiet :: "ptr set \<Rightarrow> wq_t set \<Rightarrow> ptr \<Rightarrow> 'z sys_scheme \<Rightarrow> 'z sys_scheme \<Rightarrow> bool" where
  "sem_quiet T W p s s' \<longleftrightarrow> sem_live T W p s' \<and> sems s' p = sems s p"

interpretation sem: token_object "sem_live T W p" "\<lambda>s. waiters s (SemWq p)" "sem_units p"
    "sem_may_post p" "sem_post_obj p" "\<lambda>_. True" "sem_trywait_obj p" "sem_quiet T W p" for T W p
proof unfold_locales
  show "sem_units p s = 0" if "sem_live T W p s" "waiters s (SemWq p) \<noteq> []" for s
    using sem_liveD(4) [OF that(1)] that(2) by (simp add: sem_ok_iff)
  show "\<exists>s'. sem_post_obj p s = (ERR_OK, s') \<and> sem_live T W p s' \<and> waiters s' (SemWq p) = [] \<and>
      sem_units p s' = Suc (sem_units p s)"
    if l: "sem_live T W p s" "sem_may_post p s" "waiters s (SemWq p) = []" for s
    using sem_post_counts(1-3) [OF l(1,3)] l(2,3) by (simp add: sem_may_post_def)
  show "\<exists>s'. sem_post_obj p s = (ERR_OK, s') \<and> sem_live T W p s' \<and> waiters s' (SemWq p) = ts \<and>
      sem_units p s' = sem_units p s"
    if l: "sem_live T W p s" "waiters s (SemWq p) = t # ts" for s t ts
    using sem_post_wakes(1-4) [OF l] by (simp add: sem_units_def)
  show "\<exists>s'. sem_trywait_obj p s = (ERR_OK, s') \<and> sem_live T W p s' \<and>
      waiters s' (SemWq p) = waiters s (SemWq p) \<and> sem_units p s = Suc (sem_units p s')"
    if l: "sem_live T W p s" "0 < sem_units p s" for s
    using sem_take(1-3) [OF l] by (intro exI conjI) (assumption | simp)+
  show "sem_trywait_obj p s = (ERR_BUSY, s)" if "sem_live T W p s" "sem_units p s = 0" for s
    using sem_try_empty [OF that] .
  show "sem_live T W p s' \<and> sem_units p s' = sem_units p s"
    if "sem_live T W p s" "sem_quiet T W p s s'" for s s'
    using that(2) by (simp add: sem_quiet_def sem_units_def)
qed

end
