(* ===== verification/Mutex.thy ===== *)
theory Mutex
  imports Tokens
begin

unbundle bit_operations_syntax

text \<open>
  Recursive mutexes with direct hand-over, \<^verbatim>\<open>src/kernel/mutex.c\<close>.  An unlock that finds a waiter
  makes that waiter the owner before it runs.
\<close>

subsection \<open>Definitions\<close>

definition mutex_lookup :: "trt_handle_t \<Rightarrow> u32 \<Rightarrow> 'z sys_scheme \<Rightarrow> (err_t + ptr) \<times> 'z sys_scheme" where
  "mutex_lookup h rights s = sys_handle_lookup h TRT_OBJ_MUTEX rights s"

definition mutex_init_obj :: "ptr \<Rightarrow> 'z sys_scheme \<Rightarrow> 'z sys_scheme" where
  "mutex_init_obj p s =
     trt_wait_q_init (MutexWq p)
       (upd_mutex p (\<lambda>_. \<lparr>mtx_owner = 0, mtx_lock_count = 0, mtx_destroyed = False\<rparr>) s)"

definition trt_mutex_create :: "'z sys_scheme \<Rightarrow> (trt_handle_t \<times> 'z sys_scheme) option" where
  "trt_mutex_create s =
     Option.bind (sys_malloc sizeof_mutex s) (\<lambda>(p, s1).
       if p = 0 then Some (TRT_HANDLE_INVALID, s1)
       else
         let s2 = mutex_init_obj p s1 in
         case sys_handle_alloc p TRT_OBJ_MUTEX
             (TRT_RIGHT_WAIT OR TRT_RIGHT_POST OR TRT_RIGHT_DESTROY) s2 of
           (Inl _, s3) \<Rightarrow> Some (TRT_HANDLE_INVALID, sys_free p s3)
         | (Inr h, s3) \<Rightarrow> Some (h, s3))"

definition mutex_destroy_obj :: "ptr \<Rightarrow> 'z sys_scheme \<Rightarrow> (err_t \<times> u32 \<times> 'z sys_scheme) option" where
  "mutex_destroy_obj p s =
     (if p = 0 then Some (ERR_INVAL, 0, s)
      else if mtx_destroyed (mutexes s p) then Some (ERR_STATE, 0, s)
      else
        let s1 = upd_mutex p (\<lambda>k. k\<lparr>mtx_destroyed := True, mtx_owner := 0, mtx_lock_count := 0\<rparr>) s in
        Option.bind (trt_wait_q_wake_all_result_locked (MutexWq p) TASK_WAIT_DESTROYED s1)
          (\<lambda>(woken, s2). Some (ERR_OK, woken, s2)))"

definition trt_mutex_destroy ::
    "('z sys_scheme \<Rightarrow> 'z sys_scheme option) \<Rightarrow> trt_handle_t \<Rightarrow> 'z sys_scheme \<Rightarrow>
      (err_t \<times> 'z sys_scheme) option" where
  "trt_mutex_destroy arch_yield h s =
     (if arch_in_isr s then Some (ERR_STATE, s)
      else with_object (mutex_lookup h TRT_RIGHT_DESTROY s) (\<lambda>p s1.
        Option.bind (mutex_destroy_obj p s1) (\<lambda>(result, woken, s2).
          if result \<noteq> ERR_OK then Some (result, s2)
          else
            let s3 = sys_free p (sys_handle_close h s2) in
            if woken \<noteq> 0 then Option.bind (task_yield arch_yield s3) (\<lambda>s4. Some (ERR_OK, s4))
            else Some (ERR_OK, s3))))"

definition mutex_take :: "ptr \<Rightarrow> 'z sys_scheme \<Rightarrow> 'z sys_scheme" where
  "mutex_take p s = upd_mutex p (\<lambda>k. k\<lparr>mtx_owner := current_task s, mtx_lock_count := 1\<rparr>) s"

definition mutex_again :: "ptr \<Rightarrow> 'z sys_scheme \<Rightarrow> 'z sys_scheme" where
  "mutex_again p s = upd_mutex p (\<lambda>k. k\<lparr>mtx_lock_count := mtx_lock_count k + 1\<rparr>) s"

definition mutex_trylock_obj :: "ptr \<Rightarrow> 'z sys_scheme \<Rightarrow> err_t \<times> 'z sys_scheme" where
  "mutex_trylock_obj p s =
     (if p = 0 \<or> current_task s = 0 then (ERR_INVAL, s)
      else if mtx_destroyed (mutexes s p) then (ERR_DESTROYED, s)
      else if mtx_owner (mutexes s p) = 0 then (ERR_OK, mutex_take p s)
      else if mtx_owner (mutexes s p) = current_task s then (ERR_OK, mutex_again p s)
      else (ERR_BUSY, s))"

definition trt_mutex_trylock :: "trt_handle_t \<Rightarrow> 'z sys_scheme \<Rightarrow> (err_t \<times> 'z sys_scheme) option" where
  "trt_mutex_trylock h s =
     with_object (mutex_lookup h TRT_RIGHT_WAIT s) (\<lambda>p s1. Some (mutex_trylock_obj p s1))"

definition mutex_lock_obj ::
    "('z sys_scheme \<Rightarrow> 'z sys_scheme option) \<Rightarrow> ptr \<Rightarrow> 'z sys_scheme \<Rightarrow>
      (err_t \<times> 'z sys_scheme) option" where
  "mutex_lock_obj arch_yield p s =
     (if p = 0 \<or> current_task s = 0 then Some (ERR_INVAL, s)
      else if mtx_destroyed (mutexes s p) then Some (ERR_DESTROYED, s)
      else if mtx_owner (mutexes s p) = 0 then Some (ERR_OK, mutex_take p s)
      else if mtx_owner (mutexes s p) = current_task s then Some (ERR_OK, mutex_again p s)
      else Option.bind (trt_wait_q_block_locked (MutexWq p) s) (\<lambda>(result, s1).
        if result \<noteq> ERR_OK then Some (result, s1)
        else Option.bind (task_yield arch_yield s1) (\<lambda>s2. Some
          (if current_wait_result s2 = TASK_WAIT_DESTROYED then ERR_DESTROYED
           else if mtx_owner (mutexes s2 p) = current_task s2 then ERR_OK else ERR_STATE, s2))))"

definition trt_mutex_lock ::
    "('z sys_scheme \<Rightarrow> 'z sys_scheme option) \<Rightarrow> trt_handle_t \<Rightarrow> 'z sys_scheme \<Rightarrow>
      (err_t \<times> 'z sys_scheme) option" where
  "trt_mutex_lock arch_yield h s =
     with_object (mutex_lookup h TRT_RIGHT_WAIT s) (mutex_lock_obj arch_yield)"

definition mutex_lock_timeout_obj ::
    "('z sys_scheme \<Rightarrow> 'z sys_scheme option) \<Rightarrow> ptr \<Rightarrow> trt_time_t \<Rightarrow> 'z sys_scheme \<Rightarrow>
      (err_t \<times> 'z sys_scheme) option" where
  "mutex_lock_timeout_obj arch_yield p timeout s =
     (if timeout = TRT_TIME_FOREVER_US then mutex_lock_obj arch_yield p s
      else if p = 0 \<or> current_task s = 0 then Some (ERR_INVAL, s)
      else if mtx_destroyed (mutexes s p) then Some (ERR_DESTROYED, s)
      else if mtx_owner (mutexes s p) = 0 then Some (ERR_OK, mutex_take p s)
      else if mtx_owner (mutexes s p) = current_task s then Some (ERR_OK, mutex_again p s)
      else Option.bind (trt_wait_q_block_timeout_locked (MutexWq p) timeout s) (\<lambda>(result, s1).
        if result \<noteq> ERR_OK then Some (result, s1)
        else Option.bind (task_yield arch_yield s1) (\<lambda>s2. Some
          (if current_wait_result s2 = TASK_WAIT_DESTROYED then ERR_DESTROYED
           else if current_wait_result s2 = TASK_WAIT_OBJECT \<and>
             mtx_owner (mutexes s2 p) = current_task s2 then ERR_OK else ERR_TIMEOUT, s2))))"

definition trt_mutex_lock_timeout ::
    "('z sys_scheme \<Rightarrow> 'z sys_scheme option) \<Rightarrow> trt_handle_t \<Rightarrow> trt_time_t \<Rightarrow> 'z sys_scheme \<Rightarrow>
      (err_t \<times> 'z sys_scheme) option" where
  "trt_mutex_lock_timeout arch_yield h timeout s =
     with_object (mutex_lookup h TRT_RIGHT_WAIT s) (\<lambda>p. mutex_lock_timeout_obj arch_yield p timeout)"

definition mutex_unlock_obj :: "ptr \<Rightarrow> 'z sys_scheme \<Rightarrow> err_t \<times> 'z sys_scheme" where
  "mutex_unlock_obj p s =
     (if p = 0 \<or> current_task s = 0 then (ERR_INVAL, s)
      else if mtx_destroyed (mutexes s p) then (ERR_DESTROYED, s)
      else if mtx_owner (mutexes s p) \<noteq> current_task s \<or> mtx_lock_count (mutexes s p) = 0
      then (ERR_PERM, s)
      else
        let s1 = upd_mutex p (\<lambda>k. k\<lparr>mtx_lock_count := mtx_lock_count k - 1\<rparr>) s in
        if mtx_lock_count (mutexes s1 p) \<noteq> 0 then (ERR_OK, s1)
        else
          let (next, s2) = trt_wait_q_wake_one_locked (MutexWq p) s1 in
          if next \<noteq> 0
          then (ERR_OK, upd_mutex p (\<lambda>k. k\<lparr>mtx_owner := next, mtx_lock_count := 1\<rparr>) s2)
          else (ERR_OK, upd_mutex p (\<lambda>k. k\<lparr>mtx_owner := 0\<rparr>) s2))"

definition trt_mutex_unlock :: "trt_handle_t \<Rightarrow> 'z sys_scheme \<Rightarrow> (err_t \<times> 'z sys_scheme) option" where
  "trt_mutex_unlock h s =
     with_object (mutex_lookup h TRT_RIGHT_POST s) (\<lambda>p s1. Some (mutex_unlock_obj p s1))"

subsection \<open>The mutex invariant\<close>

text \<open>
  A free mutex has no lock count and no waiter, and the owner does not wait for its own mutex.
\<close>

definition mutex_ok :: "ptr \<Rightarrow> 'z sys_scheme \<Rightarrow> bool" where
  "mutex_ok p s \<longleftrightarrow>
     (mtx_owner (mutexes s p) = 0 \<longrightarrow> mtx_lock_count (mutexes s p) = 0 \<and> waiters s (MutexWq p) = []) \<and>
     mtx_owner (mutexes s p) \<notin> set (waiters s (MutexWq p))"

definition mutex_live :: "ptr set \<Rightarrow> wq_t set \<Rightarrow> ptr \<Rightarrow> 'z sys_scheme \<Rightarrow> bool" where
  "mutex_live T W p s \<longleftrightarrow>
     kinv T W s \<and> MutexWq p \<in> W \<and> p \<noteq> 0 \<and> mutex_ok p s \<and> \<not> mtx_destroyed (mutexes s p)"

lemma mutex_liveD:
  assumes "mutex_live T W p s"
  shows "kinv T W s" "MutexWq p \<in> W" "p \<noteq> 0" "mutex_ok p s" "\<not> mtx_destroyed (mutexes s p)"
  using assms by (simp_all add: mutex_live_def)

lemma mutex_ok_cong:
  assumes "mutex_ok p s" and "mutexes s' p = mutexes s p"
    and "set (waiters s' (MutexWq p)) \<subseteq> set (waiters s (MutexWq p))"
  shows "mutex_ok p s'"
  using assms by (auto simp: mutex_ok_def)

lemma mutex_init_ok:
  assumes k: "kinv T W s" and w: "MutexWq p \<notin> W"
  defines "s' \<equiv> mutex_init_obj p s"
  shows "kinv T (insert (MutexWq p) W) s'"
    and "waiters s' (MutexWq p) = []" and "v \<in> W \<Longrightarrow> waiters s' v = waiters s v"
    and "mutex_ok p s'" and "\<not> mtx_destroyed (mutexes s' p)"
proof -
  note q = wait_q_init [OF _ w, where s = "upd_mutex p _ s"]
  have n: "MutexWq p \<noteq> NullWq" by simp
  show "kinv T (insert (MutexWq p) W) s'" "waiters s' (MutexWq p) = []"
    "v \<in> W \<Longrightarrow> waiters s' v = waiters s v"
    unfolding s'_def mutex_init_obj_def using q [OF _ n] k by simp_all
  then show "mutex_ok p s'" "\<not> mtx_destroyed (mutexes s' p)"
    by (auto simp: mutex_ok_def s'_def mutex_init_obj_def trt_wait_q_init_def upd_lnk_def)
qed

subsection \<open>Locking\<close>

lemma mutex_lock_free:
  assumes l: "mutex_live T W p s" and o: "mtx_owner (mutexes s p) = 0" and c: "current_task s \<noteq> 0"
  shows "mutex_live T W p (mutex_take p s)"
    and "mutex_trylock_obj p s = (ERR_OK, mutex_take p s)"
    and "mutex_lock_timeout_obj f p us s = Some (ERR_OK, mutex_take p s)"
  using mutex_liveD [OF l] o c
  by (simp_all add: mutex_live_def mutex_ok_def mutex_take_def mutex_trylock_obj_def
      mutex_lock_timeout_obj_def mutex_lock_obj_def)

lemma mutex_lock_own:
  assumes l: "mutex_live T W p s" and o: "mtx_owner (mutexes s p) = current_task s"
    and c: "current_task s \<noteq> 0"
  shows "mutex_live T W p (mutex_again p s)"
    and "mutex_trylock_obj p s = (ERR_OK, mutex_again p s)"
    and "mutex_lock_timeout_obj f p us s = Some (ERR_OK, mutex_again p s)"
  using mutex_liveD [OF l] o c
  by (simp_all add: mutex_live_def mutex_ok_def mutex_again_def mutex_trylock_obj_def
      mutex_lock_timeout_obj_def mutex_lock_obj_def)

lemma mutex_try_taken:
  assumes "mutex_live T W p s" and "mtx_owner (mutexes s p) \<notin> {0, current_task s}"
    and "current_task s \<noteq> 0"
  shows "mutex_trylock_obj p s = (ERR_BUSY, s)"
  using mutex_liveD [OF assms(1)] assms(2,3) by (simp add: mutex_trylock_obj_def)

text \<open>
  A task that finds the mutex taken blocks, and its lock succeeds if it is the owner when it runs
  again.
\<close>

definition mutex_outcome :: "ptr \<Rightarrow> trt_time_t \<Rightarrow> 'z sys_scheme \<Rightarrow> err_t" where
  "mutex_outcome p us s =
     (if current_wait_result s = TASK_WAIT_DESTROYED then ERR_DESTROYED
      else if us = TRT_TIME_FOREVER_US
      then if mtx_owner (mutexes s p) = current_task s then ERR_OK else ERR_STATE
      else if current_wait_result s = TASK_WAIT_OBJECT \<and> mtx_owner (mutexes s p) = current_task s
      then ERR_OK else ERR_TIMEOUT)"

lemma mutex_lock_blocked:
  assumes l: "mutex_live T W p s" and o: "mtx_owner (mutexes s p) \<notin> {0, current_task s}"
    and c: "current_task s \<noteq> 0" and nl: "\<not> sched_is_locked s"
    and b: "trt_wait_q_block_timeout_locked (MutexWq p) us s = Some (ERR_OK, s')"
      "blocked_on W (MutexWq p) s s'"
  shows "mutex_lock_timeout_obj f p us s = Option.bind (f s') (\<lambda>s2. Some (mutex_outcome p us s2, s2))"
  using mutex_liveD [OF l] o c b(1) blocked_yield [OF b(2) nl, of f]
  by (cases "us = TRT_TIME_FOREVER_US")
    (simp_all add: mutex_lock_timeout_obj_def mutex_lock_obj_def block_forever mutex_outcome_def
      cong: if_cong)

lemma mutex_lock_blocks:
  assumes l: "mutex_live T W p s" and o: "mtx_owner (mutexes s p) \<notin> {0, current_task s}"
    and r: "app_running s" and nl: "\<not> sched_is_locked s"
    and n: "us = TRT_TIME_FOREVER_US \<or> timer_us_to_ticks us \<noteq> 0"
  shows "\<exists>s'. blocked_on W (MutexWq p) s s' \<and> mutex_live T W p s' \<and> mutexes s' = mutexes s \<and>
    mutex_lock_timeout_obj f p us s =
      Option.bind (f s') (\<lambda>s2. Some (mutex_outcome p us s2, s2))"
proof -
  note d = mutex_liveD [OF l]
  obtain s' where b: "trt_wait_q_block_timeout_locked (MutexWq p) us s = Some (ERR_OK, s')"
    "kinv T W s'" "blocked_on W (MutexWq p) s s'"
    using block_timeout [OF d(1,2) r nl n] by blast
  have sm: "mutexes s' = mutexes s" by (rule same_more(4) [OF blocked_onD(9) [OF b(3)]])
  have live: "mutex_live T W p s'"
    using d b(2) o blocked_onD(1) [OF b(3)] by (simp add: mutex_live_def mutex_ok_def sm)
  have "current_task s \<noteq> 0" using r by (simp add: app_running_def)
  from mutex_lock_blocked [OF l o this nl b(1,3), of f] live b(3) sm show ?thesis by blast
qed

lemma mutex_lock_forever: "mutex_lock_obj f p s = mutex_lock_timeout_obj f p TRT_TIME_FOREVER_US s"
  by (simp add: mutex_lock_timeout_obj_def)

lemma mutex_lock_refused:
  assumes l: "mutex_live T W p s" and o: "mtx_owner (mutexes s p) \<notin> {0, current_task s}"
    and c: "current_task s \<noteq> 0"
  shows "us = TRT_TIME_FOREVER_US \<or> timer_us_to_ticks us \<noteq> 0 \<Longrightarrow> sched_is_locked s \<Longrightarrow>
      mutex_lock_timeout_obj f p us s = Some (ERR_LOCKED, sched_set_pending s)"
    and "us \<noteq> TRT_TIME_FOREVER_US \<Longrightarrow> timer_us_to_ticks us = 0 \<Longrightarrow>
      mutex_lock_timeout_obj f p us s = Some (ERR_TIMEOUT, s)"
proof -
  note d = mutex_liveD [OF l]
  show "us = TRT_TIME_FOREVER_US \<or> timer_us_to_ticks us \<noteq> 0 \<Longrightarrow> sched_is_locked s \<Longrightarrow>
      mutex_lock_timeout_obj f p us s = Some (ERR_LOCKED, sched_set_pending s)"
    using d o c block_locked_rejected(2) [of "MutexWq p" s]
    by (auto simp: mutex_lock_timeout_obj_def mutex_lock_obj_def trt_wait_q_block_timeout_locked_def
        trt_wait_q_block_ticks_locked_def)
  show "us \<noteq> TRT_TIME_FOREVER_US \<Longrightarrow> timer_us_to_ticks us = 0 \<Longrightarrow>
      mutex_lock_timeout_obj f p us s = Some (ERR_TIMEOUT, s)"
    using d o c by (simp add: mutex_lock_timeout_obj_def block_zero_timeout)
qed

subsection \<open>Unlocking\<close>

lemma mutex_unlock_foreign:
  assumes "mutex_live T W p s" and "current_task s \<noteq> 0"
    and "mtx_owner (mutexes s p) \<noteq> current_task s"
  shows "mutex_unlock_obj p s = (ERR_PERM, s)"
  using mutex_liveD [OF assms(1)] assms(2,3) by (simp add: mutex_unlock_obj_def)

lemma mutex_unlock_nested:
  assumes l: "mutex_live T W p s" and c: "current_task s \<noteq> 0"
    and o: "mtx_owner (mutexes s p) = current_task s"
    and n: "1 < unat (mtx_lock_count (mutexes s p))"
  defines "s' \<equiv> upd_mutex p (\<lambda>k. k\<lparr>mtx_lock_count := mtx_lock_count k - 1\<rparr>) s"
  shows "mutex_unlock_obj p s = (ERR_OK, s')" and "mutex_live T W p s'"
proof -
  note d = mutex_liveD [OF l]
  have "mtx_lock_count (mutexes s p) \<noteq> 0" "mtx_lock_count (mutexes s p) - 1 \<noteq> 0"
    using n by (auto simp: diff_eq_eq)
  then show "mutex_unlock_obj p s = (ERR_OK, s')"
    using d c o by (simp add: mutex_unlock_obj_def s'_def Let_def)
  show "mutex_live T W p s'"
    using d c o by (simp add: mutex_live_def mutex_ok_def s'_def)
qed

text \<open>The last unlock hands the mutex over to the first waiter, or frees it.\<close>

lemma mutex_unlock_hands_over:
  assumes l: "mutex_live T W p s" and c: "current_task s \<noteq> 0"
    and o: "mtx_owner (mutexes s p) = current_task s" and n: "mtx_lock_count (mutexes s p) = 1"
    and x: "waiters s (MutexWq p) = t # ts"
  shows "\<exists>s'. mutex_unlock_obj p s = (ERR_OK, s') \<and> mutex_live T W p s' \<and>
    mutexes s' = (mutexes s)(p := (mutexes s p)\<lparr>mtx_owner := t, mtx_lock_count := 1\<rparr>) \<and>
    waiters s' (MutexWq p) = ts \<and> (\<forall>v\<in>W. v \<noteq> MutexWq p \<longrightarrow> waiters s' v = waiters s v) \<and>
    tasks s' = (tasks s)(t := woken TASK_WAIT_OBJECT (tasks s t)) \<and> current_task s' = current_task s"
proof -
  note d = mutex_liveD [OF l]
  let ?u = "upd_mutex p (\<lambda>k. k\<lparr>mtx_lock_count := mtx_lock_count k - 1\<rparr>) s"
  have k: "kinv T W ?u" and xu: "waiters ?u (MutexWq p) = t # ts" using d(1) x by simp_all
  define s1 where "s1 = snd (trt_wait_q_wake_one_result_locked (MutexWq p) TASK_WAIT_OBJECT ?u)"
  note f = wake_result_first [OF k d(2) xu, where r = TASK_WAIT_OBJECT, folded s1_def]
    and v = waiters_after_wake [OF k d(2) xu, where r = TASK_WAIT_OBJECT, folded s1_def]
  have t: "t \<noteq> 0" "t \<notin> set ts"
    using waiter_blocked(4) [OF d(1,2), of t] waiters_distinct [OF d(1,2)] x by simp_all
  have m: "mutexes s1 = mutexes ?u" by (rule same_more(4) [OF f(11)])
  let ?s = "upd_mutex p (\<lambda>k. k\<lparr>mtx_owner := t, mtx_lock_count := 1\<rparr>) s1"
  have "mutex_unlock_obj p s = (ERR_OK, ?s)"
    using d c o n t(1) f(1) by (simp add: mutex_unlock_obj_def Let_def trt_wait_q_wake_one_locked_def)
  moreover have "mutex_live T W p ?s"
    using d f(2) v(1) t m by (simp add: mutex_live_def mutex_ok_def)
  moreover have "mutexes ?s = (mutexes s)(p := (mutexes s p)\<lparr>mtx_owner := t, mtx_lock_count := 1\<rparr>)"
    using m by simp
  moreover have "tasks ?s = (tasks s)(t := woken TASK_WAIT_OBJECT (tasks s t))"
    using f(3) by (simp add: woken_def)
  moreover have "\<forall>v\<in>W. v \<noteq> MutexWq p \<longrightarrow> waiters ?s v = waiters s v" using v(2) by simp
  ultimately show ?thesis using v(1) f(5) by (intro exI [of _ ?s]) simp
qed

lemma mutex_unlock_frees:
  assumes l: "mutex_live T W p s" and c: "current_task s \<noteq> 0"
    and o: "mtx_owner (mutexes s p) = current_task s" and n: "mtx_lock_count (mutexes s p) = 1"
    and x: "waiters s (MutexWq p) = []"
  defines "s' \<equiv> upd_mutex p (\<lambda>k. k\<lparr>mtx_lock_count := 0, mtx_owner := 0\<rparr>) s"
  shows "mutex_unlock_obj p s = (ERR_OK, s')" and "mutex_live T W p s'"
proof -
  note d = mutex_liveD [OF l]
  let ?u = "upd_mutex p (\<lambda>k. k\<lparr>mtx_lock_count := mtx_lock_count k - 1\<rparr>) s"
  have k: "kinv T W ?u" and xu: "waiters ?u (MutexWq p) = []" using d(1) x by simp_all
  have w: "trt_wait_q_wake_one_locked (MutexWq p) ?u = (0, ?u)"
    using wake_result_empty [OF k d(2) xu] by (simp add: trt_wait_q_wake_one_locked_def)
  have "upd_mutex p (\<lambda>k. k\<lparr>mtx_owner := 0\<rparr>) ?u = s'"
    by (simp add: upd_mutex_def s'_def n)
  then show "mutex_unlock_obj p s = (ERR_OK, s')"
    using d c o n w by (simp add: mutex_unlock_obj_def Let_def)
  show "mutex_live T W p s'"
    using d x by (simp add: mutex_live_def mutex_ok_def s'_def)
qed

lemma mutex_dead:
  assumes "mtx_destroyed (mutexes s p)" and "p \<noteq> 0" and "current_task s \<noteq> 0"
  shows "mutex_unlock_obj p s = (ERR_DESTROYED, s)" "mutex_trylock_obj p s = (ERR_DESTROYED, s)"
    "mutex_lock_timeout_obj f p us s = Some (ERR_DESTROYED, s)"
  using assms by (simp_all add: mutex_unlock_obj_def mutex_trylock_obj_def mutex_lock_timeout_obj_def
      mutex_lock_obj_def)

lemma mutex_destroy:
  assumes k: "kinv T W s" and w: "MutexWq p \<in> W" and p: "p \<noteq> 0" "\<not> mtx_destroyed (mutexes s p)"
  shows "\<exists>s'. mutex_destroy_obj p s = Some (ERR_OK, of_nat (length (waiters s (MutexWq p))), s') \<and>
    kinv T W s' \<and> mutex_ok p s' \<and> mtx_destroyed (mutexes s' p) \<and> waiters s' (MutexWq p) = [] \<and>
    (\<forall>t. tasks s' t = (if t \<in> set (waiters s (MutexWq p)) then woken TASK_WAIT_DESTROYED (tasks s t)
       else tasks s t)) \<and>
    (\<forall>v\<in>W. v \<noteq> MutexWq p \<longrightarrow> waiters s' v = waiters s v) \<and>
    kstate.more s' = kstate.more (upd_mutex p
      (\<lambda>k. k\<lparr>mtx_destroyed := True, mtx_owner := 0, mtx_lock_count := 0\<rparr>) s)"
proof -
  let ?u = "upd_mutex p (\<lambda>k. k\<lparr>mtx_destroyed := True, mtx_owner := 0, mtx_lock_count := 0\<rparr>) s"
  have k': "kinv T W ?u" using k by simp
  from wake_all [OF k' w, of TASK_WAIT_DESTROYED] obtain s' where
    a: "trt_wait_q_wake_all_result_locked (MutexWq p) TASK_WAIT_DESTROYED ?u =
      Some (of_nat (length (waiters s (MutexWq p))), s')" "kinv T W s'"
      "all_woken W (MutexWq p) TASK_WAIT_DESTROYED ?u s'"
    by auto
  have m: "kstate.more s' = kstate.more ?u" using a(3) by (simp add: all_woken_def)
  have "mutexes s' = mutexes ?u" by (rule same_more(4) [OF m])
  with a m p show ?thesis
    by (intro exI [of _ s']) (simp add: mutex_destroy_obj_def all_woken_def mutex_ok_def)
qed

subsection \<open>The contract\<close>

text \<open>
  A mutex is an object with one unit.  The contract is about the outermost lock and unlock of a
  task; nested ones change neither the owner nor the queue.
\<close>

definition mutex_units :: "ptr \<Rightarrow> 'z sys_scheme \<Rightarrow> nat" where
  "mutex_units p s = (if mtx_owner (mutexes s p) = 0 then 1 else 0)"

definition mutex_may_unlock :: "ptr \<Rightarrow> 'z sys_scheme \<Rightarrow> bool" where
  "mutex_may_unlock p s \<longleftrightarrow> current_task s \<noteq> 0 \<and> mtx_owner (mutexes s p) = current_task s \<and>
     mtx_lock_count (mutexes s p) = 1"

definition mutex_may_lock :: "ptr \<Rightarrow> 'z sys_scheme \<Rightarrow> bool" where
  "mutex_may_lock p s \<longleftrightarrow> current_task s \<noteq> 0 \<and> mtx_owner (mutexes s p) \<noteq> current_task s"

definition mutex_quiet :: "ptr set \<Rightarrow> wq_t set \<Rightarrow> ptr \<Rightarrow> 'z sys_scheme \<Rightarrow> 'z sys_scheme \<Rightarrow> bool" where
  "mutex_quiet T W p s s' \<longleftrightarrow>
     mutex_live T W p s' \<and> mtx_owner (mutexes s' p) = mtx_owner (mutexes s p)"

interpretation mutex: token_object "mutex_live T W p" "\<lambda>s. waiters s (MutexWq p)" "mutex_units p"
    "mutex_may_unlock p" "mutex_unlock_obj p" "mutex_may_lock p" "mutex_trylock_obj p"
    "mutex_quiet T W p" for T W p
proof unfold_locales
  show "mutex_units p s = 0" if "mutex_live T W p s" "waiters s (MutexWq p) \<noteq> []" for s
    using mutex_liveD(4) [OF that(1)] that(2) by (auto simp: mutex_ok_def mutex_units_def)
  show "\<exists>s'. mutex_unlock_obj p s = (ERR_OK, s') \<and> mutex_live T W p s' \<and>
      waiters s' (MutexWq p) = [] \<and> mutex_units p s' = Suc (mutex_units p s)"
    if l: "mutex_live T W p s" "mutex_may_unlock p s" "waiters s (MutexWq p) = []" for s
  proof -
    have u: "current_task s \<noteq> 0" "mtx_owner (mutexes s p) = current_task s"
      "mtx_lock_count (mutexes s p) = 1"
      using l(2) by (simp_all add: mutex_may_unlock_def)
    show ?thesis
      using mutex_unlock_frees [OF l(1) u l(3)] u l(3) by (intro exI conjI) (assumption | simp add: mutex_units_def)+
  qed
  show "\<exists>s'. mutex_unlock_obj p s = (ERR_OK, s') \<and> mutex_live T W p s' \<and>
      waiters s' (MutexWq p) = ts \<and> mutex_units p s' = mutex_units p s"
    if l: "mutex_live T W p s" "mutex_may_unlock p s" "waiters s (MutexWq p) = t # ts" for s t ts
  proof -
    have u: "current_task s \<noteq> 0" "mtx_owner (mutexes s p) = current_task s"
      "mtx_lock_count (mutexes s p) = 1"
      using l(2) by (simp_all add: mutex_may_unlock_def)
    have t: "t \<noteq> 0" using waiter_blocked(4) [OF mutex_liveD(1,2) [OF l(1)], of t] l(3) by simp
    obtain s' where s': "mutex_unlock_obj p s = (ERR_OK, s')" "mutex_live T W p s'"
      "mutexes s' = (mutexes s)(p := (mutexes s p)\<lparr>mtx_owner := t, mtx_lock_count := 1\<rparr>)"
      "waiters s' (MutexWq p) = ts"
      using mutex_unlock_hands_over [OF l(1) u l(3)] by blast
    moreover have "mutex_units p s' = mutex_units p s" using t u by (simp add: mutex_units_def s'(3))
    ultimately show ?thesis by blast
  qed
  show "\<exists>s'. mutex_trylock_obj p s = (ERR_OK, s') \<and> mutex_live T W p s' \<and>
      waiters s' (MutexWq p) = waiters s (MutexWq p) \<and> mutex_units p s = Suc (mutex_units p s')"
    if l: "mutex_live T W p s" "mutex_may_lock p s" "0 < mutex_units p s" for s
  proof -
    have u: "mtx_owner (mutexes s p) = 0" "current_task s \<noteq> 0"
      using l(2,3) by (simp_all add: mutex_may_lock_def mutex_units_def split: if_splits)
    show ?thesis
      using mutex_lock_free(1,2) [OF l(1) u] u by (simp add: mutex_units_def mutex_take_def)
  qed
  show "mutex_trylock_obj p s = (ERR_BUSY, s)"
    if "mutex_live T W p s" "mutex_may_lock p s" "mutex_units p s = 0" for s
    using mutex_try_taken [OF that(1)] that(2,3)
    by (simp add: mutex_may_lock_def mutex_units_def split: if_splits)
  show "mutex_live T W p s' \<and> mutex_units p s' = mutex_units p s"
    if "mutex_live T W p s" "mutex_quiet T W p s s'" for s s'
    using that(2) by (simp add: mutex_quiet_def mutex_units_def)
qed

end
