(* ===== verification/Ring.thy ===== *)
theory Ring
  imports Heap
begin

text \<open>
  A circular buffer seen as a list: index arithmetic modulo the number of slots, the bytes of a
  slot, and what a change of one slot does to the others.  The contract of a bounded queue is
  stated here as a locale; the message queue interprets it.
\<close>

subsection \<open>Indices\<close>

text \<open>The number of used slots between the read index \<open>t\<close> and the write index \<open>h\<close> of \<open>N\<close> slots.\<close>

definition ring_len :: "nat \<Rightarrow> nat \<Rightarrow> nat \<Rightarrow> nat" where
  "ring_len N h t = (if t \<le> h then h - t else N - t + h)"

lemma ring_len_less:
  assumes h: "h < N" and t: "t < N"
  shows "ring_len N h t < N"
  using h t by (auto simp: ring_len_def)

lemma ring_len_zero:
  assumes h: "h < N" and t: "t < N"
  shows "ring_len N h t = 0 \<longleftrightarrow> h = t"
  using h t by (auto simp: ring_len_def)

lemma ring_head:
  assumes h: "h < N" and t: "t < N"
  shows "(t + ring_len N h t) mod N = h"
  using h t by (auto simp: ring_len_def)

lemma ring_full:
  assumes h: "h < N" and t: "t < N"
  shows "Suc h mod N = t \<longleftrightarrow> Suc (ring_len N h t) = N"
  using h t by (auto simp: ring_len_def mod_if)

lemma ring_push:
  assumes h: "h < N" and t: "t < N"
  shows "Suc (ring_len N h t) < N \<Longrightarrow> ring_len N (Suc h mod N) t = Suc (ring_len N h t)"
  using h t by (auto simp: ring_len_def mod_if)

lemma ring_pop:
  assumes h: "h < N" and t: "t < N"
  shows "h \<noteq> t \<Longrightarrow> Suc (ring_len N h (Suc t mod N)) = ring_len N h t"
  using h t by (auto simp: ring_len_def mod_if)

lemma ring_unpop:
  assumes h: "h < N" and t: "t < N"
  shows "Suc (ring_len N h t) < N \<Longrightarrow>
    ring_len N h (if t = 0 then N - 1 else t - 1) = Suc (ring_len N h t)"
  using h t by (auto simp: ring_len_def)

lemma ring_prev:
  fixes h t N :: nat
  assumes h: "h < N" and t: "t < N"
  shows "((if t = 0 then N - 1 else t - 1) + Suc i) mod N = (t + i) mod N"
  using h t by auto

lemma ring_at_inj:
  fixes t N :: nat
  assumes "t < N" and "i < N" and "j < N"
  shows "(t + i) mod N = (t + j) mod N \<longleftrightarrow> i = j"
proof -
  have "(t + k) mod N = (if t + k < N then t + k else t + k - N)" if "k < N" for k
    using assms(1) that by (simp add: le_mod_geq)
  with assms show ?thesis by auto
qed

subsection \<open>Slots\<close>

definition bytes_at :: "(ptr \<Rightarrow> u8) \<Rightarrow> ptr \<Rightarrow> nat \<Rightarrow> u8 list" where
  "bytes_at m a n = map (\<lambda>i. m (a + of_nat i)) [0..<n]"

lemma bytes_at_cong:
  "(\<And>a. a \<in> region p n \<Longrightarrow> m' a = m a) \<Longrightarrow> bytes_at m' p n = bytes_at m p n"
  by (auto simp: bytes_at_def region_def)

lemma length_bytes_at [simp]: "length (bytes_at m a n) = n"
  by (simp add: bytes_at_def)

lemma region_offset:
  assumes "k + n \<le> M" and "M < 2 ^ 32"
  shows "a \<in> region (b + of_nat k) n \<longleftrightarrow> k \<le> unat (a - b) \<and> unat (a - b) < k + n"
proof -
  have *: "unat (of_nat x :: u32) = x" if "x < 2 ^ 32" for x
    using that by (simp add: unat_of_nat take_bit_nat_eq_self)
  show ?thesis
  proof
    assume "a \<in> region (b + of_nat k) n"
    then obtain i where i: "i < n" "a = b + of_nat k + of_nat i" by (auto simp: region_def)
    then have "a - b = of_nat (k + i)" by simp
    then have "unat (a - b) = k + i" using *[of "k + i"] i(1) assms by simp
    with i(1) show "k \<le> unat (a - b) \<and> unat (a - b) < k + n" by simp
  next
    assume r: "k \<le> unat (a - b) \<and> unat (a - b) < k + n"
    then have "of_nat k + of_nat (unat (a - b) - k) = (of_nat (unat (a - b)) :: u32)"
      by (metis le_add_diff_inverse of_nat_add)
    then have "a = b + of_nat k + of_nat (unat (a - b) - k)" by (simp add: add.assoc)
    moreover have "unat (a - b) - k < n" using r by linarith
    ultimately show "a \<in> region (b + of_nat k) n" unfolding region_def by blast
  qed
qed

definition slot :: "ptr \<Rightarrow> nat \<Rightarrow> nat \<Rightarrow> ptr" where
  "slot b c i = b + of_nat (i * c)"

lemma slot_region:
  assumes "N * c < 2 ^ 32" and "i < N"
  shows "a \<in> region (slot b c i) c \<longleftrightarrow> i * c \<le> unat (a - b) \<and> unat (a - b) < Suc i * c"
proof -
  have "Suc i * c \<le> N * c" using assms(2) by (intro mult_le_mono1) simp
  then have "i * c + c \<le> N * c" by simp
  from region_offset [OF this assms(1), of a b] show ?thesis by (simp add: slot_def add.commute)
qed

lemma slot_in_ring:
  assumes "N * c < 2 ^ 32" and "i < N"
  shows "region (slot b c i) c \<subseteq> region b (N * c)"
proof
  fix a assume "a \<in> region (slot b c i) c"
  moreover have "Suc i * c \<le> N * c" using assms(2) by (intro mult_le_mono1) simp
  ultimately show "a \<in> region b (N * c)"
    using slot_region [OF assms] region_iff [OF assms(1)] by auto
qed

lemma slot_disjoint:
  assumes "N * c < 2 ^ 32" and "i < N" "j < N" "i \<noteq> j"
  shows "region (slot b c i) c \<inter> region (slot b c j) c = {}"
proof -
  have "Suc i * c \<le> j * c \<or> Suc j * c \<le> i * c"
    using assms(4) by (cases "i < j") (auto intro!: mult_le_mono1 simp del: mult_Suc)
  then show ?thesis
    using slot_region [OF assms(1,2)] slot_region [OF assms(1,3)] by fastforce
qed

subsection \<open>The contents\<close>

definition ring_contents :: "(ptr \<Rightarrow> u8) \<Rightarrow> ptr \<Rightarrow> nat \<Rightarrow> nat \<Rightarrow> nat \<Rightarrow> nat \<Rightarrow> u8 list list" where
  "ring_contents m b c N h t =
     map (\<lambda>i. bytes_at m (slot b c ((t + i) mod N)) c) [0..<ring_len N h t]"

lemma length_ring_contents [simp]: "length (ring_contents m b c N h t) = ring_len N h t"
  by (simp add: ring_contents_def)

lemma bytes_other_slot:
  assumes "N * c < 2 ^ 32" and "i < N" "j < N" "i \<noteq> j"
    and "\<And>a. a \<notin> region (slot b c j) c \<Longrightarrow> m' a = m a"
  shows "bytes_at m' (slot b c i) c = bytes_at m (slot b c i) c"
  using slot_disjoint [OF assms(1-4)] assms(5) by (intro bytes_at_cong) blast

lemma ring_contents_push:
  assumes sz: "N * c < 2 ^ 32" and h: "h < N" and t: "t < N"
    and len: "Suc (ring_len N h t) < N" and upd: "\<And>a. a \<notin> region (slot b c h) c \<Longrightarrow> m' a = m a"
  shows "ring_contents m' b c N (Suc h mod N) t =
    ring_contents m b c N h t @ [bytes_at m' (slot b c h) c]"
proof -
  have "bytes_at m' (slot b c ((t + i) mod N)) c = bytes_at m (slot b c ((t + i) mod N)) c"
    if i: "i < ring_len N h t" for i
  proof (rule bytes_other_slot [OF sz _ h _ upd])
    show "(t + i) mod N < N" using t by simp
    show "(t + i) mod N \<noteq> h"
      using ring_at_inj [OF t, of i "ring_len N h t"] ring_head [OF h t] i len by simp
  qed
  then show ?thesis
    by (simp add: ring_contents_def ring_push [OF h t len] ring_head [OF h t])
qed

lemma ring_contents_pop:
  assumes h: "h < N" and t: "t < N" and ne: "h \<noteq> t"
  shows "ring_contents m b c N h t =
    bytes_at m (slot b c t) c # ring_contents m b c N h (Suc t mod N)"
proof -
  have "(Suc t mod N + i) mod N = (t + Suc i) mod N" for i by (simp add: mod_simps)
  then show ?thesis
    using t by (simp add: ring_contents_def map_upt_Suc flip: ring_pop [OF h t ne] del: upt_Suc)
qed

lemma ring_contents_unpop:
  assumes sz: "N * c < 2 ^ 32" and h: "h < N" and t: "t < N"
    and len: "Suc (ring_len N h t) < N"
    and upd: "\<And>a. a \<notin> region (slot b c (if t = 0 then N - 1 else t - 1)) c \<Longrightarrow> m' a = m a"
  shows "ring_contents m' b c N h (if t = 0 then N - 1 else t - 1) =
    bytes_at m' (slot b c (if t = 0 then N - 1 else t - 1)) c # ring_contents m b c N h t"
proof -
  let ?t = "if t = 0 then N - 1 else t - 1"
  have tl: "?t < N" using t by auto
  have "bytes_at m' (slot b c ((?t + Suc i) mod N)) c = bytes_at m (slot b c ((t + i) mod N)) c"
    if i: "i < ring_len N h t" for i
    unfolding ring_prev [OF h t]
  proof (rule bytes_other_slot [OF sz _ tl _ upd])
    show "(t + i) mod N < N" using t by simp
    show "(t + i) mod N \<noteq> ?t"
      using ring_at_inj [OF tl, of "Suc i" 0] ring_prev [OF h t, of i] i len tl by simp
  qed
  then show ?thesis
    using tl by (simp add: ring_contents_def ring_unpop [OF h t len] map_upt_Suc del: upt_Suc)
qed

lemma ring_contents_frame:
  assumes sz: "N * c < 2 ^ 32" and h: "h < N" and t: "t < N"
    and "\<And>a. a \<in> region b (N * c) \<Longrightarrow> m' a = m a"
  shows "ring_contents m' b c N h t = ring_contents m b c N h t"
proof -
  have "bytes_at m' (slot b c ((t + i) mod N)) c = bytes_at m (slot b c ((t + i) mod N)) c" for i
    using slot_in_ring [OF sz, of "(t + i) mod N" b] t assms(4) by (intro bytes_at_cong) auto
  then show ?thesis by (simp add: ring_contents_def)
qed

subsection \<open>The contract of a bounded queue\<close>

text \<open>
  A run of a queue: \<open>push s m s'\<close> and \<open>pop s m s'\<close> are its steps with the message they move,
  \<open>other\<close> what the rest of the system does in between.  The lists are the messages sent and
  received, in order.
\<close>

inductive queue_run ::
    "('s \<Rightarrow> 'm \<Rightarrow> 's \<Rightarrow> bool) \<Rightarrow> ('s \<Rightarrow> 'm \<Rightarrow> 's \<Rightarrow> bool) \<Rightarrow> ('s \<Rightarrow> 's \<Rightarrow> bool) \<Rightarrow>
      's \<Rightarrow> 'm list \<Rightarrow> 'm list \<Rightarrow> 's \<Rightarrow> bool"
  for push pop :: "'s \<Rightarrow> 'm \<Rightarrow> 's \<Rightarrow> bool" and other :: "'s \<Rightarrow> 's \<Rightarrow> bool" and s :: 's where
  Start: "queue_run push pop other s [] [] s"
| Push: "queue_run push pop other s sent recd s1 \<Longrightarrow> push s1 m s2 \<Longrightarrow>
    queue_run push pop other s (sent @ [m]) recd s2"
| Pop: "queue_run push pop other s sent recd s1 \<Longrightarrow> pop s1 m s2 \<Longrightarrow>
    queue_run push pop other s sent (recd @ [m]) s2"
| Other: "queue_run push pop other s sent recd s1 \<Longrightarrow> other s1 s2 \<Longrightarrow>
    queue_run push pop other s sent recd s2"

locale bounded_queue =
  fixes ok :: "'s \<Rightarrow> bool" and contents :: "'s \<Rightarrow> 'm list" and capacity :: "'s \<Rightarrow> nat"
    and push pop :: "'s \<Rightarrow> 'm \<Rightarrow> 's \<Rightarrow> bool" and other :: "'s \<Rightarrow> 's \<Rightarrow> bool"
  assumes bounded: "ok s \<Longrightarrow> length (contents s) \<le> capacity s"
    and push: "ok s \<Longrightarrow> push s m s' \<Longrightarrow> ok s' \<and> contents s' = contents s @ [m] \<and> capacity s' = capacity s"
    and pop: "ok s \<Longrightarrow> pop s m s' \<Longrightarrow> ok s' \<and> contents s = m # contents s' \<and> capacity s' = capacity s"
    and other: "ok s \<Longrightarrow> other s s' \<Longrightarrow> ok s' \<and> contents s' = contents s \<and> capacity s' = capacity s"
begin

lemma run_fifo:
  assumes "queue_run push pop other s sent recd s'" and "ok s"
  shows "ok s' \<and> contents s @ sent = recd @ contents s' \<and> capacity s' = capacity s"
  using assms
proof (induction rule: queue_run.induct)
  case (Push sent recd s1 m s2)
  then show ?case using push [of s1 m s2] by simp
next
  case (Pop sent recd s1 m s2)
  then show ?case using pop [of s1 m s2] by simp
next
  case (Other sent recd s1 s2)
  then show ?case using other [of s1 s2] by simp
qed simp

lemma run_bounded:
  assumes "queue_run push pop other s sent recd s'" and "ok s"
  shows "length (contents s) + length sent \<le> length recd + capacity s"
proof -
  note r = run_fifo [OF assms]
  then have "length (contents s) + length sent = length recd + length (contents s')"
    by (metis length_append)
  with r bounded [of s'] show ?thesis by simp
qed

end

end
