(* ===== verification/MsgQueue.thy ===== *)
theory MsgQueue
  imports SysFrame Ring
begin

unbundle bit_operations_syntax

text \<open>
  Message queues, \<^verbatim>\<open>src/kernel/msg_queue.c\<close>: a ring of \<open>qlen + 1\<close> slots of \<open>cap\<close> bytes in a heap
  buffer, one slot kept empty, with a queue of blocked readers and one of blocked writers.
  Buffers and messages are addresses in the byte memory of the heap model.
\<close>

subsection \<open>Definitions\<close>

definition msg_q_lookup :: "trt_handle_t \<Rightarrow> u32 \<Rightarrow> 'z sys_scheme \<Rightarrow> (err_t + ptr) \<times> 'z sys_scheme" where
  "msg_q_lookup h rights s = sys_handle_lookup h TRT_OBJ_MSG_Q rights s"

definition msg_q_wait_result :: "'z sys_scheme \<Rightarrow> err_t" where
  "msg_q_wait_result s =
     (case current_wait_result s of
        TASK_WAIT_OBJECT \<Rightarrow> ERR_OK
      | TASK_WAIT_TIMEOUT \<Rightarrow> ERR_TIMEOUT
      | TASK_WAIT_DESTROYED \<Rightarrow> ERR_DESTROYED
      | TASK_WAIT_NONE \<Rightarrow> ERR_STATE)"

definition msg_q_next :: "trt_msg_q_t \<Rightarrow> u32 \<Rightarrow> u32" where
  "msg_q_next mq index = (index + 1) mod (mq_qlen mq + 1)"

text \<open>\<^verbatim>\<open>msg_q_zero\<close> and \<^verbatim>\<open>msg_q_copy\<close> are the byte loops of the heap theory.\<close>

definition msg_q_zero :: "ptr \<Rightarrow> u32 \<Rightarrow> 'z sys_scheme \<Rightarrow> 'z sys_scheme" where
  "msg_q_zero dst n = upd_bytes (zero_bytes dst n)"

definition msg_q_copy :: "ptr \<Rightarrow> ptr \<Rightarrow> u32 \<Rightarrow> 'z sys_scheme \<Rightarrow> 'z sys_scheme" where
  "msg_q_copy dst src n = upd_bytes (copy_bytes dst src n)"

definition msg_q_is_full_obj :: "ptr \<Rightarrow> 'z sys_scheme \<Rightarrow> bool" where
  "msg_q_is_full_obj p s \<longleftrightarrow>
     p \<noteq> 0 \<and> msg_q_next (msgqs s p) (mq_head (msgqs s p)) = mq_tail (msgqs s p)"

definition msg_q_is_empty_obj :: "ptr \<Rightarrow> 'z sys_scheme \<Rightarrow> bool" where
  "msg_q_is_empty_obj p s \<longleftrightarrow> p = 0 \<or> mq_head (msgqs s p) = mq_tail (msgqs s p)"

definition msg_q_count_obj :: "ptr \<Rightarrow> 'z sys_scheme \<Rightarrow> u32" where
  "msg_q_count_obj p s =
     (if p = 0 then 0
      else let mq = msgqs s p in
        if mq_head mq \<ge> mq_tail mq then mq_head mq - mq_tail mq
        else mq_qlen mq + 1 - mq_tail mq + mq_head mq)"

definition msg_q_create_obj :: "u32 \<Rightarrow> u32 \<Rightarrow> 'z sys_scheme \<Rightarrow> (ptr \<times> 'z sys_scheme) option" where
  "msg_q_create_obj cap qlen s =
     (if cap = 0 \<or> qlen = 0 then Some (0, s)
      else Option.bind (sys_calloc 1 sizeof_msg_q s) (\<lambda>(p, s1).
        if p = 0 then Some (0, s1)
        else Option.bind (sys_calloc (qlen + 1) cap s1) (\<lambda>(buf, s2).
          if buf = 0 then Some (0, sys_free p s2)
          else Some (p, trt_wait_q_init (WritersWq p) (trt_wait_q_init (ReadersWq p)
            (upd_msgq p (\<lambda>_. \<lparr>mq_buf = buf, mq_cap = cap, mq_qlen = qlen, mq_head = 0, mq_tail = 0,
              mq_destroyed = False\<rparr>) s2))))))"

definition trt_msg_q_create :: "u32 \<Rightarrow> u32 \<Rightarrow> 'z sys_scheme \<Rightarrow> (trt_handle_t \<times> 'z sys_scheme) option" where
  "trt_msg_q_create cap qlen s =
     Option.bind (msg_q_create_obj cap qlen s) (\<lambda>(p, s1).
       if p = 0 then Some (TRT_HANDLE_INVALID, s1)
       else
         case sys_handle_alloc p TRT_OBJ_MSG_Q
             (TRT_RIGHT_READ OR TRT_RIGHT_WRITE OR TRT_RIGHT_DESTROY) s1 of
           (Inl _, s2) \<Rightarrow> Some (TRT_HANDLE_INVALID, sys_free p (sys_free (mq_buf (msgqs s2 p)) s2))
         | (Inr h, s2) \<Rightarrow> Some (h, s2))"

definition msg_q_destroy_obj :: "ptr \<Rightarrow> 'z sys_scheme \<Rightarrow> (err_t \<times> u32 \<times> 'z sys_scheme) option" where
  "msg_q_destroy_obj p s =
     (if p = 0 then Some (ERR_INVAL, 0, s)
      else if mq_destroyed (msgqs s p) then Some (ERR_STATE, 0, s)
      else
        Option.bind (trt_wait_q_wake_all_result_locked (ReadersWq p) TASK_WAIT_DESTROYED
            (upd_msgq p (\<lambda>k. k\<lparr>mq_destroyed := True\<rparr>) s)) (\<lambda>(reader_count, s1).
          Option.bind (trt_wait_q_wake_all_result_locked (WritersWq p) TASK_WAIT_DESTROYED s1)
            (\<lambda>(writer_count, s2). Some (ERR_OK, reader_count + writer_count, s2))))"

definition trt_msg_q_destroy ::
    "('z sys_scheme \<Rightarrow> 'z sys_scheme option) \<Rightarrow> trt_handle_t \<Rightarrow> 'z sys_scheme \<Rightarrow>
      (err_t \<times> 'z sys_scheme) option" where
  "trt_msg_q_destroy arch_yield h s =
     (if arch_in_isr s then Some (ERR_STATE, s)
      else with_object (msg_q_lookup h TRT_RIGHT_DESTROY s) (\<lambda>p s1.
        Option.bind (msg_q_destroy_obj p s1) (\<lambda>(result, woken, s2).
          if result \<noteq> ERR_OK then Some (result, s2)
          else
            let s3 = sys_free p (sys_free (mq_buf (msgqs s2 p)) (sys_handle_close h s2)) in
            if woken \<noteq> 0 then Option.bind (task_yield arch_yield s3) (\<lambda>s4. Some (ERR_OK, s4))
            else Some (ERR_OK, s3))))"

text \<open>What the four blocking operations do when they find room or a message.\<close>

definition msg_q_slot :: "trt_msg_q_t \<Rightarrow> u32 \<Rightarrow> ptr" where
  "msg_q_slot mq index = mq_buf mq + index * mq_cap mq"

definition msg_q_put_back :: "ptr \<Rightarrow> ptr \<Rightarrow> u32 \<Rightarrow> 'z sys_scheme \<Rightarrow> 'z sys_scheme" where
  "msg_q_put_back p data n s =
     (let mq = msgqs s p;
          slot = msg_q_slot mq (mq_head mq);
          s1 = msg_q_copy slot data n (msg_q_zero slot (mq_cap mq) s)
      in upd_msgq p (\<lambda>k. k\<lparr>mq_head := msg_q_next k (mq_head k)\<rparr>) s1)"

definition msg_q_put_front :: "ptr \<Rightarrow> ptr \<Rightarrow> u32 \<Rightarrow> 'z sys_scheme \<Rightarrow> 'z sys_scheme" where
  "msg_q_put_front p data n s =
     (let s1 = upd_msgq p (\<lambda>k. k\<lparr>mq_tail := (if mq_tail k = 0 then mq_qlen k else mq_tail k - 1)\<rparr>) s;
          mq = msgqs s1 p;
          slot = msg_q_slot mq (mq_tail mq)
      in msg_q_copy slot data n (msg_q_zero slot (mq_cap mq) s1))"

definition msg_q_read :: "ptr \<Rightarrow> ptr \<Rightarrow> 'z sys_scheme \<Rightarrow> 'z sys_scheme" where
  "msg_q_read p buf s =
     (let mq = msgqs s p in msg_q_copy buf (msg_q_slot mq (mq_tail mq)) (mq_cap mq) s)"

definition msg_q_take :: "ptr \<Rightarrow> ptr \<Rightarrow> 'z sys_scheme \<Rightarrow> 'z sys_scheme" where
  "msg_q_take p buf s =
     upd_msgq p (\<lambda>k. k\<lparr>mq_tail := msg_q_next k (mq_tail k)\<rparr>) (msg_q_read p buf s)"

text \<open>
  What they do when they do not: the rest of the loop body.  \<open>ERR_OK\<close> sends the caller round the
  loop again, any other result is returned.
\<close>

definition msg_q_block ::
    "('z sys_scheme \<Rightarrow> 'z sys_scheme option) \<Rightarrow> wq_t \<Rightarrow> trt_time_t \<Rightarrow> 'z sys_scheme \<Rightarrow>
      (err_t \<times> 'z sys_scheme) option" where
  "msg_q_block arch_yield wq timeout s =
     (if timeout = 0 then Some (ERR_BUSY, s)
      else if sched_is_locked s then Some (ERR_LOCKED, sched_set_pending s)
      else Option.bind
        (if timeout = TRT_TIME_FOREVER_US then trt_wait_q_block_locked wq s
         else trt_wait_q_block_timeout_locked wq timeout s) (\<lambda>(result, s1).
          if result \<noteq> ERR_OK then Some (result, s1)
          else Option.bind (task_yield arch_yield s1) (\<lambda>s2. Some (msg_q_wait_result s2, s2))))"

partial_function (option) msg_q_send_loop ::
    "('z sys_scheme \<Rightarrow> 'z sys_scheme option) \<Rightarrow> ptr \<Rightarrow> ptr \<Rightarrow> u32 \<Rightarrow> trt_time_t \<Rightarrow> 'z sys_scheme \<Rightarrow>
      (err_t \<times> 'z sys_scheme) option" where
  "msg_q_send_loop arch_yield p data n timeout s =
     (if mq_destroyed (msgqs s p) then Some (ERR_DESTROYED, s)
      else if \<not> msg_q_is_full_obj p s
      then Some (ERR_OK, snd (trt_wait_q_wake_one_locked (ReadersWq p) (msg_q_put_back p data n s)))
      else Option.bind (msg_q_block arch_yield (WritersWq p) timeout s) (\<lambda>r.
        if fst r \<noteq> ERR_OK then Some r
        else msg_q_send_loop arch_yield p data n timeout (snd r)))"

definition msg_q_send_obj ::
    "('z sys_scheme \<Rightarrow> 'z sys_scheme option) \<Rightarrow> ptr \<Rightarrow> ptr \<Rightarrow> u32 \<Rightarrow> trt_time_t \<Rightarrow> 'z sys_scheme \<Rightarrow>
      (err_t \<times> 'z sys_scheme) option" where
  "msg_q_send_obj arch_yield p data n timeout s =
     (if p = 0 \<or> data = 0 \<or> n = 0 \<or> n > mq_cap (msgqs s p) then Some (ERR_INVAL, s)
      else msg_q_send_loop arch_yield p data n timeout s)"

definition trt_msg_q_send ::
    "('z sys_scheme \<Rightarrow> 'z sys_scheme option) \<Rightarrow> trt_handle_t \<Rightarrow> ptr \<Rightarrow> u32 \<Rightarrow> trt_time_t \<Rightarrow>
      'z sys_scheme \<Rightarrow> (err_t \<times> 'z sys_scheme) option" where
  "trt_msg_q_send arch_yield h data n timeout s =
     with_object (msg_q_lookup h TRT_RIGHT_WRITE s) (\<lambda>p. msg_q_send_obj arch_yield p data n timeout)"

partial_function (option) msg_q_send_front_loop ::
    "('z sys_scheme \<Rightarrow> 'z sys_scheme option) \<Rightarrow> ptr \<Rightarrow> ptr \<Rightarrow> u32 \<Rightarrow> trt_time_t \<Rightarrow> 'z sys_scheme \<Rightarrow>
      (err_t \<times> 'z sys_scheme) option" where
  "msg_q_send_front_loop arch_yield p data n timeout s =
     (if mq_destroyed (msgqs s p) then Some (ERR_DESTROYED, s)
      else if \<not> msg_q_is_full_obj p s
      then Some (ERR_OK, snd (trt_wait_q_wake_one_locked (ReadersWq p) (msg_q_put_front p data n s)))
      else Option.bind (msg_q_block arch_yield (WritersWq p) timeout s) (\<lambda>r.
        if fst r \<noteq> ERR_OK then Some r
        else msg_q_send_front_loop arch_yield p data n timeout (snd r)))"

definition msg_q_send_front_obj ::
    "('z sys_scheme \<Rightarrow> 'z sys_scheme option) \<Rightarrow> ptr \<Rightarrow> ptr \<Rightarrow> u32 \<Rightarrow> trt_time_t \<Rightarrow> 'z sys_scheme \<Rightarrow>
      (err_t \<times> 'z sys_scheme) option" where
  "msg_q_send_front_obj arch_yield p data n timeout s =
     (if p = 0 \<or> data = 0 \<or> n = 0 \<or> n > mq_cap (msgqs s p) then Some (ERR_INVAL, s)
      else msg_q_send_front_loop arch_yield p data n timeout s)"

definition trt_msg_q_send_front ::
    "('z sys_scheme \<Rightarrow> 'z sys_scheme option) \<Rightarrow> trt_handle_t \<Rightarrow> ptr \<Rightarrow> u32 \<Rightarrow> trt_time_t \<Rightarrow>
      'z sys_scheme \<Rightarrow> (err_t \<times> 'z sys_scheme) option" where
  "trt_msg_q_send_front arch_yield h data n timeout s =
     with_object (msg_q_lookup h TRT_RIGHT_WRITE s)
       (\<lambda>p. msg_q_send_front_obj arch_yield p data n timeout)"

partial_function (option) msg_q_recv_loop ::
    "('z sys_scheme \<Rightarrow> 'z sys_scheme option) \<Rightarrow> ptr \<Rightarrow> ptr \<Rightarrow> trt_time_t \<Rightarrow> 'z sys_scheme \<Rightarrow>
      (err_t \<times> 'z sys_scheme) option" where
  "msg_q_recv_loop arch_yield p buf timeout s =
     (if mq_destroyed (msgqs s p) then Some (ERR_DESTROYED, s)
      else if \<not> msg_q_is_empty_obj p s
      then Some (ERR_OK, snd (trt_wait_q_wake_one_locked (WritersWq p) (msg_q_take p buf s)))
      else Option.bind (msg_q_block arch_yield (ReadersWq p) timeout s) (\<lambda>r.
        if fst r \<noteq> ERR_OK then Some r
        else msg_q_recv_loop arch_yield p buf timeout (snd r)))"

definition msg_q_recv_obj ::
    "('z sys_scheme \<Rightarrow> 'z sys_scheme option) \<Rightarrow> ptr \<Rightarrow> ptr \<Rightarrow> trt_time_t \<Rightarrow> 'z sys_scheme \<Rightarrow>
      (err_t \<times> 'z sys_scheme) option" where
  "msg_q_recv_obj arch_yield p buf timeout s =
     (if p = 0 \<or> buf = 0 then Some (ERR_INVAL, s) else msg_q_recv_loop arch_yield p buf timeout s)"

definition trt_msg_q_recv ::
    "('z sys_scheme \<Rightarrow> 'z sys_scheme option) \<Rightarrow> trt_handle_t \<Rightarrow> ptr \<Rightarrow> trt_time_t \<Rightarrow>
      'z sys_scheme \<Rightarrow> (err_t \<times> 'z sys_scheme) option" where
  "trt_msg_q_recv arch_yield h buf timeout s =
     with_object (msg_q_lookup h TRT_RIGHT_READ s) (\<lambda>p. msg_q_recv_obj arch_yield p buf timeout)"

partial_function (option) msg_q_peek_loop ::
    "('z sys_scheme \<Rightarrow> 'z sys_scheme option) \<Rightarrow> ptr \<Rightarrow> ptr \<Rightarrow> trt_time_t \<Rightarrow> 'z sys_scheme \<Rightarrow>
      (err_t \<times> 'z sys_scheme) option" where
  "msg_q_peek_loop arch_yield p buf timeout s =
     (if mq_destroyed (msgqs s p) then Some (ERR_DESTROYED, s)
      else if \<not> msg_q_is_empty_obj p s
      then Some (ERR_OK, snd (trt_wait_q_wake_one_locked (ReadersWq p) (msg_q_read p buf s)))
      else Option.bind (msg_q_block arch_yield (ReadersWq p) timeout s) (\<lambda>r.
        if fst r \<noteq> ERR_OK then Some r
        else msg_q_peek_loop arch_yield p buf timeout (snd r)))"

definition msg_q_peek_obj ::
    "('z sys_scheme \<Rightarrow> 'z sys_scheme option) \<Rightarrow> ptr \<Rightarrow> ptr \<Rightarrow> trt_time_t \<Rightarrow> 'z sys_scheme \<Rightarrow>
      (err_t \<times> 'z sys_scheme) option" where
  "msg_q_peek_obj arch_yield p buf timeout s =
     (if p = 0 \<or> buf = 0 then Some (ERR_INVAL, s) else msg_q_peek_loop arch_yield p buf timeout s)"

definition trt_msg_q_peek ::
    "('z sys_scheme \<Rightarrow> 'z sys_scheme option) \<Rightarrow> trt_handle_t \<Rightarrow> ptr \<Rightarrow> trt_time_t \<Rightarrow>
      'z sys_scheme \<Rightarrow> (err_t \<times> 'z sys_scheme) option" where
  "trt_msg_q_peek arch_yield h buf timeout s =
     with_object (msg_q_lookup h TRT_RIGHT_READ s) (\<lambda>p. msg_q_peek_obj arch_yield p buf timeout)"

subsection \<open>The variants for interrupt handlers\<close>

definition msg_q_send_from_isr_obj :: "ptr \<Rightarrow> ptr \<Rightarrow> u32 \<Rightarrow> 'z sys_scheme \<Rightarrow> err_t \<times> 'z sys_scheme" where
  "msg_q_send_from_isr_obj p data n s =
     (if \<not> arch_in_isr s then (ERR_STATE, s)
      else if p = 0 \<or> data = 0 \<or> n = 0 \<or> n > mq_cap (msgqs s p) then (ERR_INVAL, s)
      else if mq_destroyed (msgqs s p) then (ERR_DESTROYED, s)
      else if msg_q_is_full_obj p s then (ERR_BUSY, s)
      else (ERR_OK, snd (trt_wait_q_wake_one_from_isr (ReadersWq p) (msg_q_put_back p data n s))))"

definition trt_msg_q_send_from_isr ::
    "trt_handle_t \<Rightarrow> ptr \<Rightarrow> u32 \<Rightarrow> 'z sys_scheme \<Rightarrow> (err_t \<times> 'z sys_scheme) option" where
  "trt_msg_q_send_from_isr h data n s =
     with_object (msg_q_lookup h TRT_RIGHT_WRITE s) (\<lambda>p s1. Some (msg_q_send_from_isr_obj p data n s1))"

definition msg_q_recv_from_isr_obj :: "ptr \<Rightarrow> ptr \<Rightarrow> 'z sys_scheme \<Rightarrow> err_t \<times> 'z sys_scheme" where
  "msg_q_recv_from_isr_obj p buf s =
     (if \<not> arch_in_isr s then (ERR_STATE, s)
      else if p = 0 \<or> buf = 0 then (ERR_INVAL, s)
      else if mq_destroyed (msgqs s p) then (ERR_DESTROYED, s)
      else if msg_q_is_empty_obj p s then (ERR_BUSY, s)
      else (ERR_OK, snd (trt_wait_q_wake_one_from_isr (WritersWq p) (msg_q_take p buf s))))"

definition trt_msg_q_recv_from_isr ::
    "trt_handle_t \<Rightarrow> ptr \<Rightarrow> 'z sys_scheme \<Rightarrow> (err_t \<times> 'z sys_scheme) option" where
  "trt_msg_q_recv_from_isr h buf s =
     with_object (msg_q_lookup h TRT_RIGHT_READ s) (\<lambda>p s1. Some (msg_q_recv_from_isr_obj p buf s1))"

definition msg_q_peek_from_isr_obj :: "ptr \<Rightarrow> ptr \<Rightarrow> 'z sys_scheme \<Rightarrow> err_t \<times> 'z sys_scheme" where
  "msg_q_peek_from_isr_obj p buf s =
     (if \<not> arch_in_isr s then (ERR_STATE, s)
      else if p = 0 \<or> buf = 0 then (ERR_INVAL, s)
      else if mq_destroyed (msgqs s p) then (ERR_DESTROYED, s)
      else if msg_q_is_empty_obj p s then (ERR_BUSY, s)
      else (ERR_OK, snd (trt_wait_q_wake_one_from_isr (ReadersWq p) (msg_q_read p buf s))))"

definition trt_msg_q_peek_from_isr ::
    "trt_handle_t \<Rightarrow> ptr \<Rightarrow> 'z sys_scheme \<Rightarrow> (err_t \<times> 'z sys_scheme) option" where
  "trt_msg_q_peek_from_isr h buf s =
     with_object (msg_q_lookup h TRT_RIGHT_READ s) (\<lambda>p s1. Some (msg_q_peek_from_isr_obj p buf s1))"

definition trt_msg_q_is_full :: "trt_handle_t \<Rightarrow> 'z sys_scheme \<Rightarrow> bool \<times> 'z sys_scheme" where
  "trt_msg_q_is_full h s =
     (case msg_q_lookup h TRT_RIGHT_WRITE s of
        (Inl _, s1) \<Rightarrow> (False, s1) | (Inr p, s1) \<Rightarrow> (msg_q_is_full_obj p s1, s1))"

definition trt_msg_q_is_empty :: "trt_handle_t \<Rightarrow> 'z sys_scheme \<Rightarrow> bool \<times> 'z sys_scheme" where
  "trt_msg_q_is_empty h s =
     (case msg_q_lookup h TRT_RIGHT_READ s of
        (Inl _, s1) \<Rightarrow> (True, s1) | (Inr p, s1) \<Rightarrow> (msg_q_is_empty_obj p s1, s1))"

definition trt_msg_q_count :: "trt_handle_t \<Rightarrow> 'z sys_scheme \<Rightarrow> u32 \<times> 'z sys_scheme" where
  "trt_msg_q_count h s =
     (case msg_q_lookup h TRT_RIGHT_READ s of
        (Inl _, s1) \<Rightarrow> (0, s1) | (Inr p, s1) \<Rightarrow> (msg_q_count_obj p s1, s1))"

subsection \<open>The ring as a list of messages\<close>

definition mq_slots :: "trt_msg_q_t \<Rightarrow> nat" where
  "mq_slots mq = Suc (unat (mq_qlen mq))"

text \<open>
  The indices are inside the ring, and the ring is a block of memory: the \<^verbatim>\<open>calloc\<close> of the
  creation checked that its size does not wrap.
\<close>

definition ring_ok :: "trt_msg_q_t \<Rightarrow> bool" where
  "ring_ok mq \<longleftrightarrow> mq_slots mq * unat (mq_cap mq) < 2 ^ 32 \<and> mq_slots mq < 2 ^ 32 \<and>
     unat (mq_head mq) < mq_slots mq \<and> unat (mq_tail mq) < mq_slots mq"

abbreviation mq_mem :: "'z sys_scheme \<Rightarrow> ptr \<Rightarrow> u8" where
  "mq_mem s \<equiv> heap_bytes (sys_heap s)"

definition mq_region :: "trt_msg_q_t \<Rightarrow> ptr set" where
  "mq_region mq = region (mq_buf mq) (mq_slots mq * unat (mq_cap mq))"

definition mq_contents :: "(ptr \<Rightarrow> u8) \<Rightarrow> trt_msg_q_t \<Rightarrow> u8 list list" where
  "mq_contents m mq = ring_contents m (mq_buf mq) (unat (mq_cap mq)) (mq_slots mq)
     (unat (mq_head mq)) (unat (mq_tail mq))"

abbreviation messages :: "ptr \<Rightarrow> 'z sys_scheme \<Rightarrow> u8 list list" where
  "messages p s \<equiv> mq_contents (mq_mem s) (msgqs s p)"

text \<open>The message a sender's \<open>n\<close> bytes become: padded with zeros to the slot size.\<close>

definition mq_message :: "(ptr \<Rightarrow> u8) \<Rightarrow> ptr \<Rightarrow> u32 \<Rightarrow> u32 \<Rightarrow> u8 list" where
  "mq_message m data n cap = bytes_at m data (unat n) @ replicate (unat cap - unat n) 0"

lemma ring_okD:
  assumes "ring_ok mq"
  shows "mq_slots mq * unat (mq_cap mq) < 2 ^ 32" "mq_slots mq < 2 ^ 32"
    "unat (mq_head mq) < mq_slots mq" "unat (mq_tail mq) < mq_slots mq"
  using assms by (simp_all add: ring_ok_def)

lemma unat_slots: "ring_ok mq \<Longrightarrow> unat (mq_qlen mq + 1) = mq_slots mq"
  by (simp add: ring_ok_def mq_slots_def unat_word_ariths)

lemma unat_next:
  assumes "ring_ok mq" and "unat i < mq_slots mq"
  shows "unat (msg_q_next mq i) = Suc (unat i) mod mq_slots mq"
  using assms by (simp add: msg_q_next_def unat_mod_distrib unat_slots [OF assms(1)])
    (simp add: unat_word_ariths ring_ok_def)

lemma slot_eq: "msg_q_slot mq i = slot (mq_buf mq) (unat (mq_cap mq)) (unat i)"
  by (simp add: msg_q_slot_def slot_def)

lemma full_iff:
  assumes "ring_ok (msgqs s p)" and "p \<noteq> 0"
  shows "msg_q_is_full_obj p s \<longleftrightarrow> length (messages p s) = unat (mq_qlen (msgqs s p))"
proof -
  note o = ring_okD [OF assms(1)]
  have "msg_q_is_full_obj p s \<longleftrightarrow> Suc (unat (mq_head (msgqs s p))) mod mq_slots (msgqs s p) =
      unat (mq_tail (msgqs s p))"
    using assms unat_next [OF assms(1) o(3)] by (simp add: msg_q_is_full_obj_def word_unat_eq_iff)
  then show ?thesis
    using ring_full [OF o(3,4)] by (simp add: mq_contents_def mq_slots_def)
qed

lemma empty_iff:
  assumes "ring_ok (msgqs s p)" and "p \<noteq> 0"
  shows "msg_q_is_empty_obj p s \<longleftrightarrow> messages p s = []"
  using ring_len_zero [OF ring_okD(3,4) [OF assms(1)]] assms(2)
  by (simp add: msg_q_is_empty_obj_def mq_contents_def word_unat_eq_iff flip: length_0_conv)

lemma count_length:
  assumes "ring_ok (msgqs s p)" and "p \<noteq> 0"
  shows "unat (msg_q_count_obj p s) = length (messages p s)"
proof -
  note o = ring_okD [OF assms(1)]
  let ?mq = "msgqs s p"
  have N: "unat (mq_qlen ?mq + 1) = mq_slots ?mq" by (rule unat_slots [OF assms(1)])
  show ?thesis
  proof (cases "mq_head ?mq \<ge> mq_tail ?mq")
    case True
    then show ?thesis
      using assms(2) by (simp add: msg_q_count_obj_def mq_contents_def ring_len_def unat_sub word_le_nat_alt Let_def)
  next
    case False
    then have lt: "unat (mq_head ?mq) < unat (mq_tail ?mq)" by (simp add: word_le_nat_alt)
    have le: "mq_tail ?mq \<le> mq_qlen ?mq + 1" using N o(4) by (simp add: word_le_nat_alt)
    have "unat (mq_qlen ?mq + 1 - mq_tail ?mq) = mq_slots ?mq - unat (mq_tail ?mq)"
      using unat_sub [OF le] N by simp
    then have "unat (mq_qlen ?mq + 1 - mq_tail ?mq + mq_head ?mq) =
        mq_slots ?mq - unat (mq_tail ?mq) + unat (mq_head ?mq)"
      using lt o(2,4) by (subst unat_add_lem [THEN iffD1]) simp_all
    then show ?thesis
      using False lt assms(2) by (simp add: msg_q_count_obj_def mq_contents_def ring_len_def Let_def)
  qed
qed

lemma length_messages: "ring_ok (msgqs s p) \<Longrightarrow> length (messages p s) \<le> unat (mq_qlen (msgqs s p))"
  using ring_len_less [OF ring_okD(3,4), of "msgqs s p"] by (simp add: mq_contents_def mq_slots_def)

subsection \<open>Writing and reading a slot\<close>

lemma region_mono: "k \<le> n \<Longrightarrow> region p k \<subseteq> region p n"
  by (auto simp: region_def)

lemma write_slot:
  assumes n: "n \<le> c" and d: "region data (unat n) \<inter> region sl (unat c) = {}"
  fixes m :: "ptr \<Rightarrow> u8"
  defines "m' \<equiv> copy_bytes sl data n (zero_bytes sl c m)"
  shows "bytes_at m' sl (unat c) = mq_message m data n c"
    and "a \<notin> region sl (unat c) \<Longrightarrow> m' a = m a"
proof -
  have le: "unat n \<le> unat c" using n by (simp add: word_le_nat_alt)
  note sub = region_mono [OF le, of sl]
  have dis: "region sl (unat n) \<inter> region data (unat n) = {}" using d sub by blast
  note e = copy_bytes_eq [OF dis, of "zero_bytes sl c m", unfolded zero_bytes_eq]
  show "m' a = m a" if "a \<notin> region sl (unat c)"
    using that sub by (auto simp: m'_def zero_bytes_eq e)
  have b: "unat n < 2 ^ 32" "unat c < 2 ^ 32" using unat_u32_less [of n] unat_u32_less [of c] by simp_all
  have "m' (sl + of_nat i) = (if i < unat n then m (data + of_nat i) else 0)" if i: "i < unat c" for i
  proof -
    have u: "unat (of_nat i :: u32) = i" using i b(2) by (simp add: unat_of_nat take_bit_nat_eq_self)
    have r: "sl + of_nat i \<in> region sl (unat n) \<longleftrightarrow> i < unat n" "sl + of_nat i \<in> region sl (unat c)"
      using region_iff [OF b(1), of "sl + of_nat i" sl] region_iff [OF b(2), of "sl + of_nat i" sl] i
      by (simp_all add: u)
    have "data + of_nat i \<notin> region sl (unat c)" if "i < unat n"
      using d that by (auto simp: region_def)
    then show ?thesis by (simp add: m'_def zero_bytes_eq e r)
  qed
  then show "bytes_at m' sl (unat c) = mq_message m data n c"
    using le by (intro nth_equalityI) (simp_all add: bytes_at_def mq_message_def nth_append)
qed

lemma read_slot:
  assumes d: "region buf (unat c) \<inter> region sl (unat c) = {}"
  fixes m :: "ptr \<Rightarrow> u8"
  defines "m' \<equiv> copy_bytes buf sl c m"
  shows "bytes_at m' buf (unat c) = bytes_at m sl (unat c)"
    and "a \<notin> region buf (unat c) \<Longrightarrow> m' a = m a"
proof -
  note e = copy_bytes_eq [OF d, of m]
  show "m' a = m a" if "a \<notin> region buf (unat c)" using that by (simp add: m'_def e)
  show "bytes_at m' buf (unat c) = bytes_at m sl (unat c)"
    by (auto simp: bytes_at_def m'_def e region_def)
qed

subsection \<open>The ring operations as list operations\<close>

text \<open>A buffer of the caller that does not overlap the ring.\<close>

definition mq_apart :: "trt_msg_q_t \<Rightarrow> ptr \<Rightarrow> u32 \<Rightarrow> bool" where
  "mq_apart mq a n \<longleftrightarrow> region a (unat n) \<inter> mq_region mq = {}"

lemma slot_in_mq:
  assumes "ring_ok mq" and "i < mq_slots mq"
  shows "region (slot (mq_buf mq) (unat (mq_cap mq)) i) (unat (mq_cap mq)) \<subseteq> mq_region mq"
  using slot_in_ring [OF ring_okD(1) [OF assms(1)] assms(2)] by (simp add: mq_region_def)

lemma room_len:
  assumes "ring_ok mq" and "length (mq_contents m mq) < unat (mq_qlen mq)"
  shows "Suc (ring_len (mq_slots mq) (unat (mq_head mq)) (unat (mq_tail mq))) < mq_slots mq"
  using assms by (simp add: mq_contents_def mq_slots_def)

lemma upd_bytes_twice: "upd_bytes g (upd_bytes h s) = upd_bytes (\<lambda>m. g (h m)) s"
  by (simp add: upd_bytes_def)

lemma upd_bytes_msgq: "upd_bytes g (upd_msgq p f s) = upd_msgq p f (upd_bytes g s)"
  by (simp add: upd_bytes_def upd_msgq_def)

definition put_shape :: "ptr \<Rightarrow> ptr set \<Rightarrow> 'z sys_scheme \<Rightarrow> 'z sys_scheme \<Rightarrow> bool" where
  "put_shape p A s s' \<longleftrightarrow>
     (\<exists>f g. s' = upd_msgq p f (upd_bytes g s)) \<and> (\<forall>a. a \<notin> A \<longrightarrow> mq_mem s' a = mq_mem s a) \<and>
     mq_buf (msgqs s' p) = mq_buf (msgqs s p) \<and> mq_cap (msgqs s' p) = mq_cap (msgqs s p) \<and>
     mq_qlen (msgqs s' p) = mq_qlen (msgqs s p) \<and> mq_destroyed (msgqs s' p) = mq_destroyed (msgqs s p)"

lemma put_back:
  assumes o: "ring_ok (msgqs s p)" and r: "length (messages p s) < unat (mq_qlen (msgqs s p))"
    and n: "n \<le> mq_cap (msgqs s p)" and d: "mq_apart (msgqs s p) data n"
  defines "s' \<equiv> msg_q_put_back p data n s"
  shows "messages p s' = messages p s @ [mq_message (mq_mem s) data n (mq_cap (msgqs s p))]"
    and "ring_ok (msgqs s' p)" and "put_shape p (mq_region (msgqs s p)) s s'"
proof -
  let ?mq = "msgqs s p"
  let ?sl = "slot (mq_buf ?mq) (unat (mq_cap ?mq)) (unat (mq_head ?mq))"
  let ?m = "copy_bytes ?sl data n (zero_bytes ?sl (mq_cap ?mq) (mq_mem s))"
  note O = ring_okD [OF o]
  note sub = slot_in_mq [OF o O(3)]
  have dis: "region data (unat n) \<inter> region ?sl (unat (mq_cap ?mq)) = {}"
    using d sub by (auto simp: mq_apart_def)
  note w = write_slot [OF n dis, where m = "mq_mem s"]
  have mem: "mq_mem s' = ?m"
    by (simp add: s'_def msg_q_put_back_def msg_q_copy_def msg_q_zero_def slot_eq Let_def)
  have mq: "msgqs s' p = ?mq\<lparr>mq_head := msg_q_next ?mq (mq_head ?mq)\<rparr>"
    by (simp add: s'_def msg_q_put_back_def msg_q_copy_def msg_q_zero_def Let_def)
  have sl: "mq_slots (msgqs s' p) = mq_slots ?mq" by (simp add: mq mq_slots_def)
  note nx = unat_next [OF o O(3)]
  show "ring_ok (msgqs s' p)"
    using O by (simp add: ring_ok_def sl) (simp add: mq nx)
  show "messages p s' = messages p s @ [mq_message (mq_mem s) data n (mq_cap ?mq)]"
    using ring_contents_push [OF O(1,3,4) room_len [OF o r] w(2)] w(1)
    by (simp add: mq_contents_def mem sl) (simp add: mq nx)
  show "put_shape p (mq_region ?mq) s s'"
    unfolding put_shape_def
  proof (intro conjI allI impI)
    show "\<exists>f g. s' = upd_msgq p f (upd_bytes g s)"
      unfolding s'_def msg_q_put_back_def msg_q_copy_def msg_q_zero_def Let_def upd_bytes_twice by blast
    show "mq_mem s' a = mq_mem s a" if "a \<notin> mq_region ?mq" for a
      unfolding mem by (rule w(2)) (use sub that in blast)
  qed (simp_all add: mq)
qed

lemma put_front:
  assumes o: "ring_ok (msgqs s p)" and r: "length (messages p s) < unat (mq_qlen (msgqs s p))"
    and n: "n \<le> mq_cap (msgqs s p)" and d: "mq_apart (msgqs s p) data n"
  defines "s' \<equiv> msg_q_put_front p data n s"
  shows "messages p s' = mq_message (mq_mem s) data n (mq_cap (msgqs s p)) # messages p s"
    and "ring_ok (msgqs s' p)" and "put_shape p (mq_region (msgqs s p)) s s'"
proof -
  let ?mq = "msgqs s p"
  let ?t = "if mq_tail ?mq = 0 then mq_qlen ?mq else mq_tail ?mq - 1"
  let ?u = "if unat (mq_tail ?mq) = 0 then mq_slots ?mq - 1 else unat (mq_tail ?mq) - 1"
  note O = ring_okD [OF o]
  have ut: "unat ?t = ?u"
    using unat_minus_one [of "mq_tail ?mq"] by (simp add: mq_slots_def unsigned_eq_0_iff)
  have tl: "?u < mq_slots ?mq" using O(4) by auto
  let ?sl = "slot (mq_buf ?mq) (unat (mq_cap ?mq)) ?u"
  let ?m = "copy_bytes ?sl data n (zero_bytes ?sl (mq_cap ?mq) (mq_mem s))"
  note sub = slot_in_mq [OF o tl]
  have dis: "region data (unat n) \<inter> region ?sl (unat (mq_cap ?mq)) = {}"
    using d sub by (auto simp: mq_apart_def)
  note w = write_slot [OF n dis, where m = "mq_mem s"]
  have mq: "msgqs s' p = ?mq\<lparr>mq_tail := ?t\<rparr>"
    by (simp add: s'_def msg_q_put_front_def msg_q_copy_def msg_q_zero_def Let_def)
  have at: "msg_q_slot (?mq\<lparr>mq_tail := ?t\<rparr>) ?t = ?sl"
    unfolding slot_eq ut by simp
  have mem: "mq_mem s' = ?m"
    using at unfolding s'_def msg_q_put_front_def msg_q_copy_def msg_q_zero_def Let_def by simp
  have sl: "mq_slots (msgqs s' p) = mq_slots ?mq" by (simp add: mq mq_slots_def)
  show "ring_ok (msgqs s' p)"
    using O tl unfolding ring_ok_def sl unfolding mq using ut by simp
  show "messages p s' = mq_message (mq_mem s) data n (mq_cap ?mq) # messages p s"
    using ring_contents_unpop [OF O(1,3,4) room_len [OF o r] w(2)] w(1) ut
    unfolding mq_contents_def mem sl unfolding mq by simp
  show "put_shape p (mq_region ?mq) s s'"
    unfolding put_shape_def
  proof (intro conjI allI impI)
    show "\<exists>f g. s' = upd_msgq p f (upd_bytes g s)"
      unfolding s'_def msg_q_put_front_def msg_q_copy_def msg_q_zero_def Let_def upd_bytes_twice
        upd_bytes_msgq by blast
    show "mq_mem s' a = mq_mem s a" if "a \<notin> mq_region ?mq" for a
      unfolding mem by (rule w(2)) (use sub that in blast)
  qed (simp_all add: mq)
qed

lemma mq_contents_cong:
  assumes "ring_ok mq" and "\<And>a. a \<in> mq_region mq \<Longrightarrow> m' a = m a"
  shows "mq_contents m' mq = mq_contents m mq"
  using ring_contents_frame [OF ring_okD(1,3,4) [OF assms(1)], of "mq_buf mq" m' m] assms(2)
  by (simp add: mq_contents_def mq_region_def)

lemma first_message:
  assumes o: "ring_ok mq" and ne: "mq_contents m mq \<noteq> []"
  shows "\<exists>ms. mq_contents m mq =
    bytes_at m (msg_q_slot mq (mq_tail mq)) (unat (mq_cap mq)) # ms \<and>
    ms = mq_contents m (mq\<lparr>mq_tail := msg_q_next mq (mq_tail mq)\<rparr>)"
proof -
  note O = ring_okD [OF o]
  have "unat (mq_head mq) \<noteq> unat (mq_tail mq)"
    using ne ring_len_zero [OF O(3,4)] by (auto simp: mq_contents_def simp flip: length_0_conv)
  from ring_contents_pop [OF O(3,4) this, of m "mq_buf mq" "unat (mq_cap mq)"]
  show ?thesis
    using unat_next [OF o O(4)]
    by (simp add: mq_contents_def slot_eq mq_slots_def)
qed

lemma read_first:
  assumes o: "ring_ok (msgqs s p)" and ne: "messages p s \<noteq> []"
    and d: "mq_apart (msgqs s p) buf (mq_cap (msgqs s p))"
  defines "s' \<equiv> msg_q_read p buf s"
  shows "messages p s' = messages p s" and "msgqs s' = msgqs s"
    and "bytes_at (mq_mem s') buf (unat (mq_cap (msgqs s p))) = hd (messages p s)"
    and "put_shape p (region buf (unat (mq_cap (msgqs s p)))) s s'"
proof -
  let ?mq = "msgqs s p"
  let ?sl = "msg_q_slot ?mq (mq_tail ?mq)"
  note O = ring_okD [OF o]
  have dis: "region buf (unat (mq_cap ?mq)) \<inter> region ?sl (unat (mq_cap ?mq)) = {}"
    using d slot_in_mq [OF o O(4)] by (auto simp: mq_apart_def slot_eq)
  note r = read_slot [OF dis, where m = "mq_mem s"]
  have e: "s' = upd_bytes (copy_bytes buf ?sl (mq_cap ?mq)) s"
    by (simp add: s'_def msg_q_read_def msg_q_copy_def Let_def)
  show mq: "msgqs s' = msgqs s" by (simp add: e)
  have out: "mq_mem s' a = mq_mem s a" if "a \<notin> region buf (unat (mq_cap ?mq))" for a
    using r(2) [OF that] by (simp add: e)
  show "messages p s' = messages p s"
    unfolding mq by (rule mq_contents_cong [OF o], rule out) (use d in \<open>auto simp: mq_apart_def\<close>)
  show "bytes_at (mq_mem s') buf (unat (mq_cap ?mq)) = hd (messages p s)"
    using r(1) first_message [OF o ne] by (auto simp: e)
  have "s' = upd_msgq p (\<lambda>k. k) s'" by (simp add: upd_msgq_def)
  then show "put_shape p (region buf (unat (mq_cap ?mq))) s s'"
    unfolding put_shape_def using out mq e by (auto simp: mq)
qed

lemma take_first:
  assumes o: "ring_ok (msgqs s p)" and ne: "messages p s \<noteq> []"
    and d: "mq_apart (msgqs s p) buf (mq_cap (msgqs s p))"
  defines "s' \<equiv> msg_q_take p buf s"
  shows "messages p s = bytes_at (mq_mem s') buf (unat (mq_cap (msgqs s p))) # messages p s'"
    and "ring_ok (msgqs s' p)" and "put_shape p (region buf (unat (mq_cap (msgqs s p)))) s s'"
proof -
  let ?mq = "msgqs s p"
  let ?nx = "?mq\<lparr>mq_tail := msg_q_next ?mq (mq_tail ?mq)\<rparr>"
  note O = ring_okD [OF o]
  note r = read_first [OF o ne d]
  have mem: "mq_mem s' = mq_mem (msg_q_read p buf s)" by (simp add: s'_def msg_q_take_def)
  have mq: "msgqs s' p = ?nx"
    by (simp add: s'_def msg_q_take_def r(2))
  have sl: "mq_slots ?nx = mq_slots ?mq" by (simp add: mq_slots_def)
  show ok: "ring_ok (msgqs s' p)"
    using O unat_next [OF o O(4)] unfolding mq ring_ok_def sl by simp
  have reg: "mq_region ?nx = mq_region ?mq" by (simp add: mq_region_def sl)
  have "mq_mem s' a = mq_mem s a" if "a \<in> mq_region ?nx" for a
    using r(4) d that unfolding put_shape_def mem reg mq_apart_def by blast
  then have "messages p s' = mq_contents (mq_mem s) ?nx"
    using mq_contents_cong [OF ok [unfolded mq]] unfolding mq by blast
  then show "messages p s = bytes_at (mq_mem s') buf (unat (mq_cap ?mq)) # messages p s'"
    using first_message [OF o ne] r(3) by (auto simp: mem)
  obtain g where g: "msg_q_read p buf s = upd_bytes g s"
    by (simp add: msg_q_read_def msg_q_copy_def Let_def)
  have "\<exists>f g. s' = upd_msgq p f (upd_bytes g s)"
    unfolding s'_def msg_q_take_def g by blast
  then show "put_shape p (region buf (unat (mq_cap ?mq))) s s'"
    using r(4) unfolding put_shape_def mem mq by simp
qed

text \<open>The index updates keep the ring well formed whatever the buffers of the caller are.\<close>

lemma ring_index_ok:
  assumes o: "ring_ok (msgqs s p)"
  shows "ring_ok (msgqs (msg_q_put_back p data n s) p)"
    and "ring_ok (msgqs (msg_q_put_front p data n s) p)"
    and "ring_ok (msgqs (msg_q_take p buf s) p)"
proof -
  note O = ring_okD [OF o]
  let ?mq = "msgqs s p"
  have t: "unat (if mq_tail ?mq = 0 then mq_qlen ?mq else mq_tail ?mq - 1) < mq_slots ?mq"
    using unat_minus_one [of "mq_tail ?mq"] O(4) by (auto simp: mq_slots_def)
  show "ring_ok (msgqs (msg_q_put_back p data n s) p)"
    using O unat_next [OF o O(3)]
    by (simp add: msg_q_put_back_def msg_q_copy_def msg_q_zero_def Let_def ring_ok_def mq_slots_def)
  show "ring_ok (msgqs (msg_q_put_front p data n s) p)"
    using O t
    by (simp add: msg_q_put_front_def msg_q_copy_def msg_q_zero_def Let_def ring_ok_def mq_slots_def)
  show "ring_ok (msgqs (msg_q_take p buf s) p)"
    using O unat_next [OF o O(4)]
    by (simp add: msg_q_take_def msg_q_read_def msg_q_copy_def Let_def ring_ok_def mq_slots_def)
qed

lemma ring_updates:
  "\<exists>f g. msg_q_put_back p data n s = upd_msgq p f (upd_bytes g s)"
  "\<exists>f g. msg_q_put_front p data n s = upd_msgq p f (upd_bytes g s)"
  "\<exists>f g. msg_q_take p buf s = upd_msgq p f (upd_bytes g s)"
  "\<exists>g. msg_q_read p buf s = upd_bytes g s"
  unfolding msg_q_put_back_def msg_q_put_front_def msg_q_take_def msg_q_read_def msg_q_copy_def
    msg_q_zero_def Let_def upd_bytes_twice upd_bytes_msgq by blast+

subsection \<open>Sending and receiving without blocking\<close>

definition mq_live :: "ptr set \<Rightarrow> wq_t set \<Rightarrow> ptr \<Rightarrow> 'z sys_scheme \<Rightarrow> bool" where
  "mq_live T W p s \<longleftrightarrow> kinv T W s \<and> ReadersWq p \<in> W \<and> WritersWq p \<in> W \<and> p \<noteq> 0 \<and>
     ring_ok (msgqs s p) \<and> \<not> mq_destroyed (msgqs s p)"

lemma mq_liveD:
  assumes "mq_live T W p s"
  shows "kinv T W s" "ReadersWq p \<in> W" "WritersWq p \<in> W" "p \<noteq> 0" "ring_ok (msgqs s p)"
    "\<not> mq_destroyed (msgqs s p)"
  using assms by (simp_all add: mq_live_def)

lemma put_shapeD:
  assumes "put_shape p A s s'"
  shows "kinv T W s' \<longleftrightarrow> kinv T W s" "waiters s' w = waiters s w" "tasks s' = tasks s"
    "current_task s' = current_task s" "sems s' = sems s" "mutexes s' = mutexes s"
    "q \<noteq> p \<Longrightarrow> msgqs s' q = msgqs s q" "a \<notin> A \<Longrightarrow> mq_mem s' a = mq_mem s a"
    "mq_buf (msgqs s' p) = mq_buf (msgqs s p)" "mq_cap (msgqs s' p) = mq_cap (msgqs s p)"
    "mq_qlen (msgqs s' p) = mq_qlen (msgqs s p)" "mq_destroyed (msgqs s' p) = mq_destroyed (msgqs s p)"
proof -
  obtain f g where "s' = upd_msgq p f (upd_bytes g s)" using assms by (auto simp: put_shape_def)
  then show "kinv T W s' \<longleftrightarrow> kinv T W s" "waiters s' w = waiters s w" "tasks s' = tasks s"
    "current_task s' = current_task s" "sems s' = sems s" "mutexes s' = mutexes s"
    "q \<noteq> p \<Longrightarrow> msgqs s' q = msgqs s q"
    by simp_all
qed (use assms in \<open>simp_all add: put_shape_def\<close>)

text \<open>The wake at the end touches neither the ring nor the memory.\<close>

lemma wake_objects:
  assumes "kinv T W s" and "w \<in> W"
  defines "s' \<equiv> snd (trt_wait_q_wake_one_locked w s)"
  shows "kinv T W s'" "sems s' = sems s" "mutexes s' = mutexes s" "msgqs s' = msgqs s"
    "sys_heap s' = sys_heap s" "current_task s' = current_task s"
    "waiters s' w = tl (waiters s w)" "v \<in> W \<Longrightarrow> v \<noteq> w \<Longrightarrow> waiters s' v = waiters s v"
    "tasks s' = (case waiters s w of [] \<Rightarrow> tasks s
      | t # _ \<Rightarrow> (tasks s)(t := woken TASK_WAIT_OBJECT (tasks s t)))"
proof -
  have m: "kstate.more s' = kstate.more s"
    using wake_more [OF assms(1,2)] by (simp add: s'_def trt_wait_q_wake_one_locked_def)
  show "sems s' = sems s" "mutexes s' = mutexes s" "msgqs s' = msgqs s" "sys_heap s' = sys_heap s"
    using same_more(2,3,4,5) [OF m] by blast+
  note w = trt_wait_q_wake_one_locked_def
  show "kinv T W s'" "current_task s' = current_task s" "waiters s' w = tl (waiters s w)"
    "v \<in> W \<Longrightarrow> v \<noteq> w \<Longrightarrow> waiters s' v = waiters s v"
    "tasks s' = (case waiters s w of [] \<Rightarrow> tasks s
      | t # _ \<Rightarrow> (tasks s)(t := woken TASK_WAIT_OBJECT (tasks s t)))"
    using wake_result_empty [OF assms(1,2), of TASK_WAIT_OBJECT]
      wake_result_first(2,3,5) [OF assms(1,2), where r = TASK_WAIT_OBJECT]
      waiters_after_wake [OF assms(1,2), where r = TASK_WAIT_OBJECT] assms(1)
    by (cases "waiters s w"; simp add: s'_def w woken_def)+
qed

definition sendable :: "ptr \<Rightarrow> ptr \<Rightarrow> u32 \<Rightarrow> 'z sys_scheme \<Rightarrow> bool" where
  "sendable p data n s \<longleftrightarrow> data \<noteq> 0 \<and> n \<noteq> 0 \<and> n \<le> mq_cap (msgqs s p) \<and> mq_apart (msgqs s p) data n"

abbreviation mq_room :: "ptr \<Rightarrow> 'z sys_scheme \<Rightarrow> nat" where
  "mq_room p s \<equiv> unat (mq_qlen (msgqs s p))"

lemma put_then_wake:
  assumes l: "mq_live T W p s" and sh: "put_shape p A s s1" and o: "ring_ok (msgqs s1 p)"
    and w: "w \<in> W"
  defines "s' \<equiv> snd (trt_wait_q_wake_one_locked w s1)"
  shows "mq_live T W p s'" and "messages p s' = messages p s1" and "mq_mem s' = mq_mem s1"
    and "msgqs s' = msgqs s1" and "waiters s' w = tl (waiters s w)"
    and "v \<in> W \<Longrightarrow> v \<noteq> w \<Longrightarrow> waiters s' v = waiters s v"
    and "tasks s' = (case waiters s w of [] \<Rightarrow> tasks s
      | t # _ \<Rightarrow> (tasks s)(t := woken TASK_WAIT_OBJECT (tasks s t)))"
    and "sems s' = sems s" and "mutexes s' = mutexes s" and "current_task s' = current_task s"
proof -
  note d = mq_liveD [OF l] and f = put_shapeD [OF sh]
  have k: "kinv T W s1" using f(1) d(1) by blast
  note u = wake_objects [OF k w, folded s'_def]
  show "mq_live T W p s'" using u(1,4) d f(12) o by (simp add: mq_live_def)
  show "messages p s' = messages p s1" "mq_mem s' = mq_mem s1" using u(4,5) by simp_all
  show "msgqs s' = msgqs s1" "waiters s' w = tl (waiters s w)"
    "v \<in> W \<Longrightarrow> v \<noteq> w \<Longrightarrow> waiters s' v = waiters s v"
    "tasks s' = (case waiters s w of [] \<Rightarrow> tasks s
      | t # _ \<Rightarrow> (tasks s)(t := woken TASK_WAIT_OBJECT (tasks s t)))"
    "sems s' = sems s" "mutexes s' = mutexes s" "current_task s' = current_task s"
    using u f by (simp_all cong: list.case_cong)
qed

lemma send_with_room:
  assumes l: "mq_live T W p s" and r: "length (messages p s) < mq_room p s" and d: "sendable p data n s"
  shows "msg_q_send_obj f p data n us s =
      Some (ERR_OK, snd (trt_wait_q_wake_one_locked (ReadersWq p) (msg_q_put_back p data n s)))"
    and "msg_q_send_front_obj f p data n us s =
      Some (ERR_OK, snd (trt_wait_q_wake_one_locked (ReadersWq p) (msg_q_put_front p data n s)))"
proof -
  note L = mq_liveD [OF l]
  have "\<not> msg_q_is_full_obj p s" using full_iff [OF L(5,4)] r by simp
  moreover have "\<not> n > mq_cap (msgqs s p)" using d by (simp add: sendable_def not_less)
  ultimately show "msg_q_send_obj f p data n us s =
      Some (ERR_OK, snd (trt_wait_q_wake_one_locked (ReadersWq p) (msg_q_put_back p data n s)))"
    "msg_q_send_front_obj f p data n us s =
      Some (ERR_OK, snd (trt_wait_q_wake_one_locked (ReadersWq p) (msg_q_put_front p data n s)))"
    using L d unfolding msg_q_send_obj_def msg_q_send_front_obj_def
    by (subst msg_q_send_loop.simps msg_q_send_front_loop.simps; simp add: sendable_def)+
qed

lemma recv_with_message:
  assumes l: "mq_live T W p s" and r: "messages p s \<noteq> []" and b: "buf \<noteq> 0"
  shows "msg_q_recv_obj f p buf us s =
      Some (ERR_OK, snd (trt_wait_q_wake_one_locked (WritersWq p) (msg_q_take p buf s)))"
    and "msg_q_peek_obj f p buf us s =
      Some (ERR_OK, snd (trt_wait_q_wake_one_locked (ReadersWq p) (msg_q_read p buf s)))"
proof -
  note L = mq_liveD [OF l]
  have "\<not> msg_q_is_empty_obj p s" using empty_iff [OF L(5,4)] r by simp
  then show "msg_q_recv_obj f p buf us s =
      Some (ERR_OK, snd (trt_wait_q_wake_one_locked (WritersWq p) (msg_q_take p buf s)))"
    "msg_q_peek_obj f p buf us s =
      Some (ERR_OK, snd (trt_wait_q_wake_one_locked (ReadersWq p) (msg_q_read p buf s)))"
    using L b unfolding msg_q_recv_obj_def msg_q_peek_obj_def
    by (subst msg_q_recv_loop.simps msg_q_peek_loop.simps; simp)+
qed

text \<open>One send and one receive that find room or a message, with the message moved.\<close>

definition mq_sends :: "ptr \<Rightarrow> 'z sys_scheme \<Rightarrow> u8 list \<Rightarrow> 'z sys_scheme \<Rightarrow> bool" where
  "mq_sends p s m s' \<longleftrightarrow> (\<exists>data n us. \<not> msg_q_is_full_obj p s \<and> sendable p data n s \<and>
     m = mq_message (mq_mem s) data n (mq_cap (msgqs s p)) \<and>
     msg_q_send_obj Some p data n us s = Some (ERR_OK, s'))"

definition mq_recvs :: "ptr \<Rightarrow> 'z sys_scheme \<Rightarrow> u8 list \<Rightarrow> 'z sys_scheme \<Rightarrow> bool" where
  "mq_recvs p s m s' \<longleftrightarrow> (\<exists>buf us. \<not> msg_q_is_empty_obj p s \<and> buf \<noteq> 0 \<and>
     mq_apart (msgqs s p) buf (mq_cap (msgqs s p)) \<and>
     m = bytes_at (mq_mem s') buf (unat (mq_cap (msgqs s p))) \<and>
     msg_q_recv_obj Some p buf us s = Some (ERR_OK, s'))"

text \<open>Whatever else happens in the system, as long as it keeps off the queue and its buffer.\<close>

definition mq_quiet :: "ptr set \<Rightarrow> wq_t set \<Rightarrow> ptr \<Rightarrow> 'z sys_scheme \<Rightarrow> 'z sys_scheme \<Rightarrow> bool" where
  "mq_quiet T W p s s' \<longleftrightarrow> mq_live T W p s' \<and> msgqs s' p = msgqs s p \<and>
     (\<forall>a\<in>mq_region (msgqs s p). mq_mem s' a = mq_mem s a)"

interpretation mq: bounded_queue "mq_live T W p" "messages p" "mq_room p" "mq_sends p" "mq_recvs p"
    "mq_quiet T W p" for T W p
proof unfold_locales
  show "length (messages p s) \<le> mq_room p s" if "mq_live T W p s" for s
    using length_messages mq_liveD(5) [OF that] by blast
  show "mq_live T W p s' \<and> messages p s' = messages p s @ [m] \<and> mq_room p s' = mq_room p s"
    if l: "mq_live T W p s" and a: "mq_sends p s m s'" for s m s'
  proof -
    note L = mq_liveD [OF l]
    obtain data n us where a: "\<not> msg_q_is_full_obj p s" "sendable p data n s"
      "m = mq_message (mq_mem s) data n (mq_cap (msgqs s p))"
      "msg_q_send_obj Some p data n us s = Some (ERR_OK, s')"
      using a by (auto simp: mq_sends_def)
    have r: "length (messages p s) < mq_room p s"
      using a(1) full_iff [OF L(5,4)] length_messages [OF L(5)] by simp
    have d: "n \<le> mq_cap (msgqs s p)" "mq_apart (msgqs s p) data n" using a(2) by (simp_all add: sendable_def)
    note pb = put_back [OF L(5) r d]
    note w = put_then_wake [OF l pb(3,2) L(2)]
    have "s' = snd (trt_wait_q_wake_one_locked (ReadersWq p) (msg_q_put_back p data n s))"
      using a(4) send_with_room(1) [OF l r a(2), of Some us] by simp
    then show ?thesis using w(1,2,4) pb(1) put_shapeD(11) [OF pb(3)] by (simp add: a(3))
  qed
  show "mq_live T W p s' \<and> messages p s = m # messages p s' \<and> mq_room p s' = mq_room p s"
    if l: "mq_live T W p s" and a: "mq_recvs p s m s'" for s m s'
  proof -
    note L = mq_liveD [OF l]
    obtain buf us where a: "\<not> msg_q_is_empty_obj p s" "buf \<noteq> 0"
      "mq_apart (msgqs s p) buf (mq_cap (msgqs s p))"
      "m = bytes_at (mq_mem s') buf (unat (mq_cap (msgqs s p)))"
      "msg_q_recv_obj Some p buf us s = Some (ERR_OK, s')"
      using a by (auto simp: mq_recvs_def)
    have r: "messages p s \<noteq> []" using a(1) empty_iff [OF L(5,4)] by simp
    note tk = take_first [OF L(5) r a(3)]
    note w = put_then_wake [OF l tk(3,2) L(3)]
    have "s' = snd (trt_wait_q_wake_one_locked (WritersWq p) (msg_q_take p buf s))"
      using a(5) recv_with_message(1) [OF l r a(2), of Some us] by simp
    then show ?thesis using w(1-4) tk(1) put_shapeD(11) [OF tk(3)] by (simp add: a(4))
  qed
  show "mq_live T W p s' \<and> messages p s' = messages p s \<and> mq_room p s' = mq_room p s"
    if "mq_live T W p s" "mq_quiet T W p s s'" for s s'
    using that mq_contents_cong [OF mq_liveD(5) [OF that(1)], of "mq_mem s'" "mq_mem s"]
    by (simp add: mq_quiet_def)
qed

subsection \<open>Blocking\<close>

lemma mq_block:
  assumes k: "kinv T W s" and w: "w \<in> W" and r: "app_running s"
  shows "msg_q_block f w 0 s = Some (ERR_BUSY, s)"
    and "us \<noteq> 0 \<Longrightarrow> sched_is_locked s \<Longrightarrow> msg_q_block f w us s = Some (ERR_LOCKED, sched_set_pending s)"
    and "\<not> sched_is_locked s \<Longrightarrow> us = TRT_TIME_FOREVER_US \<or> timer_us_to_ticks us \<noteq> 0 \<Longrightarrow>
      \<exists>s'. blocked_on W w s s' \<and> kinv T W s' \<and>
        msg_q_block f w us s = Option.bind (f s') (\<lambda>s2. Some (msg_q_wait_result s2, s2))"
proof -
  show "msg_q_block f w 0 s = Some (ERR_BUSY, s)"
    "us \<noteq> 0 \<Longrightarrow> sched_is_locked s \<Longrightarrow> msg_q_block f w us s = Some (ERR_LOCKED, sched_set_pending s)"
    by (simp_all add: msg_q_block_def)
  assume nl: "\<not> sched_is_locked s" and n: "us = TRT_TIME_FOREVER_US \<or> timer_us_to_ticks us \<noteq> 0"
  have "us \<noteq> 0" using n by (auto simp: timer_us_to_ticks_def TRT_TIME_FOREVER_US_def)
  moreover obtain s' where "trt_wait_q_block_timeout_locked w us s = Some (ERR_OK, s')" "kinv T W s'"
    "blocked_on W w s s'"
    using block_timeout [OF k w r nl n] by blast
  moreover have "task_yield f s' = f s'" by (rule blocked_yield [OF \<open>blocked_on W w s s'\<close> nl])
  ultimately show "\<exists>s'. blocked_on W w s s' \<and> kinv T W s' \<and>
      msg_q_block f w us s = Option.bind (f s') (\<lambda>s2. Some (msg_q_wait_result s2, s2))"
    using nl by (intro exI [of _ s']) (auto simp: msg_q_block_def block_forever)
qed

lemma mq_wait_result_ok: "msg_q_wait_result s = ERR_OK \<longleftrightarrow> current_wait_result s = TASK_WAIT_OBJECT"
  by (simp add: msg_q_wait_result_def split: task_wait_result_t.split)

text \<open>
  A sender that finds the queue full enters the queue of the writers; when it runs again with the
  result \<open>TASK_WAIT_OBJECT\<close> it starts over, otherwise the call returns.
\<close>

lemma send_blocks:
  assumes l: "mq_live T W p s" and full: "length (messages p s) = mq_room p s"
    and d: "data \<noteq> 0" "n \<noteq> 0" "n \<le> mq_cap (msgqs s p)" and r: "app_running s"
  shows "msg_q_send_obj f p data n 0 s = Some (ERR_BUSY, s)"
    and "us \<noteq> 0 \<Longrightarrow> sched_is_locked s \<Longrightarrow>
      msg_q_send_obj f p data n us s = Some (ERR_LOCKED, sched_set_pending s)"
    and "\<not> sched_is_locked s \<Longrightarrow> us = TRT_TIME_FOREVER_US \<or> timer_us_to_ticks us \<noteq> 0 \<Longrightarrow>
      \<exists>s'. blocked_on W (WritersWq p) s s' \<and> mq_live T W p s' \<and> messages p s' = messages p s \<and>
        msg_q_send_obj f p data n us s = Option.bind (f s') (\<lambda>s2.
          if current_wait_result s2 = TASK_WAIT_OBJECT then msg_q_send_loop f p data n us s2
          else Some (msg_q_wait_result s2, s2))"
proof -
  note L = mq_liveD [OF l]
  have u: "msg_q_send_obj f p data n us s = Option.bind (msg_q_block f (WritersWq p) us s) (\<lambda>r.
        if fst r \<noteq> ERR_OK then Some r else msg_q_send_loop f p data n us (snd r))" for us
    using L d full_iff [OF L(5,4)] full unfolding msg_q_send_obj_def
    by (subst msg_q_send_loop.simps) (simp flip: not_le)
  note b = mq_block [OF L(1,3) r, where f = f]
  show "msg_q_send_obj f p data n 0 s = Some (ERR_BUSY, s)" by (simp add: u b(1))
  show "us \<noteq> 0 \<Longrightarrow> sched_is_locked s \<Longrightarrow>
      msg_q_send_obj f p data n us s = Some (ERR_LOCKED, sched_set_pending s)"
    by (simp add: u b(2))
  assume nl: "\<not> sched_is_locked s" and n: "us = TRT_TIME_FOREVER_US \<or> timer_us_to_ticks us \<noteq> 0"
  obtain s' where s': "blocked_on W (WritersWq p) s s'" "kinv T W s'"
    "msg_q_block f (WritersWq p) us s = Option.bind (f s') (\<lambda>s2. Some (msg_q_wait_result s2, s2))"
    using b(3) [OF nl n] by blast
  note m = same_more(2,5) [OF blocked_onD(9) [OF s'(1)]]
  have "mq_live T W p s'" using L s'(2) by (simp add: mq_live_def m)
  moreover have "msg_q_send_obj f p data n us s = Option.bind (f s') (\<lambda>s2.
          if current_wait_result s2 = TASK_WAIT_OBJECT then msg_q_send_loop f p data n us s2
          else Some (msg_q_wait_result s2, s2))"
    unfolding u s'(3) by (cases "f s'") (simp_all add: mq_wait_result_ok)
  ultimately show "\<exists>s'. blocked_on W (WritersWq p) s s' \<and> mq_live T W p s' \<and>
      messages p s' = messages p s \<and> msg_q_send_obj f p data n us s = Option.bind (f s') (\<lambda>s2.
          if current_wait_result s2 = TASK_WAIT_OBJECT then msg_q_send_loop f p data n us s2
          else Some (msg_q_wait_result s2, s2))"
    using s'(1) by (intro exI [of _ s']) (simp add: m)
qed

end
