(* ===== verification/ObjSteps.thy ===== *)
theory ObjSteps
  imports Semaphore Mutex MsgQueue
begin

text \<open>
  The whole kernel as a transition system: the steps of the scheduler, and the operations of the
  semaphores, mutexes and message queues as they appear up to the yield of the calling task.  A
  call that goes on after its yield only reads the result, or, for a message queue, starts over,
  which is a step of its own.  The scheduler steps are the uninterrupted ones of \<open>kstep\<close>.  The step
  \<open>Memory\<close> stands for anything a call may do to the heap and the handle table, which the objects do
  not depend on; \<open>Sem_create\<close> leaves out the one case in which \<^verbatim>\<open>sem_init_obj\<close> makes a semaphore
  that counts above its maximum, both arguments negative.
\<close>

subsection \<open>The invariant of the objects\<close>

definition obj_ok :: "wq_t set \<Rightarrow> 'z sys_scheme \<Rightarrow> bool" where
  "obj_ok W s \<longleftrightarrow>
     (\<forall>p. SemWq p \<in> W \<longrightarrow> p \<noteq> 0 \<and> sem_ok p s) \<and>
     (\<forall>p. MutexWq p \<in> W \<longrightarrow> p \<noteq> 0 \<and> mutex_ok p s) \<and>
     (\<forall>p. ReadersWq p \<in> W \<longleftrightarrow> WritersWq p \<in> W) \<and>
     (\<forall>p. ReadersWq p \<in> W \<longrightarrow> p \<noteq> 0 \<and> ring_ok (msgqs s p))"

definition osafe :: "nat \<Rightarrow> ptr set \<Rightarrow> wq_t set \<Rightarrow> 'z sys_scheme \<Rightarrow> bool" where
  "osafe B T W s \<longleftrightarrow> ksafe B T W s \<and> obj_ok W s"

text \<open>What an operation may do to the queues it is not about.\<close>

definition fewer_waiters :: "wq_t set \<Rightarrow> wq_t set \<Rightarrow> 'z kstate_scheme \<Rightarrow> 'z kstate_scheme \<Rightarrow> bool" where
  "fewer_waiters W X s s' \<longleftrightarrow> (\<forall>v\<in>W - X. set (waiters s' v) \<subseteq> set (waiters s v))"

lemma obj_ok_same:
  assumes "obj_ok W s" and "sems s' = sems s" "mutexes s' = mutexes s" "msgqs s' = msgqs s"
    and "fewer_waiters W {} s s'"
  shows "obj_ok W s'"
proof -
  have "sem_ok p s'" if "SemWq p \<in> W" "sem_ok p s" for p
    using that assms(2,5) by (intro sem_ok_cong [OF that(2)]) (auto simp: fewer_waiters_def)
  moreover have "mutex_ok p s'" if "MutexWq p \<in> W" "mutex_ok p s" for p
    using that assms(3,5) by (intro mutex_ok_cong [OF that(2)]) (auto simp: fewer_waiters_def)
  ultimately show ?thesis using assms(1,4) by (simp add: obj_ok_def)
qed

lemma obj_ok_sem:
  assumes o: "obj_ok W s" and "\<And>q. q \<noteq> p \<Longrightarrow> sems s' q = sems s q"
    and "mutexes s' = mutexes s" "msgqs s' = msgqs s"
    and "fewer_waiters W {SemWq p} s s'" and "SemWq p \<in> W \<Longrightarrow> sem_ok p s'"
  shows "obj_ok W s'"
proof -
  have "sem_ok q s'" if "SemWq q \<in> W" "sem_ok q s" for q
  proof (cases "q = p")
    case False
    then show ?thesis
      using that assms(2,5) by (intro sem_ok_cong [OF that(2)]) (auto simp: fewer_waiters_def)
  qed (use that assms(6) in simp)
  moreover have "mutex_ok q s'" if "MutexWq q \<in> W" "mutex_ok q s" for q
    using that assms(3,5) by (intro mutex_ok_cong [OF that(2)]) (auto simp: fewer_waiters_def)
  ultimately show ?thesis using o assms(4) by (simp add: obj_ok_def)
qed

lemma obj_ok_mutex:
  assumes o: "obj_ok W s" and "\<And>q. q \<noteq> p \<Longrightarrow> mutexes s' q = mutexes s q"
    and "sems s' = sems s" "msgqs s' = msgqs s"
    and "fewer_waiters W {MutexWq p} s s'" and "MutexWq p \<in> W \<Longrightarrow> mutex_ok p s'"
  shows "obj_ok W s'"
proof -
  have "mutex_ok q s'" if "MutexWq q \<in> W" "mutex_ok q s" for q
  proof (cases "q = p")
    case False
    then show ?thesis
      using that assms(2,5) by (intro mutex_ok_cong [OF that(2)]) (auto simp: fewer_waiters_def)
  qed (use that assms(6) in simp)
  moreover have "sem_ok q s'" if "SemWq q \<in> W" "sem_ok q s" for q
    using that assms(3,5) by (intro sem_ok_cong [OF that(2)]) (auto simp: fewer_waiters_def)
  ultimately show ?thesis using o assms(4) by (simp add: obj_ok_def)
qed

lemma obj_ok_msgq:
  assumes o: "obj_ok W s" and "\<And>q. q \<noteq> p \<Longrightarrow> msgqs s' q = msgqs s q"
    and "sems s' = sems s" "mutexes s' = mutexes s"
    and "fewer_waiters W {ReadersWq p, WritersWq p} s s'"
    and "ReadersWq p \<in> W \<Longrightarrow> ring_ok (msgqs s' p)"
  shows "obj_ok W s'"
proof -
  have "sem_ok q s'" if "SemWq q \<in> W" "sem_ok q s" for q
    using that assms(3,5) by (intro sem_ok_cong [OF that(2)]) (auto simp: fewer_waiters_def)
  moreover have "mutex_ok q s'" if "MutexWq q \<in> W" "mutex_ok q s" for q
    using that assms(4,5) by (intro mutex_ok_cong [OF that(2)]) (auto simp: fewer_waiters_def)
  moreover have "ring_ok (msgqs s' q)" if "ReadersWq q \<in> W" "ring_ok (msgqs s q)" for q
    using that assms(2,6) by (cases "q = p") auto
  ultimately show ?thesis using o by (simp add: obj_ok_def)
qed

lemma ksafe_upd_object:
  assumes "ksafe B T W s"
  shows "ksafe B T W (upd_sem p f s)" "ksafe B T W (upd_mutex p g s)"
    "ksafe B T W (upd_msgq p h s)" "ksafe B T W (upd_bytes b s)"
  by (rule ksafe_frame [OF assms]; simp)+

subsection \<open>Semaphores\<close>

lemma osafe_sem_live:
  assumes "osafe B T W s" and "SemWq p \<in> W" and "\<not> sem_destroyed (sems s p)"
  shows "sem_live T W p s"
  using assms ksafe_kinv [of B T W s] by (simp add: osafe_def obj_ok_def sem_live_def)

lemma osafe_pending: "osafe B T W s \<Longrightarrow> osafe B T W (sched_set_pending s)"
  using ksafe_set_pending [of B T W s] same_more [of "sched_set_pending s" s]
  by (auto simp: osafe_def fewer_waiters_def waiters_def intro!: obj_ok_same [of W s])

lemma osafe_sem_post:
  assumes i: "osafe B T W s" and w: "SemWq p \<in> W"
  shows "osafe B T W (snd (sem_post_obj p s))"
proof (cases "sem_destroyed (sems s p)")
  case True
  then have "snd (sem_post_obj p s) = s" by (simp add: sem_post_obj_def)
  with i show ?thesis by simp
next
  case False
  note l = osafe_sem_live [OF i w False]
  have k: "ksafe B T W s" "obj_ok W s" using i by (simp_all add: osafe_def)
  show ?thesis
  proof (cases "waiters s (SemWq p)")
    case (Cons t ts)
    note f = sem_post_wakes [OF l Cons]
    let ?s = "snd (trt_wait_q_wake_one_result_locked (SemWq p) TASK_WAIT_OBJECT s)"
    have m: "kstate.more ?s = kstate.more s" by (rule wake_more [OF sem_liveD(1) [OF l] w])
    have "fewer_waiters W {} s ?s"
      using waiters_after_wake [OF sem_liveD(1) [OF l] w Cons, where r = TASK_WAIT_OBJECT] Cons
      by (auto simp: fewer_waiters_def) (metis set_subset_Cons subsetD)
    with same_more(3,4,5) [OF m] have "obj_ok W ?s" by (intro obj_ok_same [OF k(2)])
    with ksafe_wake [OF k(1) w] show ?thesis by (simp add: osafe_def f(1))
  next
    case Nil
    note f = sem_post_counts [OF l Nil]
    have "sem_units p s \<le> unat (sem_max (sems s p))" using sem_liveD(4) [OF l] by (simp add: sem_ok_iff)
    then consider "sem_units p s < unat (sem_max (sems s p))" | "sem_units p s = unat (sem_max (sems s p))"
      by linarith
    then show ?thesis
    proof cases
      case 1
      have "obj_ok W (upd_sem p (\<lambda>k. k\<lparr>sem_cnt := sem_cnt k + 1\<rparr>) s)"
        using sem_liveD(4) [OF f(2) [OF 1]]
        by (intro obj_ok_sem [OF k(2), of p]) (simp_all add: fewer_waiters_def)
      with ksafe_upd_object(1) [OF k(1)] show ?thesis by (simp add: osafe_def f(1) [OF 1])
    qed (use i f(4) in simp)
  qed
qed

lemma osafe_sem_take:
  assumes i: "osafe B T W s" and w: "SemWq p \<in> W" and d: "\<not> sem_destroyed (sems s p)"
    and u: "0 < sem_units p s"
  shows "osafe B T W (upd_sem p (\<lambda>k. k\<lparr>sem_cnt := sem_cnt k - 1\<rparr>) s)"
proof -
  have k: "ksafe B T W s" "obj_ok W s" using i by (simp_all add: osafe_def)
  have "obj_ok W (upd_sem p (\<lambda>k. k\<lparr>sem_cnt := sem_cnt k - 1\<rparr>) s)"
    using sem_liveD(4) [OF sem_take(1) [OF osafe_sem_live [OF i w d] u]]
    by (intro obj_ok_sem [OF k(2), of p]) (simp_all add: fewer_waiters_def)
  with ksafe_upd_object(1) [OF k(1)] show ?thesis by (simp add: osafe_def)
qed

lemma osafe_sem_trywait:
  assumes i: "osafe B T W s" and w: "SemWq p \<in> W"
  shows "osafe B T W (snd (sem_trywait_obj p s))"
proof (cases "sem_destroyed (sems s p) \<or> sem_units p s = 0")
  case True
  then have "snd (sem_trywait_obj p s) = s"
    using sem_cnt_zero_iff [of s p] by (auto simp: sem_trywait_obj_def)
  with i show ?thesis by simp
next
  case False
  then show ?thesis
    using osafe_sem_take [OF i w] sem_take(3) [OF osafe_sem_live [OF i w]] by simp
qed

text \<open>A task that blocks changes no object; only its own queue grows.\<close>

lemma osafe_blocked:
  assumes i: "osafe B T W s" and r: "app_running s" and w: "w \<in> W"
    and us: "us = TRT_TIME_FOREVER_US \<or> unat (timer_us_to_ticks us) \<le> B"
    and b: "trt_wait_q_block_timeout_locked w us s = Some (e, s')"
    and nl: "\<not> sched_is_locked s"
  shows "ksafe B T W s'" and "fewer_waiters W {w} s s'" and "kstate.more s' = kstate.more s"
proof -
  have k: "ksafe B T W s" using i by (simp add: osafe_def)
  show "ksafe B T W s'" by (rule ksafe_block [OF k r w us b])
  have *: "fewer_waiters W {w} s s' \<and> kstate.more s' = kstate.more s"
  proof (cases "us = TRT_TIME_FOREVER_US \<or> timer_us_to_ticks us \<noteq> 0")
    case True
    then show ?thesis
      using block_timeout [OF ksafe_kinv [OF k] w r nl True] b
      by (auto simp: fewer_waiters_def dest: blocked_onD)
  next
    case False
    then show ?thesis using b block_zero_timeout [of us w s] by (simp add: fewer_waiters_def)
  qed
  then show "fewer_waiters W {w} s s'" "kstate.more s' = kstate.more s" by blast+
qed

lemma osafe_sem_wait:
  assumes i: "osafe B T W s" and r: "app_running s" and w: "SemWq p \<in> W"
    and us: "us = TRT_TIME_FOREVER_US \<or> unat (timer_us_to_ticks us) \<le> B"
    and s': "sem_wait_timeout_obj Some p us s = Some (e, s')"
  shows "osafe B T W s'"
proof -
  have p: "p \<noteq> 0" using i w by (simp add: osafe_def obj_ok_def)
  consider "sem_destroyed (sems s p)"
    | "\<not> sem_destroyed (sems s p)" "0 < sem_units p s"
    | "\<not> sem_destroyed (sems s p)" "sem_units p s = 0" "sched_is_locked s"
    | "\<not> sem_destroyed (sems s p)" "sem_units p s = 0" "\<not> sched_is_locked s"
    by blast
  then show ?thesis
  proof cases
    case 1
    then show ?thesis using i s' sem_dead(3) [OF 1 p, of Some us] by simp
  next
    case 2
    then show ?thesis
      using osafe_sem_take [OF i w 2] s' sem_take(5) [OF osafe_sem_live [OF i w 2(1)] 2(2), of Some us] by simp
  next
    case 3
    then show ?thesis
      using s' osafe_pending [OF i] sem_wait_refused(1) [OF osafe_sem_live [OF i w 3(1)] 3(2,3), of Some us] by simp
  next
    case 4
    note l = osafe_sem_live [OF i w 4(1)]
    show ?thesis
    proof (cases "us = TRT_TIME_FOREVER_US \<or> timer_us_to_ticks us \<noteq> 0")
      case True
      obtain s1 where b: "trt_wait_q_block_timeout_locked (SemWq p) us s = Some (ERR_OK, s1)"
        "blocked_on W (SemWq p) s s1"
        using block_timeout [OF sem_liveD(1,2) [OF l] r 4(3) True] by blast
      have "s' = s1"
        using s' sem_wait_blocked [OF l 4(2,3) True b, of Some] by simp
      with b(1) have b': "trt_wait_q_block_timeout_locked (SemWq p) us s = Some (ERR_OK, s')" by simp
      note q = osafe_blocked [OF i r w us b' 4(3)]
      note m = same_more(3,4,5) [OF q(3)]
      have "sem_ok p s'" using sem_liveD(4) [OF l] 4(2) by (simp add: sem_ok_iff sem_units_def m)
      moreover have "obj_ok W s" using i by (simp add: osafe_def)
      ultimately have "obj_ok W s'" using m q(2) by (intro obj_ok_sem [of W s p s']) simp_all
      with q(1) show ?thesis by (simp add: osafe_def)
    next
      case False
      then have "sem_wait_timeout_obj Some p us s = Some (ERR_TIMEOUT, s)"
        using sem_wait_refused(2) [OF l 4(2,3)] by blast
      with i s' show ?thesis by (simp only: option.inject prod.inject)
    qed
  qed
qed

lemma osafe_sem_destroy:
  assumes i: "osafe B T W s" and w: "SemWq p \<in> W" and s': "sem_destroy_obj p s = Some (e, n, s')"
  shows "osafe B T W s'"
proof (cases "sem_destroyed (sems s p)")
  case True
  then show ?thesis using i s' by (auto simp: sem_destroy_obj_def split: if_splits)
next
  case False
  have k: "ksafe B T W s" "obj_ok W s" and p: "p \<noteq> 0" using i w by (simp_all add: osafe_def obj_ok_def)
  let ?u = "upd_sem p (\<lambda>k. k\<lparr>sem_destroyed := True, sem_cnt := 0\<rparr>) s"
  note ku = ksafe_upd_object(1) [OF k(1), of p "\<lambda>k. k\<lparr>sem_destroyed := True, sem_cnt := 0\<rparr>"]
  obtain c where a: "trt_wait_q_wake_all_result_locked (SemWq p) TASK_WAIT_DESTROYED ?u = Some (c, s')"
    using s' False p by (auto simp: sem_destroy_obj_def Let_def bind_Some_iff)
  from wake_all [OF ksafe_kinv [OF ku] w, of TASK_WAIT_DESTROYED] a
  have aw: "all_woken W (SemWq p) TASK_WAIT_DESTROYED ?u s'" by auto
  note m = same_more(3,4,5) [of s' ?u]
  have mm: "kstate.more s' = kstate.more ?u" using aw by (simp add: all_woken_def)
  have mx: "unat (sem_max (sems s p)) < 2 ^ 31" using k(2) w by (simp add: obj_ok_def sem_ok_iff)
  have "obj_ok W s'"
    using m [OF mm] aw mx
    by (intro obj_ok_sem [OF k(2), of p])
      (auto simp: fewer_waiters_def all_woken_def sem_ok_iff sem_units_def)
  with ksafe_wake_all [OF ku w a] show ?thesis by (simp add: osafe_def)
qed

subsection \<open>Mutexes\<close>

lemma osafe_mutex_live:
  assumes "osafe B T W s" and "MutexWq p \<in> W" and "\<not> mtx_destroyed (mutexes s p)"
  shows "mutex_live T W p s"
  using assms ksafe_kinv [of B T W s] by (simp add: osafe_def obj_ok_def mutex_live_def)

lemma osafe_mutex_upd:
  assumes i: "osafe B T W s" and o: "mutex_ok p (upd_mutex p f s)"
  shows "osafe B T W (upd_mutex p f s)"
proof -
  have k: "ksafe B T W s" "obj_ok W s" using i by (simp_all add: osafe_def)
  have "obj_ok W (upd_mutex p f s)"
    using o by (intro obj_ok_mutex [OF k(2), of p]) (simp_all add: fewer_waiters_def)
  with ksafe_upd_object(2) [OF k(1)] show ?thesis by (simp add: osafe_def)
qed

lemma osafe_mutex_lock_own:
  assumes i: "osafe B T W s" and w: "MutexWq p \<in> W" and d: "\<not> mtx_destroyed (mutexes s p)"
    and c: "current_task s \<noteq> 0"
  shows "mtx_owner (mutexes s p) = 0 \<Longrightarrow> osafe B T W (mutex_take p s)"
    and "mtx_owner (mutexes s p) = current_task s \<Longrightarrow> osafe B T W (mutex_again p s)"
proof -
  note l = osafe_mutex_live [OF i w d]
  show "osafe B T W (mutex_take p s)" if "mtx_owner (mutexes s p) = 0"
    using mutex_liveD(4) [OF mutex_lock_free(1) [OF l that c]] osafe_mutex_upd [OF i]
    by (simp add: mutex_take_def)
  show "osafe B T W (mutex_again p s)" if "mtx_owner (mutexes s p) = current_task s"
    using mutex_liveD(4) [OF mutex_lock_own(1) [OF l that c]] osafe_mutex_upd [OF i]
    by (simp add: mutex_again_def)
qed

lemma osafe_mutex_trylock:
  assumes i: "osafe B T W s" and w: "MutexWq p \<in> W"
  shows "osafe B T W (snd (mutex_trylock_obj p s))"
  using osafe_mutex_lock_own [OF i w] i by (simp add: mutex_trylock_obj_def)

lemma osafe_mutex_lock:
  assumes i: "osafe B T W s" and r: "app_running s" and w: "MutexWq p \<in> W"
    and us: "us = TRT_TIME_FOREVER_US \<or> unat (timer_us_to_ticks us) \<le> B"
    and s': "mutex_lock_timeout_obj Some p us s = Some (e, s')"
  shows "osafe B T W s'"
proof -
  have p: "p \<noteq> 0" using i w by (simp add: osafe_def obj_ok_def)
  have c: "current_task s \<noteq> 0" using r by (simp add: app_running_def)
  show ?thesis
  proof (cases "mtx_destroyed (mutexes s p) \<or> mtx_owner (mutexes s p) \<in> {0, current_task s}")
    case True
    then show ?thesis
      using s' p c i osafe_mutex_lock_own [OF i w _ c]
      by (auto simp: mutex_lock_timeout_obj_def mutex_lock_obj_def split: if_splits)
  next
    case False
    then have d: "\<not> mtx_destroyed (mutexes s p)" and o: "mtx_owner (mutexes s p) \<notin> {0, current_task s}"
      by simp_all
    note l = osafe_mutex_live [OF i w d]
    consider "us \<noteq> TRT_TIME_FOREVER_US" "timer_us_to_ticks us = 0"
      | "us = TRT_TIME_FOREVER_US \<or> timer_us_to_ticks us \<noteq> 0" "sched_is_locked s"
      | "us = TRT_TIME_FOREVER_US \<or> timer_us_to_ticks us \<noteq> 0" "\<not> sched_is_locked s"
      by blast
    then show ?thesis
    proof cases
      case 1
      with mutex_lock_refused(2) [OF l o c 1, of Some] i s' show ?thesis
        by (simp only: option.inject prod.inject)
    next
      case 2
      with mutex_lock_refused(1) [OF l o c 2, of Some] osafe_pending [OF i] s' show ?thesis
        by (simp only: option.inject prod.inject)
    next
      case 3
      obtain s1 where b: "trt_wait_q_block_timeout_locked (MutexWq p) us s = Some (ERR_OK, s1)"
        "blocked_on W (MutexWq p) s s1"
        using block_timeout [OF mutex_liveD(1,2) [OF l] r 3(2,1)] by blast
      have "s' = s1" using s' mutex_lock_blocked [OF l o c 3(2) b, of Some] by simp
      with b have b': "trt_wait_q_block_timeout_locked (MutexWq p) us s = Some (ERR_OK, s')"
        "blocked_on W (MutexWq p) s s'" by simp_all
      note q = osafe_blocked [OF i r w us b'(1) 3(2)]
      note m = same_more(3,4,5) [OF q(3)]
      have "mutex_ok p s'"
        using mutex_liveD(4) [OF l] o blocked_onD(1) [OF b'(2)] by (simp add: mutex_ok_def m)
      moreover have "obj_ok W s" using i by (simp add: osafe_def)
      ultimately have "obj_ok W s'" using m q(2) by (intro obj_ok_mutex [of W s p s']) simp_all
      with q(1) show ?thesis by (simp add: osafe_def)
    qed
  qed
qed

lemma osafe_wake:
  assumes i: "osafe B T W s" and w: "w \<in> W"
  defines "s' \<equiv> snd (trt_wait_q_wake_one_locked w s)"
  shows "osafe B T W s'"
proof -
  have k: "ksafe B T W s" "obj_ok W s" using i by (simp_all add: osafe_def)
  note u = wake_objects [OF ksafe_kinv [OF k(1)] w, folded s'_def]
  have "set (waiters s' v) \<subseteq> set (waiters s v)" if "v \<in> W" for v
    using u(7) u(8) [OF that] list.set_sel(2) [of "waiters s w"] by (cases "v = w"; cases "waiters s w") auto
  then have "obj_ok W s'"
    using u by (intro obj_ok_same [OF k(2)]) (simp_all add: fewer_waiters_def)
  moreover have "ksafe B T W s'"
    using ksafe_wake [OF k(1) w] by (simp add: s'_def trt_wait_q_wake_one_locked_def)
  ultimately show ?thesis by (simp add: osafe_def)
qed

lemma osafe_mutex_unlock:
  assumes i: "osafe B T W s" and w: "MutexWq p \<in> W"
  shows "osafe B T W (snd (mutex_unlock_obj p s))"
proof (cases "current_task s = 0 \<or> mtx_destroyed (mutexes s p) \<or>
    mtx_owner (mutexes s p) \<noteq> current_task s \<or> mtx_lock_count (mutexes s p) = 0")
  case True
  then have "snd (mutex_unlock_obj p s) = s" by (auto simp: mutex_unlock_obj_def)
  with i show ?thesis by simp
next
  case False
  then have c: "current_task s \<noteq> 0" and d: "\<not> mtx_destroyed (mutexes s p)"
    and o: "mtx_owner (mutexes s p) = current_task s" and n: "mtx_lock_count (mutexes s p) \<noteq> 0" by simp_all
  note l = osafe_mutex_live [OF i w d]
  have k: "ksafe B T W s" "obj_ok W s" using i by (simp_all add: osafe_def)
  show ?thesis
  proof (cases "mtx_lock_count (mutexes s p) = 1")
    case False
    then have "unat (mtx_lock_count (mutexes s p)) \<noteq> 1" "unat (mtx_lock_count (mutexes s p)) \<noteq> 0"
      using n by (simp_all add: word_unat_eq_iff)
    then have "1 < unat (mtx_lock_count (mutexes s p))" by linarith
    note u = mutex_unlock_nested [OF l c o this]
    show ?thesis using osafe_mutex_upd [OF i mutex_liveD(4) [OF u(2)]] by (simp add: u(1))
  next
    case True
    show ?thesis
    proof (cases "waiters s (MutexWq p)")
      case Nil
      note u = mutex_unlock_frees [OF l c o True Nil]
      show ?thesis using osafe_mutex_upd [OF i mutex_liveD(4) [OF u(2)]] by (simp add: u(1))
    next
      case (Cons t ts)
      obtain s' where s': "mutex_unlock_obj p s = (ERR_OK, s')" "mutex_live T W p s'"
        "mutexes s' = (mutexes s)(p := (mutexes s p)\<lparr>mtx_owner := t, mtx_lock_count := 1\<rparr>)"
        "waiters s' (MutexWq p) = ts" "\<forall>v\<in>W. v \<noteq> MutexWq p \<longrightarrow> waiters s' v = waiters s v"
        using mutex_unlock_hands_over [OF l c o True Cons] by blast
      let ?u = "upd_mutex p (\<lambda>k. k\<lparr>mtx_lock_count := mtx_lock_count k - 1\<rparr>) s"
      let ?s1 = "snd (trt_wait_q_wake_one_locked (MutexWq p) ?u)"
      have ku: "ksafe B T W ?u" by (rule ksafe_upd_object(2) [OF k(1)])
      have "t \<noteq> 0" using waiter_blocked(4) [OF mutex_liveD(1,2) [OF l], of t] Cons by simp
      moreover have "waiters ?u (MutexWq p) = t # ts" using Cons by simp
      note arg_cong [OF wake_result_first(1) [OF ksafe_kinv [OF ku] w this, where r = TASK_WAIT_OBJECT],
          of fst, unfolded fst_conv]
      then have "fst (trt_wait_q_wake_one_locked (MutexWq p) ?u) = t"
        by (simp only: trt_wait_q_wake_one_locked_def)
      ultimately have e: "s' = upd_mutex p (\<lambda>k. k\<lparr>mtx_owner := t, mtx_lock_count := 1\<rparr>) ?s1"
        using s'(1) l c o True
        by (auto simp: mutex_unlock_obj_def mutex_live_def Let_def split: prod.splits)
      have k1: "ksafe B T W ?s1"
        using ksafe_wake [OF ku w] by (simp add: trt_wait_q_wake_one_locked_def)
      have "ksafe B T W s'" unfolding e by (rule ksafe_upd_object(2) [OF k1])
      moreover have "obj_ok W s'"
        using s'(3,5) wake_objects(2,4) [OF ksafe_kinv [OF ku] w] mutex_liveD(4) [OF s'(2)]
        by (intro obj_ok_mutex [OF k(2), of p]) (simp_all add: fewer_waiters_def e)
      ultimately show ?thesis by (simp add: osafe_def s'(1))
    qed
  qed
qed

lemma osafe_mutex_destroy:
  assumes i: "osafe B T W s" and w: "MutexWq p \<in> W" and s': "mutex_destroy_obj p s = Some (e, n, s')"
  shows "osafe B T W s'"
proof (cases "mtx_destroyed (mutexes s p)")
  case True
  then show ?thesis using i s' by (auto simp: mutex_destroy_obj_def split: if_splits)
next
  case False
  have k: "ksafe B T W s" "obj_ok W s" and p: "p \<noteq> 0" using i w by (simp_all add: osafe_def obj_ok_def)
  let ?f = "\<lambda>k. k\<lparr>mtx_destroyed := True, mtx_owner := 0, mtx_lock_count := 0\<rparr>"
  note ku = ksafe_upd_object(2) [OF k(1), of p ?f]
  obtain c where a: "trt_wait_q_wake_all_result_locked (MutexWq p) TASK_WAIT_DESTROYED (upd_mutex p ?f s) = Some (c, s')"
    using s' False p by (auto simp: mutex_destroy_obj_def Let_def bind_Some_iff)
  from wake_all [OF ksafe_kinv [OF ku] w, of TASK_WAIT_DESTROYED] a
  have aw: "all_woken W (MutexWq p) TASK_WAIT_DESTROYED (upd_mutex p ?f s) s'" by auto
  have mm: "kstate.more s' = kstate.more (upd_mutex p ?f s)" using aw by (simp add: all_woken_def)
  note m = same_more(3,4,5) [OF mm]
  have "obj_ok W s'"
    using m aw by (intro obj_ok_mutex [OF k(2), of p]) (auto simp: fewer_waiters_def all_woken_def mutex_ok_def)
  with ksafe_wake_all [OF ku w a] show ?thesis by (simp add: osafe_def)
qed

subsection \<open>Message queues\<close>

lemma osafe_mq:
  assumes "osafe B T W s" and "ReadersWq p \<in> W"
  shows "p \<noteq> 0" "WritersWq p \<in> W" "ring_ok (msgqs s p)" "kinv T W s"
  using assms ksafe_kinv [of B T W s] by (auto simp: osafe_def obj_ok_def)

lemma osafe_ring_update:
  assumes i: "osafe B T W s" and e: "\<exists>f g. s' = upd_msgq p f (upd_bytes g s)"
    and o: "ring_ok (msgqs s' p)"
  shows "osafe B T W s'"
proof -
  have k: "ksafe B T W s" "obj_ok W s" using i by (simp_all add: osafe_def)
  obtain f g where e: "s' = upd_msgq p f (upd_bytes g s)" using e by blast
  have "obj_ok W s'"
    using o by (intro obj_ok_msgq [OF k(2), of p]) (simp_all add: e fewer_waiters_def)
  moreover have "ksafe B T W s'" unfolding e by (intro ksafe_upd_object k(1))
  ultimately show ?thesis by (simp add: osafe_def)
qed

lemma osafe_bytes:
  assumes "osafe B T W s"
  shows "osafe B T W (upd_bytes g s)"
proof -
  have k: "ksafe B T W s" "obj_ok W s" using assms by (simp_all add: osafe_def)
  have "obj_ok W (upd_bytes g s)" by (intro obj_ok_same [OF k(2)]) (simp_all add: fewer_waiters_def)
  with ksafe_upd_object(4) [OF k(1)] show ?thesis by (simp add: osafe_def)
qed

text \<open>Up to its yield a blocking call ends with an error: it has no wait result yet.\<close>

lemma osafe_mq_block:
  assumes i: "osafe B T W s" and r: "app_running s" and w: "w \<in> {ReadersWq p, WritersWq p}" "w \<in> W"
    and us: "us = TRT_TIME_FOREVER_US \<or> unat (timer_us_to_ticks us) \<le> B"
    and b: "msg_q_block Some w us s = Some (e, s')"
  shows "e \<noteq> ERR_OK" and "osafe B T W s'"
proof -
  have k: "ksafe B T W s" "obj_ok W s" using i by (simp_all add: osafe_def)
  note ki = ksafe_kinv [OF k(1)]
  consider "us = 0" | "us \<noteq> 0" "sched_is_locked s"
    | "us \<noteq> 0" "\<not> sched_is_locked s" "us \<noteq> TRT_TIME_FOREVER_US" "timer_us_to_ticks us = 0"
    | "us \<noteq> 0" "\<not> sched_is_locked s" "us = TRT_TIME_FOREVER_US \<or> timer_us_to_ticks us \<noteq> 0"
    by blast
  then have "e \<noteq> ERR_OK \<and> osafe B T W s'"
  proof cases
    case 1
    then show ?thesis using b i by (simp add: msg_q_block_def)
  next
    case 2
    then show ?thesis using b osafe_pending [OF i] by (auto simp: msg_q_block_def)
  next
    case 3
    then show ?thesis using b i block_zero_timeout [OF 3(3,4), of w s] by (auto simp: msg_q_block_def)
  next
    case 4
    obtain s1 where s1: "trt_wait_q_block_timeout_locked w us s = Some (ERR_OK, s1)"
      "blocked_on W w s s1"
      using block_timeout [OF ki w(2) r 4(2,3)] by blast
    have "msg_q_block Some w us s = Some (msg_q_wait_result s1, s1)"
      using 4 s1(1) blocked_yield [OF s1(2) 4(2), of Some] by (auto simp: msg_q_block_def block_forever)
    then have e: "e = msg_q_wait_result s1" "s' = s1" using b by simp_all
    have "current_wait_result s1 = TASK_WAIT_NONE"
      using blocked_onD(4,6) [OF s1(2)] by (simp add: current_wait_result_def)
    then have "e \<noteq> ERR_OK" by (simp add: e mq_wait_result_ok)
    note q = osafe_blocked [OF i r w(2) us s1(1) 4(2)]
    note m = same_more(3,4,5) [OF q(3)]
    have "fewer_waiters W {ReadersWq p, WritersWq p} s s1"
      using q(2) w(1) by (auto simp: fewer_waiters_def)
    moreover have "ring_ok (msgqs s1 p)" if "ReadersWq p \<in> W"
      using osafe_mq(3) [OF i that] by (simp add: m)
    ultimately have "obj_ok W s1" using m by (intro obj_ok_msgq [OF k(2), of p]) simp_all
    with q(1) \<open>e \<noteq> ERR_OK\<close> show ?thesis by (simp add: osafe_def e)
  qed
  then show "e \<noteq> ERR_OK" "osafe B T W s'" by blast+
qed

lemma osafe_put_back:
  "osafe B T W s \<Longrightarrow> ReadersWq p \<in> W \<Longrightarrow> osafe B T W (msg_q_put_back p data n s)"
  using osafe_ring_update [OF _ ring_updates(1) ring_index_ok(1)] osafe_mq(3) by blast

lemma osafe_put_front:
  "osafe B T W s \<Longrightarrow> ReadersWq p \<in> W \<Longrightarrow> osafe B T W (msg_q_put_front p data n s)"
  using osafe_ring_update [OF _ ring_updates(2) ring_index_ok(2)] osafe_mq(3) by blast

lemma osafe_take:
  "osafe B T W s \<Longrightarrow> ReadersWq p \<in> W \<Longrightarrow> osafe B T W (msg_q_take p buf s)"
  using osafe_ring_update [OF _ ring_updates(3) ring_index_ok(3)] osafe_mq(3) by blast

lemma osafe_read: "osafe B T W s \<Longrightarrow> osafe B T W (msg_q_read p buf s)"
  using ring_updates(4) [of p buf s] osafe_bytes by auto

lemma osafe_mq_ops:
  assumes i: "osafe B T W s" and r: "app_running s" and w: "ReadersWq p \<in> W"
    and us: "us = TRT_TIME_FOREVER_US \<or> unat (timer_us_to_ticks us) \<le> B"
  shows "msg_q_send_obj Some p data n us s = Some (e, s') \<Longrightarrow> osafe B T W s'"
    and "msg_q_send_front_obj Some p data n us s = Some (e, s') \<Longrightarrow> osafe B T W s'"
    and "msg_q_recv_obj Some p buf us s = Some (e, s') \<Longrightarrow> osafe B T W s'"
    and "msg_q_peek_obj Some p buf us s = Some (e, s') \<Longrightarrow> osafe B T W s'"
proof -
  note W = osafe_mq(2) [OF i w]
  note bw = osafe_mq_block [OF i r _ W us, of p] and br = osafe_mq_block [OF i r _ w us, of p]
  have blk: "osafe B T W s'" if "Option.bind (msg_q_block Some v us s)
      (\<lambda>r. if fst r \<noteq> ERR_OK then Some r else k (snd r)) = Some (e, s')" "v \<in> {ReadersWq p, WritersWq p}"
    for v k
    using that bw br by (cases "msg_q_block Some v us s") (auto split: if_splits)
  show "msg_q_send_obj Some p data n us s = Some (e, s') \<Longrightarrow> osafe B T W s'"
    using i blk [of "WritersWq p"] osafe_wake [OF osafe_put_back [OF i w] w]
    unfolding msg_q_send_obj_def
    by (subst (asm) msg_q_send_loop.simps) (auto split: if_splits)
  show "msg_q_send_front_obj Some p data n us s = Some (e, s') \<Longrightarrow> osafe B T W s'"
    using i blk [of "WritersWq p"] osafe_wake [OF osafe_put_front [OF i w] w]
    unfolding msg_q_send_front_obj_def
    by (subst (asm) msg_q_send_front_loop.simps) (auto split: if_splits)
  show "msg_q_recv_obj Some p buf us s = Some (e, s') \<Longrightarrow> osafe B T W s'"
    using i blk [of "ReadersWq p"] osafe_wake [OF osafe_take [OF i w] W]
    unfolding msg_q_recv_obj_def
    by (subst (asm) msg_q_recv_loop.simps) (auto split: if_splits)
  show "msg_q_peek_obj Some p buf us s = Some (e, s') \<Longrightarrow> osafe B T W s'"
    using i blk [of "ReadersWq p"] osafe_wake [OF osafe_read [OF i] w]
    unfolding msg_q_peek_obj_def
    by (subst (asm) msg_q_peek_loop.simps) (auto split: if_splits)
qed

lemma osafe_mq_destroy:
  assumes i: "osafe B T W s" and w: "ReadersWq p \<in> W" and s': "msg_q_destroy_obj p s = Some (e, n, s')"
  shows "osafe B T W s'"
proof (cases "mq_destroyed (msgqs s p)")
  case True
  then show ?thesis using i s' by (auto simp: msg_q_destroy_obj_def split: if_splits)
next
  case False
  have k: "ksafe B T W s" "obj_ok W s" using i by (simp_all add: osafe_def)
  note q = osafe_mq [OF i w]
  let ?u = "upd_msgq p (\<lambda>k. k\<lparr>mq_destroyed := True\<rparr>) s"
  note ku = ksafe_upd_object(3) [OF k(1), of p "\<lambda>k. k\<lparr>mq_destroyed := True\<rparr>"]
  obtain c1 s1 c2 where
    a: "trt_wait_q_wake_all_result_locked (ReadersWq p) TASK_WAIT_DESTROYED ?u = Some (c1, s1)"
      "trt_wait_q_wake_all_result_locked (WritersWq p) TASK_WAIT_DESTROYED s1 = Some (c2, s')"
    using s' False q(1) by (auto simp: msg_q_destroy_obj_def bind_Some_iff)
  note k1 = ksafe_wake_all [OF ku w a(1)]
  have aw1: "all_woken W (ReadersWq p) TASK_WAIT_DESTROYED ?u s1"
    using wake_all [OF ksafe_kinv [OF ku] w, of TASK_WAIT_DESTROYED] a(1) by auto
  have aw2: "all_woken W (WritersWq p) TASK_WAIT_DESTROYED s1 s'"
    using wake_all [OF ksafe_kinv [OF k1] q(2), of TASK_WAIT_DESTROYED] a(2) by auto
  have mm: "kstate.more s' = kstate.more ?u" using aw1 aw2 by (simp add: all_woken_def)
  note m = same_more(3,4,5) [OF mm]
  have "ring_ok (msgqs s' p)" using q(3) by (simp add: m ring_ok_def mq_slots_def)
  moreover have "fewer_waiters W {ReadersWq p, WritersWq p} s s'"
    using aw1 aw2 by (simp add: fewer_waiters_def all_woken_def)
  ultimately have "obj_ok W s'" using m by (intro obj_ok_msgq [OF k(2), of p]) simp_all
  with ksafe_wake_all [OF k1 q(2) a(2)] show ?thesis by (simp add: osafe_def)
qed

subsection \<open>New objects\<close>

text \<open>A new queue enters with its object; the queues of the others are as before.\<close>

lemma osafe_new_queue:
  assumes k: "ksafe B T W s" and w: "w \<notin> W" "w \<noteq> NullWq"
  shows "ksafe B T (insert w W) (trt_wait_q_init w s)"
    and "waiters (trt_wait_q_init w s) w = []"
    and "v \<in> W \<Longrightarrow> waiters (trt_wait_q_init w s) v = waiters s v"
    and "kstate.more (trt_wait_q_init w s) = kstate.more s"
  using ksafe_queue [OF k w] wait_q_init(2,3) [OF ksafe_kinv [OF k] w]
  by (simp_all add: trt_wait_q_init_def)

lemma osafe_sem_create:
  assumes i: "osafe B T W s" and w: "SemWq p \<notin> W" "p \<noteq> 0" and c: "0 \<le> sint mx \<or> 0 \<le> sint cnt"
  shows "osafe B T (insert (SemWq p) W) (sem_init_obj p mx cnt s)"
proof -
  have k: "ksafe B T W s" "obj_ok W s" using i by (simp_all add: osafe_def)
  let ?u = "upd_sem p (\<lambda>_. \<lparr>sem_cnt = (if sint cnt < 0 then 0 else cnt),
        sem_max = (if sint mx < sint cnt then cnt else mx), sem_destroyed = False\<rparr>) s"
  have e: "sem_init_obj p mx cnt s = trt_wait_q_init (SemWq p) ?u" by (simp add: sem_init_obj_def)
  have ku: "ksafe B T W ?u" by (rule ksafe_upd_object(1) [OF k(1)])
  note q = osafe_new_queue [OF ku w(1) wq_t.distinct(2)]
  note m = same_more(3,4,5) [OF q(4)]
  have "obj_ok W (sem_init_obj p mx cnt s)"
    unfolding e using w(1) q(3) m by (intro obj_ok_sem [OF k(2), of p]) (auto simp: fewer_waiters_def)
  moreover have "sem_ok p (sem_init_obj p mx cnt s)"
    using sem_init_ok(4) [OF ksafe_kinv [OF k(1)] w(1)] c by blast
  ultimately show ?thesis using q(1) w(2) by (simp add: osafe_def obj_ok_def e)
qed

lemma osafe_mutex_create:
  assumes i: "osafe B T W s" and w: "MutexWq p \<notin> W" "p \<noteq> 0"
  shows "osafe B T (insert (MutexWq p) W) (mutex_init_obj p s)"
proof -
  have k: "ksafe B T W s" "obj_ok W s" using i by (simp_all add: osafe_def)
  let ?u = "upd_mutex p (\<lambda>_. \<lparr>mtx_owner = 0, mtx_lock_count = 0, mtx_destroyed = False\<rparr>) s"
  have e: "mutex_init_obj p s = trt_wait_q_init (MutexWq p) ?u" by (simp add: mutex_init_obj_def)
  have ku: "ksafe B T W ?u" by (rule ksafe_upd_object(2) [OF k(1)])
  note q = osafe_new_queue [OF ku w(1) wq_t.distinct(4)]
  note m = same_more(3,4,5) [OF q(4)]
  have "obj_ok W (mutex_init_obj p s)"
    unfolding e using w(1) q(3) m by (intro obj_ok_mutex [OF k(2), of p]) (auto simp: fewer_waiters_def)
  moreover have "mutex_ok p (mutex_init_obj p s)"
    using mutex_init_ok(4) [OF ksafe_kinv [OF k(1)] w(1)] by blast
  ultimately show ?thesis using q(1) w(2) by (simp add: osafe_def obj_ok_def e)
qed

definition mq_init :: "ptr \<Rightarrow> trt_msg_q_t \<Rightarrow> 'z sys_scheme \<Rightarrow> 'z sys_scheme" where
  "mq_init p k s = trt_wait_q_init (WritersWq p) (trt_wait_q_init (ReadersWq p) (upd_msgq p (\<lambda>_. k) s))"

lemma osafe_mq_create:
  assumes i: "osafe B T W s" and w: "ReadersWq p \<notin> W" "p \<noteq> 0" and o: "ring_ok k"
  shows "osafe B T (insert (WritersWq p) (insert (ReadersWq p) W)) (mq_init p k s)"
proof -
  have k: "ksafe B T W s" "obj_ok W s" using i by (simp_all add: osafe_def)
  have w2: "WritersWq p \<notin> W" using k(2) w(1) by (simp add: obj_ok_def)
  let ?u = "upd_msgq p (\<lambda>_. k) s"
  have ku: "ksafe B T W ?u" by (rule ksafe_upd_object(3) [OF k(1)])
  note q = osafe_new_queue [OF ku w(1) wq_t.distinct(6)]
  have w2': "WritersWq p \<notin> insert (ReadersWq p) W" using w2 by simp
  note r = osafe_new_queue [OF q(1) w2' wq_t.distinct(8)]
  have m: "sems (mq_init p k s) = sems ?u" "mutexes (mq_init p k s) = mutexes ?u"
    "msgqs (mq_init p k s) = msgqs ?u"
    using same_more(3,4,5) [OF r(4)] same_more(3,4,5) [OF q(4)] by (simp_all add: mq_init_def)
  have "waiters (mq_init p k s) v = waiters s v" if "v \<in> W" for v
    using r(3) [of v] q(3) [OF that] that by (simp add: mq_init_def)
  then have "obj_ok W (mq_init p k s)"
    using m o by (intro obj_ok_msgq [OF k(2), of p]) (auto simp: fewer_waiters_def)
  moreover have "ring_ok (msgqs (mq_init p k s) p)" using o m by simp
  ultimately show ?thesis
    using r(1) w(2) by (auto simp: osafe_def obj_ok_def mq_init_def)
qed

subsection \<open>The transition system\<close>

inductive ostep :: "nat \<Rightarrow> ptr set \<Rightarrow> wq_t set \<Rightarrow> 'z sys_scheme \<Rightarrow> ptr set \<Rightarrow> wq_t set \<Rightarrow>
    'z sys_scheme \<Rightarrow> bool" for B :: nat where
  Kernel: "kstep B T W s T' W s' \<Longrightarrow> kstate.more s' = kstate.more s \<Longrightarrow> fewer_waiters W {} s s' \<Longrightarrow>
    ostep B T W s T' W s'"
| Memory: "ostep B T W s T W (s\<lparr>sys_heap := heap', sys_handles := handles'\<rparr>)"
| Sem_create: "SemWq p \<notin> W \<Longrightarrow> p \<noteq> 0 \<Longrightarrow> 0 \<le> sint mx \<or> 0 \<le> sint cnt \<Longrightarrow>
    ostep B T W s T (insert (SemWq p) W) (sem_init_obj p mx cnt s)"
| Sem_post: "SemWq p \<in> W \<Longrightarrow> ostep B T W s T W (snd (sem_post_obj p s))"
| Sem_trywait: "SemWq p \<in> W \<Longrightarrow> ostep B T W s T W (snd (sem_trywait_obj p s))"
| Sem_wait: "SemWq p \<in> W \<Longrightarrow> app_running s \<Longrightarrow>
    us = TRT_TIME_FOREVER_US \<or> unat (timer_us_to_ticks us) \<le> B \<Longrightarrow>
    sem_wait_timeout_obj Some p us s = Some (e, s') \<Longrightarrow> ostep B T W s T W s'"
| Sem_destroy: "SemWq p \<in> W \<Longrightarrow> sem_destroy_obj p s = Some (e, n, s') \<Longrightarrow> ostep B T W s T W s'"
| Sem_free: "waiters s (SemWq p) = [] \<Longrightarrow> ostep B T W s T (W - {SemWq p}) s"
| Mutex_create: "MutexWq p \<notin> W \<Longrightarrow> p \<noteq> 0 \<Longrightarrow>
    ostep B T W s T (insert (MutexWq p) W) (mutex_init_obj p s)"
| Mutex_trylock: "MutexWq p \<in> W \<Longrightarrow> ostep B T W s T W (snd (mutex_trylock_obj p s))"
| Mutex_lock: "MutexWq p \<in> W \<Longrightarrow> app_running s \<Longrightarrow>
    us = TRT_TIME_FOREVER_US \<or> unat (timer_us_to_ticks us) \<le> B \<Longrightarrow>
    mutex_lock_timeout_obj Some p us s = Some (e, s') \<Longrightarrow> ostep B T W s T W s'"
| Mutex_unlock: "MutexWq p \<in> W \<Longrightarrow> ostep B T W s T W (snd (mutex_unlock_obj p s))"
| Mutex_destroy: "MutexWq p \<in> W \<Longrightarrow> mutex_destroy_obj p s = Some (e, n, s') \<Longrightarrow> ostep B T W s T W s'"
| Mutex_free: "waiters s (MutexWq p) = [] \<Longrightarrow> ostep B T W s T (W - {MutexWq p}) s"
| Mq_create: "ReadersWq p \<notin> W \<Longrightarrow> p \<noteq> 0 \<Longrightarrow> ring_ok k \<Longrightarrow>
    ostep B T W s T (insert (WritersWq p) (insert (ReadersWq p) W)) (mq_init p k s)"
| Mq_send: "ReadersWq p \<in> W \<Longrightarrow> app_running s \<Longrightarrow>
    us = TRT_TIME_FOREVER_US \<or> unat (timer_us_to_ticks us) \<le> B \<Longrightarrow>
    msg_q_send_obj Some p data n us s = Some (e, s') \<Longrightarrow> ostep B T W s T W s'"
| Mq_send_front: "ReadersWq p \<in> W \<Longrightarrow> app_running s \<Longrightarrow>
    us = TRT_TIME_FOREVER_US \<or> unat (timer_us_to_ticks us) \<le> B \<Longrightarrow>
    msg_q_send_front_obj Some p data n us s = Some (e, s') \<Longrightarrow> ostep B T W s T W s'"
| Mq_recv: "ReadersWq p \<in> W \<Longrightarrow> app_running s \<Longrightarrow>
    us = TRT_TIME_FOREVER_US \<or> unat (timer_us_to_ticks us) \<le> B \<Longrightarrow>
    msg_q_recv_obj Some p buf us s = Some (e, s') \<Longrightarrow> ostep B T W s T W s'"
| Mq_peek: "ReadersWq p \<in> W \<Longrightarrow> app_running s \<Longrightarrow>
    us = TRT_TIME_FOREVER_US \<or> unat (timer_us_to_ticks us) \<le> B \<Longrightarrow>
    msg_q_peek_obj Some p buf us s = Some (e, s') \<Longrightarrow> ostep B T W s T W s'"
| Mq_destroy: "ReadersWq p \<in> W \<Longrightarrow> msg_q_destroy_obj p s = Some (e, n, s') \<Longrightarrow> ostep B T W s T W s'"
| Mq_free: "waiters s (ReadersWq p) = [] \<Longrightarrow> waiters s (WritersWq p) = [] \<Longrightarrow>
    ostep B T W s T (W - {ReadersWq p} - {WritersWq p}) s"

inductive oreach :: "nat \<Rightarrow> ptr set \<Rightarrow> wq_t set \<Rightarrow> 'z sys_scheme \<Rightarrow> bool" for B :: nat where
  Init: "\<not> sched_initialized s \<Longrightarrow> oreach B {} {} (sched_init s)"
| Step: "oreach B T W s \<Longrightarrow> ostep B T W s T' W' s' \<Longrightarrow> oreach B T' W' s'"

lemma osafe_memory:
  assumes "osafe B T W s"
  shows "osafe B T W (s\<lparr>sys_heap := heap', sys_handles := handles'\<rparr>)" (is "osafe B T W ?s")
proof -
  have k: "ksafe B T W s" "obj_ok W s" using assms by (simp_all add: osafe_def)
  have "ksafe B T W ?s" by (rule ksafe_frame [OF k(1)]) simp_all
  moreover have "obj_ok W ?s" by (rule obj_ok_same [OF k(2)]) (simp_all add: fewer_waiters_def waiters_def)
  ultimately show ?thesis by (simp add: osafe_def)
qed

lemma ostep_osafe:
  assumes "ostep B T W s T' W' s'" and "osafe B T W s"
  shows "osafe B T' W' s'"
  using assms
proof (induction rule: ostep.induct)
  case (Kernel T W s T' s')
  then have "ksafe B T' W s'" using kstep_ksafe [OF Kernel(1)] by (simp add: osafe_def)
  moreover have "obj_ok W s'"
    using Kernel(4) by (intro obj_ok_same [OF _ same_more(3,4,5) [OF Kernel(2)] Kernel(3)]) (simp add: osafe_def)
  ultimately show ?case by (simp add: osafe_def)
next
  case (Sem_free s p T W)
  then have "ksafe B T (W - {SemWq p}) s" by (simp add: osafe_def ksafe_unqueue)
  then show ?case using Sem_free(2) by (simp add: osafe_def obj_ok_def)
next
  case (Mutex_free s p T W)
  then have "ksafe B T (W - {MutexWq p}) s" by (simp add: osafe_def ksafe_unqueue)
  then show ?case using Mutex_free(2) by (simp add: osafe_def obj_ok_def)
next
  case (Mq_free s p T W)
  then have "ksafe B T (W - {ReadersWq p} - {WritersWq p}) s" by (simp add: osafe_def ksafe_unqueue)
  then show ?case using Mq_free(3) by (simp add: osafe_def obj_ok_def)
next
  case Memory then show ?case using osafe_memory [OF Memory] by blast
next
  case Sem_create then show ?case using osafe_sem_create [OF Sem_create(4,1,2,3)] by blast
next
  case Sem_post then show ?case using osafe_sem_post [OF Sem_post(2,1)] by blast
next
  case Sem_trywait then show ?case using osafe_sem_trywait [OF Sem_trywait(2,1)] by blast
next
  case Sem_wait then show ?case using osafe_sem_wait [OF Sem_wait(5,2,1,3,4)] by blast
next
  case Sem_destroy then show ?case using osafe_sem_destroy [OF Sem_destroy(3,1,2)] by blast
next
  case Mutex_create then show ?case using osafe_mutex_create [OF Mutex_create(3,1,2)] by blast
next
  case Mutex_trylock then show ?case using osafe_mutex_trylock [OF Mutex_trylock(2,1)] by blast
next
  case Mutex_lock then show ?case using osafe_mutex_lock [OF Mutex_lock(5,2,1,3,4)] by blast
next
  case Mutex_unlock then show ?case using osafe_mutex_unlock [OF Mutex_unlock(2,1)] by blast
next
  case Mutex_destroy then show ?case using osafe_mutex_destroy [OF Mutex_destroy(3,1,2)] by blast
next
  case Mq_create then show ?case using osafe_mq_create [OF Mq_create(4,1,2,3)] by blast
next
  case Mq_send then show ?case using osafe_mq_ops(1) [OF Mq_send(5,2,1,3,4)] by blast
next
  case Mq_send_front then show ?case using osafe_mq_ops(2) [OF Mq_send_front(5,2,1,3,4)] by blast
next
  case Mq_recv then show ?case using osafe_mq_ops(3) [OF Mq_recv(5,2,1,3,4)] by blast
next
  case Mq_peek then show ?case using osafe_mq_ops(4) [OF Mq_peek(5,2,1,3,4)] by blast
next
  case Mq_destroy then show ?case using osafe_mq_destroy [OF Mq_destroy(3,1,2)] by blast
qed

lemma oreach_osafe: "oreach B T W s \<Longrightarrow> osafe B T W s"
proof (induction rule: oreach.induct)
  case (Init s)
  then show ?case using ksafe_init by (simp add: osafe_def obj_ok_def)
qed (rule ostep_osafe)

end
