(* ===== verification/HeapProps.thy ===== *)
theory HeapProps
  imports Heap
begin

unbundle bit_operations_syntax

text \<open>
  The properties of the heap.  \<open>heap_run R\<close> are the heaps a client can reach from start-up by
  \<^verbatim>\<open>malloc\<close>, \<^verbatim>\<open>calloc\<close>, \<^verbatim>\<open>realloc\<close> and \<^verbatim>\<open>free\<close> on what it holds and by writing payload bytes; \<open>view\<close> is the
  block list of a heap, initialised by the first call.  The flag \<open>R\<close> allows calls of \<^verbatim>\<open>realloc\<close> that
  shrink a block where it is: these leave the rest as a free block without joining it with a
  free block behind it, so some properties hold of the runs without them only.
\<close>

subsection \<open>Reachable heaps\<close>

abbreviation view :: "heap_state \<Rightarrow> blk list" where
  "view s \<equiv> hview (heap_init_once s)"

lemma heap_wf_view [simp]: "heap_wf s \<Longrightarrow> view s = hview s"
  by (simp add: heap_wf_def)

lemma malloc_view:
  assumes ok: "heap_ok s" and n: "n \<noteq> 0"
  shows "case first_fit (unat (align_size n)) (view s) of
      None \<Rightarrow> malloc n s = Some (0, heap_init_once s)
    | Some (a, bs) \<Rightarrow> \<exists>p s'. malloc n s = Some (p, s') \<and> unat p = a + 16 \<and> heap_wf s' \<and> hview s' = bs"
  using malloc_refines [OF heap_ok_wf [OF ok] n] malloc_init(1) [OF ok n]
  by (auto split: option.splits prod.splits)

lemma free_view:
  assumes ok: "heap_ok s" and l: "live_allocs s p = Some m"
  shows "heap_wf (free p s)" and "hview (free p s) = release (unat p - 16) (view s)"
proof -
  let ?s = "heap_init_once s"
  have wf: "heap_wf ?s" using ok by (simp add: heap_ok_def)
  have l': "live_allocs ?s p = Some m" using malloc_init(3) [OF ok] l by simp
  note n = live_node [OF wf l']
  show "heap_wf (free p s)" using free_live [OF ok l] by simp
  show "hview (free p s) = release (unat p - 16) (view s)"
    using free_refines(2) [OF wf n(1,3)] malloc_init(2) [OF ok n(3)] n(2) by simp
qed

lemma view_mem_split:
  assumes t: "tiled lo hi bs" and m: "(a, sz, f) \<in> set bs"
  shows "\<exists>as cs. bs = as @ (a, sz, f) # cs \<and> a \<notin> fst ` set as"
proof -
  obtain as cs where s: "bs = as @ (a, sz, f) # cs" using m by (auto simp: in_set_conv_decomp)
  then have "distinct (map fst (as @ (a, sz, f) # cs))" using tiled_distinct [OF t] by simp
  then show ?thesis using s by auto
qed

lemma coalesced_free:
  assumes ok: "heap_ok s" and l: "live_allocs s p = Some m" and c: "coalesced (view s)"
  shows "coalesced (hview (free p s))"
proof -
  have m: "(unat p - 16, m, False) \<in> set (view s)" using l live_iff_ok [OF ok] by simp
  then have "view s \<noteq> []" by auto
  then have "tiled (unat (heap_start_addr (heap_init_once s))) (unat (heap_end_addr (heap_init_once s))) (view s)"
    using ok by (intro hview_tiled) (simp_all add: heap_ok_def)
  from view_mem_split [OF this m] obtain as cs where
    "view s = as @ (unat p - 16, m, False) # cs" "unat p - 16 \<notin> fst ` set as" by blast
  then show ?thesis
    using coalesced_release [of "unat p - 16" as m False cs] c free_view(2) [OF ok l] by simp
qed

lemma coalesced_malloc:
  assumes ok: "heap_ok s" and m: "malloc n s = Some (p, s')" and c: "coalesced (view s)"
  shows "coalesced (view s')"
proof (cases "n = 0")
  case True
  with m c show ?thesis by simp
next
  case False
  show ?thesis
  proof (cases "first_fit (unat (align_size n)) (view s)")
    case None
    then show ?thesis using malloc_view [OF ok False] m c ok by (auto simp: heap_ok_def)
  next
    case (Some x)
    obtain a bs where x: "x = (a, bs)" by (cases x)
    then have "heap_wf s'" "hview s' = bs" using malloc_view [OF ok False] Some m by auto
    then show ?thesis using coalesced_first_fit [of _ _ a bs] Some x c by simp
  qed
qed

inductive heap_run :: "bool \<Rightarrow> heap_state \<Rightarrow> bool" for R :: bool where
  Boot: "\<not> heap_initialized s \<Longrightarrow> heap_start_sym s \<noteq> 0 \<Longrightarrow> unat (heap_start_sym s) + 23 < 2 ^ 32 \<Longrightarrow>
    heap_run R s"
| Malloc: "heap_run R s \<Longrightarrow> malloc n s = Some (p, s') \<Longrightarrow> heap_run R s'"
| Calloc: "heap_run R s \<Longrightarrow> calloc count n s = Some (p, s') \<Longrightarrow> heap_run R s'"
| Realloc: "heap_run R s \<Longrightarrow> p = 0 \<or> live_allocs s p = Some m \<Longrightarrow>
    R \<or> p = 0 \<or> n = 0 \<or> m < unat (align_size n) \<Longrightarrow> realloc p n s = Some (q, s') \<Longrightarrow> heap_run R s'"
| Free: "heap_run R s \<Longrightarrow> p = 0 \<or> live_allocs s p = Some m \<Longrightarrow> heap_run R (free p s)"
| Write: "heap_run R s \<Longrightarrow> heap_run R (s\<lparr>heap_bytes := f\<rparr>)"

lemma malloc_first_fit_wf:
  assumes "heap_ok s" and "n \<noteq> 0"
  shows "\<exists>p s'. malloc n s = Some (p, s') \<and> heap_wf s'"
  using malloc_view [OF assms] assms(1) by (auto simp: heap_ok_def split: option.splits)

lemma malloc_keeps_ok: "heap_ok s \<Longrightarrow> malloc n s = Some (p, s') \<Longrightarrow> heap_ok s'"
  using heap.alloc_returns by (metis option.inject prod.inject)

lemma calloc_bytes:
  assumes "calloc count n s = Some (p, s')"
  shows "s' = s \<or> (\<exists>s1 m. malloc (count * n) s = Some (p, s1) \<and> s' = s1\<lparr>heap_bytes := m\<rparr>)"
proof (cases "2 ^ 32 \<le> unat count * unat n")
  case True
  then show ?thesis using calloc_overflow [OF True, of s] assms by simp
next
  case False
  then have b: "unat count * unat n < 2 ^ 32" by simp
  obtain q s1 where m: "malloc (count * n) s = Some (q, s1)"
    using assms calloc_malloc [OF b, of s] by auto
  have "\<exists>m. s1 = s1\<lparr>heap_bytes := m\<rparr>" by (rule exI [of _ "heap_bytes s1"]) simp
  then show ?thesis
    using assms calloc_malloc [OF b, of s] m by (cases "q = 0") auto
qed

text \<open>A heap with a live block is initialised.\<close>

definition heap_up :: "heap_state \<Rightarrow> bool" where
  "heap_up s \<longleftrightarrow> heap_ok s \<and> (heap_initialized s \<or>
     heap_start_sym s \<noteq> 0 \<and> unat (heap_start_sym s) + 23 < 2 ^ 32)"

lemma heap_up_ok: "heap_up s \<Longrightarrow> heap_ok s"
  by (simp add: heap_up_def)

lemma heap_wf_up: "heap_wf s \<Longrightarrow> heap_up s"
  using heap_wf_ok [of s] by (simp add: heap_up_def heap_wfD(1))

lemma heap_up_bytes: "heap_up (s\<lparr>heap_bytes := f\<rparr>) \<longleftrightarrow> heap_up s"
  by (simp add: heap_up_def)

lemma live_initialized:
  assumes u: "heap_up s" and l: "live_allocs s p = Some m"
  shows "heap_wf s"
proof (cases "heap_initialized s")
  case True
  then show ?thesis using u by (simp add: heap_up_def heap_ok_def)
next
  case False
  then have "view s = [] \<or> (\<exists>a k. view s = [(a, k, True)])"
    using heap_boot(2) [OF False] u by (auto simp: heap_up_def)
  moreover have "(unat p - 16, m, False) \<in> set (view s)"
    using l live_iff_ok [OF heap_up_ok [OF u]] by simp
  ultimately show ?thesis by auto
qed

lemma malloc_keeps_up:
  assumes u: "heap_up s" and m: "malloc n s = Some (p, s')"
  shows "heap_up s'"
proof (cases "n = 0")
  case True
  with u m show ?thesis by simp
next
  case False
  then show ?thesis
    using malloc_first_fit_wf [OF heap_up_ok [OF u] False] m by (auto intro: heap_wf_up)
qed

lemma realloc_as_calls:
  assumes wf: "heap_wf s" and l: "live_allocs s p = Some m" and n: "n \<noteq> 0" and gt: "m < unat (align_size n)"
    and r: "realloc p n s = Some (q, s')"
  shows "\<exists>s1. malloc (align_size n) s = Some (q, s1) \<and>
    (q = 0 \<and> s' = s1 \<or> q \<noteq> 0 \<and> (\<exists>f k. s' = free p (s1\<lparr>heap_bytes := f\<rparr>) \<and> live_allocs s1 p = Some k))"
proof -
  note ln = live_node [OF wf l]
  have "\<not> block_size (blocks s (p - 16)) \<ge> align_size n" using gt ln(6) by (simp add: word_le_nat_alt)
  with r n ln(3) obtain s1 where s1: "malloc (align_size n) s = Some (q, s1)"
    "q = 0 \<and> s' = s1 \<or> q \<noteq> 0 \<and> (\<exists>f. s' = free p (s1\<lparr>heap_bytes := f\<rparr>))"
    by (auto simp: realloc_def Let_def sizeof_heap_block_def bind_eq_Some_conv split: if_split_asm)
  have "\<exists>k. live_allocs s1 p = Some k" if "q \<noteq> 0"
    using malloc_cases [OF heap_wf_ok [OF wf], of "align_size n"] s1(1) that l by auto
  with s1 show ?thesis by blast
qed

lemma realloc_cuts:
  assumes wf: "heap_wf s" and l: "live_allocs s p = Some m" and n: "n \<noteq> 0" and le: "unat (align_size n) \<le> m"
  shows "\<exists>s'. realloc p n s = Some (p, s') \<and> heap_wf s' \<and>
    (\<exists>as bs. hview s = as @ (unat p - 16, m, False) # bs \<and>
       hview s' = as @ cut_block (unat (align_size n)) False (unat p - 16, m) @ bs)"
proof -
  note ln = live_node [OF wf l]
  have le': "unat (align_size n) \<le> unat (block_size (blocks s (p - 16)))" using le ln(6) by simp
  then have r: "realloc p n s = Some (p, split_block (p - 16) (align_size n) s)"
    using ln(3) n by (simp add: realloc_def Let_def sizeof_heap_block_def word_le_nat_alt)
  obtain as bs where b: "hitems s = as @ BlockNode (p - 16) # bs" using ln(1) by (auto simp: in_set_conv_decomp)
  note sp = split_block_refines [OF wf b le' align_size_dvd]
  have "hview s = map (blk_of s) as @ (unat p - 16, m, False) # map (blk_of s) bs" using hview_split [OF b] ln by simp
  moreover have "hview (split_block (p - 16) (align_size n) s) =
      map (blk_of s) as @ cut_block (unat (align_size n)) False (unat p - 16, m) @ map (blk_of s) bs"
    using sp(4) ln by simp
  ultimately show ?thesis using r sp(1) by blast
qed

lemma heap_run_inv: "heap_run R s \<Longrightarrow> heap_up s \<and> (\<not> R \<longrightarrow> coalesced (view s))"
proof (induction rule: heap_run.induct)
  case (Boot s)
  then show ?case using heap_boot(1,2) [of s] by (simp add: heap_up_def heap_ok_def coalesced_Cons)
next
  case (Malloc s n p s')
  then show ?case using malloc_keeps_up coalesced_malloc [OF heap_up_ok] by blast
next
  case (Calloc s count n p s')
  then show ?case
    using calloc_bytes [OF Calloc(2)] malloc_keeps_up coalesced_malloc [OF heap_up_ok]
    by (auto simp: heap_init_bytes heap_up_bytes)
next
  case (Realloc s p m n q s')
  show ?case
  proof (cases "p = 0")
    case True
    then show ?thesis
      using Realloc malloc_keeps_up coalesced_malloc [OF heap_up_ok] by (auto simp: realloc_def)
  next
    case False
    then have l: "live_allocs s p = Some m" and u: "heap_up s" using Realloc by auto
    note ok = heap_up_ok [OF u] and wf = live_initialized [OF u l]
    show ?thesis
    proof (cases "n = 0")
      case True
      then show ?thesis
        using Realloc(4,5) False free_view(1) [OF ok l] coalesced_free [OF ok l] by (auto simp: realloc_def intro: heap_wf_up)
    next
      case n: False
      show ?thesis
      proof (cases "unat (align_size n) \<le> m")
        case True
        then show ?thesis
          using realloc_cuts [OF wf l n True] Realloc(3,4) False n by (auto intro: heap_wf_up)
      next
        case False
        then have "m < unat (align_size n)" by simp
        from realloc_as_calls [OF wf l n this Realloc(4)] obtain s1 where
          s1: "malloc (align_size n) s = Some (q, s1)" and
          r: "q = 0 \<and> s' = s1 \<or> q \<noteq> 0 \<and> (\<exists>f k. s' = free p (s1\<lparr>heap_bytes := f\<rparr>) \<and> live_allocs s1 p = Some k)"
          by blast
        have u1: "heap_up s1" "\<not> R \<longrightarrow> coalesced (view s1)"
          using malloc_keeps_up [OF u s1] coalesced_malloc [OF ok s1] Realloc(5) by blast+
        have "heap_up (free p (s1\<lparr>heap_bytes := f\<rparr>)) \<and> (\<not> R \<longrightarrow> coalesced (view (free p (s1\<lparr>heap_bytes := f\<rparr>))))"
          if "live_allocs s1 p = Some k" for f k
        proof -
          let ?s2 = "s1\<lparr>heap_bytes := f\<rparr>"
          have ok2: "heap_ok ?s2" and l2: "live_allocs ?s2 p = Some k"
            using heap_up_ok [OF u1(1)] that by simp_all
          have "heap_wf (free p ?s2)" using free_view(1) [OF ok2 l2] .
          moreover have "\<not> R \<longrightarrow> coalesced (hview (free p ?s2))"
            using coalesced_free [OF ok2 l2] u1(2) by (simp add: heap_init_bytes)
          ultimately show ?thesis using heap_wf_up by simp
        qed
        then show ?thesis using r u1 by blast
      qed
    qed
  qed
next
  case (Free s p m)
  show ?case
  proof (cases "p = 0")
    case True
    then show ?thesis using Free(3) by (simp add: free_def)
  next
    case False
    then have l: "live_allocs s p = Some m" and ok: "heap_ok s" using Free heap_up_ok by auto
    have "heap_wf (free p s)" using free_view(1) [OF ok l] .
    then show ?thesis using coalesced_free [OF ok l] Free(3) heap_wf_up by simp
  qed
next
  case (Write s f)
  then show ?case by (simp add: heap_init_bytes heap_up_bytes)
qed

subsection \<open>A small heap\<close>

definition demo_heap :: heap_state where
  "demo_heap = \<lparr>heap_start_sym = 0x1000, heap_end_sym = 0x2000,
     blocks = \<lambda>_. \<lparr>block_size = 0, block_free = False\<rparr>,
     heap_links = \<lparr>nxt = \<lambda>x. x, prv = \<lambda>x. x\<rparr>, heap_initialized = False,
     heap_start_addr = 0, heap_end_addr = 0, heap_bytes = \<lambda>_. 0xff\<rparr>"

lemma demo_heap:
  shows "heap_run R demo_heap" and "heap_ok demo_heap" and "view demo_heap = [(0x1000, 0xff0, True)]"
    and "live_allocs demo_heap = Map.empty"
proof -
  have b: "\<not> heap_initialized demo_heap" "heap_start_sym demo_heap \<noteq> 0"
    "unat (heap_start_sym demo_heap) + 23 < 2 ^ 32" by (simp_all add: demo_heap_def)
  show "heap_run R demo_heap" using heap_run.Boot [OF b] .
  show "heap_ok demo_heap" using heap_boot(1) [OF b] by (simp add: heap_ok_def)
  show v: "view demo_heap = [(0x1000, 0xff0, True)]"
    using heap_boot(2) [OF b] by (simp add: demo_heap_def)
  show "live_allocs demo_heap = Map.empty" by (rule ext) (simp add: live_allocs_def v)
qed

lemma demo_heap_alloc:
  "\<exists>p s'. malloc 100 demo_heap = Some (p, s') \<and> unat p = 0x1010 \<and> heap_run R s' \<and>
     live_allocs s' p = Some 104 \<and> heap_wf s'"
proof -
  have f: "first_fit (unat (align_size 100)) (view demo_heap) =
      Some (0x1000, [(0x1000, 104, False), (0x1078, 0xf78, True)])"
    by (simp add: demo_heap(3) align_size_exact cut_block_def)
  obtain p s' where m: "malloc 100 demo_heap = Some (p, s')" "unat p = 0x1010" "heap_wf s'"
    "hview s' = [(0x1000, 104, False), (0x1078, 0xf78, True)]"
    using malloc_view [OF demo_heap(2), of 100] unfolding f by auto
  moreover have "live_allocs s' p = Some 104"
    by (simp add: live_allocs_wf [OF m(3)] m(2,4))
  ultimately show ?thesis using heap_run.Malloc [OF demo_heap(1) m(1)] by blast
qed

subsection \<open>Properties\<close>

text \<open>C28. \<^verbatim>\<open>malloc\<close> implements first fit on the abstract block list: it takes the first free block
  that is large enough, cut to the aligned size, and returns the address after its header; it
  returns the null pointer, and changes nothing but the lazy initialisation, if and only if no
  free block is large enough.\<close>

theorem malloc_first_fit:
  assumes "heap_ok s" and "n \<noteq> 0"
  shows "\<exists>p s'. malloc n s = Some (p, s') \<and> heap_wf s' \<and>
    (case first_fit (unat (align_size n)) (view s) of
       None \<Rightarrow> p = 0 \<and> s' = heap_init_once s
     | Some (a, bs) \<Rightarrow> p \<noteq> 0 \<and> unat p = a + 16 \<and> hview s' = bs)"
proof (cases "first_fit (unat (align_size n)) (view s)")
  case None
  then show ?thesis using malloc_view [OF assms] assms(1) by (simp add: heap_ok_def)
next
  case (Some x)
  obtain a bs where x: "x = (a, bs)" by (cases x)
  obtain p s' where "malloc n s = Some (p, s')" "unat p = a + 16" "heap_wf s'" "hview s' = bs"
    using malloc_view [OF assms] Some x by auto
  then show ?thesis using Some x by (intro exI [of _ p] exI [of _ s']) auto
qed

lemma malloc_first_fit_witness:
  "\<exists>p s'. malloc 100 demo_heap = Some (p, s') \<and>
     hview s' = [(0x1000, 104, False), (0x1078, 0xf78, True)]"
proof -
  have "first_fit (unat (align_size 100)) (view demo_heap) =
      Some (0x1000, [(0x1000, 104, False), (0x1078, 0xf78, True)])"
    by (simp add: demo_heap(3) align_size_exact cut_block_def)
  then show ?thesis using malloc_first_fit [OF demo_heap(2), of 100] by auto
qed

text \<open>C29. \<^verbatim>\<open>free\<close> implements release with coalescing: freeing a live block marks it free and joins
  it with the free neighbours, so the block list is the abstract one; nothing else is lost, no
  two free blocks become adjacent, and the freed pointer is the only one that stops being live.\<close>

theorem free_releases:
  assumes "heap_ok s" and "live_allocs s p = Some m"
  shows "heap_wf (free p s) \<and> hview (free p s) = release (unat p - 16) (view s) \<and>
    live_allocs (free p s) = (live_allocs s)(p := None) \<and>
    (coalesced (view s) \<longrightarrow> coalesced (hview (free p s)))"
  using free_view [OF assms] free_live(2) [OF assms] coalesced_free [OF assms] by blast

lemma free_releases_witness:
  "\<exists>p s. live_allocs s p = Some 104 \<and> live_allocs (free p s) p = None"
  using demo_heap_alloc [of False] free_releases [OF heap_wf_ok] by fastforce

text \<open>C30. Allocating and freeing again, in a heap reached by any calls: the live blocks are those of
  before, and where no two free blocks are neighbours the whole block list is, because the cut made
  by \<^verbatim>\<open>malloc\<close> is undone by the coalescing of \<^verbatim>\<open>free\<close>.  No two free blocks are neighbours in every heap
  reached by \<^verbatim>\<open>malloc\<close>, \<^verbatim>\<open>calloc\<close>, \<^verbatim>\<open>free\<close> and calls of \<^verbatim>\<open>realloc\<close> that do not shrink a block in
  place.\<close>

theorem malloc_free_roundtrip:
  assumes "heap_run R s" and "malloc n s = Some (p, s')" and "p \<noteq> 0"
  shows "live_allocs (free p s') = live_allocs s \<and>
    (coalesced (view s) \<longrightarrow> hview (free p s') = view s) \<and> (\<not> R \<longrightarrow> coalesced (view s))"
proof -
  have ok: "heap_ok s" and c: "\<not> R \<longrightarrow> coalesced (view s)"
    using heap_run_inv [OF assms(1)] heap_up_ok by simp_all
  have n: "n \<noteq> 0" using assms(2,3) by auto
  obtain a bs where ff: "first_fit (unat (align_size n)) (view s) = Some (a, bs)"
    using malloc_view [OF ok n] assms(2,3) by (cases "first_fit (unat (align_size n)) (view s)") auto
  have p: "unat p = a + 16" "hview s' = bs" "heap_wf s'"
    using malloc_view [OF ok n] ff assms(2) by auto
  have ne: "view s \<noteq> []" using ff by auto
  note t = hview_tiled [OF _ ne, unfolded heap_ok_def [symmetric], OF ok]
  obtain m where l: "live_allocs s' p = Some m"
    using malloc_cases [OF ok, of n] assms(2,3) by auto
  have "hview (free p s') = release a bs"
    using free_view(2) [OF heap_wf_ok [OF p(3)] l] p by simp
  then show ?thesis
    using release_first_fit [OF t _ ff] heap.alloc_dealloc [OF ok assms(2,3)] c by simp
qed

lemma malloc_free_roundtrip_witness:
  "\<exists>p s'. malloc 100 demo_heap = Some (p, s') \<and> hview (free p s') = [(0x1000, 0xff0, True)]"
proof -
  obtain p s' where m: "malloc 100 demo_heap = Some (p, s')" "unat p = 0x1010"
    using demo_heap_alloc [of False] by blast
  then have "p \<noteq> 0" by auto
  then show ?thesis using malloc_free_roundtrip [OF demo_heap(1) [of False] m(1)] m(1) demo_heap(3) by auto
qed

lemma live_empty_used:
  assumes ok: "heap_ok s" and e: "live_allocs s = Map.empty"
  shows "used_blocks (view s) = []"
proof (rule ccontr)
  let ?s = "heap_init_once s"
  assume "used_blocks (view s) \<noteq> []"
  then obtain a m where u: "(a, m) \<in> set (used_blocks (view s))" by (metis list.set_sel(1) surj_pair)
  then have a: "16 \<le> a" "(a - 16, m, False) \<in> set (view s)" by (simp_all add: used_blocks_set)
  then have "view s \<noteq> []" by auto
  then have "a \<le> unat (heap_end_addr ?s)"
    using tiled_bounds [OF hview_tiled a(2)] ok a(1) by (simp add: heap_ok_def)
  then have "unat (of_nat a :: u32) = a"
    using unat_u32_less [of "heap_end_addr ?s"] by (simp add: unat_of_nat)
  then have "live_allocs s (of_nat a) = Some m"
    using live_iff_ok [OF ok] a by simp
  with e show False by simp
qed

text \<open>A shrinking \<^verbatim>\<open>realloc\<close>: 1000 bytes cut to 100 and freed leave two free neighbours.\<close>

lemma shrink_fragments:
  "\<exists>s. heap_run True s \<and> live_allocs s = Map.empty \<and> view s = [(0x1000, 1000, True), (0x13f8, 3064, True)]"
proof -
  have "first_fit (unat (align_size 1000)) (view demo_heap) =
      Some (0x1000, [(0x1000, 1000, False), (0x13f8, 3064, True)])"
    by (simp add: demo_heap(3) align_size_exact cut_block_def)
  then obtain p s1 where m: "malloc 1000 demo_heap = Some (p, s1)" "unat p = 0x1010" "heap_wf s1"
    "hview s1 = [(0x1000, 1000, False), (0x13f8, 3064, True)]"
    using malloc_view [OF demo_heap(2), of 1000] by auto
  have p: "p = 0x1010" using m(2) by (simp add: word_unat_eq_iff)
  have l: "live_allocs s1 p = Some 1000" by (simp add: live_allocs_wf [OF m(3)] m(2,4))
  have e: "unat (align_size 100) = 104" by (simp add: align_size_exact)
  have n: "(100 :: u32) \<noteq> 0" "unat (align_size 100) \<le> 1000" using e by simp_all
  obtain s2 as bs where r: "realloc p 100 s1 = Some (p, s2)" "heap_wf s2"
    "hview s1 = as @ (unat p - 16, 1000, False) # bs"
    "hview s2 = as @ cut_block (unat (align_size 100)) False (unat p - 16, 1000) @ bs"
    using realloc_cuts [OF m(3) l n] by blast
  have "as = []" using r(3) by (cases as; cases "tl as") (auto simp: m(2,4))
  then have v: "hview s2 = [(0x1000, 104, False), (0x1078, 880, True), (0x13f8, 3064, True)]"
    using r(3,4) by (simp add: m(2,4) e cut_block_def)
  have l2: "live_allocs s2 p = Some 104" by (simp add: live_allocs_wf [OF r(2)] v m(2))
  note ok = heap_wf_ok [OF r(2)]
  have run2: "heap_run True s2"
    using heap_run.Realloc [OF heap_run.Malloc [OF demo_heap(1) m(1)] _ _ r(1)] l by blast
  have run: "heap_run True (free p s2)" using heap_run.Free [OF run2] l2 by blast
  have "view (free p s2) = [(0x1000, 1000, True), (0x13f8, 3064, True)]"
    using free_view [OF ok l2] r(2) by (simp add: v m(2))
  moreover have "live_allocs (free p s2) = Map.empty"
    using free_view(1) [OF ok l2] calculation by (intro ext) (simp add: live_allocs_def)
  ultimately show ?thesis using run by blast
qed

text \<open>C31. In every heap reached by \<^verbatim>\<open>malloc\<close>, \<^verbatim>\<open>calloc\<close>, \<^verbatim>\<open>realloc\<close>, \<^verbatim>\<open>free\<close> and writes the live blocks are
  pairwise disjoint, aligned to 8 bytes and inside the heap region, and once everything is freed
  every block is free.  If no call of \<^verbatim>\<open>realloc\<close> shrank a block in place, the heap is then one free
  block again, whatever the order of the calls was.  This condition is needed: a block of 1000
  bytes, shrunk to 100 and freed, leaves two free blocks side by side.\<close>

theorem heap_run_safe:
  assumes "heap_run R s"
  shows "(\<forall>p m. live_allocs s p = Some m \<longrightarrow>
      unat (heap_start_addr (heap_init_once s)) + 16 \<le> unat p \<and>
      unat p + m \<le> unat (heap_end_addr (heap_init_once s)) \<and> 8 dvd unat p) \<and>
    (\<forall>p q m k. live_allocs s p = Some m \<longrightarrow> live_allocs s q = Some k \<longrightarrow> p \<noteq> q \<longrightarrow>
      unat p + m \<le> unat q \<or> unat q + k \<le> unat p) \<and>
    (live_allocs s = Map.empty \<longrightarrow> (\<forall>(a, m, f)\<in>set (view s). f) \<and>
      (\<not> R \<longrightarrow> view s = [] \<or>
        view s = [(unat (heap_start_addr (heap_init_once s)),
          unat (heap_end_addr (heap_init_once s)) - unat (heap_start_addr (heap_init_once s)) - 16, True)])) \<and>
    (\<exists>s'. heap_run True s' \<and> live_allocs s' = Map.empty \<and>
      view s' = [(0x1000, 1000, True), (0x1000 + 16 + 1000, 3064, True)])"
proof -
  have ok: "heap_ok s" and c: "\<not> R \<longrightarrow> coalesced (view s)"
    using heap_run_inv [OF assms(1)] heap_up_ok by simp_all
  have single: "view s = [] \<or> view s = [(unat (heap_start_addr (heap_init_once s)),
      unat (heap_end_addr (heap_init_once s)) - unat (heap_start_addr (heap_init_once s)) - 16, True)]"
    if "live_allocs s = Map.empty" "\<not> R"
    using all_freed_single [OF hview_tiled _ _ live_empty_used [OF ok that(1)]] ok c that(2)
    by (auto simp: heap_ok_def)
  have free: "\<forall>(a, m, f)\<in>set (view s). f" if "live_allocs s = Map.empty"
    using live_empty_used [OF ok that] by (auto simp: used_blocks_def filter_empty_conv)
  have safe: "(\<forall>p m. live_allocs s p = Some m \<longrightarrow>
      unat (heap_start_addr (heap_init_once s)) + 16 \<le> unat p \<and>
      unat p + m \<le> unat (heap_end_addr (heap_init_once s)) \<and> 8 dvd unat p) \<and>
    (\<forall>p q m k. live_allocs s p = Some m \<longrightarrow> live_allocs s q = Some k \<longrightarrow> p \<noteq> q \<longrightarrow>
      unat p + m \<le> unat q \<or> unat q + k \<le> unat p)"
    using live_in_heap [OF ok] live_disjoint [OF ok] by (auto dest: add_leD1) (meson add_leD1)+
  have "\<exists>s'. heap_run True s' \<and> live_allocs s' = Map.empty \<and>
      view s' = [(0x1000, 1000, True), (0x1000 + 16 + 1000, 3064, True)]"
    using shrink_fragments by simp
  with safe single free show ?thesis by blast
qed

lemma heap_run_safe_witness: "view demo_heap = [(0x1000, 0xff0, True)]"
proof -
  have "view demo_heap \<noteq> []" by (simp add: demo_heap(3))
  moreover have "unat (heap_start_addr (heap_init_once demo_heap)) = 0x1000"
    "unat (heap_end_addr (heap_init_once demo_heap)) = 0x2000"
    using heap_boot(3,4) [of demo_heap] by (simp_all add: demo_heap_def)
  ultimately show ?thesis using heap_run_safe [OF demo_heap(1) [of False]] demo_heap(4) by simp
qed

lemma region_nth: "i < n \<Longrightarrow> p + of_nat i \<in> region p n"
  by (auto simp: region_def)

text \<open>C32. \<^verbatim>\<open>realloc\<close> of a live block to a size that does not wrap either fails and changes nothing,
  or returns a live block of at least that size which starts with the old contents, up to the
  smaller of the two sizes; every other live block keeps its size and its contents.\<close>

theorem realloc_keeps_contents:
  assumes "heap_wf s" and "live_allocs s p = Some m" and "n \<noteq> 0" and "unat n + 7 < 2 ^ 32"
  shows "\<exists>q s'. realloc p n s = Some (q, s') \<and> heap_wf s' \<and> (q = 0 \<longrightarrow> s' = s) \<and>
    (q \<noteq> 0 \<longrightarrow> (\<exists>k. live_allocs s' q = Some k \<and> unat n \<le> k) \<and>
      (\<forall>i<min m (unat n). heap_bytes s' (q + of_nat i) = heap_bytes s (p + of_nat i)) \<and>
      (\<forall>r k. r \<noteq> p \<longrightarrow> live_allocs s r = Some k \<longrightarrow> live_allocs s' r = Some k \<and>
        (\<forall>i<k. heap_bytes s' (r + of_nat i) = heap_bytes s (r + of_nat i))))"
proof (cases "unat (align_size n) \<le> m")
  case True
  note ge = align_size_ge [OF assms(4)]
  obtain s' where "realloc p n s = Some (p, s')" "heap_wf s'" "heap_bytes s' = heap_bytes s"
    "live_allocs s' = (live_allocs s)
      (p \<mapsto> (if m < unat (align_size n) + 24 then m else unat (align_size n)))"
    using realloc_shrink [OF assms(1-3) True] by blast
  then show ?thesis
    using ge True live_node(3) [OF assms(1,2)]
    by (intro exI [of _ p] exI [of _ s']) auto
next
  case False
  then have gt: "m < unat (align_size n)" by simp
  consider "realloc p n s = Some (0, s)"
    | q k s' where "realloc p n s = Some (q, s')" "q \<noteq> 0" "heap_wf s'" "live_allocs s q = None"
      "live_allocs s' = (live_allocs s)(p := None, q \<mapsto> k)" "unat (align_size n) \<le> k"
      "\<forall>i<m. heap_bytes s' (q + of_nat i) = heap_bytes s (p + of_nat i)"
      "\<forall>a. a \<notin> region q m \<longrightarrow> heap_bytes s' a = heap_bytes s a"
    using realloc_grow [OF assms(1-3) gt] by blast
  then show ?thesis
  proof cases
    case 1
    then show ?thesis using assms(1) by auto
  next
    case 2
    have keep: "live_allocs s' r = Some j \<and>
        (\<forall>i<j. heap_bytes s' (r + of_nat i) = heap_bytes s (r + of_nat i))"
      if r: "r \<noteq> p" "live_allocs s r = Some j" for r j
    proof -
      have rq: "r \<noteq> q" using r 2(4) by auto
      then have l: "live_allocs s' r = Some j" using r 2(5) by simp
      have "region q m \<inter> region r j = {}"
        by (rule live_regions_disjoint [OF heap_wf_ok [OF 2(3)] _ l])
          (use 2(5,6) rq gt in auto)
      then have "r + of_nat i \<notin> region q m" if "i < j" for i
        using region_nth [OF that, of r] by blast
      with l 2(8) show ?thesis by blast
    qed
    have "unat n \<le> k" using align_size_ge [OF assms(4)] 2(6) by linarith
    then have "live_allocs s' q = Some k \<and> unat n \<le> k" by (simp add: 2(5))
    then show ?thesis using 2(1,2,3,7) keep by (intro exI [of _ q] exI [of _ s']) auto
  qed
qed

lemma realloc_keeps_contents_witness:
  "\<exists>p q s s'. live_allocs s p = Some 104 \<and> realloc p 8 s = Some (q, s')"
proof -
  obtain p s where s: "heap_wf s" "live_allocs s p = Some 104" using demo_heap_alloc [of False] by blast
  have "(8 :: u32) \<noteq> 0" "unat (8 :: u32) + 7 < 2 ^ 32" by simp_all
  from realloc_keeps_contents [OF s this] s(2) show ?thesis by blast
qed

text \<open>\<^verbatim>\<open>heap_free_size\<close> ends and returns the number of free payload bytes; together with the
  live bytes and a header per block they are the whole region.\<close>

theorem heap_free_size_accounts:
  assumes "heap_ok s" and "view s \<noteq> []"
  shows "\<exists>r. heap_free_size s = Some (r, heap_init_once s) \<and>
    unat (heap_start_addr (heap_init_once s)) + unat r + used_bytes (view s) + 16 * length (view s) =
    unat (heap_end_addr (heap_init_once s))"
proof -
  obtain r where "heap_free_size s = Some (r, heap_init_once s)" "unat r = free_bytes (view s)"
    using heap_free_size_eq [OF assms(1)] by blast
  moreover have "heap_wf (heap_init_once s)" using assms(1) by (simp add: heap_ok_def)
  ultimately show ?thesis using tiled_sum [OF hview_tiled [OF _ assms(2)]] by simp
qed

lemma heap_free_size_accounts_witness:
  "\<exists>r. heap_free_size demo_heap = Some (r, heap_init_once demo_heap) \<and> unat r = 0xff0"
proof -
  have "view demo_heap \<noteq> []" by (simp add: demo_heap(3))
  from heap_free_size_accounts [OF demo_heap(2) this]
  show ?thesis using heap_boot(3,4) [of demo_heap] demo_heap(3)
    by (auto simp: demo_heap_def used_bytes_def)
qed

end
