(* ===== verification/HandleProps.thy ===== *)
theory HandleProps
  imports Handles
begin

unbundle bit_operations_syntax

text \<open>
  The properties of the handle table, as seen through \<open>live_handles\<close>: the partial map from open
  handles to the object, the type and the rights they carry.
\<close>

definition demo_handles :: handle_state where
  "demo_handles = \<lparr>handle_table = [], handle_initialized = False\<rparr>"

lemma demo_handles: "handle_ok demo_handles" "live_handles demo_handles = Map.empty"
proof -
  show "handle_ok demo_handles" unfolding demo_handles_def by (rule handle_ok_static)
  have "\<not> slot_used (htab demo_handles ! i)" if "i < RTOS_HANDLE_MAX" for i
    using that by (simp add: demo_handles_def handle_table_init_locked_def)
  then show "live_handles demo_handles = Map.empty"
    using live_none_iff [OF \<open>handle_ok demo_handles\<close>] by blast
qed

lemma demo_handles_alloc:
  "\<exists>h s'. trt_handle_alloc 0x1000 TRT_OBJ_SEM 7 True demo_handles = (Inr h, s') \<and> handle_ok s' \<and>
    live_handles s' h = Some (0x1000, TRT_OBJ_SEM, 7)"
proof -
  have "\<not> (\<forall>slot\<in>set (htab demo_handles). slot_used slot)"
    by (simp add: demo_handles_def handle_table_init_locked_def RTOS_HANDLE_MAX_def)
  from alloc_free [OF demo_handles(1) _ _ _ this, of "0x1000" True TRT_OBJ_SEM 7] show ?thesis by auto
qed

text \<open>C25. \<^verbatim>\<open>trt_handle_alloc\<close> refines the insertion of a fresh key: with valid arguments it
  either reports \<^verbatim>\<open>ERR_NO_MEM\<close>, exactly when all slots are in use, and leaves the open handles
  alone, or returns a handle that was not open, is not the invalid handle, and is now bound to the
  arguments.  With a null object, no result pointer or no type it reports \<^verbatim>\<open>ERR_INVAL\<close>.\<close>

theorem handle_alloc_fresh:
  assumes "handle_ok s"
  shows "(object = 0 \<or> \<not> out \<or> ty = TRT_OBJ_ANY) \<and>
      trt_handle_alloc object ty rights out s = (Inl ERR_INVAL, s) \<or>
    (object \<noteq> 0 \<and> out \<and> ty \<noteq> TRT_OBJ_ANY) \<and> (\<forall>slot\<in>set (htab s). slot_used slot) \<and>
      trt_handle_alloc object ty rights out s = (Inl ERR_NO_MEM, handle_table_init_locked s) \<or>
    (object \<noteq> 0 \<and> out \<and> ty \<noteq> TRT_OBJ_ANY) \<and> \<not> (\<forall>slot\<in>set (htab s). slot_used slot) \<and>
      (\<exists>h s'. trt_handle_alloc object ty rights out s = (Inr h, s') \<and> h \<noteq> TRT_HANDLE_INVALID \<and>
        live_handles s h = None \<and> live_handles s' = (live_handles s)(h \<mapsto> (object, ty, rights)) \<and>
        handle_ok s')"
proof (cases "object = 0 \<or> \<not> out \<or> ty = TRT_OBJ_ANY")
  case True
  then show ?thesis using alloc_inval [OF True] by blast
next
  case False
  then have a: "object \<noteq> 0" "out" "ty \<noteq> TRT_OBJ_ANY" by simp_all
  show ?thesis using alloc_full [OF a] alloc_free [OF assms a] a by blast
qed

lemma handle_alloc_fresh_witness:
  "\<exists>h s'. trt_handle_alloc 0x1000 TRT_OBJ_TIMER 3 True demo_handles = (Inr h, s') \<and>
     live_handles s' = [h \<mapsto> (0x1000, TRT_OBJ_TIMER, 3)]"
proof -
  have "\<not> (\<forall>slot\<in>set (htab demo_handles). slot_used slot)"
    by (simp add: demo_handles_def handle_table_init_locked_def RTOS_HANDLE_MAX_def)
  then show ?thesis
    using handle_alloc_fresh [OF demo_handles(1), of "0x1000" True TRT_OBJ_TIMER 3] demo_handles(2)
    by auto
qed

text \<open>\<^verbatim>\<open>trt_handle_lookup\<close> checks type and rights: it returns the object of an open handle if
  the handle has the type asked for and all the rights asked for, \<^verbatim>\<open>ERR_PERM\<close> if only a right is
  missing, and \<^verbatim>\<open>ERR_INVAL\<close> if the handle is not open or has another type; it never changes what
  is open.\<close>

theorem handle_lookup_checks:
  "trt_handle_lookup h ty rights True s =
     (case live_handles s h of
        None \<Rightarrow> Inl ERR_INVAL
      | Some (p, ty', r) \<Rightarrow>
          if ty = TRT_OBJ_ANY \<or> ty' = ty then if rights AND NOT r = 0 then Inr p else Inl ERR_PERM
          else Inl ERR_INVAL,
      handle_table_init_locked s) \<and>
   live_handles (handle_table_init_locked s) = live_handles s"
proof -
  have "r AND rights = rights \<longleftrightarrow> rights AND NOT r = 0" for r :: u32
    by (auto simp: bit_eq_iff bit_and_iff bit_not_iff)
  then show ?thesis by (auto simp: lookup_spec split: option.splits)
qed

text \<open>C26. Round trip of a handle: between its allocation and its close, whatever other handles
  are opened and closed, a lookup with a subset of the granted rights returns the object; after
  the close the handle is dead and every other handle is as before.\<close>

theorem handle_lifetime:
  assumes "handle_ok s" and "trt_handle_alloc p ty r True s = (Inr h, s1)" and "HClose h \<notin> set ops"
    and "rights AND NOT r = 0"
  shows "let s2 = fold run_handle_op ops s1; s3 = snd (trt_handle_close h s2) in
    fst (trt_handle_lookup h ty rights True s2) = Inr p \<and>
    fst (trt_handle_close h s2) = ERR_OK \<and> live_handles s3 = (live_handles s2)(h := None) \<and>
    fst (trt_handle_lookup h ty rights True s3) = Inl ERR_INVAL"
proof -
  let ?s2 = "fold run_handle_op ops s1"
  have a: "live_handles s1 h = Some (p, ty, r)" "handle_ok s1"
    using handles.alloc_Inr [OF assms(1,2)] by simp_all
  have k: "live_handles ?s2 h = Some (p, ty, r)" "handle_ok ?s2"
    using run_handle_ops_keep [OF a(2,1) assms(3)] by simp_all
  obtain s3 where c: "trt_handle_close h ?s2 = (ERR_OK, s3)" "live_handles s3 = (live_handles ?s2)(h := None)"
    using close_open [OF k(2,1)] by blast
  have "r AND rights = rights"
    using assms(4) by (auto simp: bit_eq_iff bit_and_iff bit_not_iff)
  then show ?thesis using k c by (simp add: lookup_spec Let_def)
qed

lemma handle_lifetime_witness:
  "\<exists>h s1. trt_handle_alloc 0x1000 TRT_OBJ_SEM 7 True demo_handles = (Inr h, s1) \<and>
     fst (trt_handle_lookup h TRT_OBJ_SEM 4 True (run_handle_op (HAlloc 0x2000 TRT_OBJ_TASK 16) s1)) =
       Inr 0x1000"
proof -
  obtain h s1 where a: "trt_handle_alloc 0x1000 TRT_OBJ_SEM 7 True demo_handles = (Inr h, s1)"
    using demo_handles_alloc by blast
  have n: "HClose h \<notin> set [HAlloc 0x2000 TRT_OBJ_TASK 16]" by simp
  have r: "(4 :: u32) AND NOT 7 = 0" by simp
  show ?thesis using handle_lifetime [OF demo_handles(1) a n r] a by (auto simp: Let_def)
qed

text \<open>C27. A closed handle stays dead through any further sequence of fewer than 65534 allocations
  and closes, although its slot is reused: the generation in the handle differs from that of the
  slot.  After 65535 closes of the slot the generation, which skips zero, is back.\<close>

theorem closed_handle_stays_dead:
  assumes "handle_ok s" and "live_handles s h = Some x" and "length ops < 65534"
  shows "fst (trt_handle_lookup h ty rights True (fold run_handle_op (HClose h # ops) s)) = Inl ERR_INVAL \<and>
    gen_after (handle_generation h) 65535 = handle_generation h"
proof -
  obtain i where "i < RTOS_HANDLE_MAX" "h = handle_make (of_nat i) (slot_generation (htab s ! i))"
    using assms(2) live_iff [OF assms(1), of h] by (cases x) auto
  then have "handle_generation h \<noteq> 0"
    using handle_okD(2) [OF assms(1)] by (simp add: handle_generation_make slot_ok_def)
  then show ?thesis
    using stale_handle_dead [OF assms] gen_after_period by (simp add: lookup_spec)
qed

lemma closed_handle_stays_dead_witness:
  "\<exists>h s. live_handles s h = Some (0x1000, TRT_OBJ_SEM, 7) \<and>
     fst (trt_handle_lookup h TRT_OBJ_SEM 0 True
       (fold run_handle_op [HClose h, HAlloc 0x3000 TRT_OBJ_SEM 7] s)) = Inl ERR_INVAL"
proof -
  obtain h s where s: "handle_ok s" "live_handles s h = Some (0x1000, TRT_OBJ_SEM, 7)"
    using demo_handles_alloc by blast
  have "length [HAlloc 0x3000 TRT_OBJ_SEM 7] < 65534" by simp
  from closed_handle_stays_dead [OF s this] s(2) show ?thesis by blast
qed

end
