(* ===== verification/ObjProps.thy ===== *)
theory ObjProps
  imports ObjSteps SchedProps HeapProps HandleProps
begin

text \<open>
  The properties of semaphores, mutexes and message queues, with instances on the small system
  of \<open>SchedProps\<close> extended with one object of each kind: a semaphore at 0x500 with no unit and
  room for three, a free mutex at 0x600, and a queue at 0x700 of two messages of four bytes.
\<close>

subsection \<open>A small system with objects\<close>

definition blank_sys :: sys where
  "blank_sys = \<lparr>tasks = \<lambda>_. demo_task 0, lnk = blank_links, ready_mask = 0, current_task = 0,
     idle_task = 0, time_slice_ticks = 0, sched_initialized = False, started = False, lock_count = 0,
     resched_pending = False, tick_count = 0, trap_nesting = 0,
     sys_handles = demo_handles, sys_heap = demo_heap,
     sems = \<lambda>_. \<lparr>sem_cnt = 0, sem_max = 0, sem_destroyed = False\<rparr>,
     mutexes = \<lambda>_. \<lparr>mtx_owner = 0, mtx_lock_count = 0, mtx_destroyed = False\<rparr>,
     msgqs = \<lambda>_. \<lparr>mq_buf = 0, mq_cap = 0, mq_qlen = 0, mq_head = 0, mq_tail = 0, mq_destroyed = False\<rparr>,
     timers = \<lambda>_. \<lparr>tm_deadline = 0, tm_period = 0, tm_callback = 0, tm_arg = 0, tm_active = False\<rparr>,
     timer_links = \<lparr>nxt = \<lambda>_. TimerNull, prv = \<lambda>_. TimerNull\<rparr>,
     timer_initialized = False, timer_tick_started = False, task_count = 0, task_initialized = False,
     intr_table = \<lambda>_. \<lparr>intr_fn = 0, intr_arg = 0\<rparr>, cpu_int_allocated = 0, systimer_cpu_irq = 0,
     systimer_initialized = False, systimer_started = False\<rparr>"

definition demo_mq :: trt_msg_q_t where
  "demo_mq = \<lparr>mq_buf = 0x8000, mq_cap = 4, mq_qlen = 2, mq_head = 0, mq_tail = 0, mq_destroyed = False\<rparr>"

definition demo_s :: sys where
  "demo_s = mq_init 0x700 demo_mq (mutex_init_obj 0x600 (sem_init_obj 0x500 3 0 (demo_run blank_sys)))"

abbreviation demo_W :: "wq_t set" where
  "demo_W \<equiv> {WritersWq 0x700, ReadersWq 0x700, MutexWq 0x600, SemWq 0x500}"

lemma more_simps [simp]:
  "kstate.more (demo_add t q s) = kstate.more s" "kstate.more (sched_set_idle_task t s) = kstate.more s"
  "kstate.more (sched_init s) = kstate.more s" "kstate.more (trt_wait_q_init w s) = kstate.more s"
  by (simp_all add: demo_add_def sched_add_task_def sched_set_idle_task_def sched_init_def
      trt_wait_q_init_def Let_def)

lemma demo_run_more:
  "kstate.more (demo_run blank_sys) = kstate.more blank_sys" "trap_nesting (demo_run blank_sys) = 0"
proof -
  have n: "\<not> sched_initialized blank_sys" by (simp add: blank_sys_def)
  obtain t s' where p: "sched_pick_next (demo_boot blank_sys) = Some (t, s')"
    using pick_next_kinv [OF demo_boot(1) [OF n]] by blast
  have "trap_nesting (demo_boot blank_sys) = 0"
    by (simp add: demo_boot_def demo_add_def sched_add_task_def sched_set_idle_task_def sched_init_def
        blank_sys_def)
  then show "kstate.more (demo_run blank_sys) = kstate.more blank_sys" "trap_nesting (demo_run blank_sys) = 0"
    using pick_frame [OF p] p by (simp_all add: demo_run_def) (simp add: demo_boot_def)
qed

lemma oreach_add:
  assumes "oreach B T {} s" and "t \<notin> T" "t \<noteq> 0" and "unat q < 32"
  shows "oreach B (insert t T) {} (demo_add t q s)"
proof -
  have "kstep B T {} s (insert t T) {} (demo_add t q s)"
    unfolding demo_add_def by (rule kstep.Add) (use assms in \<open>simp_all add: demo_task_def\<close>)
  then show ?thesis
    by (rule oreach.Step [OF assms(1) ostep.Kernel]) (simp_all add: fewer_waiters_def)
qed

lemma oreach_run: "oreach B demo_T {} (demo_run blank_sys)"
proof -
  have n: "\<not> sched_initialized blank_sys" by (simp add: blank_sys_def)
  let ?s1 = "demo_add 0x400 0 (sched_init blank_sys)"
  have "oreach B {0x400} {} ?s1"
    by (rule oreach_add [OF oreach.Init [OF n]]) simp_all
  moreover have "idle_task ?s1 = 0" "task_state (tasks ?s1 0x400) = TASK_READY"
    using demo_add(2,4) [OF sched_init_kinv [OF n], of "0x400" 0]
    by (simp_all add: demo_task_def sched_init_def blank_sys_def)
  then have "kstep B {0x400} {} ?s1 {0x400} {} (sched_set_idle_task 0x400 ?s1)"
    by (intro kstep.Idle) simp_all
  ultimately have "oreach B {0x400} {} (sched_set_idle_task 0x400 ?s1)"
    by (elim oreach.Step [OF _ ostep.Kernel]) (simp_all add: fewer_waiters_def)
  then have "oreach B {0x300, 0x200, 0x100, 0x400} {} (demo_boot blank_sys)"
    unfolding demo_boot_def by (intro oreach_add) simp_all
  then have b: "oreach B demo_T {} (demo_boot blank_sys)"
    by (simp add: insert_commute)
  obtain t s' where p: "sched_pick_next (demo_boot blank_sys) = Some (t, s')"
    using pick_next_kinv [OF demo_boot(1) [OF n]] by blast
  have "oreach B demo_T {} (s'\<lparr>current_task := t\<rparr>)"
    by (rule oreach.Step [OF b ostep.Kernel [OF kstep.Switch [OF p]]])
      (simp_all add: fewer_waiters_def pick_more [OF p])
  then show ?thesis by (simp add: demo_run_def p)
qed

lemma demo_s_reach: "oreach B demo_T demo_W demo_s"
proof -
  have "oreach B demo_T {SemWq 0x500} (sem_init_obj 0x500 3 0 (demo_run blank_sys))"
    by (rule oreach.Step [OF oreach_run ostep.Sem_create]) simp_all
  then have "oreach B demo_T {MutexWq 0x600, SemWq 0x500}
      (mutex_init_obj 0x600 (sem_init_obj 0x500 3 0 (demo_run blank_sys)))"
    by (rule oreach.Step [OF _ ostep.Mutex_create]) simp_all
  then show ?thesis
    unfolding demo_s_def
    by (rule oreach.Step [OF _ ostep.Mq_create]) (simp_all add: ring_ok_def demo_mq_def mq_slots_def)
qed

lemmas demo_s_safe = oreach_osafe [OF demo_s_reach]

lemma demo_s_kinv: "kinv demo_T demo_W demo_s"
  using demo_s_safe [of 0] ksafe_kinv [of 0 demo_T demo_W demo_s] by (simp add: osafe_def)

lemma demo_s_fields:
  "tasks demo_s = (\<lambda>_. demo_task 0)(0x100 := demo_task 5, 0x200 := demo_task 5,
     0x300 := (demo_task 7)\<lparr>task_state := TASK_RUNNING\<rparr>)"
  "current_task demo_s = 0x300" "idle_task demo_s = 0x400" "lock_count demo_s = 0"
  "msgqs demo_s 0x700 = demo_mq"
  "mutexes demo_s 0x600 = \<lparr>mtx_owner = 0, mtx_lock_count = 0, mtx_destroyed = False\<rparr>"
  "sems demo_s 0x500 = \<lparr>sem_cnt = 0, sem_max = 3, sem_destroyed = False\<rparr>"
proof -
  have n: "\<not> sched_initialized blank_sys" by (simp add: blank_sys_def)
  note r = demo_run [OF n]
  have b: "tasks blank_sys = (\<lambda>_. demo_task 0)" by (simp add: blank_sys_def)
  show "tasks demo_s = (\<lambda>_. demo_task 0)(0x100 := demo_task 5, 0x200 := demo_task 5,
     0x300 := (demo_task 7)\<lparr>task_state := TASK_RUNNING\<rparr>)"
    "current_task demo_s = 0x300" "idle_task demo_s = 0x400" "lock_count demo_s = 0"
    "msgqs demo_s 0x700 = demo_mq"
    "mutexes demo_s 0x600 = \<lparr>mtx_owner = 0, mtx_lock_count = 0, mtx_destroyed = False\<rparr>"
    "sems demo_s 0x500 = \<lparr>sem_cnt = 0, sem_max = 3, sem_destroyed = False\<rparr>"
    using r(3,4,6)
    by (simp_all add: demo_s_def mq_init_def mutex_init_obj_def sem_init_obj_def trt_wait_q_init_def
        upd_lnk_def r(2) b fun_eq_iff)
qed

lemma demo_s_running: "app_running demo_s" "\<not> sched_is_locked demo_s"
  by (simp_all add: app_running_def sched_is_locked_def demo_s_fields)

lemma demo_s_waiters:
  assumes "v \<in> demo_W"
  shows "waiters demo_s v = []"
proof -
  have n: "\<not> sched_initialized blank_sys" by (simp add: blank_sys_def)
  let ?s1 = "sem_init_obj 0x500 3 0 (demo_run blank_sys)" and ?w = "SemWq 0x500"
  note a = sem_init_ok [OF demo_run(1) [OF n], where p = "0x500" and mx = 3 and cnt = 0]
  have k1: "kinv demo_T {?w} ?s1" using a(1) by simp
  note b = mutex_init_ok [OF k1, where p = "0x600"]
  let ?s2 = "mutex_init_obj 0x600 ?s1"
  have k2: "kinv demo_T {MutexWq 0x600, ?w} (upd_msgq 0x700 (\<lambda>_. demo_mq) ?s2)" using b(1) by simp
  note c = wait_q_init [OF k2, of "ReadersWq 0x700"]
  note d = wait_q_init [OF c(1), of "WritersWq 0x700"]
  have "waiters demo_s (WritersWq 0x700) = []" "waiters demo_s (ReadersWq 0x700) = []"
    "waiters demo_s (MutexWq 0x600) = []" "waiters demo_s ?w = []"
    using d(2) d(3) c(2) c(3) b(2) b(3) a(2) by (simp_all add: demo_s_def mq_init_def)
  then show ?thesis using assms by auto
qed

subsection \<open>The invariant\<close>

text \<open>C33. In every state the kernel can reach by uninterrupted scheduler steps and the operations
  of semaphores, mutexes and message queues, every semaphore created with a maximum or a first
  count that is not negative counts between zero and its maximum, no semaphore has a unit while a
  task waits, a free mutex has no lock count and no waiter and no owner waits for its own mutex,
  the indices of every message queue are inside its ring, and every wait queue is sorted by
  priority.  The steps in between may allocate memory and open handles at will: nothing is said of
  these here.  The restriction on the semaphores is needed: when both arguments of
  \<^verbatim>\<open>trt_sem_create\<close> are negative the new semaphore counts zero above a negative maximum.\<close>

theorem objects_consistent:
  assumes "oreach B T W s"
  shows "kinv T W s \<and> (\<forall>w\<in>W. waiters_sorted s w) \<and>
    (\<forall>p. SemWq p \<in> W \<longrightarrow> 0 \<le> sint (sem_cnt (sems s p)) \<and>
       sint (sem_cnt (sems s p)) \<le> sint (sem_max (sems s p)) \<and>
       (waiters s (SemWq p) \<noteq> [] \<longrightarrow> sem_cnt (sems s p) = 0)) \<and>
    (\<forall>p. MutexWq p \<in> W \<longrightarrow> mtx_owner (mutexes s p) \<notin> set (waiters s (MutexWq p)) \<and>
       (mtx_owner (mutexes s p) = 0 \<longrightarrow>
         mtx_lock_count (mutexes s p) = 0 \<and> waiters s (MutexWq p) = [])) \<and>
    (\<forall>p. ReadersWq p \<in> W \<longrightarrow> mq_head (msgqs s p) \<le> mq_qlen (msgqs s p) \<and>
       mq_tail (msgqs s p) \<le> mq_qlen (msgqs s p) \<and>
       length (messages p s) \<le> unat (mq_qlen (msgqs s p))) \<and>
    (\<forall>p mx cnt. sint mx < 0 \<and> sint cnt < 0 \<longrightarrow>
       sem_cnt (sems (sem_init_obj p mx cnt s) p) = 0 \<and>
       sint (sem_max (sems (sem_init_obj p mx cnt s) p)) < 0)"
proof -
  have i: "osafe B T W s" by (rule oreach_osafe [OF assms])
  then have o: "obj_ok W s" "queues_sorted W s" "kinv T W s"
    by (simp_all add: osafe_def ksafe_def)
  have "mq_head (msgqs s p) \<le> mq_qlen (msgqs s p) \<and> mq_tail (msgqs s p) \<le> mq_qlen (msgqs s p) \<and>
      length (messages p s) \<le> unat (mq_qlen (msgqs s p))" if "ReadersWq p \<in> W" for p
    using osafe_mq(3) [OF i that] length_messages
    by (auto simp: ring_ok_def mq_slots_def word_le_nat_alt)
  moreover have "sem_cnt (sems (sem_init_obj p mx cnt s) p) = 0 \<and>
      sint (sem_max (sems (sem_init_obj p mx cnt s) p)) < 0" if "sint mx < 0" "sint cnt < 0" for p mx cnt
    using that by (simp add: sem_init_obj_def trt_wait_q_init_def upd_lnk_def)
  ultimately show ?thesis
    using o by (simp add: obj_ok_def queues_sorted_def sem_ok_def mutex_ok_def)
qed

lemma objects_consistent_witness:
  "mq_head (msgqs demo_s 0x700) \<le> mq_qlen (msgqs demo_s 0x700) \<and>
   sint (sem_cnt (sems demo_s 0x500)) \<le> sint (sem_max (sems demo_s 0x500)) \<and>
   waiters demo_s (MutexWq 0x600) = []"
  using objects_consistent [OF demo_s_reach [of 0]] by (simp add: demo_s_fields)

subsection \<open>Semaphores\<close>

lemma demo_s_sem: "sem_live demo_T demo_W 0x500 demo_s"
  by (rule osafe_sem_live [OF demo_s_safe [of 0]]) (simp_all add: demo_s_fields)

text \<open>A post with waiters wakes the first, a task of the highest priority waiting, with the
  result \<^verbatim>\<open>TASK_WAIT_OBJECT\<close> and leaves the counter alone; without waiters it counts up, and at
  the maximum it reports \<^verbatim>\<open>ERR_BUSY\<close> and changes nothing.\<close>

theorem sem_post_hands_over:
  assumes "oreach B T W s" and "SemWq p \<in> W" and "\<not> sem_destroyed (sems s p)"
  shows "case waiters s (SemWq p) of
      [] \<Rightarrow> if sem_cnt (sems s p) = sem_max (sems s p) then sem_post_obj p s = (ERR_BUSY, s)
        else sem_post_obj p s = (ERR_OK, upd_sem p (\<lambda>k. k\<lparr>sem_cnt := sem_cnt k + 1\<rparr>) s) \<and>
          sint (sem_cnt (sems s p) + 1) = sint (sem_cnt (sems s p)) + 1
    | t # ts \<Rightarrow> \<exists>s'. sem_post_obj p s = (ERR_OK, s') \<and> oreach B T W s' \<and>
        waiters s' (SemWq p) = ts \<and> sems s' = sems s \<and> (\<forall>u\<in>set ts. prio s u \<le> prio s t) \<and>
        tasks s' = (tasks s)(t := (tasks s t)\<lparr>waiting_on_timer := False, task_state := TASK_READY,
          wait_result := TASK_WAIT_OBJECT\<rparr>)"
proof -
  have i: "osafe B T W s" by (rule oreach_osafe [OF assms(1)])
  note l = osafe_sem_live [OF i assms(2,3)]
  show ?thesis
  proof (cases "waiters s (SemWq p)")
    case Nil
    note o = sem_liveD(4) [OF l]
    have le: "sem_units p s \<le> unat (sem_max (sems s p))" using o by (simp add: sem_ok_iff)
    have eq: "sem_cnt (sems s p) = sem_max (sems s p) \<longleftrightarrow> sem_units p s = unat (sem_max (sems s p))"
      by (simp add: sem_units_def word_unat_eq_iff)
    have "sint (sem_cnt (sems s p) + 1) = sint (sem_cnt (sems s p)) + 1"
      if lt: "sem_units p s < unat (sem_max (sems s p))"
    proof -
      have "sint (sem_cnt (sems s p)) = int (sem_units p s)"
        using o unfolding sem_ok_def sem_units_def by (intro sint_nonneg_unat) blast
      moreover have "0 \<le> sint (sem_cnt (sems s p) + 1)"
        using sem_liveD(4) [OF sem_post_counts(2) [OF l Nil lt]] by (simp add: sem_ok_def)
      moreover have "unat (sem_cnt (sems s p) + 1) = Suc (sem_units p s)"
        using sem_post_counts(3) [OF l Nil lt] by (simp add: sem_units_def)
      ultimately show ?thesis using sint_nonneg_unat [of "sem_cnt (sems s p) + 1"] by simp
    qed
    with le eq sem_post_counts(1,4) [OF l Nil] Nil show ?thesis
      by (auto simp: le_less)
  next
    case (Cons t ts)
    note f = sem_post_wakes [OF l Cons]
    have "waiters_sorted s (SemWq p)"
      using i assms(2) by (simp add: osafe_def ksafe_def queues_sorted_def)
    then have "\<forall>u\<in>set ts. prio s u \<le> prio s t" using Cons by (simp add: waiters_sorted_def)
    moreover have "oreach B T W (snd (sem_post_obj p s))"
      by (rule oreach.Step [OF assms(1) ostep.Sem_post [OF assms(2)]])
    ultimately show ?thesis using f Cons by (simp add: woken_def)
  qed
qed

lemma sem_post_hands_over_witness:
  "sem_post_obj 0x500 demo_s = (ERR_OK, upd_sem 0x500 (\<lambda>k. k\<lparr>sem_cnt := sem_cnt k + 1\<rparr>) demo_s)"
  using sem_post_hands_over [OF demo_s_reach [of 0], of "0x500"] demo_s_waiters [of "SemWq 0x500"]
  by (simp add: demo_s_fields)

text \<open>C34. Waiting on a semaphore.  With a unit the call takes it and returns at once.  Without one
  it reports \<^verbatim>\<open>ERR_LOCKED\<close> when the scheduler is locked and \<^verbatim>\<open>ERR_TIMEOUT\<close> when the time given is no
  whole tick; otherwise the caller enters the wait queue behind the waiters of its priority and
  yields, and when it runs again the result of the wait alone decides what the call returns.\<close>

theorem sem_wait_outcomes:
  assumes "oreach B T W s" and "SemWq p \<in> W" and "\<not> sem_destroyed (sems s p)" and "app_running s"
  shows "if sem_cnt (sems s p) \<noteq> 0
    then sem_wait_timeout_obj f p us s =
      Some (ERR_OK, upd_sem p (\<lambda>k. k\<lparr>sem_cnt := sem_cnt k - 1\<rparr>) s)
    else if sched_is_locked s
    then sem_wait_timeout_obj f p us s = Some (ERR_LOCKED, sched_set_pending s)
    else if us \<noteq> TRT_TIME_FOREVER_US \<and> timer_us_to_ticks us = 0
    then sem_wait_timeout_obj f p us s = Some (ERR_TIMEOUT, s)
    else \<exists>s'. blocked_on W (SemWq p) s s' \<and> sems s' = sems s \<and>
      sem_wait_timeout_obj f p us s = Option.bind (f s') (\<lambda>s2. Some
        (case wait_result (tasks s2 (current_task s2)) of
           TASK_WAIT_OBJECT \<Rightarrow> ERR_OK | TASK_WAIT_DESTROYED \<Rightarrow> ERR_DESTROYED
         | _ \<Rightarrow> if us = TRT_TIME_FOREVER_US then ERR_STATE else ERR_TIMEOUT, s2))"
proof -
  have i: "osafe B T W s" by (rule oreach_osafe [OF assms(1)])
  note l = osafe_sem_live [OF i assms(2,3)]
  have w: "(case wait_result (tasks s2 (current_task s2)) of
      TASK_WAIT_OBJECT \<Rightarrow> ERR_OK | TASK_WAIT_DESTROYED \<Rightarrow> ERR_DESTROYED | _ \<Rightarrow> e) = wait_outcome e s2"
    for e and s2 :: "'a sys_scheme"
    by (simp add: wait_outcome_def current_wait_result_def split: task_wait_result_t.split)
  consider "0 < sem_units p s" | "sem_units p s = 0" "sched_is_locked s"
    | "sem_units p s = 0" "\<not> sched_is_locked s" "us \<noteq> TRT_TIME_FOREVER_US \<and> timer_us_to_ticks us = 0"
    | "sem_units p s = 0" "\<not> sched_is_locked s" "us = TRT_TIME_FOREVER_US \<or> timer_us_to_ticks us \<noteq> 0"
    by linarith
  then show ?thesis
  proof cases
    case 1
    then show ?thesis using sem_take(5) [OF l 1, of f us] by (simp add: sem_cnt_zero_iff)
  next
    case 2
    then show ?thesis using sem_wait_refused(1) [OF l 2] by (simp add: sem_cnt_zero_iff)
  next
    case 3
    then show ?thesis using sem_wait_refused(2) [OF l 3(1,2)] by (simp add: sem_cnt_zero_iff)
  next
    case 4
    obtain s' where s': "blocked_on W (SemWq p) s s'"
      "sem_wait_timeout_obj f p us s = Option.bind (f s') (\<lambda>s2. Some (wait_outcome
        (if us = TRT_TIME_FOREVER_US then ERR_STATE else ERR_TIMEOUT) s2, s2))"
      using sem_wait_blocks [OF l 4(1) assms(4) 4(2,3)] by blast
    moreover have "sems s' = sems s" by (rule same_more(3) [OF blocked_onD(9) [OF s'(1)]])
    ultimately show ?thesis using 4 unfolding w by (auto simp: sem_cnt_zero_iff)
  qed
qed

lemma sem_wait_outcomes_witness:
  "\<exists>s'. blocked_on demo_W (SemWq 0x500) demo_s s' \<and>
     sem_wait_timeout_obj (\<lambda>s. Some (upd_task 0x300 (\<lambda>k. k\<lparr>wait_result := TASK_WAIT_OBJECT\<rparr>) s))
       0x500 TRT_TIME_FOREVER_US demo_s =
     Some (ERR_OK, upd_task 0x300 (\<lambda>k. k\<lparr>wait_result := TASK_WAIT_OBJECT\<rparr>) s')"
proof -
  let ?f = "\<lambda>s :: sys. Some (upd_task 0x300 (\<lambda>k. k\<lparr>wait_result := TASK_WAIT_OBJECT\<rparr>) s)"
  obtain s' where s': "blocked_on demo_W (SemWq 0x500) demo_s s'"
    "sem_wait_timeout_obj ?f 0x500 TRT_TIME_FOREVER_US demo_s = Option.bind (?f s') (\<lambda>s2. Some
        (case wait_result (tasks s2 (current_task s2)) of
           TASK_WAIT_OBJECT \<Rightarrow> ERR_OK | TASK_WAIT_DESTROYED \<Rightarrow> ERR_DESTROYED
         | _ \<Rightarrow> if TRT_TIME_FOREVER_US = TRT_TIME_FOREVER_US then ERR_STATE else ERR_TIMEOUT, s2))"
    using sem_wait_outcomes [OF demo_s_reach [of 0], of "0x500" ?f TRT_TIME_FOREVER_US] demo_s_running
    by (auto simp: demo_s_fields)
  have "current_task s' = 0x300" using blocked_onD(6) [OF s'(1)] by (simp add: demo_s_fields)
  with s' show ?thesis by (intro exI [of _ s']) simp
qed

text \<open>C35. Over any run of posts, waits that succeed and steps of the rest of the system, a semaphore
  neither loses nor makes units: what it had and what was posted is what it has and what reached a
  task, by a wait or handed over by a post; and no task waits beside a unit.\<close>

theorem sem_conserves_units:
  assumes "sem_live T W p s"
    and "token_run (\<lambda>s. waiters s (SemWq p)) (sem_may_post p) (sem_post_obj p) (\<lambda>_. True)
      (sem_trywait_obj p) (sem_quiet T W p) s es s'"
  shows "unat (sem_cnt (sems s p)) + releases es = unat (sem_cnt (sems s' p)) + grants es \<and>
    sem_cnt (sems s' p) \<le> sem_max (sems s' p) \<and>
    (waiters s' (SemWq p) = [] \<or> sem_cnt (sems s' p) = 0)"
proof -
  note r = sem.run_conserves [OF assms(2,1)]
  then have "sem_ok p s'" using sem_liveD(4) by blast
  with r show ?thesis by (auto simp: sem_ok_iff sem_units_def word_le_nat_alt unsigned_eq_0_iff)
qed

lemma sem_conserves_units_witness:
  "\<exists>s'. token_run (\<lambda>s. waiters s (SemWq 0x500)) (sem_may_post 0x500) (sem_post_obj 0x500) (\<lambda>_. True)
      (sem_trywait_obj 0x500) (sem_quiet demo_T demo_W 0x500) demo_s [Released, Acquired] s' \<and>
     unat (sem_cnt (sems s' 0x500)) = 0"
proof -
  let ?run = "token_run (\<lambda>s. waiters s (SemWq 0x500)) (sem_may_post 0x500) (sem_post_obj 0x500) (\<lambda>_. True)
      (sem_trywait_obj 0x500) (sem_quiet demo_T demo_W 0x500) demo_s"
  let ?s1 = "upd_sem 0x500 (\<lambda>k. k\<lparr>sem_cnt := sem_cnt k + 1\<rparr>) demo_s"
  have u: "sem_units 0x500 demo_s < unat (sem_max (sems demo_s 0x500))"
    by (simp add: sem_units_def demo_s_fields)
  note f = sem_post_counts(1-3) [OF demo_s_sem demo_s_waiters, OF _ u]
  have "?run ([] @ [Released]) ?s1"
    using f(1) u demo_s_waiters [of "SemWq 0x500"]
    by (intro token_run.Release [OF token_run.Start]) (simp_all add: sem_may_post_def)
  moreover have l1: "sem_live demo_T demo_W 0x500 ?s1" "0 < sem_units 0x500 ?s1" using f(2,3) by simp_all
  ultimately have run: "?run (([] @ [Released]) @ [Acquired])
      (upd_sem 0x500 (\<lambda>k. k\<lparr>sem_cnt := sem_cnt k - 1\<rparr>) ?s1)"
    using sem_take(3) [OF l1] by (intro token_run.Acquire) simp_all
  from sem_conserves_units [OF demo_s_sem run] run show ?thesis
    by (intro exI [of _ "upd_sem 0x500 (\<lambda>k. k\<lparr>sem_cnt := sem_cnt k - 1\<rparr>) ?s1"])
      (simp add: demo_s_fields)
qed

subsection \<open>Mutexes\<close>

lemma demo_s_mutex: "mutex_live demo_T demo_W 0x600 demo_s"
  by (rule osafe_mutex_live [OF demo_s_safe [of 0]]) (simp_all add: demo_s_fields)

text \<open>C36. Unlocking.  Only the owner may unlock, any other task gets \<^verbatim>\<open>ERR_PERM\<close> and changes
  nothing.  A nested unlock counts down.  The last one makes the first waiter, one of the highest
  priority, the owner with a count of one and wakes it, or frees the mutex when nobody waits.\<close>

theorem mutex_unlock_hand_over:
  assumes "oreach B T W s" and "MutexWq p \<in> W" and "\<not> mtx_destroyed (mutexes s p)"
    and "current_task s \<noteq> 0"
  shows "if mtx_owner (mutexes s p) \<noteq> current_task s then mutex_unlock_obj p s = (ERR_PERM, s)
    else if 1 < mtx_lock_count (mutexes s p)
    then mutex_unlock_obj p s =
      (ERR_OK, upd_mutex p (\<lambda>k. k\<lparr>mtx_lock_count := mtx_lock_count k - 1\<rparr>) s)
    else if mtx_lock_count (mutexes s p) = 0 then mutex_unlock_obj p s = (ERR_PERM, s)
    else case waiters s (MutexWq p) of
        [] \<Rightarrow> mutex_unlock_obj p s =
          (ERR_OK, upd_mutex p (\<lambda>k. k\<lparr>mtx_lock_count := 0, mtx_owner := 0\<rparr>) s)
      | t # ts \<Rightarrow> \<exists>s'. mutex_unlock_obj p s = (ERR_OK, s') \<and> oreach B T W s' \<and>
          mutexes s' = (mutexes s)(p := (mutexes s p)\<lparr>mtx_owner := t, mtx_lock_count := 1\<rparr>) \<and>
          waiters s' (MutexWq p) = ts \<and> (\<forall>u\<in>set ts. prio s u \<le> prio s t) \<and>
          tasks s' = (tasks s)(t := (tasks s t)\<lparr>waiting_on_timer := False, task_state := TASK_READY,
            wait_result := TASK_WAIT_OBJECT\<rparr>)"
proof -
  have i: "osafe B T W s" by (rule oreach_osafe [OF assms(1)])
  note l = osafe_mutex_live [OF i assms(2,3)] and c = assms(4)
  have one: "1 < mtx_lock_count (mutexes s p) \<longleftrightarrow> 1 < unat (mtx_lock_count (mutexes s p))"
    by (simp add: word_less_nat_alt)
  consider "mtx_owner (mutexes s p) \<noteq> current_task s"
    | "mtx_owner (mutexes s p) = current_task s" "1 < unat (mtx_lock_count (mutexes s p))"
    | "mtx_owner (mutexes s p) = current_task s" "mtx_lock_count (mutexes s p) = 0"
    | "mtx_owner (mutexes s p) = current_task s" "mtx_lock_count (mutexes s p) = 1"
    by (metis less_one linorder_neqE_nat unsigned_1 unsigned_eq_0_iff word_unat_eq_iff)
  then show ?thesis
  proof cases
    case 1
    then show ?thesis using mutex_unlock_foreign [OF l c 1] by simp
  next
    case 2
    then show ?thesis using mutex_unlock_nested(1) [OF l c 2] one by simp
  next
    case 3
    then show ?thesis using mutex_liveD [OF l] c by (simp add: mutex_unlock_obj_def)
  next
    case 4
    show ?thesis
    proof (cases "waiters s (MutexWq p)")
      case Nil
      then show ?thesis using mutex_unlock_frees(1) [OF l c 4 Nil] 4 by simp
    next
      case (Cons t ts)
      obtain s' where s': "mutex_unlock_obj p s = (ERR_OK, s')"
        "mutexes s' = (mutexes s)(p := (mutexes s p)\<lparr>mtx_owner := t, mtx_lock_count := 1\<rparr>)"
        "waiters s' (MutexWq p) = ts" "tasks s' = (tasks s)(t := woken TASK_WAIT_OBJECT (tasks s t))"
        using mutex_unlock_hands_over [OF l c 4 Cons] by blast
      have "waiters_sorted s (MutexWq p)"
        using i assms(2) by (simp add: osafe_def ksafe_def queues_sorted_def)
      then have "\<forall>u\<in>set ts. prio s u \<le> prio s t" using Cons by (simp add: waiters_sorted_def)
      moreover have "oreach B T W s'"
        using oreach.Step [OF assms(1) ostep.Mutex_unlock [OF assms(2)]] by (simp add: s'(1))
      ultimately show ?thesis using s' Cons 4 by (auto simp: woken_def)
    qed
  qed
qed

lemma mutex_unlock_hand_over_witness:
  "mutex_unlock_obj 0x600 demo_s = (ERR_PERM, demo_s)"
  using mutex_unlock_hand_over [OF demo_s_reach [of 0], of "0x600"] by (simp add: demo_s_fields)

definition mutex_locks :: "ptr \<Rightarrow> nat \<Rightarrow> 'z sys_scheme \<Rightarrow> 'z sys_scheme" where
  "mutex_locks p n = (\<lambda>s. snd (mutex_trylock_obj p s)) ^^ n"

definition mutex_unlocks :: "ptr \<Rightarrow> nat \<Rightarrow> 'z sys_scheme \<Rightarrow> 'z sys_scheme" where
  "mutex_unlocks p n = (\<lambda>s. snd (mutex_unlock_obj p s)) ^^ n"

lemma upd_mutex_same: "upd_mutex p (\<lambda>k. mutexes s p) s = s"
  by (simp add: upd_mutex_def)

definition mutex_held :: "ptr \<Rightarrow> nat \<Rightarrow> 'z sys_scheme \<Rightarrow> 'z sys_scheme" where
  "mutex_held p n s =
     upd_mutex p (\<lambda>k. k\<lparr>mtx_owner := current_task s, mtx_lock_count := of_nat n\<rparr>) s"

lemma mutex_locks_held:
  assumes l: "mutex_live T W p s" and o: "mtx_owner (mutexes s p) = 0" and c: "current_task s \<noteq> 0"
  shows "mutex_locks p (Suc n) s = mutex_held p (Suc n) s"
proof (induction n)
  case 0
  have "mutex_take p s = mutex_held p 1 s" by (simp add: mutex_take_def mutex_held_def)
  then show ?case using mutex_lock_free(2) [OF l o c] by (simp add: mutex_locks_def)
next
  case (Suc n)
  have "mutex_locks p (Suc (Suc n)) s = snd (mutex_trylock_obj p (mutex_held p (Suc n) s))"
    using Suc by (simp add: mutex_locks_def)
  also have "\<dots> = mutex_held p (Suc (Suc n)) s"
    using mutex_liveD [OF l] c
    by (simp add: mutex_trylock_obj_def mutex_held_def mutex_again_def) (simp add: upd_mutex_def add.commute)
  finally show ?case .
qed

lemma mutex_unlocks_held:
  assumes l: "mutex_live T W p s" and o: "mtx_owner (mutexes s p) = 0" and c: "current_task s \<noteq> 0"
    and n: "n < 2 ^ 32" and k: "k < n"
  shows "mutex_unlocks p k (mutex_held p n s) = mutex_held p (n - k) s"
  using k
proof (induction k)
  case (Suc k)
  note d = mutex_liveD [OF l]
  let ?s = "mutex_held p (n - k) s"
  have m: "1 < n - k" "n - k < 2 ^ 32" using Suc.prems n by simp_all
  have u: "unat (of_nat (n - k) :: u32) = n - k" using m(2) by (simp add: unat_of_nat take_bit_nat_eq_self)
  have "mutex_live T W p ?s"
    using d o c by (simp add: mutex_live_def mutex_ok_def mutex_held_def)
  moreover have "mtx_owner (mutexes ?s p) = current_task ?s" "current_task ?s \<noteq> 0"
    "1 < unat (mtx_lock_count (mutexes ?s p))"
    using c m(1) u by (simp_all add: mutex_held_def)
  ultimately have "mutex_unlock_obj p ?s =
      (ERR_OK, upd_mutex p (\<lambda>k. k\<lparr>mtx_lock_count := mtx_lock_count k - 1\<rparr>) ?s)"
    using mutex_unlock_nested(1) [of T W p ?s] by blast
  moreover have "(of_nat (n - k) - 1 :: u32) = of_nat (n - Suc k)"
  proof -
    have "n - k = Suc (n - Suc k)" using m(1) by simp
    then show ?thesis by (simp only: of_nat_Suc) simp
  qed
  ultimately have "snd (mutex_unlock_obj p ?s) = mutex_held p (n - Suc k) s"
    by (simp add: mutex_held_def upd_mutex_def)
  then show ?case using Suc by (simp add: mutex_unlocks_def)
qed (simp add: mutex_unlocks_def)

text \<open>A mutex is recursive: after \<open>n\<close> locks by one task, with \<open>n\<close> below \<open>2 ^ 32\<close>, it is owned
  with a count of \<open>n\<close>; fewer unlocks leave it owned, and \<open>n\<close> unlocks restore the state exactly.\<close>

theorem mutex_recursive_roundtrip:
  assumes "mutex_live T W p s" and "mtx_owner (mutexes s p) = 0" and "current_task s \<noteq> 0"
    and "0 < n" and "n < 2 ^ 32"
  shows "mtx_owner (mutexes (mutex_locks p n s) p) = current_task s \<and>
    unat (mtx_lock_count (mutexes (mutex_locks p n s) p)) = n \<and>
    (\<forall>k<n. mtx_owner (mutexes (mutex_unlocks p k (mutex_locks p n s)) p) = current_task s) \<and>
    mutex_unlocks p n (mutex_locks p n s) = s"
proof -
  note d = mutex_liveD [OF assms(1)] and h = mutex_unlocks_held [OF assms(1-3,5)]
  obtain m where n: "n = Suc m" using assms(4) by (cases n) auto
  have lk: "mutex_locks p n s = mutex_held p n s"
    unfolding n by (rule mutex_locks_held [OF assms(1-3)])
  have u: "unat (of_nat n :: u32) = n" using assms(5) by (simp add: unat_of_nat take_bit_nat_eq_self)
  let ?s = "mutex_held p 1 s"
  have w: "waiters s (MutexWq p) = []" "mtx_lock_count (mutexes s p) = 0"
    using d(4) assms(2) by (simp_all add: mutex_ok_def)
  have live: "mutex_live T W p ?s"
    using d assms(2,3) w by (simp add: mutex_live_def mutex_ok_def mutex_held_def)
  have "mutex_unlock_obj p ?s = (ERR_OK, upd_mutex p (\<lambda>k. k\<lparr>mtx_lock_count := 0, mtx_owner := 0\<rparr>) ?s)"
    using mutex_unlock_frees(1) [OF live] assms(3) w by (simp add: mutex_held_def)
  moreover have "upd_mutex p (\<lambda>k. k\<lparr>mtx_lock_count := 0, mtx_owner := 0\<rparr>) ?s =
      upd_mutex p (\<lambda>k. mutexes s p) s"
  proof -
    have "(mutexes s p)\<lparr>mtx_lock_count := 0, mtx_owner := 0\<rparr> = mutexes s p"
      using assms(2) w(2) by (cases "mutexes s p") simp
    then show ?thesis by (simp add: mutex_held_def upd_mutex_def del: fun_upd_triv)
  qed
  ultimately have last: "snd (mutex_unlock_obj p ?s) = s" by (simp add: upd_mutex_same)
  have "mutex_unlocks p n (mutex_held p n s) = snd (mutex_unlock_obj p (mutex_unlocks p m (mutex_held p n s)))"
    by (simp add: mutex_unlocks_def n)
  also have "\<dots> = s" using h [of m] last by (simp add: n)
  finally have "mutex_unlocks p n (mutex_held p n s) = s" .
  then show ?thesis
    using h u unfolding lk by (auto simp: mutex_held_def)
qed

lemma mutex_recursive_roundtrip_witness:
  "mutex_unlocks 0x600 1000 (mutex_locks 0x600 1000 demo_s) = demo_s"
  using mutex_recursive_roundtrip [OF demo_s_mutex, of 1000] by (simp add: demo_s_fields)

text \<open>C37. Mutual exclusion over any run of outermost locks and unlocks by any tasks, hand-overs
  included: the mutex is granted at most once more than it was released, so two tasks never hold
  it together, and while it is free nobody waits for it.\<close>

theorem mutex_excludes:
  assumes "mutex_live T W p s" and "mtx_owner (mutexes s p) = 0"
    and "token_run (\<lambda>s. waiters s (MutexWq p)) (mutex_may_unlock p) (mutex_unlock_obj p)
      (mutex_may_lock p) (mutex_trylock_obj p) (mutex_quiet T W p) s es s'"
  shows "grants es = releases es + (if mtx_owner (mutexes s' p) = 0 then 0 else 1) \<and>
    (waiters s' (MutexWq p) = [] \<or> mtx_owner (mutexes s' p) \<noteq> 0)"
  using mutex.run_conserves [OF assms(3,1)] assms(2) by (auto simp: mutex_units_def split: if_splits)

lemma mutex_excludes_witness:
  "\<exists>s'. token_run (\<lambda>s. waiters s (MutexWq 0x600)) (mutex_may_unlock 0x600) (mutex_unlock_obj 0x600)
      (mutex_may_lock 0x600) (mutex_trylock_obj 0x600) (mutex_quiet demo_T demo_W 0x600)
      demo_s [Acquired] s' \<and> mtx_owner (mutexes s' 0x600) \<noteq> 0"
proof -
  let ?run = "token_run (\<lambda>s. waiters s (MutexWq 0x600)) (mutex_may_unlock 0x600) (mutex_unlock_obj 0x600)
      (mutex_may_lock 0x600) (mutex_trylock_obj 0x600) (mutex_quiet demo_T demo_W 0x600) demo_s"
  have o: "mtx_owner (mutexes demo_s 0x600) = 0" "current_task demo_s \<noteq> 0" by (simp_all add: demo_s_fields)
  have "?run ([] @ [Acquired]) (mutex_take 0x600 demo_s)"
    using mutex_lock_free(2) [OF demo_s_mutex o] o
    by (intro token_run.Acquire [OF token_run.Start]) (simp_all add: mutex_may_lock_def)
  then have run: "?run [Acquired] (mutex_take 0x600 demo_s)" by simp
  from mutex_excludes [OF demo_s_mutex o(1) run] run show ?thesis by (auto split: if_splits)
qed

subsection \<open>Message queues\<close>

lemma demo_s_mq: "mq_live demo_T demo_W 0x700 demo_s"
  using osafe_mq [OF demo_s_safe [of 0], of "0x700"]
  by (simp add: mq_live_def demo_s_fields) (simp add: demo_mq_def)

lemma demo_s_empty: "messages 0x700 demo_s = []"
  by (simp add: demo_s_fields mq_contents_def demo_mq_def ring_contents_def ring_len_def)

lemma demo_apart: "region (0x9000 :: ptr) 3 \<inter> region 0x8000 12 = {}"
proof -
  have "{..<3 :: nat} = {0, 1, 2}" "{..<12 :: nat} = {0, 1, 2, 3, 4, 5, 6, 7, 8, 9, 10, 11}"
    by (auto simp: less_Suc_eq numeral_eq_Suc)
  then show ?thesis by (simp add: region_def)
qed

lemma demo_s_sendable: "sendable 0x700 0x9000 3 demo_s"
  using demo_apart
  by (auto simp: sendable_def mq_apart_def mq_region_def demo_s_fields demo_mq_def mq_slots_def)

text \<open>C38. The ring buffer implements a list of messages of bounded length: the count, full and
  empty tests are those of the list; with room a send appends the message, padded with zeros, and a
  front send puts it first; with a message a receive removes the first and a peek leaves it, both
  copying it to the caller.  The head and tail indices wrap, the list does not show it.\<close>

theorem msgq_refines_list:
  assumes "mq_live T W p s"
  shows "unat (msg_q_count_obj p s) = length (messages p s) \<and>
    (msg_q_is_full_obj p s \<longleftrightarrow> length (messages p s) = mq_room p s) \<and>
    (msg_q_is_empty_obj p s \<longleftrightarrow> messages p s = []) \<and>
    (sendable p data n s \<and> length (messages p s) < mq_room p s \<longrightarrow>
      (\<exists>s'. msg_q_send_obj f p data n us s = Some (ERR_OK, s') \<and> mq_live T W p s' \<and>
        messages p s' = messages p s @ [mq_message (mq_mem s) data n (mq_cap (msgqs s p))]) \<and>
      (\<exists>s'. msg_q_send_front_obj f p data n us s = Some (ERR_OK, s') \<and> mq_live T W p s' \<and>
        messages p s' = mq_message (mq_mem s) data n (mq_cap (msgqs s p)) # messages p s)) \<and>
    (buf \<noteq> 0 \<and> mq_apart (msgqs s p) buf (mq_cap (msgqs s p)) \<and> messages p s = m # ms \<longrightarrow>
      (\<exists>s'. msg_q_recv_obj f p buf us s = Some (ERR_OK, s') \<and> mq_live T W p s' \<and>
        messages p s' = ms \<and> bytes_at (mq_mem s') buf (unat (mq_cap (msgqs s p))) = m) \<and>
      (\<exists>s'. msg_q_peek_obj f p buf us s = Some (ERR_OK, s') \<and> mq_live T W p s' \<and>
        messages p s' = m # ms \<and> bytes_at (mq_mem s') buf (unat (mq_cap (msgqs s p))) = m))"
proof -
  note L = mq_liveD [OF assms]
  have send: "(\<exists>s'. msg_q_send_obj f p data n us s = Some (ERR_OK, s') \<and> mq_live T W p s' \<and>
        messages p s' = messages p s @ [mq_message (mq_mem s) data n (mq_cap (msgqs s p))]) \<and>
      (\<exists>s'. msg_q_send_front_obj f p data n us s = Some (ERR_OK, s') \<and> mq_live T W p s' \<and>
        messages p s' = mq_message (mq_mem s) data n (mq_cap (msgqs s p)) # messages p s)"
    if d: "sendable p data n s" and r: "length (messages p s) < mq_room p s"
  proof -
    have nd: "n \<le> mq_cap (msgqs s p)" "mq_apart (msgqs s p) data n" using d by (simp_all add: sendable_def)
    note b = put_back [OF L(5) r nd] and g = put_front [OF L(5) r nd]
    show ?thesis
      using send_with_room [OF assms r d, of f us] b(1) g(1)
        put_then_wake(1,2) [OF assms b(3,2) L(2)] put_then_wake(1,2) [OF assms g(3,2) L(2)] by simp
  qed
  have recv: "(\<exists>s'. msg_q_recv_obj f p buf us s = Some (ERR_OK, s') \<and> mq_live T W p s' \<and>
        messages p s' = ms \<and> bytes_at (mq_mem s') buf (unat (mq_cap (msgqs s p))) = m) \<and>
      (\<exists>s'. msg_q_peek_obj f p buf us s = Some (ERR_OK, s') \<and> mq_live T W p s' \<and>
        messages p s' = m # ms \<and> bytes_at (mq_mem s') buf (unat (mq_cap (msgqs s p))) = m)"
    if b: "buf \<noteq> 0" "mq_apart (msgqs s p) buf (mq_cap (msgqs s p))" and x: "messages p s = m # ms"
  proof -
    have ne: "messages p s \<noteq> []" using x by simp
    note t = take_first [OF L(5) ne b(2)] and r = read_first [OF L(5) ne b(2)]
    have ro: "ring_ok (msgqs (msg_q_read p buf s) p)" using L(5) by (simp add: r(2))
    show ?thesis
      using recv_with_message [OF assms ne b(1), of f us] t(1) r(1,3) x
        put_then_wake(1-3) [OF assms t(3,2) L(3)] put_then_wake(1-3) [OF assms r(4) ro L(2)] by auto
  qed
  show ?thesis
    using count_length [OF L(5,4)] full_iff [OF L(5,4)] empty_iff [OF L(5,4)] send recv by blast
qed

lemma msgq_refines_list_witness:
  "\<exists>s'. msg_q_send_obj Some 0x700 0x9000 3 0 demo_s = Some (ERR_OK, s') \<and> length (messages 0x700 s') = 1"
proof -
  have "length (messages 0x700 demo_s) < mq_room 0x700 demo_s"
    by (simp add: demo_s_empty) (simp add: demo_s_fields demo_mq_def)
  with msgq_refines_list [OF demo_s_mq, where data = "0x9000" and n = 3 and f = Some and us = 0]
    demo_s_sendable
  obtain s' where "msg_q_send_obj Some 0x700 0x9000 3 0 demo_s = Some (ERR_OK, s')"
    "messages 0x700 s' = messages 0x700 demo_s @
      [mq_message (mq_mem demo_s) 0x9000 3 (mq_cap (msgqs demo_s 0x700))]"
    by blast
  then show ?thesis by (simp add: demo_s_empty)
qed

text \<open>C39. First in, first out.  Over any run of sends and receives that find room or a message, with
  anything else happening in between that keeps off the queue, what was in the queue and what was
  sent is, in order, what was received and what is in the queue, and never more messages are on
  the way than the queue was created for.\<close>

theorem msgq_fifo:
  assumes "mq_live T W p s"
    and "queue_run (mq_sends p) (mq_recvs p) (mq_quiet T W p) s sent recd s'"
  shows "messages p s @ sent = recd @ messages p s' \<and>
    length (messages p s) + length sent \<le> length recd + unat (mq_qlen (msgqs s p))"
  using mq.run_fifo [OF assms(2,1)] mq.run_bounded [OF assms(2,1)] by blast

lemma msgq_fifo_witness:
  "\<exists>m s'. queue_run (mq_sends 0x700) (mq_recvs 0x700) (mq_quiet demo_T demo_W 0x700) demo_s [m] [] s' \<and>
     messages 0x700 s' = [m]"
proof -
  obtain m s1 where s1: "mq_sends 0x700 demo_s m s1"
  proof
    show "mq_sends 0x700 demo_s (mq_message (mq_mem demo_s) 0x9000 3 (mq_cap (msgqs demo_s 0x700)))
      (snd (trt_wait_q_wake_one_locked (ReadersWq 0x700) (msg_q_put_back 0x700 0x9000 3 demo_s)))"
      unfolding mq_sends_def
      using send_with_room(1) [OF demo_s_mq _ demo_s_sendable, of Some 0] demo_s_sendable
        full_iff [OF mq_liveD(5,4) [OF demo_s_mq]]
      by (intro exI [of _ "0x9000"] exI [of _ 3] exI [of _ 0]) (simp add: demo_s_empty, simp add: demo_s_fields demo_mq_def)
  qed
  have "queue_run (mq_sends 0x700) (mq_recvs 0x700) (mq_quiet demo_T demo_W 0x700) demo_s ([] @ [m]) [] s1"
    by (rule queue_run.Push, rule queue_run.Start, rule s1)
  then have run: "queue_run (mq_sends 0x700) (mq_recvs 0x700) (mq_quiet demo_T demo_W 0x700) demo_s [m] [] s1"
    by simp
  have "messages 0x700 s1 = [m]" using msgq_fifo [OF demo_s_mq run] by (simp add: demo_s_empty)
  with run show ?thesis by blast
qed

text \<open>Sending to a full queue: without waiting it reports \<^verbatim>\<open>ERR_BUSY\<close>, under a locked scheduler
  \<^verbatim>\<open>ERR_LOCKED\<close>; otherwise the sender enters the queue of the writers and yields.  Woken because of
  room it starts the whole send over, with the full timeout again; woken for any other reason it
  returns the error of that reason.  A sender with no data, no length or too much is refused.\<close>

theorem msgq_full_outcomes:
  assumes "mq_live T W p s" and "length (messages p s) = mq_room p s" and "app_running s"
  shows "if data = 0 \<or> n = 0 \<or> mq_cap (msgqs s p) < n
    then msg_q_send_obj f p data n us s = Some (ERR_INVAL, s)
    else if us = 0 then msg_q_send_obj f p data n us s = Some (ERR_BUSY, s)
    else if sched_is_locked s then msg_q_send_obj f p data n us s = Some (ERR_LOCKED, sched_set_pending s)
    else if us \<noteq> TRT_TIME_FOREVER_US \<and> timer_us_to_ticks us = 0
    then msg_q_send_obj f p data n us s = Some (ERR_TIMEOUT, s)
    else \<exists>s'. blocked_on W (WritersWq p) s s' \<and> messages p s' = messages p s \<and>
      msg_q_send_obj f p data n us s = Option.bind (f s') (\<lambda>s2.
        case wait_result (tasks s2 (current_task s2)) of
          TASK_WAIT_OBJECT \<Rightarrow> msg_q_send_loop f p data n us s2
        | TASK_WAIT_TIMEOUT \<Rightarrow> Some (ERR_TIMEOUT, s2)
        | TASK_WAIT_DESTROYED \<Rightarrow> Some (ERR_DESTROYED, s2)
        | TASK_WAIT_NONE \<Rightarrow> Some (ERR_STATE, s2))"
proof -
  note L = mq_liveD [OF assms(1)]
  have full: "msg_q_is_full_obj p s" using full_iff [OF L(5,4)] assms(2) by simp
  have w: "(if current_wait_result s2 = TASK_WAIT_OBJECT then msg_q_send_loop f p data n us s2
      else Some (msg_q_wait_result s2, s2)) = (case wait_result (tasks s2 (current_task s2)) of
          TASK_WAIT_OBJECT \<Rightarrow> msg_q_send_loop f p data n us s2
        | TASK_WAIT_TIMEOUT \<Rightarrow> Some (ERR_TIMEOUT, s2)
        | TASK_WAIT_DESTROYED \<Rightarrow> Some (ERR_DESTROYED, s2)
        | TASK_WAIT_NONE \<Rightarrow> Some (ERR_STATE, s2))" for s2
    by (simp add: current_wait_result_def msg_q_wait_result_def split: task_wait_result_t.split)
  consider "data = 0 \<or> n = 0 \<or> mq_cap (msgqs s p) < n"
    | "data \<noteq> 0" "n \<noteq> 0" "n \<le> mq_cap (msgqs s p)" "us \<noteq> 0" "\<not> sched_is_locked s"
      "us \<noteq> TRT_TIME_FOREVER_US" "timer_us_to_ticks us = 0"
    | "data \<noteq> 0" "n \<noteq> 0" "n \<le> mq_cap (msgqs s p)" "us = 0 \<or> sched_is_locked s \<or>
      us = TRT_TIME_FOREVER_US \<or> timer_us_to_ticks us \<noteq> 0"
    by (metis not_less)
  then show ?thesis
  proof cases
    case 1
    then show ?thesis by (auto simp: msg_q_send_obj_def)
  next
    case 2
    have "msg_q_block f (WritersWq p) us s = Some (ERR_TIMEOUT, s)"
      using 2 block_zero_timeout [OF 2(6,7), of "WritersWq p" s] by (simp add: msg_q_block_def)
    then have "msg_q_send_obj f p data n us s = Some (ERR_TIMEOUT, s)"
      using 2 L full unfolding msg_q_send_obj_def by (subst msg_q_send_loop.simps) (simp flip: not_le)
    then show ?thesis using 2 by auto
  next
    case 3
    note b = send_blocks(1) [OF assms(1,2) 3(1-3) assms(3), where f = f]
      send_blocks(2,3) [OF assms(1,2) 3(1-3) assms(3), where f = f and us = us]
    consider "us = 0" | "us \<noteq> 0" "sched_is_locked s"
      | "us \<noteq> 0" "\<not> sched_is_locked s" "us = TRT_TIME_FOREVER_US \<or> timer_us_to_ticks us \<noteq> 0"
      using 3(4) by blast
    then show ?thesis
    proof cases
      case 3
      obtain s' where "blocked_on W (WritersWq p) s s'" "messages p s' = messages p s"
        "msg_q_send_obj f p data n us s = Option.bind (f s') (\<lambda>s2.
          if current_wait_result s2 = TASK_WAIT_OBJECT then msg_q_send_loop f p data n us s2
          else Some (msg_q_wait_result s2, s2))"
        using b(3) [OF 3(2,3)] by blast
      then show ?thesis using \<open>data \<noteq> 0\<close> \<open>n \<noteq> 0\<close> \<open>n \<le> mq_cap (msgqs s p)\<close> 3 unfolding w
        by (auto simp flip: not_le)
    qed (use b(1,2) \<open>data \<noteq> 0\<close> \<open>n \<noteq> 0\<close> \<open>n \<le> mq_cap (msgqs s p)\<close> in \<open>simp_all flip: not_le\<close>)
  qed
qed

lemma msgq_full_outcomes_witness:
  "msg_q_send_obj Some 0x700 0x9000 3 0 (upd_msgq 0x700 (\<lambda>_. demo_mq\<lparr>mq_head := 2\<rparr>) demo_s) =
    Some (ERR_BUSY, upd_msgq 0x700 (\<lambda>_. demo_mq\<lparr>mq_head := 2\<rparr>) demo_s)"
proof -
  let ?s = "upd_msgq 0x700 (\<lambda>_. demo_mq\<lparr>mq_head := 2\<rparr>) demo_s"
  have l: "mq_live demo_T demo_W 0x700 ?s"
    using mq_liveD [OF demo_s_mq] by (simp add: mq_live_def ring_ok_def demo_mq_def mq_slots_def)
  have f: "length (messages 0x700 ?s) = mq_room 0x700 ?s"
    by (simp add: mq_contents_def ring_contents_def ring_len_def demo_mq_def mq_slots_def)
  have "app_running ?s" using demo_s_running(1) by (simp add: app_running_def)
  from msgq_full_outcomes [OF l f this, where f = Some and data = "0x9000" and n = 3 and us = 0]
  show ?thesis by (simp add: demo_mq_def)
qed

end
