(* ===== verification/ObjLife.thy ===== *)
theory ObjLife
  imports ObjProps
begin

text \<open>
  The life of an object: its memory comes from the heap, its handle from the handle table, its
  queue joins the kernel.  The contracts of the two providers, \<open>allocator\<close> and
  \<open>capability_table\<close>, give the round trip of creation and destruction.
\<close>

subsection \<open>Memory and handles of the system\<close>

definition res_ok :: "'z sys_scheme \<Rightarrow> bool" where
  "res_ok s \<longleftrightarrow> heap_ok (sys_heap s) \<and> handle_ok (sys_handles s)"

abbreviation live_blocks :: "'z sys_scheme \<Rightarrow> ptr \<Rightarrow> nat option" where
  "live_blocks s \<equiv> live_allocs (sys_heap s)"

abbreviation open_handles :: "'z sys_scheme \<Rightarrow> trt_handle_t \<Rightarrow> (ptr \<times> trt_obj_type_t \<times> u32) option" where
  "open_handles s \<equiv> live_handles (sys_handles s)"

lemma sys_malloc_cases:
  assumes "res_ok s"
  shows "\<exists>p h. sys_malloc n s = Some (p, s\<lparr>sys_heap := h\<rparr>) \<and> heap_ok h \<and>
    (p = 0 \<longrightarrow> live_allocs h = live_blocks s) \<and>
    (p \<noteq> 0 \<longrightarrow> live_blocks s p = None \<and> (\<exists>m. live_allocs h = (live_blocks s)(p \<mapsto> m) \<and>
      (unat n \<le> 2 ^ 32 - 8 \<longrightarrow> unat n \<le> m)))"
proof -
  have ok: "heap_ok (sys_heap s)" using assms by (simp add: res_ok_def)
  obtain p h where m: "malloc n (sys_heap s) = Some (p, h)" "heap_ok h"
    using heap.alloc_returns [OF ok, of n] by blast
  have "p = 0 \<Longrightarrow> live_allocs h = live_blocks s" using heap.alloc_null [OF ok, of n h] m(1) by simp
  moreover have "p \<noteq> 0 \<Longrightarrow> live_blocks s p = None \<and> (\<exists>m. live_allocs h = (live_blocks s)(p \<mapsto> m) \<and>
      (unat n \<le> 2 ^ 32 - 8 \<longrightarrow> unat n \<le> m))"
    by (rule heap.alloc_block [OF ok m(1)])
  ultimately show ?thesis using m by (intro exI [of _ p] exI [of _ h]) (simp add: sys_malloc_def)
qed

lemma sys_handle_alloc_cases:
  assumes "res_ok s"
  obtains (Full) e t where "sys_handle_alloc p ty r s = (Inl e, s\<lparr>sys_handles := t\<rparr>)"
      "live_handles t = open_handles s" "handle_ok t"
    | (New) h t where "sys_handle_alloc p ty r s = (Inr h, s\<lparr>sys_handles := t\<rparr>)"
      "open_handles s h = None" "live_handles t = (open_handles s)(h \<mapsto> (p, ty, r))" "handle_ok t"
proof -
  have ok: "handle_ok (sys_handles s)" using assms by (simp add: res_ok_def)
  obtain x t where a: "trt_handle_alloc p ty r True (sys_handles s) = (x, t)" by fastforce
  then have e: "sys_handle_alloc p ty r s = (x, s\<lparr>sys_handles := t\<rparr>)" by (simp add: sys_handle_alloc_def)
  show ?thesis
  proof (cases x)
    case (Inl err)
    with handles.alloc_Inl [OF ok, of p ty r err t] a e show ?thesis by (intro Full [of err t]) simp_all
  next
    case (Inr h)
    with handles.alloc_Inr [OF ok, of p ty r h t] a e show ?thesis by (intro New [of h t]) simp_all
  qed
qed

lemma kinv_resources [simp]:
  "kinv T W (s\<lparr>sys_heap := h\<rparr>) \<longleftrightarrow> kinv T W s" "kinv T W (s\<lparr>sys_handles := t\<rparr>) \<longleftrightarrow> kinv T W s"
  by (auto elim!: kinv_frame)

lemma waiters_resources [simp]:
  "waiters (s\<lparr>sys_heap := h\<rparr>) w = waiters s w" "waiters (s\<lparr>sys_handles := t\<rparr>) w = waiters s w"
  by (simp_all add: waiters_def)

lemma free_closed:
  assumes ok: "res_ok s" and b: "live_blocks s p = Some m" and h: "open_handles s h = Some x"
  defines "s' \<equiv> sys_free p (sys_handle_close h s)"
  shows "res_ok s'" and "live_blocks s' = (live_blocks s)(p := None)"
    and "open_handles s' = (open_handles s)(h := None)"
proof -
  have o: "heap_ok (sys_heap s)" "handle_ok (sys_handles s)" using ok by (simp_all add: res_ok_def)
  note f = heap.dealloc_live [OF o(1) b]
  obtain e t where c: "trt_handle_close h (sys_handles s) = (e, t)" by fastforce
  note g = handles.close_live [OF o(2) h c]
  have s': "sys_heap s' = free p (sys_heap s)" "sys_handles s' = t"
    by (simp_all add: s'_def sys_free_def sys_handle_close_def c)
  show "res_ok s'" "live_blocks s' = (live_blocks s)(p := None)"
    "open_handles s' = (open_handles s)(h := None)"
    using f g by (simp_all add: res_ok_def s')
qed

lemma sys_free_null:
  assumes "res_ok s" and "live_blocks s p = Some m"
  shows "res_ok (sys_free p s)" "live_blocks (sys_free p s) = (live_blocks s)(p := None)"
    "sys_handles (sys_free p s) = sys_handles s"
  using heap.dealloc_live [OF _ assms(2)] assms(1) by (simp_all add: res_ok_def sys_free_def)

lemma sys_lookup_open:
  assumes "open_handles s h = Some (p, ty, r)" and "r AND rights = rights"
  shows "sys_handle_lookup h ty rights s = (Inr p, s\<lparr>sys_handles := handle_table_init_locked (sys_handles s)\<rparr>)"
  using assms by (simp add: sys_handle_lookup_def lookup_spec)

subsection \<open>Creating a semaphore\<close>

abbreviation sem_rights :: u32 where
  "sem_rights \<equiv> TRT_RIGHT_WAIT OR TRT_RIGHT_POST OR TRT_RIGHT_DESTROY"

text \<open>The objects of the kernel live in allocated blocks.\<close>

definition sems_allocated :: "wq_t set \<Rightarrow> 'z sys_scheme \<Rightarrow> bool" where
  "sems_allocated W s \<longleftrightarrow> (\<forall>p. SemWq p \<in> W \<longrightarrow> live_blocks s p \<noteq> None)"

lemma sem_init_objects:
  "sys_heap (sem_init_obj p mx cnt s) = sys_heap s" "sys_handles (sem_init_obj p mx cnt s) = sys_handles s"
  "trap_nesting (sem_init_obj p mx cnt s) = trap_nesting s" "tasks (sem_init_obj p mx cnt s) = tasks s"
  by (simp_all add: sem_init_obj_def trt_wait_q_init_def upd_lnk_def upd_sem_def)

lemma sem_create_cases:
  assumes k: "kinv T W s" and r: "res_ok s" and f: "sems_allocated W s"
  shows "\<exists>h s'. trt_sem_create mx cnt s = Some (h, s') \<and> res_ok s' \<and> tasks s' = tasks s \<and>
    trap_nesting s' = trap_nesting s \<and>
    (h = TRT_HANDLE_INVALID \<and> kinv T W s' \<and> live_blocks s' = live_blocks s \<and>
       open_handles s' = open_handles s \<or>
     (\<exists>p m. p \<noteq> 0 \<and> live_blocks s p = None \<and> live_blocks s' = (live_blocks s)(p \<mapsto> m) \<and> 20 \<le> m \<and>
       open_handles s h = None \<and> open_handles s' = (open_handles s)(h \<mapsto> (p, TRT_OBJ_SEM, sem_rights)) \<and>
       SemWq p \<notin> W \<and> kinv T (insert (SemWq p) W) s' \<and> waiters s' (SemWq p) = [] \<and>
       (sem_ok p s' \<longleftrightarrow> 0 \<le> sint mx \<or> 0 \<le> sint cnt) \<and> \<not> sem_destroyed (sems s' p)))"
proof -
  obtain p hp where a: "sys_malloc sizeof_sem s = Some (p, s\<lparr>sys_heap := hp\<rparr>)" "heap_ok hp"
    "p = 0 \<Longrightarrow> live_allocs hp = live_blocks s"
    "p \<noteq> 0 \<Longrightarrow> live_blocks s p = None \<and> (\<exists>m. live_allocs hp = (live_blocks s)(p \<mapsto> m) \<and>
      (unat sizeof_sem \<le> 2 ^ 32 - 8 \<longrightarrow> unat sizeof_sem \<le> m))"
    using sys_malloc_cases [OF r, of sizeof_sem] by blast
  have ho: "handle_ok (sys_handles s)" using r by (simp add: res_ok_def)
  show ?thesis
  proof (cases "p = 0")
    case True
    then show ?thesis using a k ho by (simp add: trt_sem_create_def res_ok_def)
  next
    case False
    obtain m where m: "live_blocks s p = None" "live_allocs hp = (live_blocks s)(p \<mapsto> m)" "20 \<le> m"
      using a(4) [OF False] by (auto simp: sizeof_sem_def)
    have w: "SemWq p \<notin> W" using f m(1) by (auto simp: sems_allocated_def)
    let ?s1 = "s\<lparr>sys_heap := hp\<rparr>"
    let ?s2 = "sem_init_obj p mx cnt ?s1"
    have k1: "kinv T W ?s1" using k by simp
    note i = sem_init_ok [OF k1 w, where mx = mx and cnt = cnt]
    note o = sem_init_objects [of p mx cnt ?s1]
    have r2: "res_ok ?s2" using a(2) ho by (simp add: res_ok_def o)
    show ?thesis
    proof (cases rule: sys_handle_alloc_cases [OF r2, of p TRT_OBJ_SEM sem_rights, case_names Full New])
      case (Full e t)
      let ?s3 = "?s2\<lparr>sys_handles := t\<rparr>"
      have c: "trt_sem_create mx cnt s = Some (TRT_HANDLE_INVALID, sys_free p ?s3)"
        using a(1) False Full(1) by (simp add: trt_sem_create_def Let_def)
      have r3: "res_ok ?s3" and b3: "live_blocks ?s3 p = Some m"
        using a(2) Full(3) m(2) by (simp_all add: res_ok_def o)
      note g = sys_free_null [OF r3 b3]
      have "kinv T W ?s3"
        using forget_queue [OF i(1) _ i(2)] w by simp
      then have "kinv T W (sys_free p ?s3)" by (simp add: sys_free_def)
      moreover have "live_blocks (sys_free p ?s3) = live_blocks s"
        using g(2) m(1,2) by (simp add: o fun_upd_idem)
      ultimately show ?thesis
        using c g Full(2) by (simp add: sys_free_def o)
    next
      case (New h t)
      have "trt_sem_create mx cnt s = Some (h, ?s2\<lparr>sys_handles := t\<rparr>)"
        using a(1) False New(1) by (simp add: trt_sem_create_def Let_def)
      then show ?thesis
        using a(2) m False w i New by (auto simp: res_ok_def o sem_ok_def)
    qed
  qed
qed

subsection \<open>Destroying it\<close>

lemma sem_destroy_handle:
  assumes k: "kinv T W s" and r: "res_ok s" and w: "SemWq p \<in> W" and d: "\<not> sem_destroyed (sems s p)"
    and p: "p \<noteq> 0" and b: "live_blocks s p = Some m"
    and h: "open_handles s h = Some (p, TRT_OBJ_SEM, rs)" "rs AND TRT_RIGHT_DESTROY = TRT_RIGHT_DESTROY"
    and n: "\<not> arch_in_isr s" and len: "length (waiters s (SemWq p)) < 2 ^ 32"
  shows "\<exists>s'. trt_sem_destroy f h s =
      (if waiters s (SemWq p) = [] then Some (ERR_OK, s')
       else Option.bind (task_yield f s') (\<lambda>s4. Some (ERR_OK, s4))) \<and>
    kinv T (W - {SemWq p}) s' \<and> res_ok s' \<and> live_blocks s' = (live_blocks s)(p := None) \<and>
    open_handles s' = (open_handles s)(h := None) \<and>
    (\<forall>t. tasks s' t = (if t \<in> set (waiters s (SemWq p)) then woken TASK_WAIT_DESTROYED (tasks s t)
       else tasks s t)) \<and>
    (\<forall>v\<in>W - {SemWq p}. waiters s' v = waiters s v)"
proof -
  let ?s1 = "s\<lparr>sys_handles := handle_table_init_locked (sys_handles s)\<rparr>"
  have k1: "kinv T W ?s1" and d1: "\<not> sem_destroyed (sems ?s1 p)" using k d by simp_all
  obtain s2 where s2: "sem_destroy_obj p ?s1 = Some (ERR_OK, of_nat (length (waiters s (SemWq p))), s2)"
    "kinv T W s2" "waiters s2 (SemWq p) = []"
    "\<forall>t. tasks s2 t = (if t \<in> set (waiters s (SemWq p)) then woken TASK_WAIT_DESTROYED (tasks s t)
       else tasks s t)" "\<forall>v\<in>W. v \<noteq> SemWq p \<longrightarrow> waiters s2 v = waiters s v"
    "kstate.more s2 = kstate.more (upd_sem p (\<lambda>k. k\<lparr>sem_destroyed := True, sem_cnt := 0\<rparr>) ?s1)"
    using sem_destroy [OF k1 w p d1] by auto
  note m2 = same_more(1,2) [OF s2(6)]
  have r2: "res_ok s2" and b2: "live_blocks s2 p = Some m"
    and h2: "open_handles s2 h = Some (p, TRT_OBJ_SEM, rs)"
    using r b h(1) by (simp_all add: res_ok_def m2)
  define s' where "s' = sys_free p (sys_handle_close h s2)"
  note c = free_closed [OF r2 b2 h2, folded s'_def]
  have e: "kinv T W' s' \<longleftrightarrow> kinv T W' s2" "waiters s' v = waiters s2 v" "tasks s' = tasks s2" for W' v
    by (simp_all add: s'_def sys_free_def sys_handle_close_def)
  have z: "(of_nat (length (waiters s (SemWq p))) :: u32) = 0 \<longleftrightarrow> waiters s (SemWq p) = []"
    using len by (simp add: word_unat_eq_iff unat_of_nat take_bit_nat_eq_self)
  have "trt_sem_destroy f h s = (if waiters s (SemWq p) = [] then Some (ERR_OK, s')
       else Option.bind (task_yield f s') (\<lambda>s4. Some (ERR_OK, s4)))"
    using n s2(1) sys_lookup_open [OF h] z
    by (simp add: trt_sem_destroy_def sem_lookup_def with_object_def s'_def Let_def)
  moreover have "kinv T (W - {SemWq p}) s'" using forget_queue [OF s2(2) w s2(3)] e(1) by blast
  moreover have "live_blocks s' = (live_blocks s)(p := None)" "open_handles s' = (open_handles s)(h := None)"
    using c(2,3) by (simp_all add: m2)
  ultimately show ?thesis using c(1) s2(4,5) e by (intro exI [of _ s']) simp
qed

subsection \<open>Round trip\<close>

text \<open>Creating a semaphore and destroying it again through its handle is a round trip: the
  creation either fails and leaves the heap, the handles and the kernel as they were, or returns a
  fresh handle, and destroying that gives the block and the handle back, with the kernel invariant
  kept and no task changed.\<close>

theorem sem_create_destroy:
  assumes "kinv T W s" and "res_ok s" and "sems_allocated W s" and "\<not> arch_in_isr s"
  shows "\<exists>h s1. trt_sem_create mx cnt s = Some (h, s1) \<and>
    (if h = TRT_HANDLE_INVALID
     then kinv T W s1 \<and> live_blocks s1 = live_blocks s \<and> open_handles s1 = open_handles s
     else open_handles s h = None \<and> (\<exists>p. open_handles s1 h = Some (p, TRT_OBJ_SEM, sem_rights)) \<and>
       (\<exists>s2. trt_sem_destroy f h s1 = Some (ERR_OK, s2) \<and> kinv T W s2 \<and> res_ok s2 \<and>
         live_blocks s2 = live_blocks s \<and> open_handles s2 = open_handles s \<and> tasks s2 = tasks s))"
proof -
  obtain h s1 where c: "trt_sem_create mx cnt s = Some (h, s1)" "res_ok s1" "tasks s1 = tasks s"
    "trap_nesting s1 = trap_nesting s"
    and cs: "h = TRT_HANDLE_INVALID \<and> kinv T W s1 \<and> live_blocks s1 = live_blocks s \<and>
       open_handles s1 = open_handles s \<or>
     (\<exists>p m. p \<noteq> 0 \<and> live_blocks s p = None \<and> live_blocks s1 = (live_blocks s)(p \<mapsto> m) \<and> 20 \<le> m \<and>
       open_handles s h = None \<and> open_handles s1 = (open_handles s)(h \<mapsto> (p, TRT_OBJ_SEM, sem_rights)) \<and>
       SemWq p \<notin> W \<and> kinv T (insert (SemWq p) W) s1 \<and> waiters s1 (SemWq p) = [] \<and>
       (sem_ok p s1 \<longleftrightarrow> 0 \<le> sint mx \<or> 0 \<le> sint cnt) \<and> \<not> sem_destroyed (sems s1 p))"
    using sem_create_cases [OF assms(1-3), of mx cnt] by blast
  from cs show ?thesis
  proof (elim disjE exE conjE)
    fix p m
    assume p: "p \<noteq> 0" "live_blocks s p = None" "live_blocks s1 = (live_blocks s)(p \<mapsto> m)"
      "open_handles s h = None" "open_handles s1 = (open_handles s)(h \<mapsto> (p, TRT_OBJ_SEM, sem_rights))"
      "SemWq p \<notin> W" "kinv T (insert (SemWq p) W) s1" "waiters s1 (SemWq p) = []"
      "\<not> sem_destroyed (sems s1 p)"
    have hn: "h \<noteq> TRT_HANDLE_INVALID"
      using open_not_invalid [of "sys_handles s1" h] c(2) p(5) by (simp add: res_ok_def)
    have b: "live_blocks s1 p = Some m" "open_handles s1 h = Some (p, TRT_OBJ_SEM, sem_rights)"
      using p(3,5) by simp_all
    have rt: "sem_rights AND TRT_RIGHT_DESTROY = TRT_RIGHT_DESTROY" "\<not> arch_in_isr s1"
      using assms(4) c(4) by (simp_all add: TRT_RIGHT_WAIT_def TRT_RIGHT_POST_def TRT_RIGHT_DESTROY_def arch_in_isr_def)
    obtain s2 where s2: "trt_sem_destroy f h s1 = Some (ERR_OK, s2)"
      "kinv T (insert (SemWq p) W - {SemWq p}) s2" "res_ok s2" "live_blocks s2 = (live_blocks s1)(p := None)"
      "open_handles s2 = (open_handles s1)(h := None)" "\<forall>t. tasks s2 t = tasks s1 t"
      using sem_destroy_handle [OF p(7) c(2) _ p(9,1) b rt, of f] p(8) by auto
    have "kinv T W s2" using s2(2) p(6) by simp
    moreover have "live_blocks s2 = live_blocks s" "open_handles s2 = open_handles s"
      using s2(4,5) p(2-5) by (simp_all add: fun_upd_idem)
    moreover have "tasks s2 = tasks s" using s2(6) c(3) by (simp add: fun_eq_iff)
    ultimately show ?thesis using c(1) hn s2(1,3) p(4) b(2) by auto
  qed (use c(1) in simp)
qed

lemma demo_sem_create:
  "\<exists>h s'. trt_sem_create 3 1 (demo_run blank_sys) = Some (h, s') \<and> h \<noteq> TRT_HANDLE_INVALID"
proof -
  let ?s = "demo_run blank_sys"
  have r: "sys_heap ?s = demo_heap" "sys_handles ?s = demo_handles"
    using same_more(1,2) [OF demo_run_more(1)] by (simp_all add: blank_sys_def)
  have "first_fit (unat (align_size 20)) (view demo_heap) = Some (0x1000, [(0x1000, 24, False), (0x1028, 0xfc8, True)])"
    by (simp add: demo_heap(3) align_size_exact cut_block_def)
  then obtain p hp where m: "malloc 20 demo_heap = Some (p, hp)" "unat p = 0x1010"
    using malloc_view [OF demo_heap(2), of 20] by auto
  then have p: "p \<noteq> 0" by auto
  have "\<not> (\<forall>slot\<in>set (htab demo_handles). slot_used slot)"
    by (simp add: demo_handles_def handle_table_init_locked_def RTOS_HANDLE_MAX_def)
  from alloc_free [OF demo_handles(1) p _ _ this, of True TRT_OBJ_SEM sem_rights] obtain h t where
    "trt_handle_alloc p TRT_OBJ_SEM sem_rights True demo_handles = (Inr h, t)" "h \<noteq> TRT_HANDLE_INVALID"
    by auto
  then show ?thesis
    using m(1) p by (simp add: trt_sem_create_def sys_malloc_def sys_handle_alloc_def sizeof_sem_def r
        sem_init_objects)
qed

lemma sem_create_destroy_witness:
  "\<exists>h s1 s2. trt_sem_create 3 1 (demo_run blank_sys) = Some (h, s1) \<and> h \<noteq> TRT_HANDLE_INVALID \<and>
     trt_sem_destroy Some h s1 = Some (ERR_OK, s2) \<and> live_blocks s2 = live_blocks (demo_run blank_sys)"
proof -
  let ?s = "demo_run blank_sys"
  have n: "\<not> sched_initialized blank_sys" by (simp add: blank_sys_def)
  have r: "sys_heap ?s = demo_heap" "sys_handles ?s = demo_handles"
    using same_more(1,2) [OF demo_run_more(1)] by (simp_all add: blank_sys_def)
  have "res_ok ?s" by (simp add: res_ok_def r demo_heap(2) demo_handles(1))
  moreover have "sems_allocated {} ?s" by (simp add: sems_allocated_def)
  moreover have "\<not> arch_in_isr ?s" by (simp add: arch_in_isr_def demo_run_more(2))
  moreover obtain h s1 where c: "trt_sem_create 3 1 ?s = Some (h, s1)" "h \<noteq> TRT_HANDLE_INVALID"
    using demo_sem_create by blast
  ultimately show ?thesis
    using sem_create_destroy [OF demo_run(1) [OF n], of 3 1 Some] by auto
qed

end
