(* ===== verification/TaskLife.thy ===== *)
theory TaskLife
  imports TaskFrame ObjLife
begin

unbundle bit_operations_syntax

text \<open>
  The life of a task: a control block and a stack come from the heap, the scheduler takes it in,
  a deletion marks it, and the idle task's clean-up gives both blocks back.  \<open>owns\<close> says that
  every live task has its two blocks and shares them with no other.
\<close>

subsection \<open>Ownership of memory\<close>

definition owns :: "ptr set \<Rightarrow> 'z sys_scheme \<Rightarrow> bool" where
  "owns T s \<longleftrightarrow> inj_on (\<lambda>t. stack_base (tasks s t)) T \<and> T \<inter> (\<lambda>t. stack_base (tasks s t)) ` T = {} \<and>
     (\<forall>t\<in>T. live_blocks s t \<noteq> None \<and> live_blocks s (stack_base (tasks s t)) \<noteq> None)"

lemma owns_cong:
  assumes "owns T s" and "\<And>t. t \<in> T \<Longrightarrow> stack_base (tasks s' t) = stack_base (tasks s t)"
    and "\<And>p. live_blocks s p \<noteq> None \<Longrightarrow> live_blocks s' p \<noteq> None"
  shows "owns T s'"
proof -
  have "(\<lambda>t. stack_base (tasks s' t)) ` T = (\<lambda>t. stack_base (tasks s t)) ` T"
    using assms(2) by (rule image_cong [OF refl])
  moreover have "inj_on (\<lambda>t. stack_base (tasks s' t)) T \<longleftrightarrow> inj_on (\<lambda>t. stack_base (tasks s t)) T"
    using assms(2) by (rule inj_on_cong)
  moreover have "\<forall>t\<in>T. live_blocks s' t \<noteq> None \<and> live_blocks s' (stack_base (tasks s' t)) \<noteq> None"
    using assms by (simp add: owns_def)
  ultimately show ?thesis using assms(1) unfolding owns_def by simp
qed

lemma owns_subset: "owns T s \<Longrightarrow> T' \<subseteq> T \<Longrightarrow> owns T' s"
  unfolding owns_def by (auto intro: inj_on_subset)

lemma owns_fresh:
  assumes "owns T s" and "live_blocks s p = None"
  shows "p \<notin> T" and "p \<notin> (\<lambda>u. stack_base (tasks s u)) ` T"
proof -
  have l: "live_blocks s u \<noteq> None" "live_blocks s (stack_base (tasks s u)) \<noteq> None" if "u \<in> T" for u
    using assms(1) that unfolding owns_def by blast+
  show "p \<notin> T" using l(1) [of p] assms(2) by blast
  show "p \<notin> (\<lambda>u. stack_base (tasks s u)) ` T"
  proof
    assume "p \<in> (\<lambda>u. stack_base (tasks s u)) ` T"
    then obtain u where "u \<in> T" "p = stack_base (tasks s u)" by blast
    with l(2) [of u] assms(2) show False by simp
  qed
qed

lemma owns_insert:
  assumes "owns T s" and "t \<notin> T" and "t \<noteq> st" and "t \<notin> (\<lambda>u. stack_base (tasks s u)) ` T"
    and "st \<notin> T" and "st \<notin> (\<lambda>u. stack_base (tasks s u)) ` T"
    and "stack_base (tasks s' t) = st" and "\<And>u. u \<in> T \<Longrightarrow> stack_base (tasks s' u) = stack_base (tasks s u)"
    and "live_blocks s' = (live_blocks s)(t \<mapsto> m, st \<mapsto> n)"
  shows "owns (insert t T) s'"
proof -
  have "live_blocks s' p \<noteq> None" if "live_blocks s p \<noteq> None" for p using that assms(9) by simp
  from owns_cong [OF assms(1,8) this] have o: "owns T s'" .
  have im: "(\<lambda>u. stack_base (tasks s' u)) ` T = (\<lambda>u. stack_base (tasks s u)) ` T"
    using assms(8) by (rule image_cong [OF refl])
  let ?f = "\<lambda>u. stack_base (tasks s' u)"
  have "T - {t} = T" using assms(2) by simp
  then have "inj_on ?f (insert t T)"
    using o assms(6,7) im unfolding owns_def inj_on_insert by metis
  moreover have "insert t T \<inter> ?f ` insert t T = {}"
    using o assms(2-5,7) im unfolding owns_def image_insert by blast
  moreover have "live_blocks s' u \<noteq> None \<and> live_blocks s' (?f u) \<noteq> None" if "u \<in> insert t T" for u
    using that o assms(7,9) unfolding owns_def by (cases "u = t") simp_all
  ultimately show ?thesis unfolding owns_def by blast
qed

subsection \<open>Creation\<close>

definition task_round :: "u32 \<Rightarrow> u32" where
  "task_round bytes = (bytes + 15) AND NOT 15"

definition new_task :: "u8 list option \<Rightarrow> ptr \<Rightarrow> ptr \<Rightarrow> u32 \<Rightarrow> ptr \<Rightarrow> ptr \<Rightarrow> u8 \<Rightarrow> task_t" where
  "new_task name sp stack bytes entry arg pr = \<lparr>task_name = task_set_name name, task_sp = sp,
     stack_base = stack, stack_size = bytes, wakeup = 0, waiting_on_timer = False,
     wait_result = TASK_WAIT_NONE, task_state = TASK_READY, priority = ucast pr,
     base_priority = ucast pr, effective_priority = ucast pr, task_handle = TRT_HANDLE_INVALID,
     task_entry = entry, task_arg = arg\<rparr>"

lemma task_round_ge:
  assumes "task_round bytes \<noteq> 0" and "144 \<le> unat bytes"
  shows "unat bytes \<le> unat (task_round bytes)" and "16 dvd unat (task_round bytes)"
proof -
  have nw: "unat bytes + 15 < 2 ^ 32"
  proof (rule ccontr)
    assume "\<not> unat bytes + 15 < 2 ^ 32"
    then have "unat (bytes + 15) = unat bytes + 15 - 2 ^ 32"
      using unat_u32_less [of bytes] by (simp add: unat_word_ariths mod_if)
    then have "unat (bytes + 15) div 16 = 0" using unat_u32_less [of bytes] by simp
    then have "unat (task_round bytes) = 0" by (simp only: task_round_def and_not_15)
    then show False using assms(1) by (simp add: unat_eq_0)
  qed
  then have "unat (task_round bytes) = 16 * ((unat bytes + 15) div 16)"
    unfolding task_round_def and_not_15 by (simp add: unat_word_ariths)
  then show "unat bytes \<le> unat (task_round bytes)" "16 dvd unat (task_round bytes)" by simp_all
qed

lemma enqueue_more [simp]:
  "kstate.more (sched_ready_enqueue t s) = kstate.more s" "kstate.more (sched_add_task t s) = kstate.more s"
  by (simp_all add: sched_ready_enqueue_def sched_add_task_def)

definition task_args_ok :: "ptr \<Rightarrow> u32 \<Rightarrow> u8 \<Rightarrow> bool" where
  "task_args_ok entry bytes pr \<longleftrightarrow> entry \<noteq> 0 \<and> 144 \<le> unat bytes \<and> unat pr \<le> 31"

lemma unat_ucast_u8: "unat (ucast (w :: u8) :: u32) = unat w"
proof -
  have "unat w < 256" using unsigned_less [of w] by simp
  then show ?thesis by (simp add: unsigned_ucast_eq take_bit_nat_eq_self)
qed

lemma task_args_ok_iff:
  "task_args_ok entry bytes pr \<longleftrightarrow>
    \<not> (entry = 0 \<or> bytes < ARCH_TASK_CONTEXT_SIZE \<or> (ucast pr :: u32) > RTOS_PRIORITY_MAX)"
proof -
  have "unat (ucast pr :: u32) = unat pr" by (rule unat_ucast_u8)
  then show ?thesis
    by (simp add: task_args_ok_def ARCH_TASK_CONTEXT_SIZE_def RTOS_PRIORITY_MAX_def word_less_nat_alt not_less)
qed

lemma task_create_kernel_eq:
  assumes "task_args_ok entry bytes pr" and "task_count s < RTOS_TASK_MAX"
  shows "task_create_kernel env name entry arg bytes pr s =
    Option.bind (sys_malloc sizeof_task s) (\<lambda>(t, s1).
      if t = 0 then Some (0, s1)
      else Option.bind (sys_malloc (task_round bytes) s1) (\<lambda>(stack, s2).
        if stack = 0 then Some (0, sys_free t s2)
        else
          let (sp, m) = arch_task_init_frame env stack (task_round bytes) entry arg (heap_bytes (sys_heap s2));
              s4 = upd_task t (\<lambda>_. new_task name sp stack (task_round bytes) entry arg pr)
                     (upd_bytes (\<lambda>_. m) s2);
              s6 = sched_add_task t (upd_lnk (init_task_nodes t) s4)
          in Some (t, s6\<lparr>task_count := task_count s6 + 1\<rparr>)))"
proof -
  have "\<not> task_count s \<ge> RTOS_TASK_MAX" using assms(2) by simp
  note no = assms(1) [unfolded task_args_ok_iff] this
  show ?thesis
    unfolding task_create_kernel_def if_not_P [OF no(1)] if_not_P [OF no(2)] new_task_def
      init_task_nodes_def [abs_def] task_round_def Let_def by (rule refl)
qed

lemma task_create_cases:
  assumes k: "kinv T W s" and r: "res_ok s" and o: "owns T s"
    and a: "task_args_ok entry bytes pr" "task_count s < RTOS_TASK_MAX"
  shows "\<exists>t s'. task_create_kernel env name entry arg bytes pr s = Some (t, s') \<and> res_ok s' \<and>
    current_task s' = current_task s \<and> idle_task s' = idle_task s \<and> tick_count s' = tick_count s \<and>
    sys_handles s' = sys_handles s \<and>
    (t = 0 \<longrightarrow> kinv T W s' \<and> owns T s' \<and> live_blocks s' = live_blocks s \<and> tasks s' = tasks s \<and>
       task_count s' = task_count s \<and> s' = s\<lparr>sys_heap := sys_heap s'\<rparr>) \<and>
    (t \<noteq> 0 \<longrightarrow> t \<notin> T \<and> kinv (insert t T) W s' \<and> owns (insert t T) s' \<and>
       task_count s' = task_count s + 1 \<and>
       (\<exists>m n sp stack f. live_blocks s t = None \<and> live_blocks s stack = None \<and> t \<noteq> stack \<and>
         live_blocks s' = (live_blocks s)(t \<mapsto> m, stack \<mapsto> n) \<and> 96 \<le> m \<and> unat bytes \<le> n \<and> unat (task_round bytes) \<le> n \<and> task_round bytes \<noteq> 0 \<and>
         arch_task_init_frame env stack (task_round bytes) entry arg f = (sp, heap_bytes (sys_heap s')) \<and>
         tasks s' = (tasks s)(t := new_task name sp stack (task_round bytes) entry arg pr)) \<and>
       (\<forall>h\<in>kheads W. klist s' h =
         (if h = MasterHead then klist s h @ [MasterNode t]
          else if h = ReadyHead (unat pr) then klist s h @ [StateNode t] else klist s h)))"
proof -
  note u = task_create_kernel_eq [OF a, of env name arg]
  have b: "144 \<le> unat bytes" "unat pr \<le> 31" using a(1) by (simp_all add: task_args_ok_def)
  obtain t h1 where m1: "sys_malloc sizeof_task s = Some (t, s\<lparr>sys_heap := h1\<rparr>)" "heap_ok h1"
    "t = 0 \<Longrightarrow> live_allocs h1 = live_blocks s"
    "t \<noteq> 0 \<Longrightarrow> live_blocks s t = None \<and> (\<exists>m. live_allocs h1 = (live_blocks s)(t \<mapsto> m) \<and>
      (unat sizeof_task \<le> 2 ^ 32 - 8 \<longrightarrow> unat sizeof_task \<le> m))"
    using sys_malloc_cases [OF r, of sizeof_task] by blast
  have ho: "handle_ok (sys_handles s)" using r by (simp add: res_ok_def)
  let ?s1 = "s\<lparr>sys_heap := h1\<rparr>"
  have r1: "res_ok ?s1" using m1(2) ho by (simp add: res_ok_def)
  show ?thesis
  proof (cases "t = 0")
    case True
    have "task_create_kernel env name entry arg bytes pr s = Some (0, ?s1)"
      using m1(1) True by (simp add: u)
    moreover have "owns T ?s1" by (rule owns_cong [OF o]) (simp_all add: m1(3) True)
    ultimately show ?thesis using True r1 m1(3) k by simp
  next
    case False
    obtain m where m: "live_blocks s t = None" "live_allocs h1 = (live_blocks s)(t \<mapsto> m)" "96 \<le> m"
      using m1(4) [OF False] by (auto simp: sizeof_task_def)
    obtain stack h2 where m2: "sys_malloc (task_round bytes) ?s1 = Some (stack, ?s1\<lparr>sys_heap := h2\<rparr>)" "heap_ok h2"
      "stack = 0 \<Longrightarrow> live_allocs h2 = live_blocks ?s1"
      "stack \<noteq> 0 \<Longrightarrow> live_blocks ?s1 stack = None \<and> (\<exists>n. live_allocs h2 = (live_blocks ?s1)(stack \<mapsto> n) \<and>
        (unat (task_round bytes) \<le> 2 ^ 32 - 8 \<longrightarrow> unat (task_round bytes) \<le> n))"
      using sys_malloc_cases [OF r1, of "task_round bytes"] by blast
    let ?s2 = "s\<lparr>sys_heap := h2\<rparr>"
    have r2: "res_ok ?s2" using m2(2) ho by (simp add: res_ok_def)
    show ?thesis
    proof (cases "stack = 0")
      case True
      have b2: "live_blocks ?s2 t = Some m" using m2(3) True m(2) by simp
      have "task_create_kernel env name entry arg bytes pr s = Some (0, sys_free t ?s2)"
        using m1(1) m2(1) True False by (simp add: u)
      moreover note g = sys_free_null [OF r2 b2]
      moreover have l: "live_blocks (sys_free t ?s2) = live_blocks s"
        using g(2) m2(3) True m(1,2) by (simp add: fun_upd_idem)
      moreover have "kinv T W (sys_free t ?s2)" using k by (simp add: sys_free_def)
      moreover have "owns T (sys_free t ?s2)" by (rule owns_cong [OF o]) (simp_all add: l, simp add: sys_free_def)
      ultimately show ?thesis by (simp add: sys_free_def)
    next
      case nz: False
      have z: "task_round bytes \<noteq> 0"
      proof
        assume "task_round bytes = 0"
        then show False using m2(1) nz by (simp add: sys_malloc_def)
      qed
      note rd = task_round_ge [OF z b(1)]
      obtain j where "unat (task_round bytes) = 16 * j" using rd(2) by (auto elim: dvdE)
      then have le: "unat (task_round bytes) \<le> 2 ^ 32 - 8" using unat_u32_less [of "task_round bytes"] by simp
      obtain n where n: "live_blocks ?s1 stack = None" "live_allocs h2 = (live_blocks ?s1)(stack \<mapsto> n)"
        "unat (task_round bytes) \<le> n" using m2(4) [OF nz] le by blast
      have ns: "t \<noteq> stack" "live_blocks s stack = None" using n(1) m(1,2) by (auto split: if_splits)
      obtain sp f where fr: "arch_task_init_frame env stack (task_round bytes) entry arg (heap_bytes h2) = (sp, f)"
        by fastforce
      define s4 where "s4 = upd_task t (\<lambda>_. new_task name sp stack (task_round bytes) entry arg pr)
        (upd_bytes (\<lambda>_. f) ?s2)"
      define s6 where "s6 = sched_add_task t (upd_lnk (init_task_nodes t) s4)"
      define s' where "s' = s6\<lparr>task_count := task_count s6 + 1\<rparr>"
      have eq: "task_create_kernel env name entry arg bytes pr s = Some (t, s')"
        using m1(1) m2(1) False nz fr by (simp add: u Let_def s'_def s6_def s4_def)
      have tn: "t \<notin> T" "stack \<notin> T" "t \<notin> (\<lambda>u. stack_base (tasks s u)) ` T" "stack \<notin> (\<lambda>u. stack_base (tasks s u)) ` T"
        using owns_fresh [OF o m(1)] owns_fresh [OF o ns(2)] by simp_all
      have k4: "kinv T W s4"
        unfolding s4_def by (rule kinv_upd_outside [OF _ tn(1)]) (use k in simp)
      have p: "prio s4 t = unat pr" "task_state (tasks s4 t) = TASK_READY"
by (simp_all add: s4_def new_task_def unat_ucast_u8)
      then have p32: "prio s4 t < 32" using b(2) by simp
      note ad = add_task [OF k4 tn(1) False p32 p(2), folded s6_def]
      have more: "kstate.more s6 = kstate.more (upd_bytes (\<lambda>_. f) ?s2)" by (simp add: s6_def s4_def)
      note sm = same_more(1,2) [OF more]
      have tc: "task_count s6 = task_count s" using same_more(10) [OF more] by (simp add: upd_bytes_def)
      have tk: "tasks s' = (tasks s)(t := new_task name sp stack (task_round bytes) entry arg pr)"
        using ad(2) by (simp add: s'_def s4_def)
      have lb: "live_blocks s' = (live_blocks s)(t \<mapsto> m, stack \<mapsto> n)"
        using n(2) m(2) by (simp add: s'_def sm upd_bytes_def)
      have ks: "kinv (insert t T) W s'" unfolding s'_def by (rule kinv_frame [OF ad(1)]) simp_all
      have ow: "owns (insert t T) s'"
        by (rule owns_insert [OF o tn(1) ns(1) tn(3,2,4) _ _ lb]) (auto simp: tk new_task_def tn)
      have hb: "heap_bytes (sys_heap s') = f" "sys_handles s' = sys_handles s"
        by (simp_all add: s'_def sm)
      have rs: "res_ok s'" using m2(2) ho by (simp add: res_ok_def s'_def sm) (simp add: upd_bytes_def)
      have kl: "klist s' h = (if h = MasterHead then klist s h @ [MasterNode t]
          else if h = ReadyHead (unat pr) then klist s h @ [StateNode t] else klist s h)" if "h \<in> kheads W" for h
        using ad(6) [OF that] p(1) by (simp add: s'_def s4_def)
      have ct: "current_task s' = current_task s" "idle_task s' = idle_task s" "tick_count s' = tick_count s"
        using ad(3-5) by (simp_all add: s'_def s4_def)
      have "unat bytes \<le> n" "unat (task_round bytes) \<le> n" "task_round bytes \<noteq> 0" using rd(1) n(3) z by simp_all
      then have ex: "\<exists>m n sp stack f. live_blocks s t = None \<and> live_blocks s stack = None \<and> t \<noteq> stack \<and>
         live_blocks s' = (live_blocks s)(t \<mapsto> m, stack \<mapsto> n) \<and> 96 \<le> m \<and> unat bytes \<le> n \<and> unat (task_round bytes) \<le> n \<and> task_round bytes \<noteq> 0 \<and>
         arch_task_init_frame env stack (task_round bytes) entry arg f = (sp, heap_bytes (sys_heap s')) \<and>
         tasks s' = (tasks s)(t := new_task name sp stack (task_round bytes) entry arg pr)"
        using m(1,3) ns lb fr tk hb(1)
        by (intro exI [of _ m] exI [of _ n] exI [of _ sp] exI [of _ stack] exI [of _ "heap_bytes h2"]) simp
      have "task_count s' = task_count s + 1" using tc by (simp add: s'_def)
      then show ?thesis
        using eq rs ct hb(2) False tn(1) ks ow ex kl by (intro exI [of _ t] exI [of _ s']) blast
    qed
  qed
qed

subsection \<open>Deletion\<close>

lemma close_any:
  assumes "res_ok s"
  shows "res_ok (sys_handle_close h s)" and "open_handles (sys_handle_close h s) = (open_handles s)(h := None)"
proof -
  have ok: "heap_ok (sys_heap s)" "handle_ok (sys_handles s)" using assms by (simp_all add: res_ok_def)
  obtain e t where c: "trt_handle_close h (sys_handles s) = (e, t)" by fastforce
  have "live_handles t = (open_handles s)(h := None) \<and> handle_ok t"
    using handles.close_live [OF ok(2) _ c] handles.close_dead [OF ok(2) _ c]
    by (cases "open_handles s h") auto
  then show "res_ok (sys_handle_close h s)" "open_handles (sys_handle_close h s) = (open_handles s)(h := None)"
    using ok by (simp_all add: sys_handle_close_def c res_ok_def)
qed

lemma mark_deleted_frame:
  "kstate.more (sched_mark_deleted t s) = kstate.more s"
  "current_task (sched_mark_deleted t s) = current_task s" "idle_task (sched_mark_deleted t s) = idle_task s"
  "stack_base (tasks (sched_mark_deleted t s) u) = stack_base (tasks s u)"
  "u \<noteq> t \<Longrightarrow> tasks (sched_mark_deleted t s) u = tasks s u"
  by (simp_all add: sched_mark_deleted_def sched_ready_remove_def sched_timeout_remove_def Let_def)

lemma task_delete_cases:
  assumes k: "kinv T W s" and r: "res_ok s" and o: "owns T s" and t: "t \<in> T" "t \<noteq> idle_task s"
    and st: "task_state (tasks s t) \<noteq> TASK_DELETED" and arg: "t = (if arg = 0 then current_task s else arg)"
    and l: "t \<noteq> current_task s \<or> \<not> sched_is_locked s"
  shows "\<exists>s'. task_delete_mark arg s = (ERR_OK, t = current_task s, s') \<and> kinv T W s' \<and> res_ok s' \<and> owns T s' \<and>
    task_state (tasks s' t) = TASK_DELETED \<and> (\<forall>u. u \<noteq> t \<longrightarrow> tasks s' u = tasks s u) \<and>
    (\<forall>h\<in>kheads W. klist s' h = (if h = DeletedHead then klist s h @ [StateNode t]
       else remove1 (StateNode t) (remove1 (TimeoutNode t) (klist s h)))) \<and>
    live_blocks s' = live_blocks s \<and> open_handles s' = (open_handles s)(task_handle (tasks s t) := None) \<and>
    current_task s' = current_task s \<and> idle_task s' = idle_task s \<and>
    stack_base (tasks s' t) = stack_base (tasks s t) \<and>
    task_count s' = (if task_count s = 0 then 0 else task_count s - 1) \<and>
    resched_pending s' = (resched_pending s \<or> t = current_task s)"
proof -
  have t0: "t \<noteq> 0" using kbaseD(1) [OF kinv_kbase [OF k]] t(1) by blast
  let ?h = "task_handle (tasks s t)"
  define s1 where "s1 = (if ?h \<noteq> TRT_HANDLE_INVALID
                    then upd_task t (\<lambda>k. k\<lparr>task_handle := TRT_HANDLE_INVALID\<rparr>) (sys_handle_close ?h s) else s)"
  define s2 where "s2 = sched_mark_deleted t s1"
  define s3 where "s3 = (if task_count s2 \<noteq> 0 then s2\<lparr>task_count := task_count s2 - 1\<rparr> else s2)"
  define s' where "s' = (if t = current_task s then s3\<lparr>resched_pending := True\<rparr> else s3)"
  have eq: "task_delete_mark arg s = (ERR_OK, t = current_task s, s')"
    using t0 t(2) st l unfolding task_delete_mark_def arg [symmetric]
    by (auto simp: s1_def s2_def s3_def s'_def Let_def)
  have kc: "kinv T W (sys_handle_close ?h s)" using k by (simp add: sys_handle_close_def)
  have k1: "kinv T W s1" unfolding s1_def using k kinv_upd_task_inert [OF kc t(1)] by simp
  have f1: "current_task s1 = current_task s" "idle_task s1 = idle_task s" "lnk s1 = lnk s"
    "task_state (tasks s1 u) = task_state (tasks s u)" "stack_base (tasks s1 u) = stack_base (tasks s u)"
    "u \<noteq> t \<Longrightarrow> tasks s1 u = tasks s u" "sys_heap s1 = sys_heap s" "task_count s1 = task_count s"
    "resched_pending s1 = resched_pending s" for u
    by (simp_all add: s1_def sys_handle_close_def upd_task_def)
  have inv: "open_handles s TRT_HANDLE_INVALID = None"
    using open_not_invalid [of "sys_handles s" TRT_HANDLE_INVALID] r
    by (cases "open_handles s TRT_HANDLE_INVALID") (auto simp: res_ok_def)
  have h1: "res_ok s1" "open_handles s1 = (open_handles s)(?h := None)"
    using close_any [OF r, of ?h] r inv by (auto simp: s1_def res_ok_def upd_task_def fun_upd_idem)
  have t1: "t \<noteq> idle_task s1" "task_state (tasks s1 t) \<noteq> TASK_DELETED" using t(2) st f1 by simp_all
  note m = mark_deleted [OF k1 t(1) t1, folded s2_def]
  note f = mark_deleted_frame [where t = t and s = s1, folded s2_def]
  note sm = same_more(1,2,10) [OF f(1)]
  have rp: "resched_pending s2 = resched_pending s1"
    by (simp add: s2_def sched_mark_deleted_def sched_ready_remove_def sched_timeout_remove_def Let_def)
  have e: "tasks s' = tasks s2" "lnk s' = lnk s2" "current_task s' = current_task s2" "idle_task s' = idle_task s2"
    "sys_heap s' = sys_heap s2" "sys_handles s' = sys_handles s2"
    "task_count s' = (if task_count s = 0 then 0 else task_count s - 1)"
    "resched_pending s' = (resched_pending s \<or> t = current_task s)"
    using sm f1(8,9) rp by (simp_all add: s'_def s3_def)
  have "kinv T W s'" by (rule kinv_frame [OF m(1)]) (simp_all add: s'_def s3_def)
  moreover have "res_ok s'" using h1(1) sm by (simp add: res_ok_def e)
  moreover have "owns T s'" by (rule owns_cong [OF o]) (simp_all add: e f f1 sm)
  moreover have "\<forall>u. u \<noteq> t \<longrightarrow> tasks s' u = tasks s u" using f(5) f1(6) by (simp add: e)
  moreover have "\<forall>h\<in>kheads W. klist s' h = (if h = DeletedHead then klist s h @ [StateNode t]
       else remove1 (StateNode t) (remove1 (TimeoutNode t) (klist s h)))"
    using m(3) f1(3) by (simp add: e)
  ultimately show ?thesis
    using eq m(2) f f1 h1(2) sm e by (intro exI [of _ s']) simp
qed

subsection \<open>The clean-up\<close>

lemma pop_deleted_more: "kstate.more (snd (sched_pop_deleted s)) = kstate.more s"
  by (simp add: sched_pop_deleted_def Let_def)

lemma pop_deleted_lists:
  assumes k: "kinv T W s" and x: "klist s DeletedHead = StateNode t # xs" and h: "h \<in> kheads W"
  shows "klist (snd (sched_pop_deleted s)) h =
    filter (\<lambda>y. y \<noteq> StateNode t \<and> y \<noteq> MasterNode t) (klist s h)"
proof -
  note b = kinv_kbase [OF k] and d = items_distinct
  have m: "StateNode t \<in> set (klist s DeletedHead)" by (simp add: x)
  have t: "t \<in> T" using state_head_item [OF b _ _ m] by auto
  let ?l = "list_del_init (StateNode t) (lnk s)"
  have wf: "lists_wf ?l (kheads W) (knodes T)" using list_del_init_wf [OF kbaseD(3) [OF b]] t by simp
  have ne: "(\<noteq>) z = (\<lambda>y. y \<noteq> z)" for z :: knode by auto
  have 1: "items ?l h = filter (\<lambda>y. y \<noteq> StateNode t) (klist s h)"
    using klist_del_init(1) [OF b _ h, of "StateNode t"] t items_distinct [OF kbaseD(3) [OF b] h]
    by (simp add: distinct_remove1_removeAll removeAll_filter_not_eq ne)
  have "items (list_del_init (MasterNode t) ?l) h = filter (\<lambda>y. y \<noteq> MasterNode t) (items ?l h)"
    using items_list_del_init [OF wf _ h, of "MasterNode t"] t items_distinct [OF wf h]
    by (simp add: distinct_remove1_removeAll removeAll_filter_not_eq ne)
  moreover have "\<not> list_empty DeletedHead (lnk s)" "nxt (lnk s) DeletedHead = StateNode t"
    using klist_first [OF b _ x] by simp_all
  ultimately show ?thesis by (simp add: sched_pop_deleted_def 1 conj_commute)
qed

lemma cleanup_loop:
  "kinv T W s \<Longrightarrow> res_ok s \<Longrightarrow> owns T s \<Longrightarrow> klist s DeletedHead = map StateNode ts \<Longrightarrow>
    current_task s \<notin> set ts \<Longrightarrow>
    \<exists>s'. task_cleanup_deleted s = Some s' \<and> kinv (T - set ts) W s' \<and> res_ok s' \<and> owns (T - set ts) s' \<and>
      klist s' DeletedHead = [] \<and> tasks s' = tasks s \<and> current_task s' = current_task s \<and>
      sys_handles s' = sys_handles s \<and> task_count s' = task_count s \<and>
      (\<forall>h\<in>kheads W. klist s' h = filter (\<lambda>y. \<forall>t\<in>set ts. y \<noteq> StateNode t \<and> y \<noteq> MasterNode t) (klist s h)) \<and>
      live_blocks s' = (\<lambda>p. if p \<in> set ts \<union> (\<lambda>t. stack_base (tasks s t)) ` set ts then None else live_blocks s p)"
proof (induction ts arbitrary: T s)
  case Nil
  have "sched_pop_deleted s = (0, s)"
    using pop_deleted_empty [OF kinv_kbase [OF Nil(1)]] Nil(4) by simp
  then have "task_cleanup_deleted s = Some s" by (subst task_cleanup_deleted.simps) simp
  then show ?case using Nil by simp
next
  case (Cons t ts)
  have x: "klist s DeletedHead = StateNode t # map StateNode ts" and c: "t \<noteq> current_task s"
    using Cons.prems(4,5) by auto
  note p = pop_deleted [OF Cons.prems(1) x c]
  define s1 where "s1 = snd (sched_pop_deleted s)"
  note p1 = p [folded s1_def]
  have t0: "t \<noteq> 0" using kbaseD(1) [OF kinv_kbase [OF Cons.prems(1)]] p(2) by blast
  note sm = same_more(1,2,10) [OF pop_deleted_more [of s, folded s1_def]]
  note pl = pop_deleted_lists [OF Cons.prems(1) x, folded s1_def]
  have ow: "live_blocks s t \<noteq> None" "live_blocks s (stack_base (tasks s t)) \<noteq> None" "t \<noteq> stack_base (tasks s t)"
    using Cons.prems(3) p(2) unfolding owns_def by blast+
  have r1: "res_ok s1" using Cons.prems(2) by (simp add: res_ok_def sm)
  let ?st = "stack_base (tasks s t)"
  obtain m n where mn: "live_blocks s1 ?st = Some m" "live_blocks s1 t = Some n" using ow by (auto simp: sm)
  note g1 = sys_free_null [OF r1 mn(1)]
  have n2: "live_blocks (sys_free ?st s1) t = Some n" using g1(2) mn(2) ow(3) by simp
  note g2 = sys_free_null [OF g1(1) n2]
  define s2 where "s2 = sys_free t (sys_free ?st s1)"
  have e: "task_cleanup_deleted s = task_cleanup_deleted s2"
    using p1(1) t0 by (subst task_cleanup_deleted.simps) (simp add: Let_def s2_def p1(5) flip: s1_def)
  have f2: "tasks s2 = tasks s" "current_task s2 = current_task s" "lnk s2 = lnk s1" "sys_handles s2 = sys_handles s"
    "task_count s2 = task_count s"
    using p1(5,6) sm by (simp_all add: s2_def sys_free_def)
  have l2: "live_blocks s2 = (live_blocks s)(?st := None, t := None)"
    using g2(2) g1(2) by (simp add: s2_def sm)
  have k2: "kinv (T - {t}) W s2" unfolding s2_def sys_free_def using p1(3) by simp
  have o2: "owns (T - {t}) s2"
  proof -
    have o: "owns (T - {t}) s" by (rule owns_subset [OF Cons.prems(3)]) blast
    have "live_blocks s2 u \<noteq> None \<and> live_blocks s2 (stack_base (tasks s u)) \<noteq> None" if "u \<in> T - {t}" for u
    proof -
      have "u \<in> T" "u \<noteq> t" "u \<noteq> ?st" "stack_base (tasks s u) \<noteq> t" "stack_base (tasks s u) \<noteq> ?st"
        "live_blocks s u \<noteq> None" "live_blocks s (stack_base (tasks s u)) \<noteq> None"
        using Cons.prems(3) p(2) that unfolding owns_def inj_on_def by blast+
      then show ?thesis by (simp add: l2)
    qed
    with o show ?thesis unfolding owns_def f2 by blast
  qed
  have d2: "klist s2 DeletedHead = map StateNode ts" using p1(4) by (simp add: f2)
  have c2: "current_task s2 \<notin> set ts" using Cons.prems(5) by (simp add: f2)
  have r2: "res_ok s2" using g2(1) by (simp add: s2_def)
  from Cons.IH [OF k2 r2 o2 d2 c2] obtain s' where s': "task_cleanup_deleted s2 = Some s'"
    "kinv (T - {t} - set ts) W s'" "res_ok s'" "owns (T - {t} - set ts) s'" "klist s' DeletedHead = []"
    "tasks s' = tasks s2" "current_task s' = current_task s2" "sys_handles s' = sys_handles s2"
    "task_count s' = task_count s2"
    "\<forall>h\<in>kheads W. klist s' h = filter (\<lambda>y. \<forall>t\<in>set ts. y \<noteq> StateNode t \<and> y \<noteq> MasterNode t) (klist s2 h)"
    "live_blocks s' = (\<lambda>p. if p \<in> set ts \<union> (\<lambda>t. stack_base (tasks s2 t)) ` set ts then None else live_blocks s2 p)"
    by blast
  have T: "T - {t} - set ts = T - set (t # ts)" by auto
  have "live_blocks s' = (\<lambda>p. if p \<in> set (t # ts) \<union> (\<lambda>t. stack_base (tasks s t)) ` set (t # ts) then None
      else live_blocks s p)"
    unfolding s'(11) f2(1) l2 by auto
  moreover have "\<forall>h\<in>kheads W. klist s' h =
      filter (\<lambda>y. \<forall>t\<in>set (t # ts). y \<noteq> StateNode t \<and> y \<noteq> MasterNode t) (klist s h)"
    using s'(10) pl by (auto simp: f2 intro!: filter_cong)
  ultimately show ?case using e s'(1-9) T f2 by (intro exI [of _ s'] conjI) simp_all
qed

lemma deleted_nodes:
  assumes "kinv T W s"
  shows "\<exists>ts. klist s DeletedHead = map StateNode ts"
proof -
  have "x \<in> range StateNode" if "x \<in> set (klist s DeletedHead)" for x
    using state_head_item [OF kinv_kbase [OF assms], of DeletedHead x] that by auto
  then have "klist s DeletedHead \<in> lists (range StateNode)" by auto
  then show ?thesis by (metis (no_types, lifting) ex_map_conv in_listsD rangeE)
qed

end
