(* ===== verification/TaskProps.thy ===== *)
theory TaskProps
  imports TaskLife
begin

unbundle bit_operations_syntax

text \<open>
  The properties of tasks: creation, the initial frame, deletion and the clean-up, with instances
  on a kernel right after \<^verbatim>\<open>task_init\<close>.
\<close>

subsection \<open>A kernel without tasks\<close>

definition demo_env :: board_env where
  "demo_env = \<lparr>env_gp = 0x3fc80800, env_tp = 0, fn_task_exit_trap = 0x42000200,
     fn_idle_task = 0x42000300, fn_SysTick_Handler = 0x42000400\<rparr>"

definition demo_start :: sys where
  "demo_start = task_init blank_sys"

lemma demo_start_facts:
  "kinv {} {} demo_start" "res_ok demo_start" "owns {} demo_start" "task_count demo_start = 0"
  "sys_heap demo_start = demo_heap" "live_blocks demo_start = Map.empty" "klist demo_start DeletedHead = []"
  "current_task demo_start = 0" "idle_task demo_start = 0"
proof -
  have n: "\<not> sched_initialized blank_sys" "\<not> task_initialized blank_sys" by (simp_all add: blank_sys_def)
  have e: "demo_start = (sched_init blank_sys)\<lparr>task_count := 0, task_initialized := True\<rparr>"
    using n by (simp add: demo_start_def task_init_def)
  show "kinv {} {} demo_start" unfolding e by (rule kinv_frame [OF sched_init_kinv [OF n(1)]]) simp_all
  note m = same_more(1,2) [OF more_simps(3) [of blank_sys]]
  show h: "sys_heap demo_start = demo_heap" unfolding e using m by (simp add: blank_sys_def)
  show "res_ok demo_start" unfolding res_ok_def h
    unfolding e using m demo_heap(2) demo_handles by (simp add: blank_sys_def)
  show "owns {} demo_start" by (simp add: owns_def)
  show "task_count demo_start = 0" by (simp add: e)
  show "live_blocks demo_start = Map.empty" by (simp add: h demo_heap(4))
  show "klist demo_start DeletedHead = []"
    using boot_links_wf(2) [of DeletedHead] by (simp add: e sched_init_links [OF n(1)])
  show "current_task demo_start = 0" "idle_task demo_start = 0" using n(1) by (simp_all add: e sched_init_def)
qed

text \<open>A heap whose last block is free and large enough serves the two blocks of a task from it.\<close>

lemma last_block_serves:
  assumes ok: "heap_ok h" and n: "n \<noteq> 0" "unat n + 7 < 2 ^ 32" "8 dvd unat n"
    and v: "view h = bs @ [(a, m, True)]" "\<forall>(x, k, f)\<in>set bs. \<not> f" "unat n + 24 \<le> m"
  shows "\<exists>p h'. malloc n h = Some (p, h') \<and> p \<noteq> 0 \<and> heap_wf h' \<and>
    hview h' = (bs @ [(a, unat n, False)]) @ [(a + 16 + unat n, m - unat n - 16, True)]"
proof -
  have e: "unat (align_size n) = unat n"
    using n(3) by (auto simp: align_size_exact [OF n(2)] elim!: dvdE)
  have "first_fit (unat n) (bs @ [(a, m, True)]) =
      Some (a, bs @ [(a, unat n, False), (a + 16 + unat n, m - unat n - 16, True)])"
    using v(2,3) by (induction bs) (auto simp: cut_block_def)
  then obtain p h' where "malloc n h = Some (p, h')" "unat p = a + 16" "heap_wf h'"
    "hview h' = bs @ [(a, unat n, False), (a + 16 + unat n, m - unat n - 16, True)]"
    using malloc_view [OF ok n(1)] by (auto simp: e v(1))
  then show ?thesis by auto
qed

lemma create_in_last_block:
  assumes a: "task_args_ok entry bytes pr" "task_count s < RTOS_TASK_MAX" and h: "heap_ok (sys_heap s)"
    and r: "task_round bytes = bytes" "unat bytes + 7 < 2 ^ 32" "8 dvd unat bytes"
    and v: "view (sys_heap s) = bs @ [(b, m, True)]" "\<forall>(x, k, f)\<in>set bs. \<not> f" "unat bytes + 136 \<le> m"
  shows "\<exists>t s'. task_create_kernel env name entry arg bytes pr s = Some (t, s') \<and> t \<noteq> 0 \<and> heap_ok (sys_heap s') \<and>
    sys_handles s' = sys_handles s \<and> view (sys_heap s') = (bs @ [(b, 96, False), (b + 112, unat bytes, False)]) @
      [(b + unat bytes + 128, m - unat bytes - 128, True)]"
proof -
  have nz: "bytes \<noteq> 0" using a(1) by (auto simp: task_args_ok_def)
  obtain p h1 where 1: "malloc 96 (sys_heap s) = Some (p, h1)" "p \<noteq> 0" "heap_wf h1"
    "hview h1 = (bs @ [(b, 96, False)]) @ [(b + 112, m - 112, True)]"
    using last_block_serves [OF h _ _ _ v(1,2), of 96] v(3) by auto
  have f: "\<forall>(x, k, f)\<in>set (bs @ [(b, 96, False)]). \<not> f" using v(2) by auto
  have l: "unat bytes + 24 \<le> m - 112" using v(3) by simp
  obtain q h2 where 2: "malloc bytes h1 = Some (q, h2)" "q \<noteq> 0" "heap_wf h2"
    "hview h2 = ((bs @ [(b, 96, False)]) @ [(b + 112, unat bytes, False)]) @
      [(b + 112 + 16 + unat bytes, m - 112 - unat bytes - 16, True)]"
    using last_block_serves [OF heap_wf_ok [OF 1(3)] nz r(2,3) _ f l] 1(3,4) by auto
  have hv: "heap_wf (h2\<lparr>heap_bytes := x\<rparr>)" for x using 2(3) by (simp add: heap_wf_def)
  have sm: "sys_heap (sched_add_task u w) = sys_heap w" "sys_handles (sched_add_task u w) = sys_handles w"
    for u and w :: "'a sys_scheme"
    using same_more(1,2) [OF enqueue_more(2)] by metis+
  obtain sp x where fr: "arch_task_init_frame env q bytes entry arg (heap_bytes h2) = (sp, x)" by fastforce
  have "\<exists>s'. task_create_kernel env name entry arg bytes pr s = Some (p, s') \<and> sys_heap s' = h2\<lparr>heap_bytes := x\<rparr> \<and>
      sys_handles s' = sys_handles s"
    using 1(1,2) 2(1,2) fr
    by (simp add: task_create_kernel_eq [OF a] sys_malloc_def sizeof_task_def r Let_def sm upd_bytes_def upd_task_def upd_lnk_def)
  then show ?thesis
    using 1(2) 2(4) hv [of x] heap_wf_ok [OF hv [of x]] by (auto simp: algebra_simps)
qed

lemma demo_create:
  "\<exists>t s'. task_create_kernel demo_env None 0x42000000 7 256 5 demo_start = Some (t, s') \<and> t \<noteq> 0"
proof -
  have ok: "task_args_ok 0x42000000 256 5" "task_count demo_start < RTOS_TASK_MAX"
    by (simp_all add: task_args_ok_def demo_start_facts RTOS_TASK_MAX_def)
  show ?thesis
    using create_in_last_block [OF ok, of "[]" "0x1000" "0xff0" demo_env None 7] demo_heap(2,3)
    by (auto simp: demo_start_facts(5) task_round_def)
qed

lemma demo_created:
  "\<exists>t (s1 :: sys). t \<noteq> 0 \<and> kinv {t} {} s1 \<and> res_ok s1 \<and> owns {t} s1 \<and> current_task s1 = 0 \<and>
     idle_task s1 = 0 \<and> task_state (tasks s1 t) = TASK_READY \<and> klist s1 DeletedHead = []"
proof -
  obtain t s' where c: "task_create_kernel demo_env None 0x42000000 7 256 5 demo_start = Some (t, s')" "t \<noteq> 0"
    using demo_create by blast
  have ok: "task_args_ok 0x42000000 256 5" "task_count demo_start < RTOS_TASK_MAX"
    by (simp_all add: task_args_ok_def demo_start_facts RTOS_TASK_MAX_def)
  show ?thesis
    using task_create_cases [OF demo_start_facts(1-3) ok, of demo_env None 7] c demo_start_facts(7-9)
    by (intro exI [of _ t] exI [of _ s']) (auto simp: new_task_def)
qed

lemma demo_deleted:
  "\<exists>t (s2 :: sys). kinv {t} {} s2 \<and> res_ok s2 \<and> owns {t} s2 \<and> current_task s2 \<noteq> t \<and>
     klist s2 DeletedHead = [StateNode t]"
proof -
  obtain t and s1 :: sys where d: "t \<noteq> 0" "kinv {t} {} s1" "res_ok s1" "owns {t} s1" "current_task s1 = 0"
     "idle_task s1 = 0" "task_state (tasks s1 t) = TASK_READY" "klist s1 DeletedHead = []"
    using demo_created by blast
  have "t \<in> {t}" "t \<noteq> idle_task s1" "task_state (tasks s1 t) \<noteq> TASK_DELETED"
    "t = (if t = 0 then current_task s1 else t)" "t \<noteq> current_task s1 \<or> \<not> sched_is_locked s1"
    using d by simp_all
  from task_delete_cases [OF d(2-4) this] obtain s2 :: sys where
    s2: "kinv {t} {} s2" "res_ok s2" "owns {t} s2" "current_task s2 = current_task s1"
    "\<forall>h\<in>kheads {}. klist s2 h = (if h = DeletedHead then klist s1 h @ [StateNode t]
       else remove1 (StateNode t) (remove1 (TimeoutNode t) (klist s1 h)))" by blast
  have "klist s2 DeletedHead = [StateNode t]" using s2(5) d(8) by simp
  with s2 d(1,5) show ?thesis by (intro exI [of _ t] exI [of _ s2]) simp
qed

subsection \<open>Creation\<close>

lemma stack_frame_fits:
  assumes "heap_ok h" and "live_allocs h stack = Some n" and "unat (task_round bytes) \<le> n"
    and "arch_task_init_frame env stack (task_round bytes) entry arg f = (sp, m)"
    and "task_round bytes \<noteq> 0" and "144 \<le> unat bytes" and "144 < unat bytes \<or> 16 dvd unat stack"
  shows "unat stack \<le> unat sp \<and> unat sp + 144 \<le> unat stack + unat (task_round bytes)"
proof -
  note l = live_in_heap [OF assms(1,2)]
  note rd = task_round_ge [OF assms(5,6)]
  have e: "unat stack + unat (task_round bytes) < 2 ^ 32"
    using l(2) assms(3) unat_u32_less [of "heap_end_addr (heap_init_once h)"] by simp
  have b: "16 \<le> unat stack" using l(1) by simp
  have r: "144 \<le> unat (task_round bytes)" using rd(1) assms(6) by simp
  note p = init_frame_place [OF assms(4) e r b]
  have md: "(unat stack + unat (task_round bytes)) mod 16 = unat stack mod 16"
    using rd(2) by (auto elim!: dvdE simp: mod_add_eq)
  have s: "unat stack mod 16 = 0 \<or> unat stack mod 16 = 8" using l(3) by (auto elim!: dvdE) presburger+
  show ?thesis
  proof (cases "unat stack mod 16 = 0")
    case True
    then show ?thesis using p md r by simp
  next
    case False
    then have "144 < unat (task_round bytes)" using assms(7) rd(1) by auto
    then have "160 \<le> unat (task_round bytes)" using rd(2) by (auto elim!: dvdE)
    then show ?thesis using p md s False by simp
  qed
qed

text \<open>C17. Creating a task.  Bad arguments (no entry, a stack smaller than a frame, a priority above 31)
  and a full task table are refused and change nothing.  Otherwise the call ends.  With not enough
  memory it gives the null pointer, the live blocks are those of before, and nothing but the heap is
  touched, no list, task, handle or count.  On success, if the stack is larger than a bare frame or
  starts at a multiple of 16, the initial frame lies inside the stack; the new task has two fresh
  blocks of sufficient size and the fields the code sets, and is ready at the tail of the ready list of its
  priority; every other list and task is as before and the scheduler invariant holds for one
  task more.  Of a stack of exactly 144 bytes at an odd multiple of 8 nothing is said: by
  the layout of the frame, C18, its frame overwrites the header of the block.\<close>

theorem task_create_outcomes:
  assumes "kinv T W s" and "res_ok s" and "owns T s"
  shows "if entry = 0 \<or> unat bytes < 144 \<or> 31 < unat pr \<or> RTOS_TASK_MAX \<le> task_count s
    then task_create_kernel env name entry arg bytes pr s = Some (0, s)
    else \<exists>t s'. task_create_kernel env name entry arg bytes pr s = Some (t, s') \<and>
      (if t = 0
       then s' = s\<lparr>sys_heap := sys_heap s'\<rparr> \<and> res_ok s' \<and> kinv T W s' \<and> owns T s' \<and>
         live_blocks s' = live_blocks s
       else let stack = stack_base (tasks s' t); sp = task_sp (tasks s' t) in
         144 < unat bytes \<or> 16 dvd unat stack \<longrightarrow>
           unat stack \<le> unat sp \<and> unat sp + 144 \<le> unat stack + unat (task_round bytes) \<and>
           t \<notin> T \<and> kinv (insert t T) W s' \<and> res_ok s' \<and> owns (insert t T) s' \<and>
           current_task s' = current_task s \<and> idle_task s' = idle_task s \<and> sys_handles s' = sys_handles s \<and>
           task_count s' = task_count s + 1 \<and>
           live_blocks s t = None \<and> live_blocks s stack = None \<and> t \<noteq> stack \<and>
           (\<exists>m n. live_blocks s' = (live_blocks s)(t \<mapsto> m, stack \<mapsto> n) \<and> 96 \<le> m \<and>
             unat bytes \<le> n \<and> unat (task_round bytes) \<le> n) \<and>
           (\<exists>f. arch_task_init_frame env stack (task_round bytes) entry arg f = (sp, heap_bytes (sys_heap s'))) \<and>
           tasks s' = (tasks s)(t := new_task name sp stack (task_round bytes) entry arg pr) \<and>
           (\<forall>h\<in>kheads W. klist s' h =
             (if h = MasterHead then klist s h @ [MasterNode t]
              else if h = ReadyHead (unat pr) then klist s h @ [StateNode t] else klist s h)))"
proof (cases "task_args_ok entry bytes pr \<and> task_count s < RTOS_TASK_MAX")
  case True
  then have no: "\<not> (entry = 0 \<or> unat bytes < 144 \<or> 31 < unat pr \<or> RTOS_TASK_MAX \<le> task_count s)"
    by (auto simp: task_args_ok_def not_le)
  obtain t s' where c: "task_create_kernel env name entry arg bytes pr s = Some (t, s')" "res_ok s'"
    "current_task s' = current_task s" "idle_task s' = idle_task s" "sys_handles s' = sys_handles s"
    and z: "t = 0 \<longrightarrow> kinv T W s' \<and> owns T s' \<and> live_blocks s' = live_blocks s \<and> s' = s\<lparr>sys_heap := sys_heap s'\<rparr>"
    and nz: "t \<noteq> 0 \<longrightarrow> t \<notin> T \<and> kinv (insert t T) W s' \<and> owns (insert t T) s' \<and>
       task_count s' = task_count s + 1 \<and>
       (\<exists>m n sp stack f. live_blocks s t = None \<and> live_blocks s stack = None \<and> t \<noteq> stack \<and>
         live_blocks s' = (live_blocks s)(t \<mapsto> m, stack \<mapsto> n) \<and> 96 \<le> m \<and> unat bytes \<le> n \<and>
         unat (task_round bytes) \<le> n \<and> task_round bytes \<noteq> 0 \<and>
         arch_task_init_frame env stack (task_round bytes) entry arg f = (sp, heap_bytes (sys_heap s')) \<and>
         tasks s' = (tasks s)(t := new_task name sp stack (task_round bytes) entry arg pr)) \<and>
       (\<forall>h\<in>kheads W. klist s' h =
         (if h = MasterHead then klist s h @ [MasterNode t]
          else if h = ReadyHead (unat pr) then klist s h @ [StateNode t] else klist s h))"
    using task_create_cases [OF assms, of entry bytes pr env name arg] True by blast
  show ?thesis
  proof (cases "t = 0")
    case True
    then show ?thesis using c z unfolding if_not_P [OF no] by (intro exI [of _ t] exI [of _ s']) simp
  next
    case False
    then obtain m n sp stack f where n: "live_blocks s t = None" "live_blocks s stack = None" "t \<noteq> stack"
      "live_blocks s' = (live_blocks s)(t \<mapsto> m, stack \<mapsto> n)" "96 \<le> m" "unat bytes \<le> n"
      "unat (task_round bytes) \<le> n"
      "arch_task_init_frame env stack (task_round bytes) entry arg f = (sp, heap_bytes (sys_heap s'))"
      "tasks s' = (tasks s)(t := new_task name sp stack (task_round bytes) entry arg pr)" "task_round bytes \<noteq> 0"
      using nz by blast
    have tk: "stack_base (tasks s' t) = stack" "task_sp (tasks s' t) = sp" by (simp_all add: n(9) new_task_def)
    have fit: "unat stack \<le> unat sp \<and> unat sp + 144 \<le> unat stack + unat (task_round bytes)"
      if "144 < unat bytes \<or> 16 dvd unat stack"
    proof -
      have l: "live_blocks s' stack = Some n" using n(3,4) by simp
      have ok: "heap_ok (sys_heap s')" using c(2) by (simp add: res_ok_def)
      from stack_frame_fits [OF ok l n(7,8,10) _ that] no show ?thesis by simp
    qed
    show ?thesis
      using c nz False n(1-9) tk fit unfolding if_not_P [OF no]
      by (intro exI [of _ t] exI [of _ s']) (simp only: Let_def if_False simp_thms; blast)
  qed
next
  case False
  then have bad: "entry = 0 \<or> unat bytes < 144 \<or> 31 < unat pr \<or> RTOS_TASK_MAX \<le> task_count s"
    by (auto simp: task_args_ok_def)
  have "task_create_kernel env name entry arg bytes pr s = Some (0, s)"
    using False task_args_ok_iff [of entry bytes pr] by (auto simp: task_create_kernel_def)
  then show ?thesis using bad by simp
qed

lemma task_create_outcomes_witness:
  "task_create_kernel demo_env None 0x42000000 7 143 5 demo_start = Some (0, demo_start) \<and>
   (\<exists>t s'. task_create_kernel demo_env None 0x42000000 7 256 5 demo_start = Some (t, s') \<and> t \<noteq> 0 \<and>
      kinv {t} {} s' \<and> klist s' (ReadyHead 5) = klist demo_start (ReadyHead 5) @ [StateNode t] \<and>
      unat (stack_base (tasks s' t)) \<le> unat (task_sp (tasks s' t)))"
proof -
  have refused: "task_create_kernel demo_env None 0x42000000 7 143 5 demo_start = Some (0, demo_start)"
    using task_create_outcomes [OF demo_start_facts(1-3), of "0x42000000" 143 5 demo_env None 7] by simp
  obtain t s' where c: "task_create_kernel demo_env None 0x42000000 7 256 5 demo_start = Some (t, s')" "t \<noteq> 0"
    using demo_create by blast
  have ok: "\<not> ((0x42000000 :: ptr) = 0 \<or> unat (256 :: u32) < 144 \<or> 31 < unat (5 :: u8) \<or>
      RTOS_TASK_MAX \<le> task_count demo_start)"
    by (simp add: demo_start_facts RTOS_TASK_MAX_def)
  have "144 < unat (256 :: u32)" by simp
  from task_create_outcomes [OF demo_start_facts(1-3), of "0x42000000" 256 5 demo_env None 7, unfolded if_not_P [OF ok]]
  have "kinv {t} {} s' \<and> klist s' (ReadyHead 5) = klist demo_start (ReadyHead 5) @ [StateNode t] \<and>
      unat (stack_base (tasks s' t)) \<le> unat (task_sp (tasks s' t))"
    using c by (simp add: Let_def)
  then show ?thesis using refused c by blast
qed

text \<open>C18. The initial frame makes the first return from a trap start the task: the return address is the
  exit routine, \<^verbatim>\<open>a0\<close> the argument, \<^verbatim>\<open>mepc\<close> the entry, \<^verbatim>\<open>mstatus\<close> machine mode with interrupts on
  after the return, \<^verbatim>\<open>gp\<close> and \<^verbatim>\<open>tp\<close> those of the creator, every other register zero; no byte outside the
  33 words changes.  The frame ends at the end of the stack rounded down to 16 bytes.  It lies in
  the stack exactly if the stack is larger than a frame by at least that rounding.\<close>

theorem task_frame_layout:
  assumes "arch_task_init_frame env base bytes entry arg m = (frame, m')"
    and "unat base + unat bytes < 2 ^ 32" and "144 \<le> unat bytes" and "16 \<le> unat base"
  shows "(\<forall>i<33. load32 (frame_word frame i) m' =
      (if i = 0 then fn_task_exit_trap env else if i = 1 then env_gp env else if i = 2 then env_tp env
       else if i = 8 then arg else if i = 31 then entry
       else if i = 32 then ARCH_MSTATUS_MPP_M OR ARCH_MSTATUS_MPIE else 0)) \<and>
    (\<forall>a. a \<notin> region frame 132 \<longrightarrow> m' a = m a) \<and>
    unat frame + 144 = 16 * ((unat base + unat bytes) div 16) \<and>
    (unat base \<le> unat frame \<longleftrightarrow> 144 + (unat base + unat bytes) mod 16 \<le> unat bytes)"
proof -
  have "load32 (frame_word frame i) m' =
      (if i = 0 then fn_task_exit_trap env else if i = 1 then env_gp env else if i = 2 then env_tp env
       else if i = 8 then arg else if i = 31 then entry
       else if i = 32 then ARCH_MSTATUS_MPP_M OR ARCH_MSTATUS_MPIE else 0)" if "i < 33" for i
    using init_frame_words [OF assms(1) that]
    by (simp add: initial_word_def ARCH_MSTATUS_MPP_M_def ARCH_MSTATUS_MPIE_def)
  moreover note p = init_frame_place [OF assms]
  have "unat frame + 144 = 16 * ((unat base + unat bytes) div 16)"
    using p mult_div_mod_eq [of 16 "unat base + unat bytes"] by linarith
  moreover have "unat base \<le> unat frame \<longleftrightarrow> 144 + (unat base + unat bytes) mod 16 \<le> unat bytes"
    using p by linarith
  ultimately show ?thesis using init_frame_outside [OF assms(1)] by blast
qed

text \<open>The heap aligns its blocks to eight bytes only.  A stack of the smallest accepted size at an
  odd multiple of eight gets a frame that starts eight bytes before the stack.\<close>

lemma task_frame_layout_witness:
  "\<exists>frame m'. arch_task_init_frame demo_env 0x1018 144 0x42000000 7 (\<lambda>_. 0) = (frame, m') \<and>
     load32 (frame_word frame 31) m' = 0x42000000 \<and> unat frame = 0x1010"
proof -
  obtain frame m' where f: "arch_task_init_frame demo_env 0x1018 144 0x42000000 7 (\<lambda>_. 0) = (frame, m')"
    by fastforce
  note t = task_frame_layout [OF f]
  have "load32 (frame_word frame 31) m' = 0x42000000" "unat frame + 144 = 16 * ((0x1018 + 144) div 16)"
    using t by simp_all
  then show ?thesis using f by auto
qed

subsection \<open>Deletion\<close>

text \<open>Deleting a task.  There is an error for the idle task and for no task, for a task already
  deleted, and for the running task under a locked scheduler, and nothing changes.  Otherwise the
  task leaves every list it was in, joins the deleted tasks, its handle is closed, the count
  drops, and a task that deletes itself asks for a switch; the invariant holds, no memory is
  given back yet and no other task changes.\<close>

theorem task_delete_outcomes:
  assumes "kinv T W s" and "res_ok s" and "owns T s" and "arg = 0 \<or> arg \<in> T"
  defines "t \<equiv> if arg = 0 then current_task s else arg"
  shows "if t = 0 \<or> t = idle_task s then task_delete_mark arg s = (ERR_INVAL, False, s)
    else if task_state (tasks s t) = TASK_DELETED then task_delete_mark arg s = (ERR_STATE, False, s)
    else if t = current_task s \<and> sched_is_locked s then task_delete_mark arg s = (ERR_LOCKED, False, s)
    else \<exists>s'. task_delete_mark arg s = (ERR_OK, t = current_task s, s') \<and> kinv T W s' \<and> res_ok s' \<and>
      owns T s' \<and> task_state (tasks s' t) = TASK_DELETED \<and> (\<forall>u. u \<noteq> t \<longrightarrow> tasks s' u = tasks s u) \<and>
      (\<forall>h\<in>kheads W. klist s' h = (if h = DeletedHead then klist s h @ [StateNode t]
         else remove1 (StateNode t) (remove1 (TimeoutNode t) (klist s h)))) \<and>
      live_blocks s' = live_blocks s \<and> open_handles s' = (open_handles s)(task_handle (tasks s t) := None) \<and>
      task_count s' = (if task_count s = 0 then 0 else task_count s - 1) \<and>
      resched_pending s' = (resched_pending s \<or> t = current_task s)"
proof (cases "t = 0 \<or> t = idle_task s \<or> task_state (tasks s t) = TASK_DELETED \<or>
    t = current_task s \<and> sched_is_locked s")
  case True
  have u: "task_delete_mark arg s = (if t = 0 \<or> t = idle_task s then (ERR_INVAL, False, s)
      else if task_state (tasks s t) = TASK_DELETED then (ERR_STATE, False, s)
      else (ERR_LOCKED, False, s))"
    unfolding task_delete_mark_def t_def [symmetric] Let_def using True by (simp cong: if_cong) blast
  show ?thesis unfolding u using True by (simp cong: if_cong) blast
next
  case False
  then have n: "\<not> (t = 0 \<or> t = idle_task s)" "\<not> task_state (tasks s t) = TASK_DELETED"
    "\<not> (t = current_task s \<and> sched_is_locked s)" "t \<noteq> idle_task s"
    "t \<noteq> current_task s \<or> \<not> sched_is_locked s" by blast+
  have a: "t = (if arg = 0 then current_task s else arg)" by (simp add: t_def)
  have T: "t \<in> T" using assms(4) n(1) kbaseD(8) [OF kinv_kbase [OF assms(1)]] by (cases "arg = 0") (simp_all add: t_def)
  show ?thesis
    unfolding if_not_P [OF n(1)] if_not_P [OF n(2)] if_not_P [OF n(3)]
    using task_delete_cases [OF assms(1-3) T n(4,2) a n(5)] by blast
qed

lemma task_delete_outcomes_witness:
  "\<exists>t (s1 :: sys) s2. task_state (tasks s1 t) = TASK_READY \<and> task_delete_mark t s1 = (ERR_OK, False, s2) \<and>
     task_state (tasks s2 t) = TASK_DELETED"
proof -
  obtain t and s1 :: sys where d: "t \<noteq> 0" "kinv {t} {} s1" "res_ok s1" "owns {t} s1" "current_task s1 = 0"
     "idle_task s1 = 0" "task_state (tasks s1 t) = TASK_READY"
    using demo_created by blast
  have "t = 0 \<or> t \<in> {t}" by simp
  from task_delete_outcomes [OF d(2-4) this] d obtain s2 :: sys where
    "task_delete_mark t s1 = (ERR_OK, False, s2)" "task_state (tasks s2 t) = TASK_DELETED" by auto
  with d(7) show ?thesis by blast
qed

text \<open>C19. The clean-up of the idle task ends whatever the number of deleted tasks, forgets exactly
  them, and gives back exactly their control blocks and stacks.\<close>

theorem cleanup_frees_deleted:
  assumes "kinv T W s" and "res_ok s" and "owns T s"
    and "StateNode (current_task s) \<notin> set (klist s DeletedHead)"
  shows "\<exists>s'. task_cleanup_deleted s = Some s' \<and> res_ok s' \<and> klist s' DeletedHead = [] \<and>
    (let D = {t. StateNode t \<in> set (klist s DeletedHead)} in
      kinv (T - D) W s' \<and> owns (T - D) s' \<and> tasks s' = tasks s \<and>
      live_blocks s' = live_blocks s |` (- (D \<union> (\<lambda>t. stack_base (tasks s t)) ` D)))"
proof -
  obtain ts where ts: "klist s DeletedHead = map StateNode ts" using deleted_nodes [OF assms(1)] by blast
  have D: "{t. StateNode t \<in> set (klist s DeletedHead)} = set ts" by (auto simp: ts)
  have "current_task s \<notin> set ts" using assms(4) by (auto simp: ts)
  from cleanup_loop [OF assms(1-3) ts this] obtain s' where s': "task_cleanup_deleted s = Some s'"
    "kinv (T - set ts) W s'" "res_ok s'" "owns (T - set ts) s'" "klist s' DeletedHead = []" "tasks s' = tasks s"
    "live_blocks s' = (\<lambda>p. if p \<in> set ts \<union> (\<lambda>t. stack_base (tasks s t)) ` set ts then None else live_blocks s p)"
    by blast
  have "live_blocks s' = live_blocks s |` (- (set ts \<union> (\<lambda>t. stack_base (tasks s t)) ` set ts))"
    unfolding s'(7) by (rule ext) (auto simp: restrict_map_def)
  with s' show ?thesis unfolding D Let_def by blast
qed

lemma cleanup_frees_deleted_witness:
  "\<exists>t (s2 :: sys) s'. klist s2 DeletedHead = [StateNode t] \<and> task_cleanup_deleted s2 = Some s' \<and>
     live_blocks s' t = None \<and> kinv {} {} s'"
proof -
  obtain t and s2 :: sys where d: "kinv {t} {} s2" "res_ok s2" "owns {t} s2" "current_task s2 \<noteq> t"
     "klist s2 DeletedHead = [StateNode t]"
    using demo_deleted by blast
  have "StateNode (current_task s2) \<notin> set (klist s2 DeletedHead)" using d(4,5) by simp
  from cleanup_frees_deleted [OF d(1-3) this] obtain s' :: sys where
    "task_cleanup_deleted s2 = Some s'" "kinv {} {} s'" "live_blocks s' t = None"
    by (auto simp: Let_def d(5))
  with d(5) show ?thesis by blast
qed

lemma new_task_nodes:
  assumes "kbase T W s" and "t \<notin> T" and "h \<in> kheads W"
  shows "StateNode t \<notin> set (klist s h)" "MasterNode t \<notin> set (klist s h)" "TimeoutNode t \<notin> set (klist s h)"
  using lists_wfD(3) [OF kbaseD(3) [OF assms(1)] assms(3)] assms(2) by auto

lemma task_count_succ: "task_count s < RTOS_TASK_MAX \<Longrightarrow> task_count s + 1 \<noteq> 0"
proof
  assume "task_count s < RTOS_TASK_MAX" and "task_count s + 1 = 0"
  then have "task_count s = - 1" by (simp add: eq_neg_iff_add_eq_0)
  with \<open>task_count s < RTOS_TASK_MAX\<close> show False by (simp add: RTOS_TASK_MAX_def)
qed

text \<open>A successful call of \<^verbatim>\<open>task_create\<close>: the task of \<^verbatim>\<open>task_create_kernel\<close> with an open handle.\<close>

lemma task_create_opens:
  assumes c: "task_create y env name entry arg bytes pr s = Some (h, s')" and h: "h \<noteq> TRT_HANDLE_INVALID"
    and r: "\<forall>t s1. task_create_kernel env name entry arg bytes pr s = Some (t, s1) \<longrightarrow> res_ok s1"
  obtains t s1 tab where "task_create_kernel env name entry arg bytes pr s = Some (t, s1)" "t \<noteq> 0"
    "s' = upd_task t (\<lambda>k. k\<lparr>task_handle := h\<rparr>) (s1\<lparr>sys_handles := tab\<rparr>)"
    "open_handles s1 h = None" "live_handles tab = (open_handles s1)(h \<mapsto> (t, TRT_OBJ_TASK, TRT_RIGHT_DESTROY))"
    "handle_ok tab"
proof -
  obtain t s1 where 1: "task_create_kernel env name entry arg bytes pr s = Some (t, s1)"
    using c by (auto simp: task_create_def bind_eq_Some_conv)
  have t: "t \<noteq> 0" using c h 1 by (auto simp: task_create_def)
  show ?thesis
  proof (cases rule: sys_handle_alloc_cases [OF r [rule_format, OF 1], of t TRT_OBJ_TASK TRT_RIGHT_DESTROY, case_names Full New])
    case (Full e tab)
    then show ?thesis using c h 1 t by (auto simp: task_create_def bind_eq_Some_conv)
  next
    case (New h' tab)
    then have "h' = h" "s' = upd_task t (\<lambda>k. k\<lparr>task_handle := h\<rparr>) (s1\<lparr>sys_handles := tab\<rparr>)"
      using c 1 t by (auto simp: task_create_def)
    with New 1 t show ?thesis by (intro that [of t s1 tab]) simp_all
  qed
qed

text \<open>C20. The whole life of a task, with a stack larger than a bare frame: a task created by
  \<^verbatim>\<open>task_create\<close>, deleted through its handle by another one and cleaned up by the idle task.  Its handle is
  new and opens the task; in the end the handle is closed, and the kernel has the tasks, the count
  of tasks, every list, the memory and the handles it had.\<close>

theorem task_life_roundtrip:
  assumes "kinv T W s" and "res_ok s" and "owns T s" and "klist s DeletedHead = []"
    and "task_create y env name entry arg bytes pr s = Some (h, s1)" and "h \<noteq> TRT_HANDLE_INVALID"
    and "144 < unat bytes"
  shows "\<exists>t s2 s3. t \<notin> T \<and> task_state (tasks s1 t) = TASK_READY \<and> open_handles s h = None \<and>
    open_handles s1 = (open_handles s)(h \<mapsto> (t, TRT_OBJ_TASK, TRT_RIGHT_DESTROY)) \<and>
    task_count s1 = task_count s + 1 \<and>
    task_delete y h s1 = Some (ERR_OK, s2) \<and> task_cleanup_deleted s2 = Some s3 \<and>
    kinv T W s3 \<and> res_ok s3 \<and> owns T s3 \<and> (\<forall>l\<in>kheads W. klist s3 l = klist s l) \<and>
    live_blocks s3 = live_blocks s \<and> open_handles s3 = open_handles s \<and> task_count s3 = task_count s \<and>
    (\<forall>u. u \<noteq> t \<longrightarrow> tasks s3 u = tasks s u) \<and> current_task s3 = current_task s"
proof -
  note b = kinv_kbase [OF assms(1)]
  obtain t0 s0 where k0: "task_create_kernel env name entry arg bytes pr s = Some (t0, s0)"
    using assms(5) by (auto simp: task_create_def bind_eq_Some_conv)
  have "t0 \<noteq> 0" using assms(5,6) k0 by (auto simp: task_create_def)
  then have a: "task_args_ok entry bytes pr" "task_count s < RTOS_TASK_MAX"
    using k0 task_args_ok_iff [of entry bytes pr]
    by (auto simp: task_create_kernel_def not_le split: if_splits)
  note cases = task_create_cases [OF assms(1-3) a, of env name arg]
  have r: "\<forall>t' s1'. task_create_kernel env name entry arg bytes pr s = Some (t', s1') \<longrightarrow> res_ok s1'"
    using cases by auto
  obtain t sk tab where o: "task_create_kernel env name entry arg bytes pr s = Some (t, sk)" "t \<noteq> 0"
    "s1 = upd_task t (\<lambda>k. k\<lparr>task_handle := h\<rparr>) (sk\<lparr>sys_handles := tab\<rparr>)"
    "open_handles sk h = None" "live_handles tab = (open_handles sk)(h \<mapsto> (t, TRT_OBJ_TASK, TRT_RIGHT_DESTROY))"
    "handle_ok tab"
    using task_create_opens [OF assms(5,6) r] by blast
  obtain m n sp stack where c: "res_ok sk" "current_task sk = current_task s" "idle_task sk = idle_task s"
    "sys_handles sk = sys_handles s" "t \<notin> T" "kinv (insert t T) W sk" "owns (insert t T) sk"
    "task_count sk = task_count s + 1"
    "live_blocks s t = None" "live_blocks s stack = None"
    "live_blocks sk = (live_blocks s)(t \<mapsto> m, stack \<mapsto> n)"
    "tasks sk = (tasks s)(t := new_task name sp stack (task_round bytes) entry arg pr)"
    "\<forall>h\<in>kheads W. klist sk h = (if h = MasterHead then klist s h @ [MasterNode t]
       else if h = ReadyHead (unat pr) then klist s h @ [StateNode t] else klist s h)"
    using cases o(1,2) by auto
  define s1' where "s1' = s1\<lparr>sys_handles := handle_table_init_locked (sys_handles s1)\<rparr>"
  have e: "tasks s1' = (tasks s)(t := (new_task name sp stack (task_round bytes) entry arg pr)\<lparr>task_handle := h\<rparr>)"
    "lnk s1' = lnk sk" "current_task s1' = current_task s" "idle_task s1' = idle_task s"
    "task_count s1' = task_count s + 1" "sys_heap s1' = sys_heap sk" "open_handles s1' = open_handles s1"
    using c(2,3,8) by (simp_all add: s1'_def o(3) c(12) upd_task_def)
  have h1: "open_handles s1 = (open_handles s)(h \<mapsto> (t, TRT_OBJ_TASK, TRT_RIGHT_DESTROY))" "open_handles s h = None"
    using o(4,5) by (simp_all add: o(3) c(4) upd_task_def)
  have k1: "kinv (insert t T) W s1'"
  proof -
    have "kinv (insert t T) W s1" unfolding o(3) by (rule kinv_upd_task_inert) (use c(6) in simp_all)
    then show ?thesis by (simp add: s1'_def)
  qed
  have r1: "res_ok s1'" using c(1) o(6) by (simp add: res_ok_def s1'_def o(3) upd_task_def)
  have o1: "owns (insert t T) s1'" by (rule owns_cong [OF c(7)]) (simp_all add: e c(12))
  have t: "t \<in> insert t T" "t \<noteq> idle_task s1'" "t \<noteq> current_task s1'" "task_state (tasks s1' t) \<noteq> TASK_DELETED"
    "t = (if t = 0 then current_task s1' else t)"
    using kbaseD(8,9) [OF b] c(5) o(2) by (auto simp: e new_task_def)
  have l: "t \<noteq> current_task s1' \<or> \<not> sched_is_locked s1'" using t(3) by blast
  obtain s2 where d: "task_delete_mark t s1' = (ERR_OK, False, s2)" "kinv (insert t T) W s2" "res_ok s2"
    "owns (insert t T) s2" "\<forall>u. u \<noteq> t \<longrightarrow> tasks s2 u = tasks s1' u"
    "\<forall>h\<in>kheads W. klist s2 h = (if h = DeletedHead then klist s1' h @ [StateNode t]
       else remove1 (StateNode t) (remove1 (TimeoutNode t) (klist s1' h)))"
    "live_blocks s2 = live_blocks s1'" "open_handles s2 = (open_handles s1')(task_handle (tasks s1' t) := None)"
    "current_task s2 = current_task s1'" "stack_base (tasks s2 t) = stack_base (tasks s1' t)"
    "task_count s2 = (if task_count s1' = 0 then 0 else task_count s1' - 1)"
    using task_delete_cases [OF k1 r1 o1 t(1,2,4,5) l] t(3) by auto
  have oh: "open_handles s1 h = Some (t, TRT_OBJ_TASK, TRT_RIGHT_DESTROY)" by (simp add: h1)
  have del: "task_delete y h s1 = Some (ERR_OK, s2)"
    using sys_lookup_open [OF oh, of TRT_RIGHT_DESTROY] d(1)
    by (simp add: task_delete_def task_lookup_def with_object_def task_delete_obj_def s1'_def)
  have kl: "klist s1' h = (if h = MasterHead then klist s h @ [MasterNode t]
       else if h = ReadyHead (unat pr) then klist s h @ [StateNode t] else klist s h)" if "h \<in> kheads W" for h
    using c(13) that by (simp add: e)
  have x: "klist s2 DeletedHead = map StateNode [t]" using d(6) kl assms(4) by simp
  have nc: "current_task s2 \<notin> set [t]" using t(3) d(9) by auto
  obtain s3 where f: "task_cleanup_deleted s2 = Some s3" "kinv (insert t T - {t}) W s3" "res_ok s3"
    "owns (insert t T - {t}) s3" "tasks s3 = tasks s2"
    "current_task s3 = current_task s2" "sys_handles s3 = sys_handles s2" "task_count s3 = task_count s2"
    "\<forall>h\<in>kheads W. klist s3 h = filter (\<lambda>y. \<forall>t\<in>set [t]. y \<noteq> StateNode t \<and> y \<noteq> MasterNode t) (klist s2 h)"
    "live_blocks s3 = (\<lambda>p. if p \<in> {t} \<union> {stack_base (tasks s2 t)} then None else live_blocks s2 p)"
    using cleanup_loop [OF d(2,3,4) x nc] by auto
  have lists: "klist s3 h = klist s h" if h: "h \<in> kheads W" for h
  proof -
    have n: "StateNode t \<notin> set (klist s h)" "MasterNode t \<notin> set (klist s h)" "TimeoutNode t \<notin> set (klist s h)"
      using new_task_nodes [OF b c(5) h] by simp_all
    show ?thesis
      using f(9) d(6) kl h n assms(4)
      by (auto simp: remove1_idem remove1_append filter_id_conv)
  qed
  have "insert t T - {t} = T" using c(5) by blast
  moreover have "live_blocks s3 = live_blocks s"
    unfolding f(10) d(7) d(10) using c(9,10,11) by (auto simp: e new_task_def)
  moreover have "open_handles s3 = open_handles s"
    using d(8) h1 by (simp add: f(7) e new_task_def fun_upd_idem)
  moreover have "\<forall>u. u \<noteq> t \<longrightarrow> tasks s3 u = tasks s u" using d(5) by (simp add: f(5) e(1))
  moreover have "task_count s3 = task_count s"
    using d(11) a(2) task_count_succ [OF a(2)] by (simp add: f(8) e(5))
  moreover have "task_state (tasks s1 t) = TASK_READY" "task_count s1 = task_count s + 1"
    using e(1,5) by (simp_all add: s1'_def new_task_def)
  ultimately show ?thesis
    using del c(5) h1 f(1-4) f(6) d(9) e(3) lists by (intro exI [of _ t] exI [of _ s2] exI [of _ s3]) simp
qed

lemma demo_create_handle:
  "\<exists>h s1. task_create Some demo_env None 0x42000000 7 256 5 demo_start = Some (h, s1) \<and> h \<noteq> TRT_HANDLE_INVALID"
proof -
  have ok: "task_args_ok 0x42000000 256 5" "task_count demo_start < RTOS_TASK_MAX"
    by (simp_all add: task_args_ok_def demo_start_facts RTOS_TASK_MAX_def)
  obtain t s1 where c: "task_create_kernel demo_env None 0x42000000 7 256 5 demo_start = Some (t, s1)" "t \<noteq> 0"
    "sys_handles s1 = sys_handles demo_start"
    using create_in_last_block [OF ok, of "[]" "0x1000" "0xff0" demo_env None 7] demo_heap(2,3)
    by (auto simp: demo_start_facts(5) task_round_def)
  have s: "sys_handles demo_start = demo_handles"
  proof -
    have "sys_handles (sched_init blank_sys) = sys_handles blank_sys"
      using same_more(1,2) [OF more_simps(3) [of blank_sys]] by simp
    then show ?thesis by (simp add: demo_start_def task_init_def) (simp add: blank_sys_def)
  qed
  have "\<not> (\<forall>slot\<in>set (htab demo_handles). slot_used slot)"
    by (simp add: demo_handles_def handle_table_init_locked_def RTOS_HANDLE_MAX_def)
  from alloc_free [OF demo_handles(1) c(2) _ _ this, of True TRT_OBJ_TASK TRT_RIGHT_DESTROY] obtain h tab where
    "trt_handle_alloc t TRT_OBJ_TASK TRT_RIGHT_DESTROY True demo_handles = (Inr h, tab)" "h \<noteq> TRT_HANDLE_INVALID"
    by auto
  then show ?thesis using c s by (simp add: task_create_def sys_handle_alloc_def)
qed

lemma task_life_roundtrip_witness:
  "\<exists>h s1 s2 s3. task_create Some demo_env None 0x42000000 7 256 5 demo_start = Some (h, s1) \<and>
     open_handles s1 h \<noteq> None \<and> task_delete Some h s1 = Some (ERR_OK, s2) \<and> task_cleanup_deleted s2 = Some s3 \<and>
     live_blocks s3 = Map.empty \<and> task_count s3 = 0 \<and> open_handles s3 h = None"
proof -
  obtain h s1 where c: "task_create Some demo_env None 0x42000000 7 256 5 demo_start = Some (h, s1)"
    "h \<noteq> TRT_HANDLE_INVALID" using demo_create_handle by blast
  have "144 < unat (256 :: u32)" by simp
  from task_life_roundtrip [OF demo_start_facts(1-3,7) c this] obtain t s2 s3 where
    r: "open_handles demo_start h = None" "open_handles s1 = (open_handles demo_start)(h \<mapsto> (t, TRT_OBJ_TASK, TRT_RIGHT_DESTROY))"
    "task_delete Some h s1 = Some (ERR_OK, s2)" "task_cleanup_deleted s2 = Some s3" "live_blocks s3 = live_blocks demo_start"
    "open_handles s3 = open_handles demo_start" "task_count s3 = task_count demo_start" by blast
  have "open_handles s1 h \<noteq> None" "open_handles s3 h = None" "live_blocks s3 = Map.empty" "task_count s3 = 0"
    using r(1,2,5,6,7) demo_start_facts(4,6) by simp_all
  with c(1) r(3,4) show ?thesis by blast
qed

subsection \<open>Sleeping\<close>

text \<open>
  What a sleeping task sees of the system: the yield of a task \<open>c\<close> that is blocked on its timeout
  at the tick \<open>at\<close> returns when the task runs again, at \<open>at\<close> or later, or, if something else woke
  it, at least closer to it.
\<close>

definition resumes ::
    "ptr set \<Rightarrow> wq_t set \<Rightarrow> ptr \<Rightarrow> u32 \<Rightarrow> ('z sys_scheme \<Rightarrow> 'z sys_scheme option) \<Rightarrow> bool" where
  "resumes T W c at arch_yield \<longleftrightarrow>
     (\<forall>u. kinv T W u \<and> current_task u = c \<and> task_state (tasks u c) = TASK_BLOCKED \<and>
        waiting_on_timer (tasks u c) \<and> wakeup (tasks u c) = at \<and> lock_count u = 0 \<longrightarrow>
        (\<exists>u'. arch_yield u = Some u' \<and> kinv T W u' \<and> current_task u' = c \<and> app_running u' \<and>
           lock_count u' = 0 \<and>
           (timer_expired (tick_count u') at \<or> unat (at - tick_count u') < unat (at - tick_count u))))"

lemma task_delay_returns:
  assumes r: "resumes T W c at y"
  shows "kinv T W s \<Longrightarrow> current_task s = c \<Longrightarrow> app_running s \<Longrightarrow> lock_count s = 0 \<Longrightarrow>
    \<exists>s'. task_delay_loop y at s = Some s' \<and> kinv T W s' \<and> current_task s' = c \<and> app_running s' \<and>
      lock_count s' = 0 \<and> timer_expired (tick_count s') at"
proof (induction "unat (at - tick_count s)" arbitrary: s rule: less_induct)
  case less
  show ?case
  proof (cases "timer_expired (tick_count s) at")
    case True
    then show ?thesis using less.prems by (intro exI [of _ s]) (simp add: task_delay_loop.simps [of y at s])
  next
    case False
    obtain u where u: "delay_block at s = Some u" "kinv T W u"
      "tasks u = (tasks s)(c := (tasks s c)\<lparr>wakeup := at, waiting_on_timer := True,
         wait_result := TASK_WAIT_NONE, task_state := TASK_BLOCKED\<rparr>)"
      "u = s\<lparr>tasks := tasks u, lnk := lnk u\<rparr>"
      using delay_block [OF less.prems(1,3), of at] less.prems(2) by blast
    have f: "current_task u = c" "lock_count u = 0" "tick_count u = tick_count s"
      using u(4) less.prems(2,4) by (metis kstate.select_convs kstate.surjective kstate.update_convs)+
    have y: "task_yield y u = y u"
      using f(1,2) by (intro yield_blocked) (simp_all add: sched_is_locked_def u(3))
    obtain u' where u': "y u = Some u'" "kinv T W u'" "current_task u' = c" "app_running u'" "lock_count u' = 0"
      "timer_expired (tick_count u') at \<or> unat (at - tick_count u') < unat (at - tick_count s)"
      using r u(2) f by (auto simp: resumes_def u(3))
    have step: "task_delay_loop y at s = task_delay_loop y at u'"
      using False u(1) y u'(1) by (simp add: task_delay_loop.simps [of y at s])
    show ?thesis
    proof (cases "timer_expired (tick_count u') at")
      case True
      then show ?thesis
        using u' unfolding step by (intro exI [of _ u']) (simp add: task_delay_loop.simps [of y at u'])
    next
      case False
      then show ?thesis using less.hyps [of u'] u' unfolding step by blast
    qed
  qed
qed

lemma sleep_returns:
  assumes "kinv T W s" and "app_running s" and "lock_count s = 0"
    and "resumes T W (current_task s) (tick_count s + timer_us_to_ticks delay) y"
  shows "task_sleep y delay s = task_delay_loop y (tick_count s + timer_us_to_ticks delay) s"
    and "\<exists>s'. task_sleep y delay s = Some s' \<and> kinv T W s' \<and> current_task s' = current_task s \<and>
      app_running s' \<and> lock_count s' = 0 \<and> timer_expired (tick_count s') (tick_count s + timer_us_to_ticks delay)"
proof -
  have "current_task s \<noteq> 0" using assms(2) by (simp add: app_running_def)
  then show e: "task_sleep y delay s = task_delay_loop y (tick_count s + timer_us_to_ticks delay) s"
    using assms(3) by (simp add: task_sleep_def task_delay_ticks_def sched_is_locked_def)
  show "\<exists>s'. task_sleep y delay s = Some s' \<and> kinv T W s' \<and> current_task s' = current_task s \<and>
      app_running s' \<and> lock_count s' = 0 \<and> timer_expired (tick_count s') (tick_count s + timer_us_to_ticks delay)"
    using task_delay_returns [OF assms(4,1) refl assms(2,3)] unfolding e .
qed

text \<open>Sleeping, whatever else runs.  With a delay of \<open>n\<close> ticks, at most half the range of the counter, \<^verbatim>\<open>task_sleep\<close> returns,
  however often the task is woken early, with the task running and the counter at the deadline or
  past it; no delay returns at once.  A longer delay counts as already over and returns at once
  too, and with the scheduler locked the call only notes the request and returns.\<close>

theorem sleep_outcomes:
  fixes s :: "'z sys_scheme"
  assumes "kinv T W s" and "app_running s" and "lock_count s = 0"
    and "resumes T W (current_task s) (tick_count s + timer_us_to_ticks delay) y"
  shows "(\<exists>s'. task_sleep y delay s = Some s' \<and> kinv T W s' \<and> current_task s' = current_task s \<and> app_running s' \<and>
      timer_expired (tick_count s') (tick_count s + timer_us_to_ticks delay)) \<and>
    (timer_us_to_ticks delay = 0 \<or> 2 ^ 31 < unat (timer_us_to_ticks delay) \<longrightarrow> task_sleep y delay s = Some s) \<and>
    (\<forall>n. n \<noteq> 0 \<longrightarrow> task_sleep y delay (s\<lparr>lock_count := n\<rparr>) = Some (s\<lparr>lock_count := n, resched_pending := True\<rparr>))"
proof -
  let ?at = "tick_count s + timer_us_to_ticks delay"
  have c: "current_task s \<noteq> 0" using assms(2) by (simp add: app_running_def)
  note e = sleep_returns(1) [OF assms] and s' = sleep_returns(2) [OF assms]
  have now: "task_sleep y delay s = Some s"
    if "timer_us_to_ticks delay = 0 \<or> 2 ^ 31 < unat (timer_us_to_ticks delay)"
    using that unfolding e by (subst task_delay_loop.simps) (simp only: timer_expired_future if_True simp_thms)
  have locked: "task_sleep y delay (s\<lparr>lock_count := n\<rparr>) = Some (s\<lparr>lock_count := n, resched_pending := True\<rparr>)"
    if "n \<noteq> 0" for n
    using that c by (simp add: task_sleep_def task_delay_ticks_def sched_is_locked_def sched_set_pending_def)
  show ?thesis using s' now locked e by auto
qed

lemma sleep_outcomes_witness:
  "\<exists>s'. task_sleep (\<lambda>_. Some ((demo_run blank_sys)\<lparr>tick_count := 2\<rparr>)) 2000 ((demo_run blank_sys)\<lparr>tick_count := 0\<rparr>) = Some s' \<and>
     timer_expired (tick_count s') 2"
proof -
  have n: "\<not> sched_initialized blank_sys" by (simp add: blank_sys_def)
  note d = demo_run [OF n]
  let ?s = "\<lambda>n. (demo_run blank_sys)\<lparr>tick_count := n\<rparr>"
  have k: "kinv demo_T {} (?s n)" for n by (rule kinv_frame [OF d(1)]) simp_all
  have r: "app_running (?s n)" for n using d(2-4) by (simp add: app_running_def)
  have t: "timer_us_to_ticks 2000 = 2" by (simp add: timer_us_to_ticks_def UINT32_MAX_def TICK_PERIOD_US_def)
  have "resumes demo_T {} 0x300 (0 + timer_us_to_ticks 2000) (\<lambda>_. Some (?s 2))"
    using k r d(3,6) by (simp add: resumes_def t)
  then show ?thesis
    using sleep_outcomes [OF k [of 0] r, of 2000 "\<lambda>_. Some (?s 2)"] d(3,6) by (simp add: t) blast
qed

end
