(* ===== verification/ContextProps.thy ===== *)
theory ContextProps
  imports Context Trap TaskProps
begin

unbundle bit_operations_syntax

text \<open>
  The properties of the context switch: a trap that returns to the task it interrupted gives the
  task its registers back, and the first return to a new task enters its function.  They join the
  assembly of \<open>Context\<close> to the C code that builds and changes frames.
\<close>

lemma load32_cong: "(\<And>i. i < 4 \<Longrightarrow> m (a + of_nat i) = m' (a + of_nat i)) \<Longrightarrow> load32 a m = load32 a m'"
proof -
  assume h: "\<And>i. i < 4 \<Longrightarrow> m (a + of_nat i) = m' (a + of_nat i)"
  from h [of 0] h [of 1] h [of 2] h [of 3] show ?thesis by (simp add: load32_def)
qed

lemma load_frame_cong:
  assumes "\<forall>a\<in>region f 132. m a = m' a" and "i < 33"
  shows "load32 (frame_word f i) m = load32 (frame_word f i) m'"
proof (rule load32_cong)
  fix k :: nat assume "k < 4"
  then have "4 * i + k < 132" using assms(2) by simp
  moreover have "frame_word f i + of_nat k = f + of_nat (4 * i + k)" by (simp add: frame_word_def)
  ultimately have "frame_word f i + of_nat k \<in> region f 132" unfolding region_def by blast
  with assms(1) show "m (frame_word f i + of_nat k) = m' (frame_word f i + of_nat k)" by blast
qed

lemma restored_registers:
  assumes "\<And>i. i < 30 \<Longrightarrow> gpr M3 (frame_regs ! i) = gpr M (frame_regs ! i)" and "gpr M3 Sp = gpr M Sp"
    and "r \<noteq> Zero"
  shows "gpr M3 r = gpr M r"
proof (cases "r = Sp")
  case False
  then have "r \<in> set frame_regs" using frame_regs_facts(5) assms(3) by blast
  then obtain i where "i < 30" "r = frame_regs ! i" using frame_regs_facts(1) by (metis in_set_conv_nth)
  with assms(1) show ?thesis by simp
qed (use assms(2) in simp)

text \<open>C2. A context switch loses nothing.  Whatever happens between the entry and the exit of the
  trap, if the task is resumed from the frame the entry built and the frame is as it was, all
  registers, the stack pointer among them, have their values, execution continues where it was
  interrupted and the interrupt state is restored.  After the system call of a yield, for which
  \<^verbatim>\<open>do_trap\<close> changes the frame, the same registers come back and execution continues behind the
  call, with interrupts enabled.\<close>

theorem context_roundtrip:
  fixes M M2 :: machine and s :: sys and isr_top :: ptr
  defines "M1 \<equiv> run (isr_entry isr_top) M" and "M3 \<equiv> run (isr_exit isr_top) M2"
  assumes "gpr M2 A0 = gpr M1 A0"
  shows "((\<forall>a\<in>region (gpr M1 A0) 132. mem M2 a = mem M1 a) \<longrightarrow>
      (\<forall>r. r \<noteq> Zero \<longrightarrow> gpr M3 r = gpr M r) \<and> pc M3 = csrs M Mepc \<and>
      csrs M3 Mstatus = mret_status (csrs M Mstatus)) \<and>
    (heap_bytes (sys_heap s) = mem M1 \<and> mem M2 = heap_bytes (sys_heap (advance_ecall (gpr M1 A0) s)) \<longrightarrow>
      (\<forall>r. r \<noteq> Zero \<longrightarrow> gpr M3 r = gpr M r) \<and> pc M3 = csrs M Mepc + 4 \<and> bit (csrs M3 Mstatus) 3)"
proof -
  let ?f = "reg_val M Sp - 144"
  note s = isr_entry_run [where M = M and isr_top = isr_top, folded M1_def]
  define Ma where "Ma = exec (MV Sp A0) M2"
  have a: "reg_val Ma Sp = ?f" "mem Ma = mem M2"
    using assms(3) s(1) by (simp_all add: Ma_def reg_set_def reg_val_def)
  have e: "M3 = run (restore_context isr_top) Ma" by (simp add: M3_def isr_exit_def Ma_def)
  note r = restore_run [where M = Ma and isr_top = isr_top, folded e, unfolded a]
  have sp: "gpr M3 Sp = gpr M Sp" using r(2) by (simp add: reg_val_def)
  have regs: "\<forall>r. r \<noteq> Zero \<longrightarrow> gpr M3 r = gpr M r"
    if "\<And>i. i < 30 \<Longrightarrow> load32 (frame_word ?f i) (mem M2) = load32 (frame_word ?f i) (mem M1)"
    using restored_registers [OF _ sp] r(1) s(4) that by simp
  have 1: "(\<forall>r. r \<noteq> Zero \<longrightarrow> gpr M3 r = gpr M r) \<and> pc M3 = csrs M Mepc \<and>
      csrs M3 Mstatus = mret_status (csrs M Mstatus)"
    if "\<forall>a\<in>region (gpr M1 A0) 132. mem M2 a = mem M1 a"
  proof -
    note l = load_frame_cong [OF that [unfolded s(1)]]
    show ?thesis using regs l r(4,6) s(6,7) by simp
  qed
  have 2: "(\<forall>r. r \<noteq> Zero \<longrightarrow> gpr M3 r = gpr M r) \<and> pc M3 = csrs M Mepc + 4 \<and> bit (csrs M3 Mstatus) 3"
    if "heap_bytes (sys_heap s) = mem M1" "mem M2 = heap_bytes (sys_heap (advance_ecall (gpr M1 A0) s))"
  proof -
    have m2: "mem M2 = (let m1 = store32 (frame_word ?f 31) (load32 (frame_word ?f 31) (mem M1) + 4) (mem M1)
        in store32 (frame_word ?f 32) (load32 (frame_word ?f 32) m1 OR MSTATUS_MPIE) m1)"
      unfolding that(2) advance_ecall_def s(1) by (simp add: that(1))
    have l: "load32 (frame_word ?f i) (mem M2) = load32 (frame_word ?f i) (mem M1)" if "i < 30" for i
      using that unfolding m2 Let_def by (simp add: load_frame_word)
    have w: "load32 (frame_word ?f 31) (mem M2) = csrs M Mepc + 4"
      "load32 (frame_word ?f 32) (mem M2) = csrs M Mstatus OR MSTATUS_MPIE"
      using s(6,7) unfolding m2 Let_def by (simp_all add: load_frame_word)
    have "bit (mret_status (csrs M Mstatus OR MSTATUS_MPIE)) 3"
      by (simp add: mret_status_def MSTATUS_MPIE_def bit_simps)
    then show ?thesis using regs [OF l] r(4,6) w by simp
  qed
  from 1 2 show ?thesis by blast
qed

definition demo_machine :: machine where
  "demo_machine = \<lparr>gpr = \<lambda>r. if r = S5 then 7 else 0x9000, csrs = \<lambda>_. 0x42000010, pc = 0, mem = \<lambda>_. 0\<rparr>"

lemma context_roundtrip_witness:
  "gpr (run (isr_exit 0x100) (run (isr_entry 0x100) demo_machine)) S5 = 7 \<and>
   pc (run (isr_exit 0x100) (run (isr_entry 0x100) demo_machine)) = 0x42000010 \<and>
   (\<exists>s :: sys. heap_bytes (sys_heap s) = mem (run (isr_entry 0x100) demo_machine) \<and>
     pc (run (isr_exit 0x100) ((run (isr_entry 0x100) demo_machine)\<lparr>mem :=
       heap_bytes (sys_heap (advance_ecall (gpr (run (isr_entry 0x100) demo_machine) A0) s))\<rparr>)) = 0x42000014)"
proof -
  let ?M1 = "run (isr_entry 0x100) demo_machine"
  let ?s = "upd_bytes (\<lambda>_. mem ?M1) blank_sys"
  let ?M2 = "?M1\<lparr>mem := heap_bytes (sys_heap (advance_ecall (gpr ?M1 A0) ?s))\<rparr>"
  have m: "heap_bytes (sys_heap ?s) = mem ?M1" by simp
  have d: "csrs demo_machine Mepc = 0x42000010" "gpr demo_machine S5 = 7" by (simp_all add: demo_machine_def)
  have "pc (run (isr_exit 0x100) ?M2) = csrs demo_machine Mepc + 4"
    using context_roundtrip [where M = demo_machine and ?M2.0 = ?M2 and isr_top = "0x100" and s = ?s] m
    by (simp del: upd_bytes_simps)
  moreover have "gpr (run (isr_exit 0x100) ?M1) S5 = 7 \<and> pc (run (isr_exit 0x100) ?M1) = 0x42000010"
    using context_roundtrip [where M = demo_machine and ?M2.0 = ?M1 and isr_top = "0x100" and s = ?s, OF refl] d
    by simp
  ultimately show ?thesis using m d(1) by (intro conjI exI [of _ ?s]) simp_all
qed

text \<open>The first task starts like every later one: \<^verbatim>\<open>task_start_first\<close> on the frame of a new task sets
  \<^verbatim>\<open>scheduler.started\<close> and enters the function of the task with its argument in \<^verbatim>\<open>a0\<close>, the exit
  routine as return address, its stack empty and aligned to 16 bytes, all other registers clear and
  interrupts enabled.\<close>

theorem first_task_starts:
  fixes M :: machine and isr_top scheduler :: ptr and off :: u32
  assumes "arch_task_init_frame env base bytes entry arg m = (gpr M A0, mem M)"
    and "region (scheduler + off) 4 \<inter> region (gpr M A0) 132 = {}"
  defines "M' \<equiv> run (task_start_first_code isr_top scheduler off) M"
  shows "pc M' = entry \<and> gpr M' A0 = arg \<and> gpr M' Ra = fn_task_exit_trap env \<and>
    gpr M' Gp = env_gp env \<and> gpr M' Tp = env_tp env \<and> gpr M' Sp = (base + bytes) AND NOT 0xf \<and>
    (\<forall>r. r \<notin> {Zero, A0, Ra, Gp, Tp, Sp} \<longrightarrow> gpr M' r = 0) \<and> bit (csrs M' Mstatus) 3 \<and>
    load32 (scheduler + off) (mem M') = 1"
proof -
  let ?f = "gpr M A0"
  define Ma where "Ma = run [MV Sp A0, LI T0 1, LA T1 scheduler, SW T0 off T1] M"
  have a: "reg_val Ma Sp = ?f" "mem Ma = store32 (scheduler + off) 1 (mem M)"
    by (simp_all add: Ma_def reg_set_def reg_val_def)
  have e: "M' = run (restore_context isr_top) Ma"
    by (simp only: M'_def task_start_first_code_def run_append Ma_def)
  note r = restore_run [where M = Ma and isr_top = isr_top, folded e, unfolded a(1)]
  have w: "load32 (frame_word ?f i) (mem Ma) = initial_word env entry arg i" if "i < 33" for i
  proof -
    have "mem Ma b = mem M b" if "b \<in> region ?f 132" for b
      using assms(2) that store_outside [of b "scheduler + off"] by (auto simp: a(2))
    then have "load32 (frame_word ?f i) (mem Ma) = load32 (frame_word ?f i) (mem M)"
      using load_frame_cong that by blast
    then show ?thesis using init_frame_words [OF assms(1) that] by simp
  qed
  have g: "gpr M' (frame_regs ! i) = initial_word env entry arg i" if "i < 30" for i
    using r(1) [OF that] w [of i] that by simp
  have i: "frame_regs ! 0 = Ra" "frame_regs ! 1 = Gp" "frame_regs ! 2 = Tp" "frame_regs ! 8 = A0"
    by (simp_all add: frame_regs_def)
  have "gpr M' Ra = fn_task_exit_trap env" "gpr M' Gp = env_gp env" "gpr M' Tp = env_tp env" "gpr M' A0 = arg"
    using g [of 0] g [of 1] g [of 2] g [of 8] unfolding i by (simp_all add: initial_word_def)
  moreover have "gpr M' r = 0" if n: "r \<notin> {Zero, A0, Ra, Gp, Tp, Sp}" for r
  proof -
    have "r \<in> set frame_regs" using n frame_regs_facts(5) by auto
    then obtain j where j: "j < 30" "r = frame_regs ! j" using frame_regs_facts(1) by (metis in_set_conv_nth)
    have "j \<noteq> 0" "j \<noteq> 1" "j \<noteq> 2" "j \<noteq> 8" using n unfolding j(2) by (metis i insertCI)+
    then show ?thesis using g [OF j(1)] j by (simp add: initial_word_def)
  qed
  moreover have "gpr M' Sp = (base + bytes) AND NOT 0xf"
    using r(2) init_frame_shape(1) [OF assms(1)] by (simp only: ARCH_TASK_CONTEXT_SIZE_def diff_add_cancel)
  moreover have "pc M' = entry" using r(4) w [of 31] by (simp add: initial_word_def)
  moreover have "bit (csrs M' Mstatus) 3"
    using r(6) w [of 32] by (simp add: initial_word_def mret_status_def bit_simps)
  moreover have "load32 (scheduler + off) (mem M') = 1" using r(5) by (simp add: a(2) load_store_same)
  ultimately show ?thesis by blast
qed

lemma region_disjoint:
  assumes "unat p + n \<le> unat q" and "unat q + k < 2 ^ 32"
  shows "region q k \<inter> region (p :: ptr) n = {}"
proof -
  have "p + of_nat i \<noteq> q + of_nat j" if "i < n" "j < k" for i j
  proof -
    have "unat (p + of_nat i) = unat p + i" "unat (q + of_nat j) = unat q + j"
      using that assms by (simp_all add: unat_word_ariths unat_of_nat take_bit_nat_eq_self)
    moreover have "unat p + i \<noteq> unat q + j" using that assms(1) by linarith
    ultimately show ?thesis by metis
  qed
  note ne = this
  show ?thesis
  proof (rule equals0I)
    fix a assume "a \<in> region q k \<inter> region p n"
    then obtain i j where "j < k" "a = q + of_nat j" "i < n" "a = p + of_nat i"
      unfolding region_def by (elim IntE imageE) simp
    with ne [of i j] show False by simp
  qed
qed

lemma first_task_starts_witness:
  "\<exists>M :: machine. pc (run (task_start_first_code 0x100 0x8000 44) M) = 0x42000000 \<and>
     gpr (run (task_start_first_code 0x100 0x8000 44) M) A0 = 7"
proof -
  obtain f m' where a: "arch_task_init_frame demo_env 0x2000 256 0x42000000 7 (\<lambda>_. 0) = (f, m')" by fastforce
  have "f = ((0x2000 + 256) AND NOT 0xf) - 144"
    using init_frame_shape(1) [OF a] by (simp only: ARCH_TASK_CONTEXT_SIZE_def)
  then have f: "f = 0x2070" by simp
  let ?M = "\<lparr>gpr = \<lambda>_. f, csrs = \<lambda>_. 0, pc = 0, mem = m'\<rparr>"
  have a': "arch_task_init_frame demo_env 0x2000 256 0x42000000 7 (\<lambda>_. 0) = (gpr ?M A0, mem ?M)" using a by simp
  have "region (0x8000 + 44) 4 \<inter> region (gpr ?M A0) 132 = {}" by (rule region_disjoint) (simp_all add: f)
  from first_task_starts [OF a' this, of "0x100"] show ?thesis by (intro exI [of _ ?M]) simp
qed

subsection \<open>Critical sections\<close>

text \<open>Nested critical sections, each with a register of its own, around a body.\<close>

fun nested :: "reg list \<Rightarrow> instr list \<Rightarrow> instr list" where
  "nested [] body = body"
| "nested (r # rs) body = arch_critical_enter r @ nested rs body @ arch_critical_exit r"

lemma nested_keeps:
  assumes "\<And>M. gpr (run body M) q = gpr M q" and "q \<notin> set rs"
  shows "gpr (run (nested rs body) M) q = gpr M q"
  using assms(2)
  by (induction rs arbitrary: M)
     (auto simp: run_append arch_critical_enter_def arch_critical_exit_def reg_set_def assms(1))

text \<open>C15. Critical sections nest.  However deep they are nested, the body runs with interrupts off, and the
  outermost exit leaves the interrupt state as the outermost entry found it, even when a body changed
  it, as long as no section loses the register in which it keeps the old state.\<close>

theorem critical_sections_nest:
  assumes "rs \<noteq> []" and "distinct rs" and "Zero \<notin> set rs" and "\<And>M r. r \<in> set rs \<Longrightarrow> gpr (run body M) r = gpr M r"
  shows "csrs (run (nested rs body) M) Mstatus = csrs M Mstatus \<and>
    (\<exists>M' c. \<not> bit (csrs M' Mstatus) 3 \<and> mem M' = mem M \<and>
      mem (run (nested rs body) M) = mem (run body M') \<and>
      (\<forall>r. r \<notin> set rs \<longrightarrow> gpr M' r = gpr M r \<and> gpr (run (nested rs body) M) r = gpr (run body M') r) \<and>
      csrs (run (nested rs body) M) = (csrs (run body M'))(Mstatus := c))"
  using assms
proof (induction rs arbitrary: M)
  case (Cons r rs)
  define M1 where "M1 = run (arch_critical_enter r) M"
  have m1: "csrs M1 Mstatus = csrs M Mstatus AND NOT 8" "mem M1 = mem M" "gpr M1 r = csrs M Mstatus"
    "\<And>q. q \<noteq> r \<Longrightarrow> gpr M1 q = gpr M q"
    using Cons.prems(3) by (auto simp: M1_def arch_critical_enter_def reg_set_def)
  have off: "\<not> bit (csrs M1 Mstatus) 3" unfolding m1(1) by (simp add: bit_simps)
  define M2 where "M2 = run (nested rs body) M1"
  have e: "run (nested (r # rs) body) M = M2\<lparr>csrs := (csrs M2)(Mstatus := reg_val M2 r)\<rparr>"
    by (simp add: run_append M2_def M1_def arch_critical_exit_def)
  have "gpr M2 r = gpr M1 r"
    unfolding M2_def by (rule nested_keeps) (use Cons.prems in auto)
  then have c: "reg_val M2 r = csrs M Mstatus" using m1(3) Cons.prems(3) by (auto simp: reg_val_def)
  show ?case
  proof (cases "rs = []")
    case True
    then have "M2 = run body M1" by (simp add: M2_def)
    then show ?thesis unfolding e using c off m1 by (intro conjI exI [of _ M1] exI [of _ "csrs M Mstatus"]) auto
  next
    case False
    have "distinct rs" "Zero \<notin> set rs" "\<And>M r. r \<in> set rs \<Longrightarrow> gpr (run body M) r = gpr M r"
      using Cons.prems by simp_all
    note ih = Cons.IH [OF False this, of M1, THEN conjunct2, folded M2_def]
    then obtain M' d where M': "\<not> bit (csrs M' Mstatus) 3" "mem M' = mem M1" "mem M2 = mem (run body M')"
      "\<forall>q. q \<notin> set rs \<longrightarrow> gpr M' q = gpr M1 q \<and> gpr M2 q = gpr (run body M') q"
      "csrs M2 = (csrs (run body M'))(Mstatus := d)"
      by blast
    show ?thesis unfolding e using c M' m1 by (intro conjI exI [of _ M'] exI [of _ "csrs M Mstatus"]) auto
  qed
qed simp

lemma critical_sections_nest_witness:
  "csrs (run (nested [S0, S1] (arch_interrupt_enable @ [LI T0 1])) demo_machine) Mstatus = 0x42000010"
proof -
  have "gpr (run (arch_interrupt_enable @ [LI T0 1]) M) r = gpr M r" if "r \<in> set [S0, S1]" for M r
    using that by (auto simp: arch_interrupt_enable_def reg_set_def)
  then have "csrs (run (nested [S0, S1] (arch_interrupt_enable @ [LI T0 1])) demo_machine) Mstatus = csrs demo_machine Mstatus"
    by (intro critical_sections_nest [THEN conjunct1]) simp_all
  then show ?thesis by (simp only: demo_machine_def machine.simps)
qed

end
