(* ===== verification/TimerList.thy ===== *)
theory TimerList
  imports Timers SysFrame
begin

text \<open>
  The list of active timers as an abstract queue.  \<open>queued\<close> reads it off the pointers, \<open>tinv\<close>
  says that it holds exactly the timers whose \<^verbatim>\<open>active\<close> flag is set, and \<open>in_order\<close> that it is
  sorted by deadline.  Deadlines wrap around with the tick counter; they are compared by the
  distance from a base tick \<open>b\<close>, which is any tick not after the deadlines and less than half the
  range of the counter before them.
\<close>

subsection \<open>The abstract queue\<close>

definition queued :: "'z sys_scheme \<Rightarrow> ptr list" where
  "queued s = map entry_timer (items (timer_links s) TimerHead)"

definition tlinks_ok :: "ptr set \<Rightarrow> 'z sys_scheme \<Rightarrow> bool" where
  "tlinks_ok P s \<longleftrightarrow> lists_wf (timer_links s) {TimerHead} (TimerNode ` P)"

definition tinv :: "ptr set \<Rightarrow> 'z sys_scheme \<Rightarrow> bool" where
  "tinv P s \<longleftrightarrow> tlinks_ok P s \<and> 0 \<notin> P \<and> (\<forall>p\<in>P. tm_active (timers s p) \<longleftrightarrow> p \<in> set (queued s)) \<and>
     (\<forall>p\<in>set (queued s). tm_callback (timers s p) \<noteq> 0)"

definition time_of :: "u32 \<Rightarrow> 'z sys_scheme \<Rightarrow> ptr \<Rightarrow> nat" where
  "time_of b s p = ahead b (tm_deadline (timers s p))"

definition in_order :: "u32 \<Rightarrow> 'z sys_scheme \<Rightarrow> bool" where
  "in_order b s \<longleftrightarrow> (\<forall>p\<in>set (queued s). time_of b s p < 2 ^ 31) \<and> sorted (map (time_of b s) (queued s))"

definition ins_timer :: "(ptr \<Rightarrow> nat) \<Rightarrow> ptr \<Rightarrow> ptr list \<Rightarrow> ptr list" where
  "ins_timer a p qs = takeWhile (\<lambda>q. a q \<le> a p) qs @ p # dropWhile (\<lambda>q. a q \<le> a p) qs"

text \<open>Nothing but the timers and their list changes.\<close>

definition timers_only :: "'z sys_scheme \<Rightarrow> 'z sys_scheme \<Rightarrow> bool" where
  "timers_only s s' \<longleftrightarrow> (\<exists>l t. s' = s\<lparr>timer_links := l, timers := t\<rparr>)"

lemma timers_only_refl [simp, intro]: "timers_only s s"
  unfolding timers_only_def by (rule exI [of _ "timer_links s"], rule exI [of _ "timers s"]) simp

lemma timers_only_trans [trans]: "timers_only s s1 \<Longrightarrow> timers_only s1 s2 \<Longrightarrow> timers_only s s2"
  unfolding timers_only_def by fastforce

lemma timers_only_updates [simp, intro]:
  "timers_only s (upd_timer p f s)" "timers_only s (upd_tlinks g s)"
proof -
  have "upd_timer p f s = s\<lparr>timer_links := timer_links s, timers := (timers s)(p := f (timers s p))\<rparr>"
    by (simp add: upd_timer_def)
  moreover have "upd_tlinks g s = s\<lparr>timer_links := g (timer_links s), timers := timers s\<rparr>"
    by (simp add: upd_tlinks_def)
  ultimately show "timers_only s (upd_timer p f s)" "timers_only s (upd_tlinks g s)"
    unfolding timers_only_def by blast+
qed

lemma timers_onlyD:
  assumes "timers_only s s'"
  shows "tick_count s' = tick_count s" "tasks s' = tasks s" "lnk s' = lnk s"
    "current_task s' = current_task s" "idle_task s' = idle_task s" "lock_count s' = lock_count s"
    "sys_heap s' = sys_heap s" "sys_handles s' = sys_handles s" "resched_pending s' = resched_pending s"
    "trap_nesting s' = trap_nesting s" "started s' = started s" "kinv T W s' \<longleftrightarrow> kinv T W s"
proof -
  from assms obtain l t where e: "s' = s\<lparr>timer_links := l, timers := t\<rparr>"
    unfolding timers_only_def by blast
  show "tick_count s' = tick_count s" "tasks s' = tasks s" "lnk s' = lnk s"
    "current_task s' = current_task s" "idle_task s' = idle_task s" "lock_count s' = lock_count s"
    "sys_heap s' = sys_heap s" "sys_handles s' = sys_handles s" "resched_pending s' = resched_pending s"
    "trap_nesting s' = trap_nesting s" "started s' = started s" unfolding e by simp_all
  show "kinv T W s' \<longleftrightarrow> kinv T W s" unfolding e by (auto elim!: kinv_frame)
qed

lemma upd_tlinks_simps [simp]:
  "timer_links (upd_tlinks g s) = g (timer_links s)" "timers (upd_tlinks g s) = timers s"
  "tick_count (upd_tlinks g s) = tick_count s"
  by (simp_all add: upd_tlinks_def)

lemma queued_upd_timer [simp]: "queued (upd_timer p f s) = queued s"
  by (simp add: queued_def)

lemma tlinks_ok_upd_timer [simp]: "tlinks_ok P (upd_timer p f s) \<longleftrightarrow> tlinks_ok P s"
  by (simp add: tlinks_ok_def)

lemma tlinks_items:
  assumes "tlinks_ok P s"
  shows "items (timer_links s) TimerHead = map TimerNode (queued s)" "set (queued s) \<subseteq> P"
    "distinct (queued s)"
proof -
  note w = assms [unfolded tlinks_ok_def]
  let ?xs = "items (timer_links s) TimerHead"
  have sub: "set ?xs \<subseteq> TimerNode ` P" and d: "distinct ?xs"
    using lists_wfD(3) [OF w, of TimerHead] items_distinct [OF w, of TimerHead] by simp_all
  have "map TimerNode (map entry_timer ?xs) = map (\<lambda>x. x) ?xs"
    unfolding map_map using sub by (intro map_cong) auto
  then show e: "?xs = map TimerNode (queued s)" by (simp add: queued_def)
  show "set (queued s) \<subseteq> P" using sub by (auto simp: queued_def)
  show "distinct (queued s)" using d unfolding e distinct_map by blast
qed

lemma tlinks_empty:
  assumes "tlinks_ok P s"
  shows "list_empty TimerHead (timer_links s) \<longleftrightarrow> queued s = []"
    and "p \<in> P \<Longrightarrow> list_empty (TimerNode p) (timer_links s) \<longleftrightarrow> p \<notin> set (queued s)"
    and "nxt (timer_links s) TimerHead \<noteq> TimerNull"
    and "queued s = p # ps \<Longrightarrow> nxt (timer_links s) TimerHead = TimerNode p"
proof -
  note w = assms [unfolded tlinks_ok_def] and i = tlinks_items [OF assms]
  show "list_empty TimerHead (timer_links s) \<longleftrightarrow> queued s = []"
    using list_empty_head [OF w] i(1) by simp
  show "p \<in> P \<Longrightarrow> list_empty (TimerNode p) (timer_links s) \<longleftrightarrow> p \<notin> set (queued s)"
    using list_empty_node [OF w] i(1) by auto
  show "nxt (timer_links s) TimerHead \<noteq> TimerNull"
    using lwfD(1) [OF lists_wfD(1) [OF w], of TimerHead] by auto
  show "queued s = p # ps \<Longrightarrow> nxt (timer_links s) TimerHead = TimerNode p"
    using list_first [OF w] i(1) by simp
qed

subsection \<open>Unlinking and ordered insertion\<close>

lemma unlink_timer:
  assumes "tlinks_ok P s" and "p \<in> P"
  defines "s' \<equiv> upd_tlinks (list_del_init (TimerNode p)) s"
  shows "tlinks_ok P s'" and "queued s' = remove1 p (queued s)"
proof -
  note w = assms(1) [unfolded tlinks_ok_def]
  have n: "TimerNode p \<in> TimerNode ` P" using assms(2) by simp
  show ok: "tlinks_ok P s'" using list_del_init_wf [OF w n] by (simp add: tlinks_ok_def s'_def)
  have r: "remove1 (TimerNode p) (map TimerNode qs) = map TimerNode (remove1 p qs)" for qs
    by (induction qs) simp_all
  have "map TimerNode (queued s') = map TimerNode (remove1 p (queued s))"
    using items_list_del_init [OF w n, of TimerHead] tlinks_items(1) [OF ok] tlinks_items(1) [OF assms(1)]
    by (simp add: s'_def r)
  then show "queued s' = remove1 p (queued s)" by (rule map_injective) (simp add: inj_def)
qed

lemma insert_timer:
  assumes "tlinks_ok P s" and "p \<in> P" and "p \<notin> set (queued s)"
  shows "\<exists>s'. timer_insert_locked p s = Some s' \<and> tlinks_ok P s' \<and> timers s' = timers s \<and>
    timers_only s s' \<and>
    (let le = \<lambda>q. \<not> sint (tm_deadline (timers s p) - tm_deadline (timers s q)) < 0
     in queued s' = takeWhile le (queued s) @ p # dropWhile le (queued s))"
proof -
  note w = assms(1) [unfolded tlinks_ok_def] and i = tlinks_items [OF assms(1)]
  let ?l = "timer_links s" and ?P = "\<lambda>pos. sint (tm_deadline (timers s p) - tm_deadline (timers s (entry_timer pos))) < 0"
  have n: "TimerNode p \<in> TimerNode ` P" "list_empty (TimerNode p) ?l"
    using assms(2,3) tlinks_empty(2) [OF assms(1)] by auto
  obtain pos where pos: "list_for_each ?P ?l TimerHead (nxt ?l TimerHead) = Some pos"
    using list_for_each_wf [OF w, of TimerHead ?P] by blast
  define s' where "s' = upd_tlinks (list_add_before (TimerNode p) pos) s"
  have "(if pos \<noteq> TimerHead then upd_tlinks (list_add_tail (TimerNode p) pos) s
      else upd_tlinks (list_add_tail (TimerNode p) TimerHead) s) = s'"
    by (auto simp: s'_def upd_tlinks_def list_add_tail_eq_before)
  then have eq: "timer_insert_locked p s = Some s'"
    using tlinks_empty(3) [OF assms(1)] pos by (simp add: timer_insert_locked_def)
  have ok: "tlinks_ok P s'"
    using ordered_insert_wf [OF w _ n pos] by (simp add: tlinks_ok_def s'_def)
  let ?le = "\<lambda>q. \<not> sint (tm_deadline (timers s p) - tm_deadline (timers s q)) < 0"
  have "map TimerNode (queued s') = map TimerNode (takeWhile ?le (queued s) @ p # dropWhile ?le (queued s))"
    using items_ordered_insert [OF w _ n pos, of TimerHead] tlinks_items(1) [OF ok] i(1)
    by (simp add: s'_def takeWhile_map dropWhile_map o_def)
  then have "queued s' = takeWhile ?le (queued s) @ p # dropWhile ?le (queued s)"
    by (rule map_injective) (simp add: inj_def)
  then show ?thesis using eq ok by (auto simp: s'_def)
qed

text \<open>In an ordered queue the insertion is the one behind every timer not later.\<close>

lemma set_ins_timer: "set (ins_timer a p qs) = insert p (set qs)"
  unfolding ins_timer_def by (metis Un_insert_right list.simps(15) set_append takeWhile_dropWhile_id)

lemma sorted_ins_timer: "sorted (map a qs) \<Longrightarrow> sorted (map a (ins_timer a p qs))"
proof (induction qs)
  case (Cons q qs)
  have e: "ins_timer a p (q # qs) = (if a q \<le> a p then q # ins_timer a p qs else p # q # qs)"
    by (simp add: ins_timer_def)
  show ?case
  proof (cases "a q \<le> a p")
    case True
    then show ?thesis using Cons by (simp add: e set_ins_timer)
  next
    case False
    then show ?thesis using Cons.prems by (auto simp: e)
  qed
qed (simp add: ins_timer_def)

lemma insert_in_order:
  assumes "tlinks_ok P s" and "p \<in> P" and "p \<notin> set (queued s)"
    and "in_order b s" and "time_of b s p < 2 ^ 31"
  shows "\<exists>s'. timer_insert_locked p s = Some s' \<and> tlinks_ok P s' \<and> timers s' = timers s \<and>
    timers_only s s' \<and> queued s' = ins_timer (time_of b s) p (queued s) \<and> in_order b s'"
proof -
  let ?le = "\<lambda>q. \<not> sint (tm_deadline (timers s p) - tm_deadline (timers s q)) < 0"
  obtain s' where s': "timer_insert_locked p s = Some s'" "tlinks_ok P s'" "timers s' = timers s"
    "timers_only s s'" "queued s' = takeWhile ?le (queued s) @ p # dropWhile ?le (queued s)"
    using insert_timer [OF assms(1-3)] by (auto simp: Let_def)
  have le: "?le q \<longleftrightarrow> time_of b s q \<le> time_of b s p" if "q \<in> set (queued s)" for q
    using that assms(4,5) earlier_iff [of b "tm_deadline (timers s p)" "tm_deadline (timers s q)"]
    by (auto simp: time_of_def in_order_def)
  have "queued s' = ins_timer (time_of b s) p (queued s)"
    unfolding s'(5) ins_timer_def using le by (metis (no_types, lifting) dropWhile_cong takeWhile_cong)
  moreover from this have "in_order b s'"
    using assms(4,5) s'(3) sorted_ins_timer [of "time_of b s" "queued s" p]
    by (simp add: in_order_def set_ins_timer time_of_def [abs_def])
  ultimately show ?thesis using s' by blast
qed

subsection \<open>The operations\<close>

lemma tinvD:
  assumes "tinv P s"
  shows "tlinks_ok P s" "0 \<notin> P" "p \<in> P \<Longrightarrow> tm_active (timers s p) \<longleftrightarrow> p \<in> set (queued s)"
    "p \<in> set (queued s) \<Longrightarrow> tm_callback (timers s p) \<noteq> 0" "set (queued s) \<subseteq> P" "distinct (queued s)"
  using assms tlinks_items [of P s] by (auto simp: tinv_def)

text \<open>A timer that leaves the queue; one that is not in it stays where it was.\<close>

lemma unlink_inv:
  assumes "tinv P s" and "p \<in> P"
  defines "s1 \<equiv> (if tm_active (timers s p) then upd_tlinks (list_del_init (TimerNode p)) s else s)"
  shows "tlinks_ok P s1" and "queued s1 = remove1 p (queued s)" and "timers s1 = timers s"
    and "timers_only s s1" and "in_order b s \<Longrightarrow> in_order b s1"
proof -
  note d = tinvD [OF assms(1)]
  have n: "\<not> tm_active (timers s p) \<Longrightarrow> p \<notin> set (queued s)" using d(3) assms(2) by blast
  show "tlinks_ok P s1" "timers s1 = timers s" "timers_only s s1"
    using unlink_timer(1) [OF d(1) assms(2)] d(1) by (auto simp: s1_def)
  show q: "queued s1 = remove1 p (queued s)"
    using unlink_timer(2) [OF d(1) assms(2)] n by (auto simp: s1_def)
  have "set (remove1 p (queued s)) \<subseteq> set (queued s)" by (rule set_remove1_subset)
  moreover have "time_of b s1 = time_of b s" by (simp add: time_of_def [abs_def] \<open>timers s1 = timers s\<close>)
  moreover have "sorted (map a xs) \<Longrightarrow> sorted (map a (remove1 p xs))" for a :: "ptr \<Rightarrow> nat" and xs
    by (metis sorted_map_remove1)
  ultimately show "in_order b s \<Longrightarrow> in_order b s1" unfolding in_order_def q by auto
qed

lemma timer_start_inv:
  fixes delay period :: u32
  assumes "tinv P s" and "p \<in> P" and "tm_callback (timers s p) \<noteq> 0"
  defines "t \<equiv> (timers s p)\<lparr>tm_deadline := tick_count s + delay, tm_period := period, tm_active := True\<rparr>"
  shows "\<exists>s'. timer_start_ticks_obj p delay period s = Some s' \<and> tinv P s' \<and>
    timers s' = (timers s)(p := t) \<and> timers_only s s' \<and> set (queued s') = insert p (set (queued s)) \<and>
    (in_order b s \<and> ahead b (tick_count s + delay) < 2 ^ 31 \<longrightarrow>
      in_order b s' \<and> queued s' = ins_timer (time_of b s') p (remove1 p (queued s)))"
proof -
  note d = tinvD [OF assms(1)]
  define s1 where "s1 = (if tm_active (timers s p) then upd_tlinks (list_del_init (TimerNode p)) s else s)"
  note u = unlink_inv [OF assms(1,2), folded s1_def]
  define s2 where "s2 = upd_timer p (\<lambda>k. k\<lparr>tm_deadline := timer_ticks s1 + delay,
                   tm_period := period, tm_active := True\<rparr>) s1"
  have t2: "timers s2 = (timers s)(p := t)"
    by (simp add: s2_def u(3) t_def timer_ticks_def timers_onlyD(1) [OF u(4)])
  have q2: "queued s2 = remove1 p (queued s)" "tlinks_ok P s2" "timers_only s s2"
    using u(1,2,4) timers_only_trans [OF u(4), of s2] by (simp_all add: s2_def)
  have nin: "p \<notin> set (queued s2)" unfolding q2 using d(6) by simp
  have eq: "timer_start_ticks_obj p delay period s = timer_insert_locked p s2"
    using assms(2,3) d(2) by (auto simp: timer_start_ticks_obj_def s2_def s1_def Let_def)
  have inv: "tinv P s'" if "tlinks_ok P s'" "timers s' = timers s2" "set (queued s') = insert p (set (queued s))" for s'
    using that d(2-4) assms(3) by (auto simp: tinv_def t2 t_def)
  have ord: "in_order b s2" if "in_order b s"
  proof -
    have "time_of b s2 q = time_of b s1 q" if "q \<in> set (queued s2)" for q
      using that nin by (auto simp: time_of_def s2_def)
    then show ?thesis using u(5) [OF that] q2(1) u(2) unfolding in_order_def by (auto cong: map_cong)
  qed
  obtain s' where s': "timer_insert_locked p s2 = Some s'" "tlinks_ok P s'" "timers s' = timers s2" "timers_only s2 s'"
    "set (queued s') = insert p (set (queued s2))"
    using insert_timer [OF q2(2) assms(2) nin]
    by (auto simp: Let_def) (metis Un_insert_right list.simps(15) set_append takeWhile_dropWhile_id)
  have st: "set (queued s') = insert p (set (queued s))" using s'(5) d(6) by (auto simp: q2(1))
  have "in_order b s' \<and> queued s' = ins_timer (time_of b s') p (remove1 p (queued s))"
    if o: "in_order b s" and a: "ahead b (tick_count s + delay) < 2 ^ 31"
  proof -
    have "time_of b s2 p < 2 ^ 31" using a by (simp add: time_of_def t2 t_def)
    moreover have "time_of b s' = time_of b s2" by (simp add: time_of_def [abs_def] s'(3))
    ultimately show ?thesis
      using insert_in_order [OF q2(2) assms(2) nin ord [OF o]] s'(1) q2(1) by auto
  qed
  then show ?thesis using s' eq inv [OF s'(2,3) st] st t2 timers_only_trans [OF q2(3) s'(4)] by auto
qed

lemma timer_stop_inv:
  assumes "tinv P s" and "p \<in> P"
  defines "s' \<equiv> timer_stop_obj p s"
  shows "tinv P s'" and "queued s' = remove1 p (queued s)" and "timers_only s s'"
    and "timers s' = (timers s)(p := (timers s p)\<lparr>tm_active := False\<rparr>)"
    and "in_order b s \<Longrightarrow> in_order b s'"
proof -
  note d = tinvD [OF assms(1)] and u = unlink_inv [OF assms(1,2)]
  have p: "p \<noteq> 0" using assms(2) d(2) by auto
  show t: "timers s' = (timers s)(p := (timers s p)\<lparr>tm_active := False\<rparr>)"
    using p by (auto simp: s'_def timer_stop_obj_def)
  show q: "queued s' = remove1 p (queued s)"
    using u(2) p by (auto simp: s'_def timer_stop_obj_def split: if_splits)
  show "timers_only s s'"
    using p by (auto simp: s'_def timer_stop_obj_def intro: timers_only_trans)
  have "tlinks_ok P s'" using u(1) p by (auto simp: s'_def timer_stop_obj_def split: if_splits)
  then show "tinv P s'"
    using d(2-4,6) by (auto simp: tinv_def q t)
  show "in_order b s'" if "in_order b s"
  proof -
    have "time_of b s' q = time_of b s q" for q by (simp add: time_of_def t)
    then have "time_of b s' = time_of b s" by blast
    then show ?thesis using u(5) [OF that] u(2,3) unfolding in_order_def q by (simp add: time_of_def [abs_def])
  qed
qed

lemma timer_destroy_inv:
  assumes "tinv P s" and "p \<in> P"
  shows "\<exists>s'. timer_destroy_obj p s = (ERR_OK, s') \<and> tinv (P - {p}) s' \<and> tinv P s' \<and>
    queued s' = remove1 p (queued s) \<and> timers_only s s'"
proof -
  note d = tinvD [OF assms(1)] and u = unlink_inv [OF assms(1,2)]
  have p: "p \<noteq> 0" using assms(2) d(2) by auto
  define s1 where "s1 = (if tm_active (timers s p) then upd_tlinks (list_del_init (TimerNode p)) s else s)"
  define s' where "s' = upd_timer p (\<lambda>_. \<lparr>tm_deadline = 0, tm_period = 0, tm_callback = 0, tm_arg = 0,
    tm_active = False\<rparr>) s1"
  have e: "timer_destroy_obj p s = (ERR_OK, s')"
    using p d(3) [OF assms(2)] tlinks_empty(2) [OF d(1) assms(2)]
    by (auto simp: timer_destroy_obj_def s'_def s1_def Let_def)
  have q: "queued s' = remove1 p (queued s)" "tlinks_ok P s'" "timers_only s s'"
    using u(1,2) timers_only_trans [OF u(4), of s'] by (simp_all add: s'_def s1_def)
  have nin: "p \<notin> set (queued s')" unfolding q using d(6) by simp
  have i: "tinv P s'" using d(2-4,6) q nin u(3) by (auto simp: tinv_def s'_def s1_def)
  have "lists_wf (timer_links s') {TimerHead} (TimerNode ` P - {TimerNode p})"
    using lists_wf_remove_node [of "timer_links s'" "{TimerHead}" "TimerNode ` P" "TimerNode p"]
      q(2) nin tlinks_empty(2) [OF q(2) assms(2)] assms(2) by (simp add: tlinks_ok_def)
  moreover have "TimerNode ` P - {TimerNode p} = TimerNode ` (P - {p})" by auto
  ultimately have "tinv (P - {p}) s'" using i by (auto simp: tinv_def tlinks_ok_def)
  with e i q show ?thesis by blast
qed

lemma timer_setup_inv:
  assumes "tinv P s" and "p \<notin> P" and "p \<noteq> 0"
  shows "tinv (insert p P) (timer_setup_obj p cb arg s)"
    and "queued (timer_setup_obj p cb arg s) = queued s"
    and "timers_only s (timer_setup_obj p cb arg s)"
proof -
  note d = tinvD [OF assms(1)] and w = tinvD(1) [OF assms(1), unfolded tlinks_ok_def]
  have n: "TimerNode p \<notin> {TimerHead} \<union> TimerNode ` P" using assms(2) by auto
  show q: "queued (timer_setup_obj p cb arg s) = queued s"
    using items_INIT [OF w n, of TimerHead] assms(3) by (simp add: timer_setup_obj_def queued_def)
  show "timers_only s (timer_setup_obj p cb arg s)"
    using assms(3) by (auto simp: timer_setup_obj_def intro: timers_only_trans)
  have "p \<notin> set (queued s)" using d(5) assms(2) by blast
  then show "tinv (insert p P) (timer_setup_obj p cb arg s)"
    using INIT_node_wf [OF w n] d(2-4) assms(3) unfolding tinv_def q
    by (auto simp: timer_setup_obj_def tlinks_ok_def)
qed

lemma timer_init_inv:
  assumes "\<not> timer_initialized s"
  shows "tinv {} (timer_init env s)" and "queued (timer_init env s) = []"
proof -
  have l: "timer_links (timer_init env s) = INIT_LIST_HEAD TimerHead (timer_links s)"
    using assms by (auto simp: timer_init_def systimer_init_def cpu_alloc_interrupt_def Let_def
        split: prod.split)
  have "lists_wf (INIT_LIST_HEAD TimerHead (timer_links s)) {TimerHead} {}"
    using INIT_head_wf [OF lists_wf_empty [of "timer_links s"], of TimerHead] by simp
  then show "queued (timer_init env s) = []"
    using items_INIT_same [of TimerHead "timer_links s"] by (simp add: queued_def l)
  then show "tinv {} (timer_init env s)"
    using \<open>lists_wf (INIT_LIST_HEAD TimerHead (timer_links s)) {TimerHead} {}\<close>
    by (simp add: tinv_def tlinks_ok_def l)
qed

text \<open>The tick counter is not part of the queue.\<close>

lemma tick_frame [simp]:
  "queued (s\<lparr>tick_count := n\<rparr>) = queued s" "tinv P (s\<lparr>tick_count := n\<rparr>) \<longleftrightarrow> tinv P s"
  "time_of b (s\<lparr>tick_count := n\<rparr>) = time_of b s" "in_order b (s\<lparr>tick_count := n\<rparr>) \<longleftrightarrow> in_order b s"
  by (simp_all add: queued_def tinv_def tlinks_ok_def time_of_def [abs_def] in_order_def)

end
