(* ===== verification/TimerRun.thy ===== *)
theory TimerRun
  imports TimerList
begin

text \<open>
  The loop of \<^verbatim>\<open>timer_run_expired\<close>: one expiry on the abstract queue, the relation that lists
  the rounds of a run with the times the timers fired for, and the set of the firings that are
  due, a periodic timer once for every period that has passed.  The measure of the loop is the
  number of ticks the queued timers are late.
\<close>

subsection \<open>One expiry\<close>

abbreviation period_of :: "'z sys_scheme \<Rightarrow> ptr \<Rightarrow> nat" where
  "period_of s p \<equiv> unat (tm_period (timers s p))"

lemma ahead_plus:
  assumes "ahead b d + unat k < 2 ^ 32"
  shows "ahead b (d + k) = ahead b d + unat k"
proof -
  have "unat ((d - b) + k) = unat (d - b) + unat k"
    using assms by (intro unat_add_lem [THEN iffD1]) (simp add: ahead_def)
  moreover have "d + k - b = (d - b) + k" by (simp only: add_diff_eq diff_add_eq)
  ultimately show ?thesis by (simp only: ahead_def)
qed

lemma timer_expire_inv:
  assumes "tinv P s" and "in_order b s" and "queued s = p # ps"
    and "time_of b s p + period_of s p < 2 ^ 31"
  shows "\<exists>s1. timer_expire p s = Some s1 \<and> tinv P s1 \<and> in_order b s1 \<and> timers_only s s1 \<and>
    (\<forall>q. tm_period (timers s1 q) = tm_period (timers s q)) \<and>
    (\<forall>q. time_of b s1 q = time_of b s q + (if q = p then period_of s p else 0)) \<and>
    set (queued s1) = (if period_of s p = 0 then set ps else set (queued s))"
proof -
  note d = tinvD [OF assms(1)]
  have p: "p \<in> P" "p \<notin> set ps" "distinct ps" using d(5,6) assms(3) by auto
  define s0 where "s0 = upd_tlinks (list_del_init (TimerNode p)) s"
  have u: "tlinks_ok P s0" "queued s0 = ps" "timers s0 = timers s" "timers_only s s0"
    using unlink_timer [OF d(1) p(1)] assms(3) by (simp_all add: s0_def)
  have o: "sorted (map (time_of b s) ps)" "\<forall>q\<in>set ps. time_of b s q < 2 ^ 31"
    using assms(2,3) by (auto simp: in_order_def)
  show ?thesis
  proof (cases "tm_period (timers s p) = 0")
    case True
    define s1 where "s1 = upd_timer p (\<lambda>k. k\<lparr>tm_active := False\<rparr>) s0"
    have e: "timer_expire p s = Some s1"
      using True u(3) by (simp add: timer_expire_def s1_def flip: s0_def)
    have t: "timers s1 = (timers s)(p := (timers s p)\<lparr>tm_active := False\<rparr>)" "queued s1 = ps" "tlinks_ok P s1"
      using u by (simp_all add: s1_def)
    have i: "tinv P s1" using d(2-4) p assms(3) by (auto simp: tinv_def t)
    have tm: "time_of b s1 q = time_of b s q" for q by (simp add: time_of_def t)
    have "time_of b s1 = time_of b s" using tm by blast
    then have "in_order b s1" using o by (simp add: in_order_def t)
    moreover have "timers_only s s1" using timers_only_trans [OF u(4), of s1] by (simp add: s1_def)
    ultimately show ?thesis using e i tm True by (auto simp: t)
  next
    case False
    define s2 where "s2 = upd_timer p (\<lambda>k. k\<lparr>tm_deadline := tm_deadline k + tm_period k\<rparr>) s0"
    have e: "timer_expire p s = timer_insert_locked p s2"
      using False u(3) by (simp add: timer_expire_def s2_def flip: s0_def)
    have t: "timers s2 = (timers s)(p := (timers s p)\<lparr>tm_deadline := tm_deadline (timers s p) + tm_period (timers s p)\<rparr>)"
      "queued s2 = ps" "tlinks_ok P s2" "timers_only s s2"
      using u timers_only_trans [OF u(4), of s2] by (simp_all add: s2_def)
    have tm: "time_of b s2 q = time_of b s q + (if q = p then period_of s p else 0)" for q
      using ahead_plus [of b "tm_deadline (timers s p)" "tm_period (timers s p)"] assms(4)
      by (simp add: time_of_def t)
    have m: "map (time_of b s2) ps = map (time_of b s) ps" using p(2) tm by (intro map_cong) auto
    have "\<forall>q\<in>set ps. time_of b s2 q < 2 ^ 31" using o(2) p(2) tm by auto
    then have o2: "in_order b s2" unfolding in_order_def t m using o(1) by blast
    have "p \<notin> set (queued s2)" "time_of b s2 p < 2 ^ 31" using p(2) tm assms(4) by (simp_all add: t)
    from insert_in_order [OF t(3) p(1) this(1) o2 this(2)] obtain s1 where s1:
      "timer_insert_locked p s2 = Some s1" "tlinks_ok P s1" "timers s1 = timers s2" "timers_only s2 s1"
      "queued s1 = ins_timer (time_of b s2) p ps" "in_order b s1" by (auto simp: t)
    have q: "set (queued s1) = set (queued s)" by (simp add: s1(5) set_ins_timer assms(3))
    have "tinv P s1" using d(2-4) s1(2,3) q assms(3) by (auto simp: tinv_def t)
    moreover have "time_of b s1 q = time_of b s2 q" for q by (simp add: time_of_def s1(3))
    ultimately show ?thesis using e s1 q tm timers_only_trans [OF t(4) s1(4)] False by (auto simp: t unat_eq_0)
  qed
qed

subsection \<open>The rounds of a run\<close>

inductive timer_rounds ::
    "(ptr \<Rightarrow> ptr \<Rightarrow> 'z sys_scheme \<Rightarrow> 'z sys_scheme option) \<Rightarrow> u32 \<Rightarrow> 'z sys_scheme \<Rightarrow>
      (ptr \<times> nat) list \<Rightarrow> 'z sys_scheme \<Rightarrow> bool" for call b where
  Done: "timer_rounds call b s [] s"
| Round: "queued s = p # ps \<Longrightarrow> timer_expire p s = Some s1 \<Longrightarrow>
    call (tm_callback (timers s p)) (tm_arg (timers s p)) s1 = Some s2 \<Longrightarrow>
    timer_rounds call b s2 fired s' \<Longrightarrow>
    timer_rounds call b s ((p, time_of b s p) # fired) s'"

text \<open>The firings due after \<open>e\<close> ticks, with deadlines \<open>a\<close> and periods \<open>per\<close>.\<close>

definition firings :: "nat \<Rightarrow> (ptr \<Rightarrow> nat) \<Rightarrow> (ptr \<Rightarrow> nat) \<Rightarrow> ptr set \<Rightarrow> (ptr \<times> nat) set" where
  "firings e a per Q = {(p, a p + k * per p) |p k. p \<in> Q \<and> a p + k * per p \<le> e \<and> (per p = 0 \<longrightarrow> k = 0)}"

lemma firings_iff:
  "(q, t) \<in> firings e a per Q \<longleftrightarrow> q \<in> Q \<and> t \<le> e \<and> (\<exists>k. t = a q + k * per q \<and> (per q = 0 \<longrightarrow> k = 0))"
  by (auto simp: firings_def)

lemma firings_step:
  assumes "p \<in> Q" and "a p \<le> e" and "\<And>q. q \<in> Q \<Longrightarrow> a p \<le> a q"
    and "\<And>q. a' q = a q + (if q = p then per p else 0)"
    and "Q' = (if per p = 0 then Q - {p} else Q)"
  shows "firings e a per Q = insert (p, a p) (firings e a' per Q')"
    and "(p, a p) \<notin> firings e a' per Q'" and "(q, t) \<in> firings e a' per Q' \<Longrightarrow> a p \<le> t"
proof -
  have other: "q \<noteq> p \<Longrightarrow> a' q = a q" "a' p = a p + per p" for q using assms(4) by auto
  show nin: "(p, a p) \<notin> firings e a' per Q'"
    using assms(5) by (auto simp: firings_iff other)
  show "a p \<le> t" if "(q, t) \<in> firings e a' per Q'"
  proof -
    have "q \<in> Q" "a q \<le> a' q" "a' q \<le> t"
      using that assms(4,5) by (auto simp: firings_iff split: if_splits)
    with assms(3) [of q] show ?thesis by simp
  qed
  have "(q, t) \<in> firings e a per Q \<longleftrightarrow> (q, t) = (p, a p) \<or> (q, t) \<in> firings e a' per Q'" for q t
  proof (cases "q = p")
    case False
    then show ?thesis using assms(5) by (simp add: firings_iff other)
  next
    case True
    show ?thesis
    proof (cases "per p = 0")
      case True
      then show ?thesis using assms(1,2,5) \<open>q = p\<close> by (auto simp: firings_iff)
    next
      case False
      have "(\<exists>k. t = a p + k * per p) \<longleftrightarrow> t = a p \<or> (\<exists>k. t = a p + per p + k * per p)"
      proof
        assume "\<exists>k. t = a p + k * per p"
        then obtain k where "t = a p + k * per p" by blast
        then show "t = a p \<or> (\<exists>k. t = a p + per p + k * per p)" by (cases k) auto
      next
        assume "t = a p \<or> (\<exists>k. t = a p + per p + k * per p)"
        then show "\<exists>k. t = a p + k * per p"
        proof
          assume "\<exists>k. t = a p + per p + k * per p"
          then obtain k where "t = a p + per p + k * per p" by blast
          then have "t = a p + Suc k * per p" by simp
          then show ?thesis by blast
        qed (rule exI [of _ 0], simp)
      qed
      then show ?thesis using assms(1,2,5) \<open>q = p\<close> False by (auto simp: firings_iff other)
    qed
  qed
  then show "firings e a per Q = insert (p, a p) (firings e a' per Q')" by auto
qed

lemma firings_none:
  assumes "\<And>q. q \<in> Q \<Longrightarrow> e < a q"
  shows "firings e a per Q = {}"
proof -
  have "(q, t) \<notin> firings e a per Q" for q t
  proof
    assume "(q, t) \<in> firings e a per Q"
    then have "q \<in> Q" "a q \<le> e" by (auto simp: firings_iff)
    with assms show False by (meson not_less)
  qed
  then show ?thesis by auto
qed

text \<open>
  A callback may do anything that leaves the timers alone and keeps an invariant of the rest of
  the kernel, which the timer code in turn keeps.
\<close>

definition callback_ok ::
    "('z sys_scheme \<Rightarrow> bool) \<Rightarrow> (ptr \<Rightarrow> ptr \<Rightarrow> 'z sys_scheme \<Rightarrow> 'z sys_scheme option) \<Rightarrow> bool" where
  "callback_ok I call \<longleftrightarrow> (\<forall>s s'. timers_only s s' \<longrightarrow> I s \<longrightarrow> I s') \<and>
     (\<forall>c a s. I s \<longrightarrow> (\<exists>s'. call c a s = Some s' \<and> I s' \<and> timers s' = timers s \<and>
       timer_links s' = timer_links s \<and> tick_count s' = tick_count s))"

lemma due_iff:
  assumes "time_of b s p < 2 ^ 31" and "tick_count s = b + e" and "unat e < 2 ^ 31"
  shows "timer_expired (timer_ticks s) (tm_deadline (timers s p)) \<longleftrightarrow> time_of b s p \<le> unat e"
proof -
  have "timer_expired (b + e) (b + (tm_deadline (timers s p) - b)) \<longleftrightarrow>
      unat (tm_deadline (timers s p) - b) \<le> unat e"
    using assms(1,3) by (intro timer_expired_elapsed) (simp_all add: time_of_def ahead_def)
  then show ?thesis using assms(2) by (simp add: time_of_def ahead_def timer_ticks_def)
qed

definition lateness :: "u32 \<Rightarrow> u32 \<Rightarrow> 'z sys_scheme \<Rightarrow> nat" where
  "lateness b e s = (\<Sum>p\<in>set (queued s). Suc (unat e) - time_of b s p)"

lemma lateness_step:
  assumes "p \<in> set (queued s)" and "time_of b s p \<le> unat e"
    and "\<And>q. time_of b s' q = time_of b s q + (if q = p then per else 0)"
    and "set (queued s') = (if per = 0 then set (queued s) - {p} else set (queued s))"
  shows "lateness b e s' < lateness b e s"
proof -
  let ?f = "\<lambda>s q. Suc (unat e) - time_of b s q"
  have same: "(\<Sum>q\<in>set (queued s) - {p}. ?f s' q) = (\<Sum>q\<in>set (queued s) - {p}. ?f s q)"
    using assms(3) by (intro sum.cong) auto
  have s: "lateness b e s = ?f s p + (\<Sum>q\<in>set (queued s) - {p}. ?f s q)"
    unfolding lateness_def using assms(1) by (intro sum.remove) simp_all
  show ?thesis
  proof (cases "per = 0")
    case True
    then have "lateness b e s' = (\<Sum>q\<in>set (queued s) - {p}. ?f s' q)"
      using assms(4) by (simp add: lateness_def)
    then show ?thesis using s same assms(2) by simp
  next
    case False
    then have "lateness b e s' = ?f s' p + (\<Sum>q\<in>set (queued s) - {p}. ?f s' q)"
      unfolding lateness_def using assms(1,4) by (simp add: sum.remove)
    moreover have "?f s' p < ?f s p" using False assms(2,3) by simp
    ultimately show ?thesis using s same by simp
  qed
qed

subsection \<open>The run\<close>

definition in_reach :: "nat \<Rightarrow> 'z sys_scheme \<Rightarrow> bool" where
  "in_reach e s \<longleftrightarrow> (\<forall>p\<in>set (queued s). e + period_of s p < 2 ^ 31)"

lemma run_expired_due:
  assumes "tinv P s" and "in_order b s" and "queued s = p # ps"
    and "tick_count s = b + e" and "unat e < 2 ^ 31"
  shows "timer_run_expired call s = (if time_of b s p \<le> unat e
    then Option.bind (timer_expire p s) (\<lambda>s1.
      Option.bind (call (tm_callback (timers s p)) (tm_arg (timers s p)) s1) (timer_run_expired call))
    else Some s)"
proof -
  note d = tinvD [OF assms(1)] and h = tlinks_empty [OF tinvD(1) [OF assms(1)]]
  have "time_of b s p < 2 ^ 31" using assms(2,3) by (simp add: in_order_def)
  note due = due_iff [OF this assms(4,5)]
  show ?thesis
    using assms(3) h(1,3) h(4) [OF assms(3)] due
    by (subst timer_run_expired.simps) (auto simp: Let_def)
qed

lemma run_expired_rounds:
  assumes cb: "callback_ok I call" and e: "unat e < 2 ^ 31"
  shows "I s \<Longrightarrow> tinv P s \<Longrightarrow> in_order b s \<Longrightarrow> tick_count s = b + e \<Longrightarrow> in_reach (unat e) s \<Longrightarrow>
    \<exists>fired s'. timer_run_expired call s = Some s' \<and> I s' \<and> timer_rounds call b s fired s' \<and>
      distinct fired \<and> sorted (map snd fired) \<and>
      set fired = firings (unat e) (time_of b s) (period_of s) (set (queued s)) \<and>
      tinv P s' \<and> in_order b s' \<and> tick_count s' = b + e \<and>
      (\<forall>q\<in>set (queued s'). unat e < time_of b s' q) \<and>
      set (queued s') = {q \<in> set (queued s). period_of s q \<noteq> 0 \<or> unat e < time_of b s q}"
proof (induction "lateness b e s" arbitrary: s rule: less_induct)
  case (less s)
  note iv = less.prems(1) and t = less.prems(2) and o = less.prems(3) and c = less.prems(4) and r = less.prems(5)
  have quiet: ?case if none: "timer_run_expired call s = Some s" "\<And>q. q \<in> set (queued s) \<Longrightarrow> unat e < time_of b s q"
  proof -
    have "timer_rounds call b s [] s" by (rule timer_rounds.Done)
    moreover have "set [] = firings (unat e) (time_of b s) (period_of s) (set (queued s))"
      using firings_none [of "set (queued s)" "unat e"] none(2) by simp
    moreover have "set (queued s) = {q \<in> set (queued s). period_of s q \<noteq> 0 \<or> unat e < time_of b s q}"
      using none(2) by auto
    ultimately show ?thesis using none iv t o c
      by (intro exI [of _ "[]"] exI [of _ s]) simp
  qed
  show ?case
  proof (cases "queued s")
    case Nil
    then have "timer_run_expired call s = Some s"
      using tlinks_empty(1) [OF tinvD(1) [OF t]] by (subst timer_run_expired.simps) simp
    then show ?thesis using quiet Nil by simp
  next
    case (Cons p ps)
    note u = run_expired_due [OF t o Cons c e, where call = call]
    have first: "time_of b s p \<le> time_of b s q" if "q \<in> set (queued s)" for q
      using o that Cons by (auto simp: in_order_def)
    show ?thesis
    proof (cases "time_of b s p \<le> unat e")
      case False
      show ?thesis
      proof (rule quiet)
        show "timer_run_expired call s = Some s" using u False by simp
        show "unat e < time_of b s q" if "q \<in> set (queued s)" for q
          using first [OF that] False by simp
      qed
    next
      case True
      have p: "p \<in> set (queued s)" and dist: "distinct (queued s)" using Cons tinvD(6) [OF t] by simp_all
      have "time_of b s p + period_of s p < 2 ^ 31" using r p True by (fastforce simp: in_reach_def)
      from timer_expire_inv [OF t o Cons this] obtain s1 where s1: "timer_expire p s = Some s1" "tinv P s1"
        "in_order b s1" "timers_only s s1" "\<And>q. tm_period (timers s1 q) = tm_period (timers s q)"
        "\<And>q. time_of b s1 q = time_of b s q + (if q = p then period_of s p else 0)"
        "set (queued s1) = (if period_of s p = 0 then set ps else set (queued s))" by blast
      have "I s1" using cb s1(4) iv unfolding callback_ok_def by blast
      then obtain s2 where s2: "call (tm_callback (timers s p)) (tm_arg (timers s p)) s1 = Some s2"
        "timers s2 = timers s1" "timer_links s2 = timer_links s1" "tick_count s2 = tick_count s1" and iv2: "I s2"
        using cb unfolding callback_ok_def by blast
      have q2: "queued s2 = queued s1" and a2: "time_of b s2 = time_of b s1"
        by (simp_all add: queued_def s2 time_of_def [abs_def])
      have Q2: "set (queued s2) = (if period_of s p = 0 then set (queued s) - {p} else set (queued s))"
        using s1(7) Cons dist by (auto simp: q2)
      have t2: "tinv P s2" "in_order b s2"
        using s1(2,3) by (simp_all add: tinv_def tlinks_ok_def in_order_def q2 a2 s2)
      have c2: "tick_count s2 = b + e" using c timers_onlyD(1) [OF s1(4)] s2(4) by simp
      have per2: "period_of s2 = period_of s" by (simp add: fun_eq_iff s2(2) s1(5))
      have r2: "in_reach (unat e) s2" using r Q2 by (simp add: in_reach_def s2(2) s1(5))
      have A2: "time_of b s2 q = time_of b s q + (if q = p then period_of s p else 0)" for q
        by (simp add: a2 s1(6))
      from less.hyps [OF lateness_step [OF p True A2 Q2] iv2 t2 c2 r2] obtain fired s' where
        iv': "I s'" and I: "timer_run_expired call s2 = Some s'" "timer_rounds call b s2 fired s'" "distinct fired"
          "sorted (map snd fired)" "set fired = firings (unat e) (time_of b s2) (period_of s2) (set (queued s2))"
          "tinv P s'" "in_order b s'" "tick_count s' = b + e" "\<forall>q\<in>set (queued s'). unat e < time_of b s' q"
          "set (queued s') = {q \<in> set (queued s2). period_of s2 q \<noteq> 0 \<or> unat e < time_of b s2 q}"
        by blast
      note F = firings_step [where a = "time_of b s" and a' = "time_of b s2" and per = "period_of s",
          OF p True first A2 Q2]
      let ?f = "(p, time_of b s p) # fired"
      have "timer_run_expired call s = Some s'" using u True s1(1) s2(1) I(1) by simp
      moreover have "timer_rounds call b s ?f s'" by (rule timer_rounds.Round [OF Cons s1(1) s2(1) I(2)])
      moreover have "distinct ?f" "set ?f = firings (unat e) (time_of b s) (period_of s) (set (queued s))"
        using F(1,2) I(3,5) by (simp_all add: per2)
      moreover have "sorted (map snd ?f)" using F(3) I(4,5) by (auto simp: per2)
      moreover have "set (queued s') = {q \<in> set (queued s). period_of s q \<noteq> 0 \<or> unat e < time_of b s q}"
        using I(10) Q2 A2 True by (auto simp: s2(2) s1(5))
      ultimately show ?thesis using iv' I(6-9) by blast
    qed
  qed
qed

end
