(* ===== verification/TrapSteps.thy ===== *)
theory TrapSteps
  imports Trap TimerRun SysFrame
begin

unbundle bit_operations_syntax

text \<open>
  The parts of \<^verbatim>\<open>do_trap\<close> on a consistent kernel: the switch to the next task, the scheduling at
  the end of a trap, and the state a trap works on.
\<close>

subsection \<open>The switch\<close>

text \<open>Fields of the kernel the choice of a task does not change.\<close>

definition same_control :: "'z kstate_scheme \<Rightarrow> 'z kstate_scheme \<Rightarrow> bool" where
  "same_control s s' \<longleftrightarrow> idle_task s' = idle_task s \<and> lock_count s' = lock_count s \<and>
     tick_count s' = tick_count s \<and> trap_nesting s' = trap_nesting s \<and> started s' = started s \<and>
     kstate.more s' = kstate.more s \<and>
     (\<forall>t. priority (tasks s' t) = priority (tasks s t) \<and> task_sp (tasks s' t) = task_sp (tasks s t))"

lemma same_control_refl [simp]: "same_control s s"
  by (simp add: same_control_def)

lemma same_control_trans [trans]: "same_control s s1 \<Longrightarrow> same_control s1 s2 \<Longrightarrow> same_control s s2"
  by (simp add: same_control_def)

lemma same_controlD:
  assumes "same_control s s'"
  shows "idle_task s' = idle_task s" "lock_count s' = lock_count s" "tick_count s' = tick_count s"
    "trap_nesting s' = trap_nesting s" "started s' = started s" "kstate.more s' = kstate.more s"
    "priority (tasks s' t) = priority (tasks s t)" "task_sp (tasks s' t) = task_sp (tasks s t)"
  using assms by (simp_all add: same_control_def)

lemma requeue_control: "same_control s (requeue_current s)"
  by (simp add: same_control_def requeue_current_def set_task_state_def sched_ready_enqueue_def Let_def)

lemma pop_control:
  assumes "sched_ready_pop_highest s = Some (t, s')"
  shows "same_control s s'"
proof (cases "ready_mask s = 0")
  case False
  with assms show ?thesis
    unfolding sched_ready_pop_highest_def Let_def same_control_def by (clarsimp split: if_split_asm)
qed (use assms in \<open>simp add: sched_ready_pop_highest_def\<close>)

lemma pick_control:
  assumes "sched_pick_next s = Some (t, s')"
  shows "same_control s s'"
proof -
  obtain u s2 where p: "sched_ready_pop_highest (requeue_current s) = Some (u, s2)"
    and s': "same_control s2 s'"
    using assms unfolding sched_pick_next_def Let_def bind_Some_iff
    by (auto simp: set_task_state_def same_control_def split: if_splits)
  from requeue_control pop_control [OF p] s' show ?thesis by (blast intro: same_control_trans)
qed

text \<open>What a switch establishes: a running task of the kernel that no ready task outranks.\<close>

definition best_running :: "'z kstate_scheme \<Rightarrow> bool" where
  "best_running s \<longleftrightarrow> task_state (tasks s (current_task s)) = TASK_RUNNING \<and>
     \<not> higher_ready s (prio s (current_task s))"

lemma higher_ready_current [simp]:
  "higher_ready (s\<lparr>current_task := t\<rparr>) p \<longleftrightarrow> higher_ready s p"
  "higher_ready (s\<lparr>resched_pending := b\<rparr>) p \<longleftrightarrow> higher_ready s p"
  "higher_ready (s\<lparr>time_slice_ticks := n\<rparr>) p \<longleftrightarrow> higher_ready s p"
  by (simp_all add: higher_ready_def)

lemma pick_best:
  assumes k: "kinv T W s" and i: "idle_task s \<noteq> 0"
  shows "\<exists>t s1. sched_pick_next s = Some (t, s1) \<and> kinv T W (s1\<lparr>current_task := t\<rparr>) \<and> t \<in> T \<and>
    best_running (s1\<lparr>current_task := t\<rparr>) \<and> same_control s (s1\<lparr>current_task := t\<rparr>)"
proof (cases "\<exists>q<32. ready_view s q \<noteq> []")
  case True
  then obtain q where q: "q < 32" "ready_view s q \<noteq> []" by blast
  note rq = requeue_current [OF k]
  from pick_next_ready [OF k q] obtain p t xs s1 where p: "p < 32" "ready_view s p = StateNode t # xs"
    "\<forall>r<32. ready_view s r \<noteq> [] \<longrightarrow> r \<le> p" "t \<in> T" "sched_pick_next s = Some (t, s1)"
    "kinv T W (s1\<lparr>current_task := t\<rparr>)"
    "tasks s1 = (tasks (requeue_current s))(t := (tasks s t)\<lparr>task_state := TASK_RUNNING\<rparr>)"
    "\<forall>h\<in>kheads W. klist s1 h = (if h = ReadyHead p then xs else klist (requeue_current s) h)" by blast
  note c = pick_control [OF p(5)]
  have "StateNode t \<in> set (klist (requeue_current s) (ReadyHead p))" using rq(5) [OF p(1)] p(2) by simp
  then have "prio (requeue_current s) t = p" using kinv_ready_list(2) [OF rq(1) p(4,1)] by blast
  then have pt: "prio s1 t = p" using requeue_control [of s] c by (simp add: same_control_def)
  have "klist s1 (ReadyHead r) = []" if "r < 32" "p < r" for r
    using p(8) p(3) that rq(5) [OF that(1)] by (auto simp: not_le [symmetric])
  then have "\<not> higher_ready s1 p" by (auto simp: higher_ready_def)
  then have "best_running (s1\<lparr>current_task := t\<rparr>)" using pt by (simp add: best_running_def p(7))
  moreover have "same_control s (s1\<lparr>current_task := t\<rparr>)" using c by (simp add: same_control_def)
  ultimately show ?thesis using p(4-6) by blast
next
  case False
  then have none: "ready_view s p = []" if "p < 32" for p using that by blast
  let ?i = "idle_task s" and ?s1 = "set_task_state (idle_task s) TASK_RUNNING (requeue_current s)"
  note pi = pick_next_idle [OF k none i]
  have T: "?i \<in> T" using kbaseD(9) [OF kinv_kbase [OF k]] i by blast
  have "klist ?s1 (ReadyHead r) = []" if "r < 32" for r
    using requeue_current(5) [OF k that] none [OF that] by (simp add: set_task_state_def)
  then have "best_running (?s1\<lparr>current_task := ?i\<rparr>)"
    by (simp add: best_running_def higher_ready_def)
  moreover have "same_control s (?s1\<lparr>current_task := ?i\<rparr>)"
    using pick_control [OF pi(1)] by (simp add: same_control_def)
  ultimately show ?thesis using pi T by blast
qed

subsection \<open>The scheduling part of a trap\<close>

lemma current_pending [simp]:
  "sched_current_is_idle (s\<lparr>resched_pending := b\<rparr>) \<longleftrightarrow> sched_current_is_idle s"
  "kinv T W (s\<lparr>resched_pending := b\<rparr>) \<longleftrightarrow> kinv T W s"
  "kinv T W (s\<lparr>time_slice_ticks := n\<rparr>) \<longleftrightarrow> kinv T W s"
  "kinv T W (sched_set_pending s) \<longleftrightarrow> kinv T W s"
  "best_running (s\<lparr>resched_pending := b\<rparr>) \<longleftrightarrow> best_running s"
  "best_running (s\<lparr>time_slice_ticks := n\<rparr>) \<longleftrightarrow> best_running s"
  by (auto simp: sched_current_is_idle_def sched_set_pending_def best_running_def elim!: kinv_frame)

lemma same_control_upd [simp]:
  "same_control s (s\<lparr>resched_pending := b\<rparr>)" "same_control s (s\<lparr>time_slice_ticks := n\<rparr>)"
  "same_control s (sched_set_pending s)" "same_control s ((s\<lparr>time_slice_ticks := n\<rparr>)\<lparr>resched_pending := b\<rparr>)"
  by (simp_all add: same_control_def sched_set_pending_def)

abbreviation cur_running :: "'z kstate_scheme \<Rightarrow> bool" where
  "cur_running s \<equiv> task_state (tasks s (current_task s)) = TASK_RUNNING"

lemma best_is_running: "best_running s \<Longrightarrow> cur_running s"
  by (simp add: best_running_def)

lemma switch_best:
  assumes k: "kinv T W s" and i: "idle_task s \<noteq> 0"
  shows "\<exists>s'. Option.bind (sched_pick_next s) (\<lambda>(t, s1). Some (s1\<lparr>current_task := t\<rparr>)) = Some s' \<and>
    kinv T W s' \<and> current_task s' \<in> T \<and> best_running s' \<and> same_control s s'"
  using pick_best [OF assms] by fastforce

lemma tick_schedules:
  assumes k: "kinv T W s" and c: "current_task s \<noteq> 0" and i: "idle_task s \<noteq> 0"
  shows "\<exists>s'. trap_reschedule True s = Some s' \<and> kinv T W s' \<and> current_task s' \<in> T \<and> cur_running s' \<and>
    same_control s s' \<and> (lock_count s = 0 \<or> \<not> app_running s \<longrightarrow> best_running s') \<and>
    (lock_count s \<noteq> 0 \<and> app_running s \<longrightarrow> current_task s' = current_task s)"
proof (cases "app_running s")
  case False
  then have "\<not> cur_running s \<or> sched_current_is_idle s"
    using c by (auto simp: app_running_def sched_current_is_idle_def)
  then have "trap_reschedule True s = Option.bind (sched_pick_next s) (\<lambda>(t, s1). Some (s1\<lparr>current_task := t\<rparr>))"
    by (auto simp: trap_reschedule_def)
  then show ?thesis using switch_best [OF k i] False best_is_running by fastforce
next
  case True
  note T = current_in_T [OF k c]
  have e: "trap_reschedule True s = (let (due, s1) = sched_on_tick s in
      if due then if sched_is_locked s1 then Some (sched_set_pending s1)
        else Option.bind (sched_pick_next s1) (\<lambda>(t, s2). Some (s2\<lparr>current_task := t\<rparr>))
      else Some s1)"
    using True unfolding trap_reschedule_def app_running_def sched_current_is_idle_def
    by (simp add: Let_def case_prod_beta)
  note t = on_tick_running [OF k True]
  consider "sched_on_tick s = (True, s\<lparr>time_slice_ticks := 0\<rparr>)"
    | n where "sched_on_tick s = (False, s\<lparr>time_slice_ticks := n\<rparr>)" "\<not> higher_ready s (prio s (current_task s))"
  proof (cases "higher_ready s (prio s (current_task s))")
    case True
    then show ?thesis using t that(1) by simp
  next
    case no: False
    show ?thesis
    proof (cases "peer_ready s (prio s (current_task s))")
      case True
      then show ?thesis using t no that by (simp split: if_split_asm)
    next
      case False
      then have "sched_on_tick s = (False, s\<lparr>time_slice_ticks := time_slice_ticks s\<rparr>)" using t no by simp
      then show ?thesis by (rule that(2)) (rule no)
    qed
  qed
  then show ?thesis
  proof cases
    case 1
    let ?s = "s\<lparr>time_slice_ticks := 0\<rparr>"
    show ?thesis
    proof (cases "lock_count s = 0")
      case True
      then have "trap_reschedule True s = Option.bind (sched_pick_next ?s) (\<lambda>(t, s2). Some (s2\<lparr>current_task := t\<rparr>))"
        using 1 by (simp add: e sched_is_locked_def)
      moreover have "kinv T W ?s" "idle_task ?s \<noteq> 0" using k i by simp_all
      then obtain s' where "Option.bind (sched_pick_next ?s) (\<lambda>(t, s1). Some (s1\<lparr>current_task := t\<rparr>)) = Some s'"
        "kinv T W s'" "current_task s' \<in> T" "best_running s'" "same_control ?s s'"
        using switch_best by blast
      ultimately show ?thesis
        using True best_is_running same_control_trans [OF same_control_upd(2)] by (intro exI [of _ s']) auto
    next
      case False
      then have "trap_reschedule True s = Some (sched_set_pending ?s)"
        using 1 by (simp add: e sched_is_locked_def)
      then show ?thesis
        using False True T k by (intro exI [of _ "sched_set_pending ?s"])
          (simp add: app_running_def sched_set_pending_def)
    qed
  next
    case 2
    then have "trap_reschedule True s = Some (s\<lparr>time_slice_ticks := n\<rparr>)" by (simp add: e)
    then show ?thesis
      using 2 True T k by (intro exI [of _ "s\<lparr>time_slice_ticks := n\<rparr>"])
        (simp add: app_running_def best_running_def)
  qed
qed

lemma try_schedules:
  assumes k: "kinv T W s" and c: "current_task s \<noteq> 0" and i: "idle_task s \<noteq> 0"
  shows "\<exists>b s'. sched_try_reschedule_from_trap s = Some (b, s') \<and> kinv T W s' \<and> current_task s' \<in> T \<and>
    same_control s s' \<and> (cur_running s \<longrightarrow> cur_running s') \<and>
    (best_running s \<or> started s \<and> resched_pending s \<and> lock_count s = 0 \<longrightarrow> best_running s')"
proof -
  let ?s = "s\<lparr>resched_pending := False\<rparr>"
  let ?armed = "started s \<and> resched_pending s \<and> lock_count s = 0"
  let ?need = "\<not> cur_running s \<or> sched_current_is_idle s \<or> higher_ready s (prio s (current_task s))"
  note T = current_in_T [OF k c]
  have k': "kinv T W ?s" using k by simp
  have h: "sched_has_higher_priority_ready ?s \<longleftrightarrow> higher_ready s (prio s (current_task s))"
    using has_higher_priority_ready [OF k'] c by simp
  have e: "sched_try_reschedule_from_trap s = (if ?armed
      then if ?need then Option.bind (sched_pick_next ?s) (\<lambda>(t, s2). Some (True, s2\<lparr>current_task := t\<rparr>))
        else Some (False, ?s)
      else Some (False, s))"
    using c h by (simp add: sched_try_reschedule_from_trap_def Let_def)
  consider "\<not> ?armed" | "?armed" "\<not> ?need" | "?armed" "?need" by blast
  then show ?thesis
  proof cases
    case 1
    then show ?thesis using k T by (intro exI [of _ False] exI [of _ s]) (auto simp: e)
  next
    case 2
    then show ?thesis using k T by (intro exI [of _ False] exI [of _ ?s]) (auto simp: e best_running_def)
  next
    case 3
    have "idle_task ?s \<noteq> 0" using i by simp
    from pick_best [OF k' this] obtain t s1 where p: "sched_pick_next ?s = Some (t, s1)"
      "kinv T W (s1\<lparr>current_task := t\<rparr>)" "t \<in> T" "best_running (s1\<lparr>current_task := t\<rparr>)"
      "same_control ?s (s1\<lparr>current_task := t\<rparr>)" by blast
    have "sched_try_reschedule_from_trap s = Some (True, s1\<lparr>current_task := t\<rparr>)" using 3 p(1) by (simp add: e)
    moreover have "cur_running (s1\<lparr>current_task := t\<rparr>)" by (rule best_is_running [OF p(4)])
    ultimately show ?thesis
      using p(2-4) same_control_trans [OF same_control_upd(1) p(5)]
      by (intro exI [of _ True] exI [of _ "s1\<lparr>current_task := t\<rparr>"]) simp
  qed
qed

lemma call_schedules:
  assumes k: "kinv T W s" and c: "current_task s \<noteq> 0" and i: "idle_task s \<noteq> 0"
  shows "\<exists>s'. trap_reschedule False s = Some s' \<and> kinv T W s' \<and> current_task s' \<in> T \<and> cur_running s' \<and>
    same_control s s' \<and>
    (\<not> app_running s \<or> started s \<and> resched_pending s \<and> lock_count s = 0 \<longrightarrow> best_running s')"
proof (cases "app_running s")
  case True
  then have "trap_reschedule False s = map_option snd (sched_try_reschedule_from_trap s)"
    by (simp add: trap_reschedule_def app_running_def sched_current_is_idle_def)
  then show ?thesis using try_schedules [OF assms] True by (fastforce simp: app_running_def)
next
  case False
  then have "\<not> cur_running s \<or> sched_current_is_idle s"
    using c by (auto simp: app_running_def sched_current_is_idle_def)
  moreover obtain s1 where s1: "Option.bind (sched_pick_next s) (\<lambda>(t, s1). Some (s1\<lparr>current_task := t\<rparr>)) = Some s1"
    "kinv T W s1" "current_task s1 \<in> T" "best_running s1" "same_control s s1"
    using switch_best [OF k i] by blast
  ultimately have e: "trap_reschedule False s = map_option snd (sched_try_reschedule_from_trap s1)"
    by (auto simp: trap_reschedule_def)
  have "current_task s1 \<noteq> 0" using kbaseD(1) [OF kinv_kbase [OF s1(2)]] s1(3) by auto
  moreover have "idle_task s1 \<noteq> 0" using i s1(5) by (simp add: same_control_def)
  ultimately obtain b s' where "sched_try_reschedule_from_trap s1 = Some (b, s')" "kinv T W s'"
    "current_task s' \<in> T" "same_control s1 s'" "best_running s'"
    using try_schedules [OF s1(2)] s1(4) by blast
  then show ?thesis
    using e s1(5) best_is_running same_control_trans by (intro exI [of _ s']) auto
qed

end
