(* ===== verification/TimerProps.thy ===== *)
theory TimerProps
  imports TimerRun ObjProps
begin

text \<open>
  The properties of the software timers, on the abstract queue of \<open>TimerList\<close> and the run of
  \<open>TimerRun\<close>, and their instances on a kernel with two timers.
\<close>

subsection \<open>A kernel with two timers\<close>

definition demo_timers :: sys where
  "demo_timers = timer_setup_obj 0xB00 0x42000100 7 (timer_setup_obj 0xA00 0x42000000 5
     (timer_init \<lparr>env_gp = 0, env_tp = 0, fn_task_exit_trap = 0, fn_idle_task = 0,
        fn_SysTick_Handler = 0\<rparr> blank_sys))"

abbreviation demo_P :: "ptr set" where
  "demo_P \<equiv> {0xB00, 0xA00}"

lemma demo_timers_facts:
  "tinv demo_P demo_timers" "queued demo_timers = []" "in_order 0 demo_timers"
  "tick_count demo_timers = 0"
  "tm_callback (timers demo_timers 0xA00) = 0x42000000" "tm_callback (timers demo_timers 0xB00) = 0x42000100"
proof -
  let ?env = "\<lparr>env_gp = 0, env_tp = 0, fn_task_exit_trap = 0, fn_idle_task = 0, fn_SysTick_Handler = 0\<rparr>"
  have n: "\<not> timer_initialized blank_sys" by (simp add: blank_sys_def)
  note i = timer_init_inv [OF n, of ?env]
  note a = timer_setup_inv [OF i(1), of "0xA00" "0x42000000" 5]
  note b = timer_setup_inv [OF a(1), of "0xB00" "0x42000100" 7]
  show "tinv demo_P demo_timers" "queued demo_timers = []"
    using b a(2) i(2) by (simp_all add: demo_timers_def)
  then show "in_order 0 demo_timers" by (simp add: in_order_def)
  show "tick_count demo_timers = 0"
    using timers_onlyD(1) [OF b(3)] timers_onlyD(1) [OF a(3)]
    by (simp add: demo_timers_def timer_init_def systimer_init_def cpu_alloc_interrupt_def blank_sys_def
        upt_rec Let_def)
  show "tm_callback (timers demo_timers 0xA00) = 0x42000000" "tm_callback (timers demo_timers 0xB00) = 0x42000100"
    by (simp_all add: demo_timers_def timer_setup_obj_def)
qed

subsection \<open>Starting, stopping and destroying\<close>

text \<open>C21. The active timers form a queue ordered by deadline, across the wrap-around of the tick
  counter.  Starting a timer, active or not, puts it behind every timer that is not later, so
  equal deadlines keep the order they were started in; stopping takes it out and changes no other
  timer, and a start followed by a stop leaves the queue of an idle timer as it was; destroying
  takes it out and clears it.\<close>

theorem timer_queue_operations:
  assumes "tinv P s" and "p \<in> P" and "tm_callback (timers s p) \<noteq> 0"
    and "in_order b s" and "ahead b (tick_count s + delay) < 2 ^ 31"
  shows "(\<exists>s'. timer_start_ticks_obj p delay period s = Some s' \<and> tinv P s' \<and> in_order b s' \<and>
      queued s' = ins_timer (time_of b s') p (remove1 p (queued s)) \<and>
      timers s' = (timers s)(p := (timers s p)\<lparr>tm_deadline := tick_count s + delay,
        tm_period := period, tm_active := True\<rparr>) \<and> timers_only s s' \<and>
      queued (timer_stop_obj p s') = remove1 p (queued s)) \<and>
    tinv P (timer_stop_obj p s) \<and> in_order b (timer_stop_obj p s) \<and>
      queued (timer_stop_obj p s) = remove1 p (queued s) \<and>
      timers (timer_stop_obj p s) = (timers s)(p := (timers s p)\<lparr>tm_active := False\<rparr>) \<and>
    (\<exists>s'. timer_destroy_obj p s = (ERR_OK, s') \<and> tinv (P - {p}) s' \<and>
      queued s' = remove1 p (queued s) \<and> timers_only s s')"
proof -
  obtain s' where s': "timer_start_ticks_obj p delay period s = Some s'" "tinv P s'"
    "timers s' = (timers s)(p := (timers s p)\<lparr>tm_deadline := tick_count s + delay,
        tm_period := period, tm_active := True\<rparr>)" "timers_only s s'"
    "in_order b s'" "queued s' = ins_timer (time_of b s') p (remove1 p (queued s))"
    using timer_start_inv [OF assms(1-3), where b = b and delay = delay and period = period] assms(4,5) by blast
  have "p \<notin> set (remove1 p (queued s))" using tinvD(6) [OF assms(1)] by simp
  then have "remove1 p (queued s') = remove1 p (queued s)"
    unfolding s'(6) ins_timer_def
    by (metis (no_types, lifting) remove1_append_mid set_takeWhileD takeWhile_dropWhile_id)
  then have "queued (timer_stop_obj p s') = remove1 p (queued s)"
    using timer_stop_inv(2) [OF s'(2) assms(2)] by simp
  with s' have 1: "\<exists>s'. timer_start_ticks_obj p delay period s = Some s' \<and> tinv P s' \<and> in_order b s' \<and>
      queued s' = ins_timer (time_of b s') p (remove1 p (queued s)) \<and>
      timers s' = (timers s)(p := (timers s p)\<lparr>tm_deadline := tick_count s + delay,
        tm_period := period, tm_active := True\<rparr>) \<and> timers_only s s' \<and>
      queued (timer_stop_obj p s') = remove1 p (queued s)" by blast
  have 2: "tinv P (timer_stop_obj p s) \<and> in_order b (timer_stop_obj p s) \<and>
      queued (timer_stop_obj p s) = remove1 p (queued s) \<and>
      timers (timer_stop_obj p s) = (timers s)(p := (timers s p)\<lparr>tm_active := False\<rparr>)"
    using timer_stop_inv [OF assms(1,2)] assms(4) by blast
  have 3: "\<exists>s'. timer_destroy_obj p s = (ERR_OK, s') \<and> tinv (P - {p}) s' \<and>
      queued s' = remove1 p (queued s) \<and> timers_only s s'"
    using timer_destroy_inv [OF assms(1,2)] by blast
  from 1 2 3 show ?thesis by blast
qed

lemma timer_queue_operations_witness:
  "\<exists>s'. timer_start_ticks_obj 0xA00 1 0 demo_timers = Some s' \<and> queued s' = [0xA00] \<and> tinv demo_P s'"
proof -
  have "0xA00 \<in> demo_P" "ahead 0 (tick_count demo_timers + 1) < 2 ^ 31" "tm_callback (timers demo_timers 0xA00) \<noteq> 0"
    by (simp_all add: demo_timers_facts(4,5) ahead_def)
  from timer_queue_operations [THEN conjunct1, OF demo_timers_facts(1) this(1,3) demo_timers_facts(3) this(2), of 0]
  show ?thesis using demo_timers_facts(2) by (auto simp: ins_timer_def)
qed

subsection \<open>Running the expired timers\<close>

lemma demo_two_started:
  "\<exists>s :: sys. tinv demo_P s \<and> in_order 0 s \<and> tick_count s = 0 \<and> queued s = [0xA00, 0xB00] \<and>
     time_of 0 s 0xA00 = 1 \<and> time_of 0 s 0xB00 = 1 \<and> period_of s 0xA00 = 0 \<and> period_of s 0xB00 = 2"
proof -
  note f = demo_timers_facts
  have m: "0xA00 \<in> demo_P" "0xB00 \<in> demo_P" by simp_all
  obtain s1 where s1: "tinv demo_P s1" "in_order 0 s1" "queued s1 = [0xA00]" "timers_only demo_timers s1"
    "timers s1 = (timers demo_timers)(0xA00 := (timers demo_timers 0xA00)\<lparr>tm_deadline := 1,
        tm_period := 0, tm_active := True\<rparr>)"
    using timer_start_inv [OF f(1) m(1), where b = 0 and delay = 1 and period = 0] f
    by (auto simp: ins_timer_def ahead_def)
  have c: "tick_count s1 = 0" using timers_onlyD(1) [OF s1(4)] f(4) by simp
  have "tm_callback (timers s1 0xB00) \<noteq> 0" by (simp add: s1(5) f(6))
  from timer_start_inv [OF s1(1) m(2) this, where b = 0 and delay = 1 and period = 2]
  obtain s2 where s2: "tinv demo_P s2" "in_order 0 s2" "timers_only s1 s2"
    "queued s2 = ins_timer (time_of 0 s2) 0xB00 [0xA00]"
    "timers s2 = (timers s1)(0xB00 := (timers s1 0xB00)\<lparr>tm_deadline := 1, tm_period := 2, tm_active := True\<rparr>)"
    using s1(2,3) c by (auto simp: ahead_def)
  have t: "time_of 0 s2 0xA00 = 1" "time_of 0 s2 0xB00 = 1" "period_of s2 0xA00 = 0" "period_of s2 0xB00 = 2"
    by (simp_all add: time_of_def ahead_def s2(5) s1(5))
  have "queued s2 = [0xA00, 0xB00]" unfolding s2(4) ins_timer_def by (simp add: t)
  then show ?thesis using s2(1,2) t timers_onlyD(1) [OF s2(3)] c by auto
qed

text \<open>C22. The timer part of a trap ends, and it runs exactly the callbacks that are due: every active
  timer whose deadline has passed once, a periodic one once for every whole period that has passed
  since, in the order of the times they were due for.  Afterwards no active timer is due; the
  periodic timers are queued for their next deadline and the others that fired are inactive.  The
  callbacks may do anything that leaves the timers alone and keeps an invariant \<open>I\<close> of the rest of
  the kernel, which then still holds; the counter may have wrapped.\<close>

theorem timer_run_fires:
  assumes "callback_ok I call" and "I s" and "tinv P s" and "in_order b s"
    and "tick_count s = b + e" and "unat e < 2 ^ 31" and "in_reach (unat e) s"
  shows "\<exists>fired s'. timer_run_expired call s = Some s' \<and> I s' \<and> timer_rounds call b s fired s' \<and>
    distinct fired \<and> sorted (map snd fired) \<and>
    set fired = {(p, time_of b s p + k * period_of s p) |p k. p \<in> set (queued s) \<and>
      time_of b s p + k * period_of s p \<le> unat e \<and> (period_of s p = 0 \<longrightarrow> k = 0)} \<and>
    tinv P s' \<and> in_order b s' \<and>
    set (queued s') = {p \<in> set (queued s). period_of s p \<noteq> 0 \<or> unat e < time_of b s p} \<and>
    (\<forall>p\<in>set (queued s'). \<not> timer_expired (timer_ticks s') (tm_deadline (timers s' p)))"
proof -
  obtain fired s' where r: "timer_run_expired call s = Some s'" "timer_rounds call b s fired s'"
    "distinct fired" "sorted (map snd fired)" "set fired = firings (unat e) (time_of b s) (period_of s) (set (queued s))"
    "tinv P s'" "in_order b s'" "tick_count s' = b + e" "\<forall>q\<in>set (queued s'). unat e < time_of b s' q"
    "set (queued s') = {p \<in> set (queued s). period_of s p \<noteq> 0 \<or> unat e < time_of b s p}"
    and i: "I s'"
    using run_expired_rounds [OF assms(1,6,2-5,7)] by blast
  have "\<not> timer_expired (timer_ticks s') (tm_deadline (timers s' p))" if "p \<in> set (queued s')" for p
    using due_iff [OF _ r(8) assms(6), of p] r(7) r(9) [rule_format, OF that] that by (auto simp: in_order_def)
  then show ?thesis using i r unfolding firings_def by blast
qed

lemma timer_run_fires_witness:
  "\<exists>s fired s'. timer_run_expired (\<lambda>c a s. Some s) (s\<lparr>tick_count := 3\<rparr> :: sys) = Some s' \<and>
     timer_rounds (\<lambda>c a s. Some s) 0 (s\<lparr>tick_count := 3\<rparr>) fired s' \<and>
     (0xA00, 1) \<in> set fired \<and> (0xB00, 1) \<in> set fired \<and> (0xB00, 3) \<in> set fired \<and> queued s' = [0xB00]"
proof -
  obtain s :: sys where s: "tinv demo_P s" "in_order 0 s" "queued s = [0xA00, 0xB00]"
     "time_of 0 s 0xA00 = 1" "time_of 0 s 0xB00 = 1" "period_of s 0xA00 = 0" "period_of s 0xB00 = 2"
    using demo_two_started by blast
  let ?s = "s\<lparr>tick_count := 3\<rparr>"
  have a: "tinv demo_P ?s" "in_order 0 ?s" "tick_count ?s = 0 + 3" "unat (3 :: u32) < 2 ^ 31" "in_reach (unat (3 :: u32)) ?s"
    using s(1,2,3,6,7) by (simp_all add: in_reach_def)
  have "callback_ok (\<lambda>_. True) (\<lambda>c a s. Some s :: sys option)" by (simp add: callback_ok_def)
  from timer_run_fires [OF this _ a, simplified] obtain fired s' where r:
    "timer_run_expired (\<lambda>c a s. Some s) ?s = Some s'" "timer_rounds (\<lambda>c a s. Some s) 0 ?s fired s'"
    "set fired = firings 3 (time_of 0 s) (period_of s) (set (queued s))" "tinv demo_P s'"
    "set (queued s') = {p \<in> set (queued s). period_of s p \<noteq> 0 \<or> 3 < time_of 0 s p}"
    by (auto simp: firings_def)
  have "(0xA00, 1) \<in> set fired" "(0xB00, 1) \<in> set fired" "(0xB00, 3) \<in> set fired"
    using s by (simp_all add: r(3) firings_iff)
  moreover have "set (queued s') = {0xB00}" unfolding r(5) using s(3-7) by auto
  then have "queued s' = [0xB00]"
    using tinvD(6) [OF r(4)] by (cases "queued s'" rule: list.exhaust) (auto, metis distinct.simps(2) list.set_intros(1) neq_Nil_conv singletonD subsetD)
  ultimately show ?thesis using r(1,2) by blast
qed

text \<open>A timer started before \<^verbatim>\<open>timer_init\<close>, which runs after the application's \<^verbatim>\<open>app_main\<close>, walks a
  list head that is still all zeros.\<close>

lemma timer_start_before_init:
  assumes "nxt (timer_links s) TimerHead = TimerNull" and "p \<noteq> 0"
    and "tm_callback (timers s p) \<noteq> 0" and "\<not> tm_active (timers s p)"
  shows "timer_start_ticks_obj p delay period s = None"
  using assms by (simp add: timer_start_ticks_obj_def timer_insert_locked_def Let_def)

end
