(* ===== verification/TrapProps.thy ===== *)
theory TrapProps
  imports TrapSteps ContextProps TimerProps
begin

unbundle bit_operations_syntax

text \<open>
  The properties of \<^verbatim>\<open>do_trap\<close> as a whole: from the stack pointer of the interrupted task to the
  one of the task that runs next, through the interrupt handler, the expired timeouts, the expired
  timers and the scheduler.
\<close>

subsection \<open>The middle of a trap\<close>

text \<open>What holds between the entry of the trap in state \<open>s\<close> and its scheduling part.\<close>

definition in_trap :: "ptr set \<Rightarrow> wq_t set \<Rightarrow> 'z sys_scheme \<Rightarrow> ptr \<Rightarrow> 'z sys_scheme \<Rightarrow> bool" where
  "in_trap T W s sp s' \<longleftrightarrow> kinv T W s' \<and> current_task s' = current_task s \<and> idle_task s' = idle_task s \<and>
     lock_count s' = lock_count s \<and> started s' = started s \<and> trap_nesting s' = trap_nesting s + 1 \<and>
     task_sp (tasks s' (current_task s)) = sp \<and>
     (task_state (tasks s (current_task s)) \<noteq> TASK_RUNNING \<longrightarrow>
       task_state (tasks s' (current_task s)) \<noteq> TASK_RUNNING)"

lemma in_trapD:
  assumes "in_trap T W s sp s'"
  shows "kinv T W s'" "current_task s' = current_task s" "idle_task s' = idle_task s"
    "lock_count s' = lock_count s" "started s' = started s" "trap_nesting s' = trap_nesting s + 1"
    "task_sp (tasks s' (current_task s)) = sp"
    "task_state (tasks s (current_task s)) \<noteq> TASK_RUNNING \<Longrightarrow> task_state (tasks s' (current_task s)) \<noteq> TASK_RUNNING"
  using assms by (simp_all add: in_trap_def)

lemma in_trap_timers: "timers_only s1 s2 \<Longrightarrow> in_trap T W s sp s1 \<Longrightarrow> in_trap T W s sp s2"
  by (simp add: in_trap_def timers_onlyD)

lemma handlers_in_trap:
  assumes "in_trap T W s sp s1"
  shows "in_trap T W s sp (SysTick_Handler count s1)" "in_trap T W s sp (advance_ecall q s1)"
proof -
  have "kinv T W (SysTick_Handler count s1)"
    by (rule kinv_frame [OF in_trapD(1) [OF assms]]) (simp_all add: SysTick_Handler_def)
  then show "in_trap T W s sp (SysTick_Handler count s1)"
    using assms by (simp add: in_trap_def SysTick_Handler_def)
  show "in_trap T W s sp (advance_ecall q s1)" using assms by (simp add: in_trap_def advance_ecall_def)
qed

lemma timer_frame:
  assumes "timers s' = timers s" and "timer_links s' = timer_links s"
  shows "tinv P s' \<longleftrightarrow> tinv P s" "in_order b s' \<longleftrightarrow> in_order b s" "in_reach e s' \<longleftrightarrow> in_reach e s"
    "queued s' = queued s"
  using assms by (simp_all add: queued_def tinv_def tlinks_ok_def time_of_def [abs_def] in_order_def in_reach_def)

lemma enter_trap_current: "current_task (enter_trap s) = current_task s"
  by (simp add: enter_trap_def)

lemma save_sp:
  assumes "kinv T W s" and "current_task s \<noteq> 0"
  shows "in_trap T W s sp (upd_task (current_task s) (\<lambda>k. k\<lparr>task_sp := sp\<rparr>) (enter_trap s))"
proof -
  have "kinv T W (enter_trap s)" by (rule kinv_frame [OF assms(1)]) (simp_all add: enter_trap_def)
  then have "kinv T W (upd_task (current_task s) (\<lambda>k. k\<lparr>task_sp := sp\<rparr>) (enter_trap s))"
    by (rule kinv_upd_task_inert [OF _ current_in_T [OF assms]]) simp_all
  then show ?thesis by (simp add: in_trap_def enter_trap_def)
qed

lemma wake_in_trap:
  assumes "in_trap T W s sp s3"
  shows "\<exists>s4. sched_wake_expired s3 = Some s4 \<and> in_trap T W s sp s4 \<and> tick_count s4 = tick_count s3 \<and>
    kstate.more s4 = kstate.more s3"
proof -
  note d = in_trapD [OF assms]
  obtain s4 where w: "wake_expired_loop (tick_count s3) s3 = Some s4" "kinv T W s4"
    and e: "expired_from W (due_tasks (tick_count s3) s3) s3 s4"
    using wake_expired_loop [OF d(1), of "tick_count s3"] by blast
  have t: "tasks s4 = (\<lambda>t. if t \<in> set (due_tasks (tick_count s3) s3) then timed_out (tasks s3 t) else tasks s3 t)"
    using e by (simp add: expired_from_def)
  obtain l m where f: "s4 = s3\<lparr>tasks := tasks s4, lnk := l, ready_mask := m\<rparr>"
    using e unfolding expired_from_def by blast
  have g: "current_task s4 = current_task s3" "idle_task s4 = idle_task s3" "lock_count s4 = lock_count s3"
    "started s4 = started s3" "trap_nesting s4 = trap_nesting s3" "tick_count s4 = tick_count s3"
    "kstate.more s4 = kstate.more s3" by (subst f, simp)+
  have "task_sp (tasks s4 u) = task_sp (tasks s3 u)" for u by (simp add: t timed_out_def)
  moreover have "task_state (tasks s3 u) \<noteq> TASK_RUNNING \<Longrightarrow> task_state (tasks s4 u) \<noteq> TASK_RUNNING" for u
    by (simp add: t timed_out_def)
  ultimately have "in_trap T W s sp s4" using d w(2) by (simp add: in_trap_def g)
  then show ?thesis using w(1) g by (simp add: sched_wake_expired_def)
qed

lemma expiry_in_trap:
  assumes i: "in_trap T W s sp s3" and t: "tinv P s3" "in_order b s3" "in_reach (unat e) s3"
    and c: "tick_count s3 = b + e" "unat e < 2 ^ 31" and cb: "callback_ok (in_trap T W s sp) callback"
  shows "\<exists>s5. Option.bind (sched_wake_expired s3) (timer_run_expired callback) = Some s5 \<and>
    in_trap T W s sp s5 \<and> tinv P s5 \<and> in_order b s5 \<and> tick_count s5 = b + e \<and>
    (\<forall>p\<in>set (queued s5). unat e < time_of b s5 p)"
proof -
  obtain s4 where s4: "sched_wake_expired s3 = Some s4" "in_trap T W s sp s4" "tick_count s4 = tick_count s3"
    "kstate.more s4 = kstate.more s3" using wake_in_trap [OF i] by blast
  note f = timer_frame [OF same_more(6,7) [OF s4(4)]]
  show ?thesis
    using run_expired_rounds [OF cb c(2) s4(2), of P b] t c(1) s4(1,3) by (auto simp: f)
qed

subsection \<open>The end of a trap\<close>

lemma leave_trap_simps [simp]:
  "kinv T W (leave_trap s) \<longleftrightarrow> kinv T W s" "tasks (leave_trap s) = tasks s"
  "current_task (leave_trap s) = current_task s" "trap_nesting (leave_trap s) = trap_nesting s - 1"
  "kstate.more (leave_trap s) = kstate.more s" "best_running (leave_trap s) \<longleftrightarrow> best_running s"
  "tick_count (leave_trap s) = tick_count s"
proof -
  show "kinv T W (leave_trap s) \<longleftrightarrow> kinv T W s" by (auto simp: leave_trap_def elim!: kinv_frame)
qed (simp_all add: leave_trap_def best_running_def higher_ready_def)

text \<open>What holds when a trap that interrupted the task of \<open>s\<close> at stack pointer \<open>sp\<close> is over.\<close>

definition trap_done :: "ptr set \<Rightarrow> wq_t set \<Rightarrow> ptr set \<Rightarrow> u32 \<Rightarrow> 'z sys_scheme \<Rightarrow> ptr \<Rightarrow> ptr \<Rightarrow> 'z sys_scheme \<Rightarrow> bool" where
  "trap_done T W P b s sp sp' s' \<longleftrightarrow> kinv T W s' \<and> tinv P s' \<and> in_order b s' \<and>
     current_task s' \<in> T \<and> task_state (tasks s' (current_task s')) = TASK_RUNNING \<and>
     sp' = task_sp (tasks s' (current_task s')) \<and> task_sp (tasks s' (current_task s)) = sp \<and>
     trap_nesting s' = trap_nesting s"

lemma trap_doneI:
  assumes i: "in_trap T W s sp s5" and t: "tinv P s5" "in_order b s5"
    and r: "kinv T W s6" "current_task s6 \<in> T" "cur_running s6" "same_control s5 s6"
  shows "trap_done T W P b s sp (task_sp (tasks s6 (current_task s6))) (leave_trap s6)"
    and "tick_count (leave_trap s6) = tick_count s5"
proof -
  note c = same_controlD [OF r(4)] and d = in_trapD [OF i]
  have "timers (leave_trap s6) = timers s5" "timer_links (leave_trap s6) = timer_links s5"
    using same_more(6,7) [where s = s5 and s' = "leave_trap s6"] c(6) by simp_all
  note f = timer_frame [OF this]
  have "task_sp (tasks s6 (current_task s)) = sp" using c(8) d(7) by simp
  moreover have "trap_nesting s6 - 1 = trap_nesting s" using c(4) d(6) by simp
  ultimately show "trap_done T W P b s sp (task_sp (tasks s6 (current_task s6))) (leave_trap s6)"
    using r(1-3) t by (simp add: trap_done_def f)
  show "tick_count (leave_trap s6) = tick_count s5" by (simp add: c(3))
qed

text \<open>The composition of \<^verbatim>\<open>do_trap\<close> once the scheduler runs.\<close>

lemma do_trap_started:
  fixes cause :: u32
  assumes e: "started (enter_trap s)" "current_task (enter_trap s) \<noteq> 0"
    "upd_task (current_task (enter_trap s)) (\<lambda>k. k\<lparr>task_sp := sp\<rparr>) (enter_trap s) = s2"
    and i: "bit cause 31 \<longrightarrow> unat (cause AND 0xff) < 32"
    and h: "(if bit cause 31 then dispatch_interrupt isr count (unat (cause AND 0xff)) s2
      else if cause AND 0x7fffffff = 11 then Some (False, advance_ecall sp s2) else None) = Some (fired, s3)"
    and w: "current_task s3 \<noteq> 0" "sched_wake_expired s3 = Some s4" "timer_run_expired callback s4 = Some s5"
      "trap_reschedule fired s5 = Some s6"
  shows "do_trap isr callback count sp cause s = Some (task_sp (tasks s6 (current_task s6)), leave_trap s6)"
proof -
  have n: "\<not> (bit cause 31 \<and> 32 \<le> unat (cause AND 0xff))" using i by auto
  show ?thesis
    unfolding do_trap_def Let_def
    by (simp only: e n h w if_True if_False not_False_eq_True not_True_eq_False simp_thms
        Option.bind.bind_lunit prod.case)
qed

text \<open>A started kernel with four tasks and an empty timer queue.\<close>

definition demo_started :: sys where
  "demo_started = (timer_init demo_env (demo_run blank_sys))\<lparr>started := True\<rparr>"

lemma demo_started_facts:
  "kinv demo_T {} demo_started" "started demo_started" "current_task demo_started = 0x300"
  "idle_task demo_started = 0x400" "lock_count demo_started = 0" "tick_count demo_started = 0"
  "tinv {} demo_started" "queued demo_started = []" "systimer_initialized demo_started"
  "systimer_cpu_irq demo_started = 1"
proof -
  have n: "\<not> sched_initialized blank_sys" by (simp add: blank_sys_def)
  note r = demo_run [OF n] and m = same_more [OF demo_run_more(1)]
  have b: "\<not> timer_initialized (demo_run blank_sys)" "\<not> systimer_initialized (demo_run blank_sys)"
    "cpu_int_allocated (demo_run blank_sys) = 0" using m(8,13,15) by (simp_all add: blank_sys_def)
  have i: "cpu_alloc_interrupt s = (1, s\<lparr>cpu_int_allocated := 2\<rparr>)" if "cpu_int_allocated s = 0" for s :: sys
    using that by (simp add: cpu_alloc_interrupt_def upt_rec)
  have sh: "tasks demo_started = tasks (demo_run blank_sys)" "lnk demo_started = lnk (demo_run blank_sys)"
    "ready_mask demo_started = ready_mask (demo_run blank_sys)"
    "current_task demo_started = current_task (demo_run blank_sys)"
    "idle_task demo_started = idle_task (demo_run blank_sys)"
    "lock_count demo_started = lock_count (demo_run blank_sys)"
    using b timers_onlyD(2-6) [OF timers_only_updates(2) [of "demo_run blank_sys" "INIT_LIST_HEAD TimerHead"]]
    by (simp_all add: demo_started_def timer_init_def systimer_init_def i Let_def upd_tlinks_def)
  show "kinv demo_T {} demo_started" by (rule kinv_frame [OF r(1)]) (rule sh)+
  show "current_task demo_started = 0x300" "idle_task demo_started = 0x400" "lock_count demo_started = 0"
    using r(3,4,6) sh by simp_all
  show "started demo_started" by (simp add: demo_started_def)
  show "tick_count demo_started = 0" "systimer_initialized demo_started" "systimer_cpu_irq demo_started = 1"
    using b by (simp_all add: demo_started_def timer_init_def systimer_init_def i Let_def upd_tlinks_def)
  note t = timer_init_inv [OF b(1), of demo_env]
  have "timers demo_started = timers (timer_init demo_env (demo_run blank_sys))"
    "timer_links demo_started = timer_links (timer_init demo_env (demo_run blank_sys))"
    by (simp_all add: demo_started_def)
  note f = timer_frame [OF this]
  show "tinv {} demo_started" "queued demo_started = []" using t by (simp_all add: f)
qed

text \<open>C1. The tick.  On a consistent, started kernel the trap of the system timer always returns,
  whatever well-behaved callbacks the timers have.  It returns the saved stack pointer of the task it
  leaves running, having saved the one it was given for the interrupted task; the kernel and the timer
  queue are consistent again, the nesting count is as before, no expired timer is left, and unless
  the scheduler is locked no ready task outranks the running one.\<close>

theorem tick_trap_runs_best:
  fixes s :: "'z sys_scheme" and count :: u64 and cause :: u32
  assumes "kinv T W s" and "started s" and "current_task s \<noteq> 0" and "idle_task s \<noteq> 0"
    and "tinv P s" and "in_order b s" and "in_reach (unat e) s"
    and "systimer_get_tick count = b + e" and "unat e < 2 ^ 31"
    and "bit cause 31" and "unat (cause AND 0xff) < 32"
    and "systimer_initialized s" and "int (unat (cause AND 0xff)) = systimer_cpu_irq s"
    and "callback_ok (in_trap T W s sp) callback"
  shows "\<exists>sp' s'. do_trap isr callback count sp cause s = Some (sp', s') \<and>
    trap_done T W P b s sp sp' s' \<and> tick_count s' = b + e \<and>
    (\<forall>p\<in>set (queued s'). unat e < time_of b s' p) \<and> (lock_count s = 0 \<longrightarrow> best_running s')"
proof -
  define s2 where "s2 = upd_task (current_task s) (\<lambda>k. k\<lparr>task_sp := sp\<rparr>) (enter_trap s)"
  define s3 where "s3 = SysTick_Handler count s2"
  have m: "kstate.more s3 = kstate.more s"
    by (simp add: s3_def s2_def SysTick_Handler_def enter_trap_def)
  note f = timer_frame [OF same_more(6,7) [OF m]]
  have c3: "tick_count s3 = b + e" "current_task s3 = current_task s"
    using assms(8) by (simp_all add: s3_def s2_def SysTick_Handler_def enter_trap_def)
  have "in_trap T W s sp s2" unfolding s2_def by (rule save_sp [OF assms(1,3)])
  then have i3: "in_trap T W s sp s3" unfolding s3_def by (rule handlers_in_trap)
  have "tinv P s3" "in_order b s3" "in_reach (unat e) s3" using assms(5-7) by (simp_all add: f)
  from expiry_in_trap [OF i3 this c3(1) assms(9,14)] obtain s5 where
    s5: "Option.bind (sched_wake_expired s3) (timer_run_expired callback) = Some s5" "in_trap T W s sp s5"
      "tinv P s5" "in_order b s5" "tick_count s5 = b + e" "\<forall>p\<in>set (queued s5). unat e < time_of b s5 p" by blast
  note d = in_trapD [OF s5(2)]
  have "current_task s5 \<noteq> 0" "idle_task s5 \<noteq> 0" using d(2,3) assms(3,4) by simp_all
  from tick_schedules [OF d(1) this] obtain s6 where s6: "trap_reschedule True s5 = Some s6" "kinv T W s6"
    "current_task s6 \<in> T" "cur_running s6" "same_control s5 s6"
    "lock_count s5 = 0 \<or> \<not> app_running s5 \<longrightarrow> best_running s6" by blast
  have "kstate.more s2 = kstate.more s" by (simp add: s2_def enter_trap_def)
  note o2 = same_more(14,15) [OF this]
  have disp: "dispatch_interrupt isr count (unat (cause AND 0xff)) s2 = Some (True, s3)"
    using assms(12,13) by (simp add: dispatch_interrupt_def s3_def o2)
  obtain s4 where s4: "sched_wake_expired s3 = Some s4" "timer_run_expired callback s4 = Some s5"
    using s5(1) by (auto simp: bind_eq_Some_conv)
  have "do_trap isr callback count sp cause s = Some (task_sp (tasks s6 (current_task s6)), leave_trap s6)"
  proof (rule do_trap_started [OF _ _ _ _ _ _ s4 s6(1)])
    show "started (enter_trap s)" "current_task (enter_trap s) \<noteq> 0" using assms(2,3) by (simp_all add: enter_trap_def)
    show "upd_task (current_task (enter_trap s)) (\<lambda>k. k\<lparr>task_sp := sp\<rparr>) (enter_trap s) = s2"
      unfolding s2_def by (simp only: enter_trap_current)
    show "current_task s3 \<noteq> 0" using c3(2) assms(3) by simp
    show "(if bit cause 31 then dispatch_interrupt isr count (unat (cause AND 0xff)) s2
      else if cause AND 0x7fffffff = 11 then Some (False, advance_ecall sp s2) else None) = Some (True, s3)"
      using assms(10) disp by (simp only: if_True)
  qed (use assms(11) in blast)
  note run = this and td = trap_doneI [OF s5(2-4) s6(2-5)]
  have tm: "timers (leave_trap s6) = timers s5" "timer_links (leave_trap s6) = timer_links s5"
    using same_more(6,7) [where s = s5 and s' = "leave_trap s6"] same_controlD(6) [OF s6(5)] by simp_all
  have late: "\<forall>p\<in>set (queued (leave_trap s6)). unat e < time_of b (leave_trap s6) p"
    using s5(6) unfolding timer_frame(4) [OF tm] time_of_def tm(1) .
  have best: "lock_count s = 0 \<longrightarrow> best_running (leave_trap s6)" using s6(6) d(4) by simp
  show ?thesis by (intro exI conjI) (rule run, rule td(1), rule td(2) [unfolded s5(5)], rule late, rule best)
qed

lemma idle_callback_ok: "callback_ok (in_trap T W s sp) (\<lambda>c a s. Some s)"
  by (auto simp: callback_ok_def intro: in_trap_timers)

lemma tick_trap_runs_best_witness:
  "\<exists>sp' s'. do_trap (\<lambda>f a s. None) (\<lambda>c a s. Some s) TICK_PERIOD_TICKS 0x3fc90000 0x80000001 demo_started =
      Some (sp', s') \<and> trap_done demo_T {} {} 0 demo_started 0x3fc90000 sp' s' \<and> tick_count s' = 1 \<and> best_running s'"
proof -
  note d = demo_started_facts
  have a: "current_task demo_started \<noteq> 0" "idle_task demo_started \<noteq> 0" "in_order 0 demo_started"
    "in_reach (unat (1 :: u32)) demo_started" by (simp_all add: d in_order_def in_reach_def)
  have c: "systimer_get_tick TICK_PERIOD_TICKS = 0 + 1" "unat (1 :: u32) < 2 ^ 31" "bit (0x80000001 :: u32) 31"
    "unat ((0x80000001 :: u32) AND 0xff) < 32" "int (unat ((0x80000001 :: u32) AND 0xff)) = systimer_cpu_irq demo_started"
    by (simp_all add: systimer_get_tick_def TICK_PERIOD_TICKS_def d(10) bit_simps)
  from tick_trap_runs_best [OF d(1,2) a(1,2) d(7) a(3,4) c(1-4) d(9) c(5) idle_callback_ok,
      of "\<lambda>f a s. None" "0x3fc90000"]
  show ?thesis using d(5) by auto
qed

text \<open>C12. The system call of a yield.  On a consistent, started kernel it always returns and leaves a task of
  the kernel running; when the caller had put itself in a ready list or blocked, that is one no ready task
  outranks.\<close>

theorem ecall_trap_switches:
  fixes s :: "'z sys_scheme"
  assumes "kinv T W s" and "started s" and "current_task s \<noteq> 0" and "idle_task s \<noteq> 0"
    and "tinv P s" and "in_order b s" and "in_reach (unat e) s"
    and "tick_count s = b + e" and "unat e < 2 ^ 31"
    and "callback_ok (in_trap T W s sp) callback"
  shows "\<exists>sp' s'. do_trap isr callback count sp 11 s = Some (sp', s') \<and>
    trap_done T W P b s sp sp' s' \<and> tick_count s' = b + e \<and>
    (task_state (tasks s (current_task s)) \<noteq> TASK_RUNNING \<longrightarrow> best_running s')"
proof -
  define s2 where "s2 = upd_task (current_task s) (\<lambda>k. k\<lparr>task_sp := sp\<rparr>) (enter_trap s)"
  define s3 where "s3 = advance_ecall sp s2"
  have m: "timers s3 = timers s" "timer_links s3 = timer_links s"
    using same_more(6,7) [where s = s and s' = s2] by (simp_all add: s3_def s2_def enter_trap_def advance_ecall_def)
  note f = timer_frame [OF m]
  have c3: "tick_count s3 = b + e" "current_task s3 = current_task s"
    using assms(8) by (simp_all add: s3_def s2_def advance_ecall_def enter_trap_def)
  have "in_trap T W s sp s2" unfolding s2_def by (rule save_sp [OF assms(1,3)])
  then have i3: "in_trap T W s sp s3" unfolding s3_def by (rule handlers_in_trap)
  have "tinv P s3" "in_order b s3" "in_reach (unat e) s3" using assms(5-7) by (simp_all add: f)
  from expiry_in_trap [OF i3 this c3(1) assms(9,10)] obtain s5 where
    s5: "Option.bind (sched_wake_expired s3) (timer_run_expired callback) = Some s5" "in_trap T W s sp s5"
      "tinv P s5" "in_order b s5" "tick_count s5 = b + e" by blast
  note d = in_trapD [OF s5(2)]
  have "current_task s5 \<noteq> 0" "idle_task s5 \<noteq> 0" using d(2,3) assms(3,4) by simp_all
  from call_schedules [OF d(1) this] obtain s6 where s6: "trap_reschedule False s5 = Some s6" "kinv T W s6"
    "current_task s6 \<in> T" "cur_running s6" "same_control s5 s6" "\<not> app_running s5 \<longrightarrow> best_running s6" by blast
  obtain s4 where s4: "sched_wake_expired s3 = Some s4" "timer_run_expired callback s4 = Some s5"
    using s5(1) by (auto simp: bind_eq_Some_conv)
  have run: "do_trap isr callback count sp 11 s = Some (task_sp (tasks s6 (current_task s6)), leave_trap s6)"
  proof (rule do_trap_started [OF _ _ _ _ _ _ s4 s6(1)])
    show "started (enter_trap s)" "current_task (enter_trap s) \<noteq> 0" using assms(2,3) by (simp_all add: enter_trap_def)
    show "upd_task (current_task (enter_trap s)) (\<lambda>k. k\<lparr>task_sp := sp\<rparr>) (enter_trap s) = s2"
      unfolding s2_def by (simp only: enter_trap_current)
    show "current_task s3 \<noteq> 0" using c3(2) assms(3) by simp
    have b: "\<not> bit (11 :: u32) 31" "(11 :: u32) AND 0x7fffffff = 11" by (simp_all add: bit_simps)
    show "(if bit (11 :: u32) 31 then dispatch_interrupt isr count (unat ((11 :: u32) AND 0xff)) s2
      else if (11 :: u32) AND 0x7fffffff = 11 then Some (False, advance_ecall sp s2) else None) = Some (False, s3)"
      unfolding s3_def by (simp only: b if_True if_False simp_thms)
    show "bit (11 :: u32) 31 \<longrightarrow> unat ((11 :: u32) AND 0xff) < 32" using b(1) by blast
  qed
  note td = trap_doneI [OF s5(2-4) s6(2-5)]
  have "app_running s5 \<Longrightarrow> task_state (tasks s (current_task s)) = TASK_RUNNING"
    using d(2,8) by (auto simp: app_running_def)
  then have best: "task_state (tasks s (current_task s)) \<noteq> TASK_RUNNING \<longrightarrow> best_running (leave_trap s6)"
    using s6(6) by auto
  show ?thesis by (intro exI conjI) (rule run, rule td(1), rule td(2) [unfolded s5(5)], rule best)
qed

lemma ecall_trap_switches_witness:
  "\<exists>sp' s'. do_trap (\<lambda>f a s. None) (\<lambda>c a s. Some s) 0 0x3fc90000 11 demo_started = Some (sp', s') \<and>
      trap_done demo_T {} {} 0 demo_started 0x3fc90000 sp' s'"
proof -
  note d = demo_started_facts
  have a: "current_task demo_started \<noteq> 0" "idle_task demo_started \<noteq> 0" "in_order 0 demo_started"
    "in_reach (unat (0 :: u32)) demo_started" "tick_count demo_started = 0 + 0" "unat (0 :: u32) < 2 ^ 31"
    by (simp_all add: d in_order_def in_reach_def)
  from ecall_trap_switches [OF d(1,2) a(1,2) d(7) a(3-6) idle_callback_ok] show ?thesis by blast
qed

end
