(* ===== verification/BootProps.thy ===== *)
theory BootProps
  imports TrapProps
begin

unbundle bit_operations_syntax

text \<open>
  Start-up as a whole: \<^verbatim>\<open>kernel_main\<close> from the cleared memory to the first task, establishing what the
  properties of the traps assume.
\<close>

subsection \<open>The idle task\<close>

text \<open>The memory as \<^verbatim>\<open>_cstart\<close> leaves it, seen by the kernel.\<close>

definition unbooted :: "'z sys_scheme \<Rightarrow> bool" where
  "unbooted s \<longleftrightarrow> \<not> sched_initialized s \<and> \<not> task_initialized s \<and> \<not> timer_initialized s \<and>
     \<not> systimer_initialized s \<and> res_ok s"

lemma task_init_ok:
  assumes "unbooted s"
  shows "kinv {} {} (task_init s)" "res_ok (task_init s)" "current_task (task_init s) = 0"
    "task_count (task_init s) = 0" "owns {} (task_init s)" "lock_count (task_init s) = 0" "idle_task (task_init s) = 0"
proof -
  have n: "\<not> sched_initialized s" "\<not> task_initialized s" "res_ok s" using assms by (simp_all add: unbooted_def)
  have e: "task_init s = (sched_init s)\<lparr>task_count := 0, task_initialized := True\<rparr>"
    using n by (simp add: task_init_def)
  note m = same_more(1,2) [OF more_simps(3) [of s]]
  show "kinv {} {} (task_init s)" unfolding e by (rule kinv_frame [OF sched_init_kinv [OF n(1)]]) simp_all
  show "res_ok (task_init s)" using n(3) m by (simp add: e res_ok_def)
  show "current_task (task_init s) = 0" "lock_count (task_init s) = 0" "idle_task (task_init s) = 0" using n(1) by (simp_all add: e sched_init_def)
  show "task_count (task_init s) = 0" "owns {} (task_init s)" by (simp_all add: e owns_def)
qed

abbreviation idle_name :: "u8 list" where
  "idle_name \<equiv> [0x69, 0x64, 0x6c, 0x65, 0x5f, 0x74, 0x61, 0x73, 0x6b]"

lemma create_keeps_lock:
  assumes "task_create_kernel env name entry arg bytes pr s = Some (t, s')"
  shows "lock_count s' = lock_count s"
proof -
  have a: "lock_count (sched_add_task u s) = lock_count s" for u and s :: "'a sys_scheme"
    by (simp add: sched_add_task_def sched_ready_enqueue_def)
  show ?thesis
    using assms unfolding task_create_kernel_def Let_def
    by (auto simp: sys_malloc_def sys_free_def bind_eq_Some_conv a upd_bytes_def upd_task_def upd_lnk_def
        case_prod_beta split: if_split_asm)
qed

lemma kernel_init_ok:
  assumes u: "unbooted s" and f: "fn_idle_task env \<noteq> 0" and i: "kernel_init env s = Some s1"
  defines "t \<equiv> idle_task s1"
  shows "t \<noteq> 0 \<and> kinv {t} {} s1 \<and> owns {t} s1 \<and> res_ok s1 \<and> current_task s1 = 0 \<and> task_count s1 = 1 \<and> lock_count s1 = 0 \<and>
    (\<exists>sp stack. tasks s1 t = new_task (Some idle_name) sp stack (task_round RTOS_TASK_STACK_SIZE)
      (fn_idle_task env) 0 0)"
proof -
  note b = task_init_ok [OF u]
  have a: "task_args_ok (fn_idle_task env) RTOS_TASK_STACK_SIZE 0" "task_count (task_init s) < RTOS_TASK_MAX"
    using f by (simp_all add: task_args_ok_def RTOS_TASK_STACK_SIZE_def RTOS_TASK_MAX_def b(4))
  from task_create_cases [OF b(1,2,5) a, of env "Some idle_name" 0] obtain p s2 where
    c: "task_create_kernel env (Some idle_name) (fn_idle_task env) 0 RTOS_TASK_STACK_SIZE 0
      (task_init s) = Some (p, s2)" "res_ok s2" "current_task s2 = current_task (task_init s)"
      "idle_task s2 = idle_task (task_init s)"
    and nz: "p \<noteq> 0 \<longrightarrow> kinv {p} {} s2 \<and> owns {p} s2 \<and> task_count s2 = task_count (task_init s) + 1 \<and>
      (\<exists>sp stack. tasks s2 = (tasks (task_init s))(p := new_task (Some idle_name) sp stack
        (task_round RTOS_TASK_STACK_SIZE) (fn_idle_task env) 0 0))" by blast
  have p: "p \<noteq> 0" "s1 = sched_set_idle_task p s2"
    using i c(1) by (auto simp: kernel_init_def split: if_splits)
  have t: "t = p" by (simp add: t_def p(2) sched_set_idle_task_def)
  have k: "kinv {p} {} s2" "owns {p} s2" "task_count s2 = 1" using nz p(1) b(4) by simp_all
  from nz p(1) obtain sp stack where tk: "tasks s2 p = new_task (Some idle_name) sp stack
        (task_round RTOS_TASK_STACK_SIZE) (fn_idle_task env) 0 0" by auto
  have k1: "kinv {p} {} s1"
    unfolding p(2) by (rule set_idle [OF k(1)]) (simp_all add: tk new_task_def c(4) b(7))
  have s1: "tasks s1 = tasks s2" "sys_heap s1 = sys_heap s2" "sys_handles s1 = sys_handles s2"
    "current_task s1 = 0" "task_count s1 = 1" "lock_count s1 = 0"
    by (simp_all add: p(2) sched_set_idle_task_def c(3) b(3,6) k(3) create_keeps_lock [OF c(1)])
  have "owns {p} s1" "res_ok s1" using k(2) c(2) by (simp_all add: owns_def res_ok_def s1)
  then show ?thesis using p(1) k1 s1 tk by (auto simp: t)
qed

subsection \<open>The first task\<close>

lemma rtos_start_ok:
  assumes k: "kinv T W s" and i: "idle_task s \<noteq> 0" and n: "\<not> timer_initialized s" "\<not> systimer_initialized s"
    "\<not> timer_tick_started s"
  shows "\<exists>sp s'. rtos_start env s = Some (sp, s') \<and> kinv T W s' \<and> started s' \<and> current_task s' \<in> T \<and>
    idle_task s' = idle_task s \<and> lock_count s' = lock_count s \<and> trap_nesting s' = trap_nesting s \<and>
    best_running s' \<and> sp = task_sp (tasks s (current_task s')) \<and> sp = task_sp (tasks s' (current_task s')) \<and>
    sys_heap s' = sys_heap s \<and> tinv {} s' \<and> queued s' = [] \<and> tick_count s' = 0 \<and>
    systimer_initialized s' \<and> systimer_cpu_irq s' = 1 \<and> systimer_started s' \<and>
    (\<forall>u. priority (tasks s' u) = priority (tasks s u)) \<and>
    (\<exists>u. sched_pick_next s = Some (current_task s', u))"
proof -
  from pick_best [OF k i] obtain t s1 where p: "sched_pick_next s = Some (t, s1)"
    "kinv T W (s1\<lparr>current_task := t\<rparr>)" "t \<in> T" "best_running (s1\<lparr>current_task := t\<rparr>)"
    "same_control s (s1\<lparr>current_task := t\<rparr>)" by blast
  define s2 where "s2 = s1\<lparr>current_task := t\<rparr>"
  define s3 where "s3 = timer_start_tick (timer_init env s2)"
  define s' where "s' = task_start_first s3"
  note c = same_controlD [OF p(5), folded s2_def]
  have t: "t \<noteq> 0" using kbaseD(1) [OF kinv_kbase [OF k]] p(3) by auto
  note m = same_more [OF c(6)]
  have n2: "\<not> timer_initialized s2" "\<not> systimer_initialized s2" "\<not> timer_tick_started s2"
    using n m(8,9,15) by simp_all
  have "cpu_alloc_interrupt (s\<lparr>cpu_int_allocated := 0\<rparr>) = (1, s\<lparr>cpu_int_allocated := 2\<rparr>)" for s :: "'a sys_scheme"
    by (simp add: cpu_alloc_interrupt_def upt_rec)
  then have ti: "timer_init env s2 = s2\<lparr>timer_links := INIT_LIST_HEAD TimerHead (timer_links s2),
      cpu_int_allocated := 2, systimer_cpu_irq := 1,
      intr_table := (intr_table s2)(1 := (intr_table s2 1)\<lparr>intr_fn := fn_SysTick_Handler env\<rparr>),
      tick_count := 0, systimer_started := False, systimer_initialized := True, timer_initialized := True\<rparr>"
    using n2 by (simp add: timer_init_def systimer_init_def upd_tlinks_def Let_def)
  note q = timer_init_inv [OF n2(1), of env]
  have e: "tasks s' = tasks s2" "lnk s' = lnk s2" "ready_mask s' = ready_mask s2" "current_task s' = t"
    "idle_task s' = idle_task s2" "lock_count s' = lock_count s2" "trap_nesting s' = trap_nesting s2"
    "started s'" "sys_heap s' = sys_heap s2" "tick_count s' = 0" "systimer_initialized s'"
    "systimer_cpu_irq s' = 1" "systimer_started s'"
    "timers s' = timers (timer_init env s2)" "timer_links s' = timer_links (timer_init env s2)"
    using n2(3) by (simp_all add: s'_def s3_def task_start_first_def timer_start_tick_def systimer_start_def ti)
       (simp_all add: s2_def)
  note f = timer_frame [OF e(14,15)]
  have k': "kinv T W s'" by (rule kinv_frame [OF p(2) [folded s2_def]]) (simp_all add: e, simp add: s2_def)
  have b: "best_running s'"
    using p(4) [folded s2_def] by (simp add: best_running_def higher_ready_def e) (simp add: s2_def)
  have s3: "current_task s3 = t" "tasks s3 = tasks s'" using e(4) by (simp_all add: s'_def task_start_first_def)
  have "rtos_start env s = Some (task_sp (tasks s3 (current_task s3)), s')"
    using p(1) t by (simp add: rtos_start_def Let_def s'_def s3_def s2_def)
  then have "rtos_start env s = Some (task_sp (tasks s' t), s')" unfolding s3 .
  then show ?thesis
    using p(1) k' b p(3) c m(2) q by (intro exI [of _ "task_sp (tasks s' t)"] exI [of _ s']) (simp add: e f)
qed

text \<open>Start-up.  From the cleared memory \<^verbatim>\<open>kernel_init\<close>, if there is memory for the idle task, leaves a
  consistent kernel whose only task is the idle task; and if the application's \<^verbatim>\<open>app_main\<close> returns a
  consistent kernel it did not start, \<^verbatim>\<open>kernel_main\<close> enters the first task: it returns the stack pointer of
  a task of the highest priority, running, with the timer queue empty, the system tick on interrupt
  line 1 and everything the properties of the traps assume.\<close>

theorem kernel_boots:
  assumes "unbooted s" and "fn_idle_task env \<noteq> 0" and "kernel_init env s = Some s1"
    and "app_main s1 = Some s2" and "kinv T W s2" and "idle_task s2 = idle_task s1"
    and "\<not> timer_initialized s2" and "\<not> systimer_initialized s2" and "\<not> timer_tick_started s2"
  shows "idle_task s1 \<noteq> 0 \<and> kinv {idle_task s1} {} s1 \<and> owns {idle_task s1} s1 \<and> res_ok s1 \<and>
      task_count s1 = 1 \<and>
    (\<exists>sp s'. kernel_main app_main env s = Some (sp, s') \<and> kinv T W s' \<and> started s' \<and>
      current_task s' \<in> T \<and> current_task s' \<noteq> 0 \<and> idle_task s' = idle_task s1 \<and> best_running s' \<and>
      sp = task_sp (tasks s2 (current_task s')) \<and> sys_heap s' = sys_heap s2 \<and> lock_count s' = lock_count s2 \<and>
      tinv {} s' \<and> queued s' = [] \<and> tick_count s' = 0 \<and> systimer_initialized s' \<and> systimer_cpu_irq s' = 1)"
proof -
  note i = kernel_init_ok [OF assms(1-3)]
  have n: "idle_task s2 \<noteq> 0" using i assms(6) by simp
  have nz: "0 \<notin> T" using kbaseD(1) [OF kinv_kbase [OF assms(5)]] .
  have "kernel_main app_main env s = rtos_start env s2" by (simp add: kernel_main_def assms(3,4))
  moreover obtain sp s' where "rtos_start env s2 = Some (sp, s')" "kinv T W s'" "started s'"
    "current_task s' \<in> T" "idle_task s' = idle_task s2" "best_running s'"
    "sp = task_sp (tasks s2 (current_task s'))" "sys_heap s' = sys_heap s2" "lock_count s' = lock_count s2"
    "tinv {} s'" "queued s' = []" "tick_count s' = 0" "systimer_initialized s'" "systimer_cpu_irq s' = 1"
    using rtos_start_ok [OF assms(5) n assms(7-9), of env] by blast
  moreover from this(4) nz have "current_task s' \<noteq> 0" by metis
  ultimately show ?thesis using i assms(6) by (intro conjI exI [of _ sp] exI [of _ s']) simp_all
qed

lemma kernel_init_in_last_block:
  assumes "unbooted s" and "fn_idle_task env \<noteq> 0" and "view (sys_heap s) = [(b, m, True)]" and "2184 \<le> m"
  shows "\<exists>s1. kernel_init env s = Some s1 \<and> heap_ok (sys_heap s1) \<and> sys_handles s1 = sys_handles s \<and>
    view (sys_heap s1) = [(b, 96, False), (b + 112, 2048, False), (b + 2176, m - 2176, True)]"
proof -
  note t = task_init_ok [OF assms(1)]
  have sm: "sys_heap (task_init s) = sys_heap s" "sys_handles (task_init s) = sys_handles s"
    using same_more(1,2) [OF more_simps(3) [of s]] by (simp_all add: task_init_def)
  have a: "task_args_ok (fn_idle_task env) RTOS_TASK_STACK_SIZE 0" "task_count (task_init s) < RTOS_TASK_MAX"
    using assms(2) by (simp_all add: task_args_ok_def RTOS_TASK_STACK_SIZE_def RTOS_TASK_MAX_def t(4))
  have h: "heap_ok (sys_heap (task_init s))" using t(2) by (simp add: res_ok_def)
  from create_in_last_block [OF a h, of "[]" b m env "Some idle_name" 0] assms(3,4) show ?thesis
    by (auto simp: kernel_init_def sm RTOS_TASK_STACK_SIZE_def task_round_def sched_set_idle_task_def)
qed

lemma demo_unbooted: "unbooted blank_sys"
  using demo_heap(2) demo_handles by (simp add: unbooted_def blank_sys_def res_ok_def)

lemma demo_kernel_init: "unbooted blank_sys \<and> (\<exists>s1. kernel_init demo_env blank_sys = Some s1)"
proof -
  have "view (sys_heap blank_sys) = [(0x1000, 0xff0, True)]" by (simp add: blank_sys_def demo_heap(3))
  then show ?thesis
    using kernel_init_in_last_block [OF demo_unbooted, of demo_env "0x1000" "0xff0"] demo_unbooted
    by (auto simp: demo_env_def)
qed

lemma create_keeps_timers:
  assumes "task_create_kernel env name entry arg bytes pr s = Some (t, s')"
  shows "timer_initialized s' = timer_initialized s \<and> systimer_initialized s' = systimer_initialized s \<and>
    timer_tick_started s' = timer_tick_started s"
proof -
  have a: "kstate.more (sched_add_task u s) = kstate.more s" for u and s :: "'a sys_scheme"
    by (simp add: sched_add_task_def Let_def)
  note a = same_more(8,9,15) [OF a]
  show ?thesis
    using assms unfolding task_create_kernel_def Let_def
    by (auto simp: sys_malloc_def sys_free_def bind_eq_Some_conv a upd_bytes_def upd_task_def upd_lnk_def
        case_prod_beta split: if_split_asm)
qed

lemma kernel_init_keeps_timers:
  assumes "unbooted s" and "kernel_init env s = Some s1" and "\<not> timer_tick_started s"
  shows "\<not> timer_initialized s1" "\<not> systimer_initialized s1" "\<not> timer_tick_started s1"
proof -
  obtain p s2 where c: "task_create_kernel env (Some idle_name) (fn_idle_task env) 0 RTOS_TASK_STACK_SIZE 0
      (task_init s) = Some (p, s2)" "s1 = sched_set_idle_task p s2"
    using assms(2) by (auto simp: kernel_init_def bind_eq_Some_conv split: if_split_asm)
  have "timer_initialized (task_init s) = timer_initialized s" "systimer_initialized (task_init s) = systimer_initialized s"
    "timer_tick_started (task_init s) = timer_tick_started s"
    using same_more(8,9,15) [OF more_simps(3) [of s]] by (simp_all add: task_init_def)
  then show "\<not> timer_initialized s1" "\<not> systimer_initialized s1" "\<not> timer_tick_started s1"
    using create_keeps_timers [OF c(1)] assms(1,3) by (simp_all add: c(2) sched_set_idle_task_def unbooted_def)
qed

lemma kernel_boots_witness:
  "\<exists>sp s'. kernel_main Some demo_env blank_sys = Some (sp, s') \<and> started s' \<and> best_running s'"
proof -
  obtain s1 where s1: "unbooted blank_sys" "kernel_init demo_env blank_sys = Some s1"
    using demo_kernel_init by blast
  have f: "fn_idle_task demo_env \<noteq> 0" by (simp add: demo_env_def)
  have k: "kinv {idle_task s1} {} s1" using kernel_init_ok [OF s1(1) f s1(2)] by blast
  have "\<not> timer_tick_started blank_sys" by (simp add: blank_sys_def)
  note n = kernel_init_keeps_timers [OF s1 this]
  from kernel_boots [where app_main = Some, OF s1(1) f s1(2) refl k refl n] show ?thesis by blast
qed

end
