(* ===== verification/SleepProps.thy ===== *)
theory SleepProps
  imports BootProps
begin

unbundle bit_operations_syntax

text \<open>
  A task over the idle task, as in the demo.  Its sleep is run through the traps of the kernel: the
  \<^verbatim>\<open>ecall\<close> of its yield, then the loop of the idle task and the tick, again and again, until the task is
  back on the processor.
\<close>

subsection \<open>What the scheduling of a trap does to a task\<close>

definition runnable :: "task_state_t \<Rightarrow> bool" where
  "runnable st \<longleftrightarrow> st = TASK_READY \<or> st = TASK_RUNNING"

text \<open>A blocked task is left alone, a runnable one stays runnable.\<close>

definition light :: "ptr \<Rightarrow> 'z kstate_scheme \<Rightarrow> 'z kstate_scheme \<Rightarrow> bool" where
  "light t s s' \<longleftrightarrow> (task_state (tasks s t) = TASK_BLOCKED \<longrightarrow> tasks s' t = tasks s t) \<and>
     (runnable (task_state (tasks s t)) \<longrightarrow> runnable (task_state (tasks s' t)))"

lemma light_trans [trans]: "light t s s1 \<Longrightarrow> light t s1 s2 \<Longrightarrow> light t s s2"
  by (auto simp: light_def)

lemma light_tasks: "tasks s' = tasks s \<Longrightarrow> light t s s'"
  by (simp add: light_def)

lemma pick_light:
  assumes k: "kinv T W s" and t: "t \<in> T" and i: "idle_task s \<noteq> 0" and p: "sched_pick_next s = Some (u, s')"
  shows "light t s s'"
proof -
  let ?c = "current_task s"
  note rq = requeue_current [OF k]
  have r: "light t s (requeue_current s)" by (auto simp: light_def rq(7) runnable_def)
  have ti: "t \<noteq> idle_task s" if "task_state (tasks s t) = TASK_BLOCKED"
    using kinv_task_ok [OF k t] that by (auto simp: task_ok_def)
  show ?thesis
  proof (cases "\<exists>q<32. ready_view s q \<noteq> []")
    case True
    then obtain q where q: "q < 32" "ready_view s q \<noteq> []" by blast
    from pick_next_ready [OF k q] p obtain p' xs where u: "p' < 32" "ready_view s p' = StateNode u # xs" "u \<in> T"
      "tasks s' = (tasks (requeue_current s))(u := (tasks s u)\<lparr>task_state := TASK_RUNNING\<rparr>)" by auto
    have "StateNode u \<in> set (klist (requeue_current s) (ReadyHead p'))" using rq(5) [OF u(1)] u(2) by simp
    then have "task_state (tasks (requeue_current s) u) = TASK_READY"
      using kinv_ready_list(1) [OF rq(1) u(3,1)] by blast
    then have "task_state (tasks s u) \<noteq> TASK_BLOCKED" by (auto simp: rq(7) split: if_splits)
    with r show ?thesis by (auto simp: light_def u(4) runnable_def)
  next
    case False
    then have none: "ready_view s q = []" if "q < 32" for q using that by blast
    have "s' = set_task_state (idle_task s) TASK_RUNNING (requeue_current s)"
      using pick_next_idle(1) [OF k none i] p by simp
    with r ti show ?thesis by (auto simp: light_def runnable_def)
  qed
qed

lemma switch_light:
  assumes "kinv T W s" and "t \<in> T" and "idle_task s \<noteq> 0"
    and "Option.bind (sched_pick_next s) (\<lambda>(u, s1). Some (s1\<lparr>current_task := u\<rparr>)) = Some s'"
  shows "light t s s'" and "kinv T W s'"
proof -
  obtain u s1 where p: "sched_pick_next s = Some (u, s1)" "s' = s1\<lparr>current_task := u\<rparr>"
    using assms(4) by (auto simp: bind_eq_Some_conv)
  show "light t s s'" using pick_light [OF assms(1-3) p(1)] by (simp add: light_def p(2))
  show "kinv T W s'" using pick_next_kinv [OF assms(1)] p by auto
qed

lemma try_light:
  assumes k: "kinv T W s" and t: "t \<in> T" and i: "idle_task s \<noteq> 0"
    and r: "sched_try_reschedule_from_trap s = Some (b, s')"
  shows "light t s s'"
proof -
  let ?s = "s\<lparr>resched_pending := False\<rparr>"
  have k': "kinv T W ?s" "idle_task ?s \<noteq> 0" using k i by simp_all
  have "light t s ?s" by (simp add: light_tasks)
  moreover have "light t ?s s'" if "sched_pick_next ?s = Some (u, s1)" "s' = s1\<lparr>current_task := u\<rparr>" for u s1
    using switch_light(1) [OF k'(1) t k'(2)] that by simp
  ultimately show ?thesis
    using r unfolding sched_try_reschedule_from_trap_def Let_def
    by (auto simp: bind_eq_Some_conv light_tasks light_def split: if_split_asm)
qed

lemma resched_light:
  assumes k: "kinv T W s" and t: "t \<in> T" and i: "idle_task s \<noteq> 0" and r: "trap_reschedule f s = Some s'"
  shows "light t s s'"
proof -
  have sw: "light t s u \<and> kinv T W u \<and> idle_task u \<noteq> 0"
    if "Option.bind (sched_pick_next s0) (\<lambda>(u, s1). Some (s1\<lparr>current_task := u\<rparr>)) = Some u"
      "kinv T W s0" "tasks s0 = tasks s" "idle_task s0 = idle_task s" for s0 u
  proof -
    have "idle_task s0 \<noteq> 0" using that(4) i by simp
    from switch_light [OF that(2) t this that(1)] have "light t s u" "kinv T W u"
      by (simp_all add: light_def that(3))
    moreover have "idle_task u = idle_task s0"
      using that(1) by (auto simp: bind_eq_Some_conv dest!: pick_control same_controlD(1))
    ultimately show ?thesis using that(4) i by simp
  qed
  obtain due n where n: "sched_on_tick s = (due, s\<lparr>time_slice_ticks := n\<rparr>)"
    using on_tick_shape [of s] by (metis prod.collapse)
  obtain s1 where a: "(if task_state (tasks s (current_task s)) \<noteq> TASK_RUNNING \<or> sched_current_is_idle s
        then Option.bind (sched_pick_next s) (\<lambda>(t, s1). Some (s1\<lparr>current_task := t\<rparr>))
        else if f
        then let (due, s1) = sched_on_tick s in
          if due
          then if sched_is_locked s1 then Some (sched_set_pending s1)
               else Option.bind (sched_pick_next s1) (\<lambda>(t, s2). Some (s2\<lparr>current_task := t\<rparr>))
          else Some s1
        else Some s) = Some s1"
    and e0: "(if f then Some s1 else map_option snd (sched_try_reschedule_from_trap s1)) = Some s'"
    using r unfolding trap_reschedule_def bind_eq_Some_conv by blast
  have e: "f \<and> s' = s1 \<or> \<not> f \<and> (\<exists>b. sched_try_reschedule_from_trap s1 = Some (b, s'))"
    using e0 by (cases f) auto
  consider "Option.bind (sched_pick_next s) (\<lambda>(t, s1). Some (s1\<lparr>current_task := t\<rparr>)) = Some s1"
    | "Option.bind (sched_pick_next (s\<lparr>time_slice_ticks := n\<rparr>)) (\<lambda>(t, s2). Some (s2\<lparr>current_task := t\<rparr>)) = Some s1"
    | "s1 = s" | "s1 = s\<lparr>time_slice_ticks := n\<rparr>" | "s1 = sched_set_pending (s\<lparr>time_slice_ticks := n\<rparr>)"
    using a unfolding n Let_def prod.case
    by (cases "task_state (tasks s (current_task s)) \<noteq> TASK_RUNNING \<or> sched_current_is_idle s"; cases f; cases due;
        cases "sched_is_locked (s\<lparr>time_slice_ticks := n\<rparr>)"; simp only: if_True if_False simp_thms option.inject; metis)
  then have s1: "light t s s1 \<and> kinv T W s1 \<and> idle_task s1 \<noteq> 0"
  proof cases
    case 1
    then show ?thesis using sw k by blast
  next
    case 2
    then show ?thesis by (rule sw) (use k in simp_all)
  qed (use k i in \<open>simp_all add: light_tasks sched_set_pending_def\<close>)
  note s1 = s1 [THEN conjunct1] s1 [THEN conjunct2, THEN conjunct1] s1 [THEN conjunct2, THEN conjunct2]
  show ?thesis using e s1(1) light_trans [OF s1(1) try_light [OF s1(2) t s1(3)]] by blast
qed

subsection \<open>A task and the idle task\<close>

text \<open>The kernel runs the task \<open>c\<close> over the idle task \<open>i\<close>, and no software timer.\<close>

definition duo :: "ptr \<Rightarrow> ptr \<Rightarrow> 'z sys_scheme \<Rightarrow> bool" where
  "duo c i s \<longleftrightarrow> kinv {c, i} {} s \<and> c \<noteq> i \<and> idle_task s = i \<and> started s \<and> lock_count s = 0 \<and>
     prio s i < prio s c \<and> tinv {} s \<and> queued s = [] \<and> systimer_initialized s \<and> systimer_cpu_irq s = 1"

definition asleep :: "ptr \<Rightarrow> u32 \<Rightarrow> 'z kstate_scheme \<Rightarrow> bool" where
  "asleep c at s \<longleftrightarrow> task_state (tasks s c) = TASK_BLOCKED \<and> waiting_on_timer (tasks s c) \<and> wakeup (tasks s c) = at"

lemma duoD:
  assumes "duo c i s"
  shows "kinv {c, i} {} s" "c \<noteq> i" "idle_task s = i" "started s" "lock_count s = 0" "prio s i < prio s c"
    "tinv {} s" "queued s = []" "systimer_initialized s" "systimer_cpu_irq s = 1" "c \<noteq> 0" "i \<noteq> 0"
  using assms kbaseD(1) [OF kinv_kbase, of "{c, i}" "{}" s] by (auto simp: duo_def)

lemma duo_keep:
  assumes "duo c i s" and "kinv {c, i} {} s'" and "idle_task s' = idle_task s" "started s' = started s"
    "lock_count s' = lock_count s" "kstate.more s' = kstate.more s"
    "\<And>t. priority (tasks s' t) = priority (tasks s t)"
  shows "duo c i s'"
proof -
  note m = same_more [OF assms(6)]
  show ?thesis using assms(1-5,7) m(14,15) timer_frame [OF m(6,7)] by (simp add: duo_def)
qed

lemma duo_save:
  assumes d: "duo c i s" and n: "current_task s \<noteq> 0"
  shows "duo c i (upd_task (current_task s) (\<lambda>k. k\<lparr>task_sp := sp\<rparr>) (enter_trap s))"
    and "asleep c at s \<Longrightarrow> asleep c at (upd_task (current_task s) (\<lambda>k. k\<lparr>task_sp := sp\<rparr>) (enter_trap s))"
proof -
  show "duo c i (upd_task (current_task s) (\<lambda>k. k\<lparr>task_sp := sp\<rparr>) (enter_trap s))"
    by (rule duo_keep [OF d in_trapD(1) [OF save_sp [OF duoD(1) [OF d] n]]]) (simp_all add: enter_trap_def)
qed (auto simp: asleep_def enter_trap_def)

lemma duo_handlers:
  assumes d: "duo c i s"
  shows "duo c i (SysTick_Handler count s)" "duo c i (advance_ecall q s)"
    "asleep c at s \<Longrightarrow> asleep c at (SysTick_Handler count s)" "asleep c at s \<Longrightarrow> asleep c at (advance_ecall q s)"
proof -
  have "kinv {c, i} {} (SysTick_Handler count s)"
    by (rule kinv_frame [OF duoD(1) [OF d]]) (simp_all add: SysTick_Handler_def)
  then show "duo c i (SysTick_Handler count s)"
    by (rule duo_keep [OF d]) (simp_all add: SysTick_Handler_def)
  have "timers (advance_ecall q s) = timers s" "timer_links (advance_ecall q s) = timer_links s"
    by (simp_all add: advance_ecall_def)
  note f = timer_frame [OF this]
  have "kinv {c, i} {} (advance_ecall q s)"
    by (rule kinv_frame [OF duoD(1) [OF d]]) (simp_all add: advance_ecall_def)
  then show "duo c i (advance_ecall q s)" using d f by (simp add: duo_def) (simp add: advance_ecall_def)
qed (simp_all add: asleep_def SysTick_Handler_def advance_ecall_def)

text \<open>The expired timeouts of a trap: only the sleeping task can be due.\<close>

lemma duo_wakes:
  assumes d: "duo c i s" and a: "asleep c at s"
  shows "\<exists>s'. sched_wake_expired s = Some s' \<and> duo c i s' \<and> tick_count s' = tick_count s \<and>
    current_task s' = current_task s \<and> trap_nesting s' = trap_nesting s \<and>
    (if timer_expired (tick_count s) at then task_state (tasks s' c) = TASK_READY else asleep c at s') \<and>
    tasks s' i = tasks s i"
proof -
  let ?n = "tick_count s"
  note k = duoD(1) [OF d]
  have "task_state (tasks s i) \<noteq> TASK_BLOCKED"
    using kinv_task_ok [OF k, of i] duoD(3) [OF d] by (auto simp: task_ok_def)
  then have i: "i \<notin> set (timed_tasks s)" using timed_tasks_iff [OF k, of i] by simp
  have c: "c \<in> set (timed_tasks s)" using timed_tasks_iff [OF k, of c] a by (simp add: asleep_def)
  have sub: "set (timed_tasks s) \<subseteq> {c, i}"
    using timeout_item [OF kinv_kbase [OF k]] by (fastforce simp: timed_tasks_def)
  then have all: "set (timed_tasks s) = {c}" using i c by blast
  have due: "set (due_tasks ?n s) = (if timer_expired ?n at then {c} else {})"
  proof (cases "timer_expired ?n at")
    case True
    then have "takeWhile (\<lambda>t. timer_expired ?n (wakeup (tasks s t))) (timed_tasks s) = timed_tasks s"
      using all a by (simp add: takeWhile_eq_all_conv asleep_def)
    then have "due_tasks ?n s = timed_tasks s" by (simp only: due_tasks_alt)
    then show ?thesis using True all by simp
  next
    case False
    then have "takeWhile (\<lambda>t. timer_expired ?n (wakeup (tasks s t))) (timed_tasks s) = []"
      using all a by (cases "timed_tasks s") (auto simp: asleep_def)
    then have "due_tasks ?n s = []" by (simp only: due_tasks_alt)
    then show ?thesis using False by simp
  qed
  obtain s' where w: "wake_expired_loop ?n s = Some s'" "kinv {c, i} {} s'"
    and e: "expired_from {} (due_tasks ?n s) s s'"
    using wake_expired_loop [OF k, of ?n] by blast
  have t: "tasks s' = (\<lambda>t. if t \<in> set (due_tasks ?n s) then timed_out (tasks s t) else tasks s t)"
    using e by (simp add: expired_from_def)
  obtain l m where f: "s' = s\<lparr>tasks := tasks s', lnk := l, ready_mask := m\<rparr>"
    using e unfolding expired_from_def by blast
  have g: "current_task s' = current_task s" "idle_task s' = idle_task s" "lock_count s' = lock_count s"
    "started s' = started s" "trap_nesting s' = trap_nesting s" "tick_count s' = tick_count s"
    "kstate.more s' = kstate.more s" by (subst f, simp)+
  have "duo c i s'"
    by (rule duo_keep [OF d w(2) g(2,4,3,7)]) (simp add: t timed_out_def)
  moreover have "if timer_expired ?n at then task_state (tasks s' c) = TASK_READY else asleep c at s'"
    using a by (auto simp: t due timed_out_def asleep_def split: if_splits)
  moreover have "tasks s' i = tasks s i" using duoD(2) [OF d] unfolding t due by simp
  ultimately show ?thesis using w(1) g by (simp add: sched_wake_expired_def)
qed

text \<open>The whole trap, from the saved stack pointer on.\<close>

lemma duo_rest:
  assumes d: "duo c i s" and a: "asleep c at s" and cur: "current_task s \<in> {c, i}"
  shows "\<exists>s4 s6. sched_wake_expired s = Some s4 \<and> timer_run_expired cb s4 = Some s4 \<and>
    trap_reschedule f s4 = Some s6 \<and> duo c i s6 \<and> tick_count s6 = tick_count s \<and> cur_running s6 \<and>
    trap_nesting s6 = trap_nesting s \<and>
    (if timer_expired (tick_count s) at then current_task s6 = c else current_task s6 = i \<and> asleep c at s6)"
proof -
  obtain s4 where s4: "sched_wake_expired s = Some s4" "duo c i s4" "tick_count s4 = tick_count s"
    "current_task s4 = current_task s" "trap_nesting s4 = trap_nesting s" "tasks s4 i = tasks s i"
    and w: "if timer_expired (tick_count s) at then task_state (tasks s4 c) = TASK_READY else asleep c at s4"
    using duo_wakes [OF d a] by blast
  note k = duoD [OF s4(2)]
  have tr: "timer_run_expired cb s4 = Some s4"
    using tlinks_empty(1) [of "{}" s4] k(7,8) by (subst timer_run_expired.simps) (simp add: tinv_def)
  have nz: "current_task s4 \<noteq> 0" "idle_task s4 \<noteq> 0" using cur k(3,11,12) s4(4) by auto
  have na: "\<not> app_running s4"
    using cur w s4(4) k(3) by (auto simp: app_running_def asleep_def split: if_splits)
  obtain s6 where s6: "trap_reschedule f s4 = Some s6" "kinv {c, i} {} s6" "current_task s6 \<in> {c, i}"
    "cur_running s6" "same_control s4 s6" "best_running s6"
    using tick_schedules [OF k(1) nz] call_schedules [OF k(1) nz] na by (cases f) auto
  note sc = same_controlD [OF s6(5)]
  have l: "light c s4 s6" using resched_light [OF k(1) _ nz(2) s6(1)] by simp
  have d6: "duo c i s6" by (rule duo_keep [OF s4(2) s6(2) sc(1,5,2,6,7)])
  have "if timer_expired (tick_count s) at then current_task s6 = c else current_task s6 = i \<and> asleep c at s6"
  proof (cases "timer_expired (tick_count s) at")
    case True
    have r: "runnable (task_state (tasks s6 c))" using l w True by (simp add: light_def runnable_def)
    have "current_task s6 = c"
    proof (rule ccontr)
      assume n: "current_task s6 \<noteq> c"
      then have i: "current_task s6 = i" using s6(3) by simp
      have ok: "task_ok {} s6 c" using kinv_task_ok [OF s6(2)] by simp
      have "task_state (tasks s6 c) \<noteq> TASK_RUNNING" using ok n by (auto simp: task_ok_def)
      then have "task_state (tasks s6 c) = TASK_READY" using r by (simp add: runnable_def)
      then have m: "StateNode c \<in> set (klist s6 (ReadyHead (prio s6 c)))"
        using ok duoD(2,3) [OF d6] by (simp add: task_ok_def)
      have "prio s6 c < 32" using kbaseD(7) [OF kinv_kbase [OF s6(2)]] by simp
      then have "higher_ready s6 (prio s6 i)" using m duoD(6) [OF d6] by (auto simp: higher_ready_def)
      then show False using s6(6) i by (simp add: best_running_def)
    qed
    then show ?thesis using True by simp
  next
    case False
    then have b: "asleep c at s4" using w by simp
    then have a6: "asleep c at s6" using l by (simp add: light_def asleep_def)
    then have "current_task s6 \<noteq> c" using s6(4) by (auto simp: asleep_def)
    then show ?thesis using False a6 s6(3) by simp
  qed
  moreover have "tick_count s6 = tick_count s" "trap_nesting s6 = trap_nesting s" using sc(3,4) s4(3,5) by simp_all
  ultimately show ?thesis using s4(1) tr s6(1,4) d6 by blast
qed

text \<open>One trap, the system call of a yield or a tick, as the two tasks see it.\<close>

definition after :: "ptr \<Rightarrow> ptr \<Rightarrow> u32 \<Rightarrow> 'z sys_scheme \<Rightarrow> bool" where
  "after c i at s \<longleftrightarrow> duo c i s \<and> cur_running s \<and>
     (if timer_expired (tick_count s) at then current_task s = c else current_task s = i \<and> asleep c at s)"

lemma duo_trap:
  assumes d: "duo c i s" and a: "asleep c at s" and cur: "current_task s \<in> {c, i}"
    and i: "bit cause 31 \<longrightarrow> unat (cause AND 0xff) < 32"
    and s2: "s2 = upd_task (current_task s) (\<lambda>k. k\<lparr>task_sp := sp\<rparr>) (enter_trap s)"
    and h: "(if bit cause 31 then dispatch_interrupt isr count (unat (cause AND 0xff)) s2
      else if cause AND 0x7fffffff = 11 then Some (False, advance_ecall sp s2) else None) = Some (fired, s3)"
    and s3: "s3 = SysTick_Handler count s2 \<or> s3 = advance_ecall sp s2"
  shows "\<exists>sp' s'. do_trap isr cb count sp cause s = Some (sp', s') \<and> after c i at s' \<and>
    tick_count s' = tick_count s3 \<and> trap_nesting s' = trap_nesting s"
proof -
  have n: "current_task s \<noteq> 0" using cur duoD(11,12) [OF d] by auto
  note b = duo_save [OF d n, where sp = sp, folded s2]
  have d3: "duo c i s3" "asleep c at s3" using s3 duo_handlers [OF b(1)] b(2) [OF a] by auto
  have c3: "current_task s3 = current_task s" "trap_nesting s3 = trap_nesting s + 1"
    using s3 s2 by (auto simp: SysTick_Handler_def advance_ecall_def enter_trap_def)
  then have "current_task s3 \<in> {c, i}" using cur by simp
  from duo_rest [OF d3 this, of cb fired] obtain s4 s6 where
    s6: "sched_wake_expired s3 = Some s4" "timer_run_expired cb s4 = Some s4" "trap_reschedule fired s4 = Some s6"
      "duo c i s6" "tick_count s6 = tick_count s3" "cur_running s6" "trap_nesting s6 = trap_nesting s3"
      "if timer_expired (tick_count s3) at then current_task s6 = c else current_task s6 = i \<and> asleep c at s6"
    by blast
  have r: "do_trap isr cb count sp cause s = Some (task_sp (tasks s6 (current_task s6)), leave_trap s6)"
  proof (rule do_trap_started [OF _ _ _ i h _ s6(1-3)])
    show "started (enter_trap s)" "current_task (enter_trap s) \<noteq> 0"
      using n duoD(4) [OF d] by (simp_all add: enter_trap_def)
    show "upd_task (current_task (enter_trap s)) (\<lambda>k. k\<lparr>task_sp := sp\<rparr>) (enter_trap s) = s2"
      unfolding s2 by (simp only: enter_trap_current)
    show "current_task s3 \<noteq> 0" using c3 n by simp
  qed
  have "duo c i (leave_trap s6)"
  proof (rule duo_keep [OF s6(4)])
    show "kinv {c, i} {} (leave_trap s6)" using duoD(1) [OF s6(4)] by simp
  qed (simp_all add: leave_trap_def)
  moreover have "asleep c at (leave_trap s6) \<longleftrightarrow> asleep c at s6" by (simp add: asleep_def)
  ultimately have "after c i at (leave_trap s6)" using s6(5,6,8) by (simp add: after_def)
  then show ?thesis using r s6(5,7) c3(2) by auto
qed

lemma duo_tick:
  assumes d: "duo c i s" and a: "asleep c at s" and cur: "current_task s \<in> {c, i}"
  shows "\<exists>sp' s'. do_trap isr cb count sp 0x80000001 s = Some (sp', s') \<and> after c i at s' \<and>
    tick_count s' = systimer_get_tick count \<and> trap_nesting s' = trap_nesting s"
proof -
  define s2 where "s2 = upd_task (current_task s) (\<lambda>k. k\<lparr>task_sp := sp\<rparr>) (enter_trap s)"
  have b: "bit (0x80000001 :: u32) 31" "unat ((0x80000001 :: u32) AND 0xff) = 1" by (simp_all add: bit_simps)
  have "kstate.more s2 = kstate.more s" by (simp add: s2_def enter_trap_def)
  note o = same_more(14,15) [OF this]
  have "dispatch_interrupt isr count 1 s2 = Some (True, SysTick_Handler count s2)"
    using duoD(9,10) [OF d] by (simp add: dispatch_interrupt_def o)
  then have h: "(if bit (0x80000001 :: u32) 31 then dispatch_interrupt isr count (unat ((0x80000001 :: u32) AND 0xff)) s2
      else if (0x80000001 :: u32) AND 0x7fffffff = 11 then Some (False, advance_ecall sp s2) else None) =
      Some (True, SysTick_Handler count s2)"
    by (simp only: b if_True)
  have u: "bit (0x80000001 :: u32) 31 \<longrightarrow> unat ((0x80000001 :: u32) AND 0xff) < 32" by (simp only: b) simp
  have "tick_count (SysTick_Handler count s2) = systimer_get_tick count" by (simp add: SysTick_Handler_def)
  with duo_trap [OF d a cur u s2_def h, where cb = cb] show ?thesis by simp
qed

lemma duo_ecall:
  assumes d: "duo c i s" and a: "asleep c at s" and cur: "current_task s \<in> {c, i}"
  shows "\<exists>sp' s'. do_trap isr cb count sp 11 s = Some (sp', s') \<and> after c i at s' \<and>
    tick_count s' = tick_count s \<and> trap_nesting s' = trap_nesting s"
proof -
  define s2 where "s2 = upd_task (current_task s) (\<lambda>k. k\<lparr>task_sp := sp\<rparr>) (enter_trap s)"
  have b: "\<not> bit (11 :: u32) 31" "(11 :: u32) AND 0x7fffffff = 11" by (simp_all add: bit_simps)
  have h: "(if bit (11 :: u32) 31 then dispatch_interrupt isr count (unat ((11 :: u32) AND 0xff)) s2
      else if (11 :: u32) AND 0x7fffffff = 11 then Some (False, advance_ecall sp s2) else None) =
      Some (False, advance_ecall sp s2)"
    by (simp only: b if_True if_False simp_thms)
  have u: "bit (11 :: u32) 31 \<longrightarrow> unat ((11 :: u32) AND 0xff) < 32" using b(1) by blast
  have "tick_count (advance_ecall sp s2) = tick_count s" by (simp add: advance_ecall_def s2_def enter_trap_def)
  with duo_trap [OF d a cur u s2_def h, where cb = cb] show ?thesis by simp
qed

subsection \<open>The idle task in between\<close>

text \<open>
  \<open>idle_until\<close> is the processor while the task \<open>c\<close> sleeps: the loop of \<^verbatim>\<open>idle_task\<close>, which cleans up
  and waits for an interrupt, and the trap of the next tick, until \<open>c\<close> runs.  \<open>kernel_yield\<close> is what
  \<^verbatim>\<open>arch_yield\<close> is for \<open>c\<close>: the trap of its \<^verbatim>\<open>ecall\<close>, and then whatever runs until \<open>c\<close> does again.  The
  hardware counter at the tick number \<open>n\<close> is \<open>now n\<close>, and \<open>sp\<close> the stack pointer at a trap.
\<close>

partial_function (option) idle_until ::
    "('z sys_scheme \<Rightarrow> 'z sys_scheme option) \<Rightarrow> ptr \<Rightarrow> 'z sys_scheme \<Rightarrow> 'z sys_scheme option" where
  "idle_until tick c s =
     (if current_task s = c then Some s
      else Option.bind (idle_round s) (\<lambda>s1. Option.bind (tick s1) (idle_until tick c)))"

definition kernel_yield ::
    "(ptr \<Rightarrow> ptr \<Rightarrow> 'z sys_scheme \<Rightarrow> 'z sys_scheme option) \<Rightarrow>
     (ptr \<Rightarrow> ptr \<Rightarrow> 'z sys_scheme \<Rightarrow> 'z sys_scheme option) \<Rightarrow> (u32 \<Rightarrow> u64) \<Rightarrow>
     ('z sys_scheme \<Rightarrow> ptr) \<Rightarrow> ptr \<Rightarrow> 'z sys_scheme \<Rightarrow> 'z sys_scheme option" where
  "kernel_yield isr cb now sp c s =
     Option.bind (do_trap isr cb (now (tick_count s)) (sp s) 11 s) (\<lambda>(_, s1).
       idle_until (\<lambda>s. map_option snd (do_trap isr cb (now (tick_count s + 1)) (sp s) 0x80000001 s)) c s1)"

lemma deleted_list_state:
  assumes k: "kinv T W s" and t: "t \<in> T" and m: "StateNode t \<in> set (klist s DeletedHead)"
  shows "task_state (tasks s t) = TASK_DELETED"
proof -
  note b = kinv_kbase [OF k]
  have only: "h = DeletedHead" if "h \<in> kheads W" "StateNode t \<in> set (klist s h)" for h
    using state_node_unique [OF b that(1) _ that(2) m] by simp
  have "StateNode t \<notin> set (klist s (WaitHead w))" if "w \<in> W" for w using only [of "WaitHead w"] that by auto
  moreover have "StateNode t \<notin> set (klist s (ReadyHead (prio s t)))"
    using only [of "ReadyHead (prio s t)"] kbaseD(7) [OF b t] by auto
  moreover have "\<not> list_empty (StateNode t) (lnk s)" using list_empty_state [OF b t] m by auto
  ultimately show ?thesis
    using kinv_task_ok [OF k t] by (auto simp: task_ok_def split: task_state_t.splits)
qed

lemma idle_round_asleep:
  assumes d: "duo c i s" and a: "asleep c at s" and cur: "cur_running s" "current_task s = i"
  shows "idle_round s = Some s"
proof -
  note k = duoD(1) [OF d] and b = kinv_kbase [OF duoD(1) [OF d]]
  obtain ts where ts: "klist s DeletedHead = map StateNode ts" using deleted_nodes [OF k] by blast
  have "t \<notin> set ts" for t
  proof
    assume m: "t \<in> set ts"
    then have n: "StateNode t \<in> set (klist s DeletedHead)" by (simp add: ts)
    have t: "t \<in> {c, i}" using state_head_item [OF b _ _ n] by auto
    show False using deleted_list_state [OF k t n] t a cur by (auto simp: asleep_def)
  qed
  then have "klist s DeletedHead = []" using ts by (cases ts) auto
  then show ?thesis
    using pop_deleted_empty [OF b] by (subst idle_round_def, subst task_cleanup_deleted.simps) simp
qed

lemma idle_until_wakes:
  fixes isr cb :: "ptr \<Rightarrow> ptr \<Rightarrow> 'z sys_scheme \<Rightarrow> 'z sys_scheme option" and sp :: "'z sys_scheme \<Rightarrow> ptr" and s :: "'z sys_scheme"
  assumes now: "\<And>n. systimer_get_tick (now n) = n"
  defines "tick \<equiv> \<lambda>s. map_option snd (do_trap isr cb (now (tick_count s + 1)) (sp s) 0x80000001 s)"
  shows "after c i at s \<Longrightarrow> \<not> timer_expired (tick_count s) at \<Longrightarrow>
    \<exists>s'. idle_until tick c s = Some s' \<and> duo c i s' \<and> current_task s' = c \<and> cur_running s' \<and> tick_count s' = at \<and>
      trap_nesting s' = trap_nesting s"
proof (induction "unat (at - tick_count s)" arbitrary: s rule: less_induct)
  case less
  have d: "duo c i s" "asleep c at s" "current_task s = i" "cur_running s"
    using less.prems by (auto simp: after_def)
  have "current_task s \<in> {c, i}" using d(3) by simp
  from duo_tick [OF d(1,2) this, of isr cb "now (tick_count s + 1)" "sp s"] obtain s1 where
    s1: "tick s = Some s1" "after c i at s1" "tick_count s1 = tick_count s + 1" "trap_nesting s1 = trap_nesting s"
    by (auto simp: tick_def now)
  have step: "idle_until tick c s = idle_until tick c s1"
    using s1(1) d(3) duoD(2) [OF d(1)] idle_round_asleep [OF d(1,2,4,3)] by (simp add: idle_until.simps [of tick c s])
  let ?d = "at - tick_count s"
  have left: "at - tick_count s1 = ?d - 1" by (simp add: s1(3))
  have r: "?d \<noteq> 0" "unat ?d \<le> 2 ^ 31"
    using less.prems(2) timer_expired_future [of "tick_count s" ?d] by auto
  have m: "unat (?d - 1) = unat ?d - 1" using r(1) by (rule unat_minus_one)
  have p: "0 < unat ?d" using r(1) by (simp add: unat_gt_0)
  show ?case
  proof (cases "tick_count s1 = at")
    case True
    then have "timer_expired (tick_count s1) at" using timer_expired_future [of at 0] by simp
    then have f: "duo c i s1" "current_task s1 = c" "cur_running s1" using s1(2) by (auto simp: after_def)
    then have "idle_until tick c s1 = Some s1" by (simp add: idle_until.simps [of tick c s1])
    then show ?thesis using step f True s1(4) by auto
  next
    case False
    then have "at - tick_count s1 \<noteq> 0" by simp
    moreover have "unat (at - tick_count s1) \<le> 2 ^ 31" using r(2) m unfolding left by simp
    ultimately have "\<not> timer_expired (tick_count s1) at"
      using timer_expired_future [of "tick_count s1" "at - tick_count s1"] by simp
    moreover have "unat (at - tick_count s1) < unat (at - tick_count s)" using m p unfolding left by simp
    ultimately show ?thesis using less.hyps [of s1] s1(2,4) unfolding step by auto
  qed
qed

lemma kernel_yield_wakes:
  assumes now: "\<And>n. systimer_get_tick (now n) = n"
    and d: "duo c i s" "asleep c at s" "current_task s = c" and e: "\<not> timer_expired (tick_count s) at"
  shows "\<exists>s'. kernel_yield isr cb now sp c s = Some s' \<and> duo c i s' \<and> current_task s' = c \<and> cur_running s' \<and>
    tick_count s' = at \<and> trap_nesting s' = trap_nesting s"
proof -
  have "current_task s \<in> {c, i}" using d(3) by simp
  from duo_ecall [OF d(1,2) this, of isr cb "now (tick_count s)" "sp s"] obtain sp1 s1 where
    s1: "do_trap isr cb (now (tick_count s)) (sp s) 11 s = Some (sp1, s1)" "after c i at s1" "tick_count s1 = tick_count s"
      "trap_nesting s1 = trap_nesting s" by blast
  have "\<not> timer_expired (tick_count s1) at" using e s1(3) by simp
  from idle_until_wakes [where now = now and isr = isr and cb = cb and sp = sp, OF now s1(2) this]
  show ?thesis using s1(1,4) by (auto simp: kernel_yield_def)
qed

lemma delay_duo:
  assumes d: "duo c i s" "current_task s = c" "cur_running s"
  shows "\<exists>u. delay_block at s = Some u \<and> duo c i u \<and> asleep c at u \<and> current_task u = c \<and>
    tick_count u = tick_count s \<and> trap_nesting u = trap_nesting s"
proof -
  have r: "app_running s" using d duoD(2,3,11) [OF d(1)] by (simp add: app_running_def)
  obtain u where u: "delay_block at s = Some u" "kinv {c, i} {} u"
    "tasks u = (tasks s)(c := (tasks s c)\<lparr>wakeup := at, waiting_on_timer := True,
       wait_result := TASK_WAIT_NONE, task_state := TASK_BLOCKED\<rparr>)"
    "u = s\<lparr>tasks := tasks u, lnk := lnk u\<rparr>"
    using delay_block [OF duoD(1) [OF d(1)] r, of at] d(2) by blast
  have g: "current_task u = current_task s" "idle_task u = idle_task s" "lock_count u = lock_count s"
    "started u = started s" "trap_nesting u = trap_nesting s" "tick_count u = tick_count s"
    "kstate.more u = kstate.more s" by (subst u(4), simp)+
  have "duo c i u" by (rule duo_keep [OF d(1) u(2) g(2,4,3,7)]) (simp add: u(3))
  moreover have "asleep c at u" by (simp add: asleep_def u(3))
  ultimately show ?thesis using u(1) g d(2) by simp
qed

lemma duo_sleeps:
  fixes s :: "'z sys_scheme"
  assumes now: "\<And>n. systimer_get_tick (now n) = n"
    and d: "duo c i s" "current_task s = c" "cur_running s" and n: "unat (timer_us_to_ticks delay) \<le> 2 ^ 31"
  shows "\<exists>s'. task_sleep (kernel_yield isr cb now sp c) delay s = Some s' \<and> duo c i s' \<and> current_task s' = c \<and>
    cur_running s' \<and> tick_count s' = tick_count s + timer_us_to_ticks delay \<and> trap_nesting s' = trap_nesting s"
proof -
  let ?y = "kernel_yield isr cb now sp c :: 'z sys_scheme \<Rightarrow> _"
  let ?n = "timer_us_to_ticks delay"
  let ?at = "tick_count s + ?n"
  have e: "task_sleep ?y delay s = task_delay_loop ?y ?at s"
    using d(2) duoD(5,11) [OF d(1)] by (simp add: task_sleep_def task_delay_ticks_def sched_is_locked_def)
  show ?thesis
  proof (cases "?n = 0")
    case True
    then have "timer_expired (tick_count s) ?at" using timer_expired_future [of "tick_count s" 0] by simp
    then have "task_delay_loop ?y ?at s = Some s" by (simp add: task_delay_loop.simps [of ?y ?at s])
    then show ?thesis using d e True by simp
  next
    case False
    then have x: "\<not> timer_expired (tick_count s) ?at" using n timer_expired_future [of "tick_count s" ?n] by simp
    obtain u where u: "delay_block ?at s = Some u" "duo c i u" "asleep c ?at u" "current_task u = c"
      "tick_count u = tick_count s" "trap_nesting u = trap_nesting s" using delay_duo [OF d] by blast
    have xu: "\<not> timer_expired (tick_count u) ?at" using x u(5) by simp
    obtain s' where s': "?y u = Some s'" "duo c i s'" "current_task s' = c" "cur_running s'" "tick_count s' = ?at"
      "trap_nesting s' = trap_nesting u"
      using kernel_yield_wakes [where isr = isr and cb = cb and sp = sp, OF now u(2-4) xu] by blast
    have y: "task_yield ?y u = ?y u"
      using u(3,4) duoD(5) [OF u(2)] by (intro yield_blocked) (simp_all add: sched_is_locked_def asleep_def)
    have "timer_expired (tick_count s') ?at" using timer_expired_future [of ?at 0] s'(5) by simp
    then have "task_delay_loop ?y ?at s' = Some s'" by (simp add: task_delay_loop.simps [of ?y ?at s'])
    then have "task_delay_loop ?y ?at s = Some s'"
      using x u(1) y s'(1) by (simp add: task_delay_loop.simps [of ?y ?at s])
    then show ?thesis using e s' u(6) by auto
  qed
qed

end
