(* ===== verification/ApiProps.thy ===== *)
theory ApiProps
  imports TrapProps
begin

unbundle bit_operations_syntax

text \<open>
  The public calls as a whole: every call on a handle checks its type and its rights before it touches
  anything, and the calls for interrupt handlers do what the calls for tasks do.
\<close>

subsection \<open>The calls that take a handle\<close>

datatype api_call =
    SemDestroy | SemPost | SemPostIsr | SemWait | SemWaitTimeout trt_time_t | SemTrywait
  | MutexDestroy | MutexTrylock | MutexLock | MutexLockTimeout trt_time_t | MutexUnlock
  | MsgDestroy | MsgSend ptr u32 trt_time_t | MsgSendFront ptr u32 trt_time_t
  | MsgRecv ptr trt_time_t | MsgPeek ptr trt_time_t
  | MsgSendIsr ptr u32 | MsgRecvIsr ptr | MsgPeekIsr ptr
  | MsgIsFull | MsgIsEmpty | MsgCount
  | TimerStartTicks u32 u32 | TimerStop | TimerDestroy | TimerActive
  | TaskDelete

datatype answer = Code err_t | Flag bool | Count u32 | Void

definition code :: "(err_t \<times> 'z sys_scheme) option \<Rightarrow> (answer \<times> 'z sys_scheme) option" where
  "code = map_option (\<lambda>(e, s). (Code e, s))"

fun call_api ::
    "('z sys_scheme \<Rightarrow> 'z sys_scheme option) \<Rightarrow> api_call \<Rightarrow> trt_handle_t \<Rightarrow> 'z sys_scheme \<Rightarrow>
      (answer \<times> 'z sys_scheme) option" where
  "call_api y SemDestroy h s = code (trt_sem_destroy y h s)"
| "call_api y SemPost h s = code (trt_sem_post h s)"
| "call_api y SemPostIsr h s = code (trt_sem_post_from_isr h s)"
| "call_api y SemWait h s = code (trt_sem_wait y h s)"
| "call_api y (SemWaitTimeout us) h s = code (trt_sem_wait_timeout y h us s)"
| "call_api y SemTrywait h s = code (trt_sem_trywait h s)"
| "call_api y MutexDestroy h s = code (trt_mutex_destroy y h s)"
| "call_api y MutexTrylock h s = code (trt_mutex_trylock h s)"
| "call_api y MutexLock h s = code (trt_mutex_lock y h s)"
| "call_api y (MutexLockTimeout us) h s = code (trt_mutex_lock_timeout y h us s)"
| "call_api y MutexUnlock h s = code (trt_mutex_unlock h s)"
| "call_api y MsgDestroy h s = code (trt_msg_q_destroy y h s)"
| "call_api y (MsgSend d n us) h s = code (trt_msg_q_send y h d n us s)"
| "call_api y (MsgSendFront d n us) h s = code (trt_msg_q_send_front y h d n us s)"
| "call_api y (MsgRecv b us) h s = code (trt_msg_q_recv y h b us s)"
| "call_api y (MsgPeek b us) h s = code (trt_msg_q_peek y h b us s)"
| "call_api y (MsgSendIsr d n) h s = code (trt_msg_q_send_from_isr h d n s)"
| "call_api y (MsgRecvIsr b) h s = code (trt_msg_q_recv_from_isr h b s)"
| "call_api y (MsgPeekIsr b) h s = code (trt_msg_q_peek_from_isr h b s)"
| "call_api y MsgIsFull h s = (let (b, s1) = trt_msg_q_is_full h s in Some (Flag b, s1))"
| "call_api y MsgIsEmpty h s = (let (b, s1) = trt_msg_q_is_empty h s in Some (Flag b, s1))"
| "call_api y MsgCount h s = (let (n, s1) = trt_msg_q_count h s in Some (Count n, s1))"
| "call_api y (TimerStartTicks d p) h s = map_option (Pair Void) (timer_start_ticks h d p s)"
| "call_api y TimerStop h s = Some (Void, trt_timer_stop h s)"
| "call_api y TimerDestroy h s = code (trt_timer_destroy h s)"
| "call_api y TimerActive h s = (let (b, s1) = trt_timer_active h s in Some (Flag b, s1))"
| "call_api y TaskDelete h s = code (task_delete y h s)"

text \<open>The type and the right a call asks for, and its answer when it is refused.\<close>

fun api_type :: "api_call \<Rightarrow> trt_obj_type_t" where
  "api_type (SemWaitTimeout _) = TRT_OBJ_SEM"
| "api_type (MutexLockTimeout _) = TRT_OBJ_MUTEX"
| "api_type (TimerStartTicks _ _) = TRT_OBJ_TIMER"
| "api_type c =
     (if c \<in> {SemDestroy, SemPost, SemPostIsr, SemWait, SemTrywait} then TRT_OBJ_SEM
      else if c \<in> {MutexDestroy, MutexTrylock, MutexLock, MutexUnlock} then TRT_OBJ_MUTEX
      else if c \<in> {TimerStop, TimerDestroy, TimerActive} then TRT_OBJ_TIMER
      else if c = TaskDelete then TRT_OBJ_TASK else TRT_OBJ_MSG_Q)"

fun api_right :: "api_call \<Rightarrow> u32" where
  "api_right (MsgSend _ _ _) = TRT_RIGHT_WRITE"
| "api_right (MsgSendFront _ _ _) = TRT_RIGHT_WRITE"
| "api_right (MsgSendIsr _ _) = TRT_RIGHT_WRITE"
| "api_right (TimerStartTicks _ _) = TRT_RIGHT_WRITE"
| "api_right (SemWaitTimeout _) = TRT_RIGHT_WAIT"
| "api_right (MutexLockTimeout _) = TRT_RIGHT_WAIT"
| "api_right c =
     (if c \<in> {SemDestroy, MutexDestroy, MsgDestroy, TimerDestroy, TaskDelete} then TRT_RIGHT_DESTROY
      else if c \<in> {SemPost, SemPostIsr, MutexUnlock} then TRT_RIGHT_POST
      else if c \<in> {SemWait, SemTrywait, MutexTrylock, MutexLock} then TRT_RIGHT_WAIT
      else if c \<in> {MsgIsFull, TimerStop} then TRT_RIGHT_WRITE else TRT_RIGHT_READ)"

fun api_refusal :: "api_call \<Rightarrow> err_t \<Rightarrow> answer" where
  "api_refusal (TimerStartTicks _ _) e = Void"
| "api_refusal c e =
     (if c = TimerStop then Void else if c \<in> {MsgIsFull, TimerActive} then Flag False
      else if c = MsgIsEmpty then Flag True else if c = MsgCount then Count 0 else Code e)"

text \<open>A handle grants a call if it is open with the type and the right the call asks for.\<close>

definition grants :: "trt_handle_t \<Rightarrow> api_call \<Rightarrow> 'z sys_scheme \<Rightarrow> bool" where
  "grants h c s \<longleftrightarrow> (case open_handles s h of
     None \<Rightarrow> False | Some (p, ty, r) \<Rightarrow> ty = api_type c \<and> r AND api_right c = api_right c)"

lemma lookup_refused:
  assumes "\<not> grants h c s"
  shows "sys_handle_lookup h (api_type c) (api_right c) s =
    (Inl (case open_handles s h of Some (p, ty, r) \<Rightarrow> if ty = api_type c then ERR_PERM else ERR_INVAL
        | None \<Rightarrow> ERR_INVAL),
     s\<lparr>sys_handles := handle_table_init_locked (sys_handles s)\<rparr>)"
proof -
  have "api_type c \<noteq> TRT_OBJ_ANY" by (cases c) simp_all
  then show ?thesis
    using assms by (auto simp: sys_handle_lookup_def lookup_spec grants_def split: option.splits)
qed

text \<open>C23. The calls are typed.  A call on a handle that is not open with the type and the right the call
  asks for, one of another kind of object, a closed or a forged one, is refused: with
  \<^verbatim>\<open>ERR_PERM\<close> when only the right is missing and \<^verbatim>\<open>ERR_INVAL\<close> otherwise, or, where the call has no
  error code, with the answer of an absent object.  Nothing of the kernel changes but the one-time
  set-up of the handle table.\<close>

theorem api_calls_typed:
  assumes "\<not> grants h c s" and "api_right c = TRT_RIGHT_DESTROY \<Longrightarrow> \<not> arch_in_isr s"
  shows "call_api y c h s =
    Some (api_refusal c (case open_handles s h of
            Some (p, ty, r) \<Rightarrow> if ty = api_type c then ERR_PERM else ERR_INVAL | None \<Rightarrow> ERR_INVAL),
      s\<lparr>sys_handles := handle_table_init_locked (sys_handles s)\<rparr>)"
proof -
  note l = lookup_refused [OF assms(1)]
  note d = with_object_def code_def sem_lookup_def mutex_lookup_def msg_q_lookup_def timer_lookup_def task_lookup_def
    trt_sem_destroy_def trt_sem_post_def trt_sem_post_from_isr_def trt_sem_wait_def trt_sem_wait_timeout_def
    trt_sem_trywait_def trt_mutex_destroy_def trt_mutex_trylock_def trt_mutex_lock_def
    trt_mutex_lock_timeout_def trt_mutex_unlock_def trt_msg_q_destroy_def trt_msg_q_send_def
    trt_msg_q_send_front_def trt_msg_q_recv_def trt_msg_q_peek_def trt_msg_q_send_from_isr_def
    trt_msg_q_recv_from_isr_def trt_msg_q_peek_from_isr_def trt_msg_q_is_full_def trt_msg_q_is_empty_def
    trt_msg_q_count_def timer_start_ticks_def trt_timer_stop_def trt_timer_destroy_def trt_timer_active_def
    task_delete_def
  show ?thesis using l assms(2) by (cases c) (simp_all add: d)
qed

lemma api_calls_typed_witness:
  "\<exists>h (s :: sys). open_handles s h = Some (0x1000, TRT_OBJ_SEM, 7) \<and>
     map_option fst (call_api Some MutexLock h s) = Some (Code ERR_INVAL) \<and>
     map_option fst (call_api Some SemDestroy h s) = Some (Code ERR_PERM) \<and>
     map_option fst (call_api Some MsgIsEmpty h s) = Some (Flag True)"
proof -
  obtain h t where t: "live_handles t h = Some (0x1000, TRT_OBJ_SEM, 7)" using demo_handles_alloc by blast
  let ?s = "blank_sys\<lparr>sys_handles := t\<rparr>"
  have o: "open_handles ?s h = Some (0x1000, TRT_OBJ_SEM, 7)" using t by simp
  have g: "\<not> grants h MutexLock ?s" "\<not> grants h SemDestroy ?s" "\<not> grants h MsgIsEmpty ?s" and i: "\<not> arch_in_isr ?s"
    using o by (simp_all add: grants_def TRT_RIGHT_DESTROY_def arch_in_isr_def blank_sys_def)
  have r: "api_right MutexLock \<noteq> TRT_RIGHT_DESTROY" "api_right MsgIsEmpty \<noteq> TRT_RIGHT_DESTROY"
    by (simp_all add: TRT_RIGHT_DESTROY_def TRT_RIGHT_WAIT_def TRT_RIGHT_READ_def)
  have "call_api Some MutexLock h ?s = Some (Code ERR_INVAL, ?s\<lparr>sys_handles := handle_table_init_locked t\<rparr>)"
    using api_calls_typed [where y = Some, OF g(1)] i o by simp
  moreover have "call_api Some SemDestroy h ?s = Some (Code ERR_PERM, ?s\<lparr>sys_handles := handle_table_init_locked t\<rparr>)"
    using api_calls_typed [where y = Some, OF g(2)] i o by simp
  moreover have "call_api Some MsgIsEmpty h ?s = Some (Flag True, ?s\<lparr>sys_handles := handle_table_init_locked t\<rparr>)"
    using api_calls_typed [where y = Some, OF g(3)] i o by simp
  ultimately show ?thesis using o by (intro exI [of _ h] exI [of _ ?s]) simp
qed

subsection \<open>The calls for interrupt handlers\<close>

definition same_but_pending :: "'z kstate_scheme \<Rightarrow> 'z kstate_scheme \<Rightarrow> bool" where
  "same_but_pending s s' \<longleftrightarrow> s' = s\<lparr>resched_pending := resched_pending s'\<rparr> \<and> (resched_pending s \<longrightarrow> resched_pending s')"

lemma same_but_pending_simps [simp]:
  "same_but_pending s s" "same_but_pending s (sched_set_pending s)"
  by (simp_all add: same_but_pending_def sched_set_pending_def)

lemma wake_from_isr:
  assumes "arch_in_isr s"
  shows "same_but_pending (snd (trt_wait_q_wake_one_locked w s)) (snd (trt_wait_q_wake_one_from_isr w s))"
    and "fst (trt_wait_q_wake_one_from_isr w s) = fst (trt_wait_q_wake_one_locked w s)"
  using assms by (simp_all add: trt_wait_q_wake_one_from_isr_def case_prod_beta Let_def)

text \<open>C24. The variants for interrupt handlers are equivalent to the calls for tasks.  In an interrupt
  handler the post of a semaphore, and the sending, receiving and peeking with a zero timeout, which never
  yield, have the same error code and leave the same state as their \<^verbatim>\<open>_from_isr\<close> variants, which
  in addition may ask for a reschedule at the end of the trap.\<close>

theorem isr_variants_equivalent:
  assumes "arch_in_isr s"
  shows "(fst (sem_post_from_isr_obj p s) = fst (sem_post_obj p s) \<and>
      same_but_pending (snd (sem_post_obj p s)) (snd (sem_post_from_isr_obj p s))) \<and>
    (\<exists>e s'. msg_q_send_obj y p data n 0 s = Some (e, s') \<and> fst (msg_q_send_from_isr_obj p data n s) = e \<and>
      same_but_pending s' (snd (msg_q_send_from_isr_obj p data n s))) \<and>
    (\<exists>e s'. msg_q_recv_obj y p buf 0 s = Some (e, s') \<and> fst (msg_q_recv_from_isr_obj p buf s) = e \<and>
      same_but_pending s' (snd (msg_q_recv_from_isr_obj p buf s))) \<and>
    (\<exists>e s'. msg_q_peek_obj y p buf 0 s = Some (e, s') \<and> fst (msg_q_peek_from_isr_obj p buf s) = e \<and>
      same_but_pending s' (snd (msg_q_peek_from_isr_obj p buf s)))"
proof -
  have i: "arch_in_isr (msg_q_put_back p data n s)" "arch_in_isr (msg_q_take p buf s)" "arch_in_isr (msg_q_read p buf s)"
    using assms by (simp_all add: arch_in_isr_def msg_q_put_back_def msg_q_take_def msg_q_read_def msg_q_copy_def
        msg_q_zero_def Let_def)
  have 1: "fst (sem_post_from_isr_obj p s) = fst (sem_post_obj p s) \<and>
      same_but_pending (snd (sem_post_obj p s)) (snd (sem_post_from_isr_obj p s))"
    using assms wake_from_isr [OF assms] by (simp add: sem_post_from_isr_obj_def sem_post_obj_def)
  have 2: "\<exists>e s'. msg_q_send_obj y p data n 0 s = Some (e, s') \<and> fst (msg_q_send_from_isr_obj p data n s) = e \<and>
      same_but_pending s' (snd (msg_q_send_from_isr_obj p data n s))"
    using assms wake_from_isr [OF i(1)]
    by (subst msg_q_send_obj_def, subst msg_q_send_loop.simps) (simp add: msg_q_send_from_isr_obj_def msg_q_block_def)
  have 3: "\<exists>e s'. msg_q_recv_obj y p buf 0 s = Some (e, s') \<and> fst (msg_q_recv_from_isr_obj p buf s) = e \<and>
      same_but_pending s' (snd (msg_q_recv_from_isr_obj p buf s))"
    using assms wake_from_isr [OF i(2)]
    by (subst msg_q_recv_obj_def, subst msg_q_recv_loop.simps) (simp add: msg_q_recv_from_isr_obj_def msg_q_block_def)
  have 4: "\<exists>e s'. msg_q_peek_obj y p buf 0 s = Some (e, s') \<and> fst (msg_q_peek_from_isr_obj p buf s) = e \<and>
      same_but_pending s' (snd (msg_q_peek_from_isr_obj p buf s))"
    using assms wake_from_isr [OF i(3)]
    by (subst msg_q_peek_obj_def, subst msg_q_peek_loop.simps) (simp add: msg_q_peek_from_isr_obj_def msg_q_block_def)
  from 1 2 3 4 show ?thesis by blast
qed

lemma isr_variants_equivalent_witness:
  "\<exists>e s'. msg_q_send_obj (\<lambda>_. None) 0x700 0x9000 4 0 (enter_trap demo_s) = Some (e, s') \<and>
     fst (msg_q_send_from_isr_obj 0x700 0x9000 4 (enter_trap demo_s)) = e"
proof -
  have "trap_nesting (demo_run blank_sys) = 0" by (rule demo_run_more(2))
  then have "trap_nesting demo_s = 0" by (simp add: demo_s_def mq_init_def mutex_init_obj_def sem_init_obj_def trt_wait_q_init_def)
  then have "arch_in_isr (enter_trap demo_s)" by (simp add: arch_in_isr_def enter_trap_def)
  from isr_variants_equivalent [OF this] show ?thesis by blast
qed

end
