(* ===== verification/DeviceProps.thy ===== *)
theory DeviceProps
  imports Devices ApiProps
begin

unbundle bit_operations_syntax

text \<open>
  The properties of the register accesses, for any device whose configuration registers behave as the
  manual of the chip says: they hold what was last written to them, except that a register under a
  write protection takes a value only while its protection register holds the key.
\<close>

subsection \<open>Configuration registers\<close>

text \<open>
  \<open>peek\<close> is the contents of the registers in a state of the device, \<open>A\<close> a set of configuration
  registers, \<open>G\<close> the protection register and the key of those that have one.
\<close>

definition unlocked :: "('d \<Rightarrow> ptr \<Rightarrow> u32) \<Rightarrow> (ptr \<Rightarrow> (ptr \<times> u32) option) \<Rightarrow> ptr \<Rightarrow> 'd \<Rightarrow> bool" where
  "unlocked peek G a d \<longleftrightarrow> (case G a of None \<Rightarrow> True | Some (k, key) \<Rightarrow> peek d k = key)"

definition config_regs ::
    "'d device \<Rightarrow> ('d \<Rightarrow> ptr \<Rightarrow> u32) \<Rightarrow> ptr set \<Rightarrow> (ptr \<Rightarrow> (ptr \<times> u32) option) \<Rightarrow> bool" where
  "config_regs v peek A G \<longleftrightarrow>
     (\<forall>a d. \<forall>b\<in>A. peek (snd (rd v a d)) b = peek d b) \<and>
     (\<forall>a\<in>A. \<forall>d. fst (rd v a d) = peek d a) \<and>
     (\<forall>a w d. \<forall>b\<in>A. peek (wr v a w d) b = (if b = a \<and> unlocked peek G a d then w else peek d b)) \<and>
     (\<forall>a\<in>A. \<forall>k key. G a = Some (k, key) \<longrightarrow> k \<in> A)"

lemma run_seq:
  "snd (run_state (m \<bind> (\<lambda>_. n)) d) = snd (run_state n (snd (run_state m d)))"
  by (simp add: case_prod_beta)

lemma run_read: "run_state (REG_READ v a) d = rd v a d"
  by (simp add: REG_READ_def)

lemma peek_ops:
  assumes "config_regs v peek A G" and "b \<in> A"
  shows "peek (snd (rd v a d)) b = peek d b"
    and "peek (wr v a w d) b = (if b = a \<and> unlocked peek G a d then w else peek d b)"
    and "peek (snd (run_state (REG_WRITE v a w) d)) b = (if b = a \<and> unlocked peek G a d then w else peek d b)"
    and "peek (snd (run_state (reg_touch v a) d)) b = peek d b"
    and "peek (snd (run_state (reg_set_mask v a m) d)) b =
      (if b = a \<and> unlocked peek G a d then peek d a OR m else peek d b)"
    and "peek (snd (run_state (reg_clear_mask v a m) d)) b =
      (if b = a \<and> unlocked peek G a d then peek d a AND NOT m else peek d b)"
    and "peek (snd (run_state (REG_SET_BIT v a n) d)) b =
      (if b = a \<and> unlocked peek G a d then peek d a OR push_bit n 1 else peek d b)"
proof -
  have rd: "peek (snd (rd v a d)) c = peek d c" if "c \<in> A" for a d c
    using assms(1) that unfolding config_regs_def by blast
  have rv: "fst (rd v c d) = peek d c" if "c \<in> A" for d c
    using assms(1) that unfolding config_regs_def by blast
  have wr: "peek (wr v a w d) c = (if c = a \<and> unlocked peek G a d then w else peek d c)" if "c \<in> A" for a w d c
    using assms(1) that unfolding config_regs_def by blast
  have un: "unlocked peek G b (snd (rd v a d)) = unlocked peek G b d" for a d
  proof (cases "G b")
    case (Some p)
    obtain k key where p: "p = (k, key)" by fastforce
    then have "k \<in> A" using Some assms unfolding config_regs_def by blast
    then show ?thesis by (simp add: unlocked_def Some p rd)
  qed (simp add: unlocked_def)
  show "peek (snd (rd v a d)) b = peek d b" by (rule rd [OF assms(2)])
  show "peek (wr v a w d) b = (if b = a \<and> unlocked peek G a d then w else peek d b)" by (rule wr [OF assms(2)])
  then show "peek (snd (run_state (REG_WRITE v a w) d)) b = (if b = a \<and> unlocked peek G a d then w else peek d b)"
    by (simp add: REG_WRITE_def)
  show "peek (snd (run_state (reg_touch v a) d)) b = peek d b"
    by (simp add: reg_touch_def REG_READ_def case_prod_beta rd [OF assms(2)])
  have modify: "peek (snd (run_state (do { x \<leftarrow> REG_READ v a; REG_WRITE v a (f x) }) d)) b =
      (if b = a \<and> unlocked peek G a d then f (peek d a) else peek d b)" for f
    using assms(2) un rv [of a d]
    by (cases "b = a") (simp_all add: REG_READ_def REG_WRITE_def case_prod_beta wr rd)
  show set_mask: "peek (snd (run_state (reg_set_mask v a m) d)) b =
      (if b = a \<and> unlocked peek G a d then peek d a OR m else peek d b)" for m
    unfolding reg_set_mask_def by (rule modify)
  show "peek (snd (run_state (reg_clear_mask v a m) d)) b =
      (if b = a \<and> unlocked peek G a d then peek d a AND NOT m else peek d b)"
    unfolding reg_clear_mask_def by (rule modify)
  show "peek (snd (run_state (REG_SET_BIT v a n) d)) b =
      (if b = a \<and> unlocked peek G a d then peek d a OR push_bit n 1 else peek d b)"
    unfolding REG_SET_BIT_def by (rule set_mask)
qed

lemmas addresses =
  SYSTIMER_def REG_def DR_REG_SYSTIMER_BASE_def DR_REG_INTERRUPT_BASE_def C3_SYSTEM_def C3_RTCCNTL_def
  C3_TIMERGROUP0_def C3_TIMERGROUP1_def C3_GPIO_def C3_IO_MUX_def
  INTERRUPT_CORE0_CPU_INT_ENABLE_REG_def INTERRUPT_CORE0_CPU_INT_TYPE_REG_def
  INTERRUPT_CORE0_CPU_INT_CLEAR_REG_def INTERRUPT_CORE0_CPU_INT_THRESH_REG_def INTC_INT_PRIO_REG_def
  SYSTEM_PERIP_CLK_EN0_IDX_def SYSTEM_PERIP_RST_EN0_IDX_def

subsection \<open>Watchdogs\<close>

text \<open>The watchdog registers and their write protection.\<close>

definition wdt_regs :: "ptr set" where
  "wdt_regs = {REG C3_RTCCNTL 36, REG C3_RTCCNTL 42, REG C3_RTCCNTL 43, REG C3_RTCCNTL 44,
     REG C3_TIMERGROUP0 18, REG C3_TIMERGROUP0 41, REG C3_TIMERGROUP1 18, REG C3_TIMERGROUP1 41}"

definition wdt_guard :: "ptr \<Rightarrow> (ptr \<times> u32) option" where
  "wdt_guard = [REG C3_RTCCNTL 36 \<mapsto> (REG C3_RTCCNTL 42, 0x50D83AA1),
     REG C3_RTCCNTL 43 \<mapsto> (REG C3_RTCCNTL 44, 0x8F1D312A),
     REG C3_TIMERGROUP0 18 \<mapsto> (REG C3_TIMERGROUP0 41, 0x50D83AA1),
     REG C3_TIMERGROUP1 18 \<mapsto> (REG C3_TIMERGROUP1 41, 0x50D83AA1)]"

text \<open>\<^verbatim>\<open>wdt_disable\<close> turns every watchdog off although their registers are write protected, in whatever
  state it finds the protection: it writes each key before the register it protects.  The timer groups are locked again, the
  watchdogs of the RTC are not; the other bits of the super watchdog's register are kept.\<close>

theorem wdt_disabled:
  fixes v :: "'d device" and d :: 'd
  assumes "config_regs v peek wdt_regs wdt_guard"
  defines "d' \<equiv> snd (run_state (wdt_disable v) d)"
  shows "peek d' (REG C3_RTCCNTL 36) = 0 \<and> peek d' (REG C3_TIMERGROUP0 18) = 0 \<and>
    peek d' (REG C3_TIMERGROUP1 18) = 0 \<and>
    peek d' (REG C3_RTCCNTL 43) = peek d (REG C3_RTCCNTL 43) OR BIT 31 \<and>
    \<not> unlocked peek wdt_guard (REG C3_TIMERGROUP0 18) d' \<and> \<not> unlocked peek wdt_guard (REG C3_TIMERGROUP1 18) d' \<and>
    unlocked peek wdt_guard (REG C3_RTCCNTL 36) d' \<and> unlocked peek wdt_guard (REG C3_RTCCNTL 43) d'"
proof -
  note p = peek_ops [OF assms(1)]
  have m: "a \<in> wdt_regs" if "a \<in> {0x60008090, 0x600080A8, 0x600080AC, 0x600080B0, 0x6001F048, 0x6001F0A4, 0x60020048, 0x600200A4}" for a
    using that by (auto simp: wdt_regs_def addresses)
  show ?thesis
    unfolding d'_def wdt_disable_def run_seq
    by (simp add: p m wdt_guard_def unlocked_def addresses)
qed

text \<open>A memory with write protection is such a device.\<close>

definition memory_device :: "(ptr \<Rightarrow> (ptr \<times> u32) option) \<Rightarrow> (ptr \<Rightarrow> u32) device" where
  "memory_device G = \<lparr>rd = (\<lambda>a d. (d a, d)),
     wr = (\<lambda>a w d. if unlocked (\<lambda>d. d) G a d then d(a := w) else d)\<rparr>"

lemma memory_device_config:
  assumes "\<forall>a\<in>A. \<forall>k key. G a = Some (k, key) \<longrightarrow> k \<in> A"
  shows "config_regs (memory_device G) (\<lambda>d. d) A G"
  using assms by (auto simp: config_regs_def memory_device_def)

lemma wdt_disabled_witness:
  "snd (run_state (wdt_disable (memory_device wdt_guard)) (\<lambda>_. 0x7fffffff)) (REG C3_RTCCNTL 43) = 0xffffffff \<and>
   snd (run_state (wdt_disable (memory_device wdt_guard)) (\<lambda>_. 0x7fffffff)) (REG C3_RTCCNTL 36) = 0"
proof -
  have "config_regs (memory_device wdt_guard) (\<lambda>d. d) wdt_regs wdt_guard"
    by (rule memory_device_config) (simp add: wdt_guard_def wdt_regs_def addresses)
  note w = wdt_disabled [OF this, of "\<lambda>_. 0x7fffffff"]
  define D where "D = snd (run_state (wdt_disable (memory_device wdt_guard)) (\<lambda>_. 0x7fffffff))"
  have "D (REG C3_RTCCNTL 43) = 0x7fffffff OR BIT 31" "D (REG C3_RTCCNTL 36) = 0"
    using w [folded D_def] by blast+
  then show ?thesis by (simp add: BIT_def flip: D_def)
qed

subsection \<open>Programming the tick\<close>

definition tick_regs :: "ptr set" where
  "tick_regs = {INTERRUPT_CORE0_CPU_INT_ENABLE_REG, INTERRUPT_CORE0_CPU_INT_TYPE_REG,
     INTERRUPT_CORE0_CPU_INT_THRESH_REG, INTC_INT_PRIO_REG 1,
     DR_REG_INTERRUPT_BASE + 4 * of_nat ETS_SYSTIMER_TARGET0_INTR_SOURCE,
     REG C3_SYSTEM SYSTEM_PERIP_CLK_EN0_IDX, REG C3_SYSTEM SYSTEM_PERIP_RST_EN0_IDX,
     SYSTIMER CONF, SYSTIMER TARGET0_CONF, SYSTIMER INT_ENA}"

lemma tick_regs_mem:
  assumes "a \<in> {0x600c2104, 0x600c2108, 0x600c2194, 0x600c2118, 0x600c2094, 0x600c0010, 0x600c0018, 0x60023000, 0x60023034, 0x60023064}"
  shows "a \<in> tick_regs"
  using assms by (auto simp: tick_regs_def addresses ETS_SYSTIMER_TARGET0_INTR_SOURCE_def)

lemma first_line: "cpu_alloc_interrupt (s\<lparr>cpu_int_allocated := 0\<rparr>) = (1, s\<lparr>cpu_int_allocated := 2\<rparr>)"
  by (simp add: cpu_alloc_interrupt_def upt_rec)

lemma setup_regs:
  assumes "config_regs v peek tick_regs (\<lambda>_. None)"
  defines "d' \<equiv> \<lambda>d. snd (run_state (systimer_setup v) d)"
  shows "peek (d' d) (SYSTIMER TARGET0_CONF) = 16000 OR BIT 30"
    and "peek (d' d) (SYSTIMER CONF) = (peek d (SYSTIMER CONF) AND NOT (BIT 24)) OR (BIT 31 OR BIT 30)"
    and "peek (d' d) (SYSTIMER INT_ENA) = 0"
    and "peek (d' d) INTERRUPT_CORE0_CPU_INT_ENABLE_REG = 0"
proof -
  note p = peek_ops [OF assms(1)] and m = tick_regs_mem
  note u = unlocked_def addresses
  show "peek (d' d) (SYSTIMER TARGET0_CONF) = 16000 OR BIT 30"
    unfolding d'_def systimer_setup_def run_seq
    by (simp add: p m u SYSTIMER_TARGET0_PERIOD_MODE_def TICK_PERIOD_TICKS_def)
  show "peek (d' d) (SYSTIMER CONF) = (peek d (SYSTIMER CONF) AND NOT (BIT 24)) OR (BIT 31 OR BIT 30)"
    unfolding d'_def systimer_setup_def run_seq
    by (simp add: p m u SYSTIMER_TARGET0_WORK_EN_def SYSTIMER_CLK_EN_def SYSTIMER_TIMER_UNIT0_WORK_EN_def)
  show "peek (d' d) (SYSTIMER INT_ENA) = 0" "peek (d' d) INTERRUPT_CORE0_CPU_INT_ENABLE_REG = 0"
    unfolding d'_def systimer_setup_def run_seq by (simp_all add: p m u)
qed

lemma claim_regs:
  assumes "config_regs v peek tick_regs (\<lambda>_. None)"
  defines "d' \<equiv> \<lambda>d. snd (run_state (do { claim_line v 1 1;
      interrupt_intc_route v ETS_SYSTIMER_TARGET0_INTR_SOURCE 1 }) d)"
  shows "peek (d' d) (SYSTIMER TARGET0_CONF) = peek d (SYSTIMER TARGET0_CONF)"
    and "peek (d' d) (SYSTIMER CONF) = peek d (SYSTIMER CONF)"
    and "peek (d' d) (SYSTIMER INT_ENA) = peek d (SYSTIMER INT_ENA)"
    and "peek (d' d) INTERRUPT_CORE0_CPU_INT_ENABLE_REG = peek d INTERRUPT_CORE0_CPU_INT_ENABLE_REG OR BIT 1"
    and "peek (d' d) INTERRUPT_CORE0_CPU_INT_TYPE_REG = peek d INTERRUPT_CORE0_CPU_INT_TYPE_REG AND NOT (BIT 1)"
    and "peek (d' d) INTERRUPT_CORE0_CPU_INT_THRESH_REG = 0"
    and "peek (d' d) (INTC_INT_PRIO_REG 1) = 1"
    and "peek (d' d) (DR_REG_INTERRUPT_BASE + 4 * 37) = 1"
proof -
  note p = peek_ops [OF assms(1)] and m = tick_regs_mem
  note u = unlocked_def addresses ETS_SYSTIMER_TARGET0_INTR_SOURCE_def
  note e = d'_def claim_line_def interrupt_intc_route_def run_seq State_Monad.bind_assoc
  show "peek (d' d) (SYSTIMER TARGET0_CONF) = peek d (SYSTIMER TARGET0_CONF)"
    "peek (d' d) (SYSTIMER CONF) = peek d (SYSTIMER CONF)"
    "peek (d' d) (SYSTIMER INT_ENA) = peek d (SYSTIMER INT_ENA)"
    unfolding e by (simp_all add: p m u)
  show "peek (d' d) INTERRUPT_CORE0_CPU_INT_ENABLE_REG = peek d INTERRUPT_CORE0_CPU_INT_ENABLE_REG OR BIT 1"
    "peek (d' d) INTERRUPT_CORE0_CPU_INT_TYPE_REG = peek d INTERRUPT_CORE0_CPU_INT_TYPE_REG AND NOT (BIT 1)"
    "peek (d' d) INTERRUPT_CORE0_CPU_INT_THRESH_REG = 0" "peek (d' d) (INTC_INT_PRIO_REG 1) = 1"
    "peek (d' d) (DR_REG_INTERRUPT_BASE + 4 * 37) = 1"
    unfolding e by (simp_all add: p m u BIT_def)
qed

lemma start_regs:
  assumes "config_regs v peek tick_regs (\<lambda>_. None)" and "\<not> systimer_started s"
  defines "d' \<equiv> \<lambda>d. snd (systimer_start_io v s d)"
  shows "peek (d' d) (SYSTIMER INT_ENA) = BIT 0"
    and "peek (d' d) (SYSTIMER CONF) = peek d (SYSTIMER CONF) OR (BIT 31 OR BIT 30 OR BIT 24)"
    and "a \<in> tick_regs \<Longrightarrow> a \<notin> {SYSTIMER INT_ENA, SYSTIMER CONF} \<Longrightarrow> peek (d' d) a = peek d a"
proof -
  note p = peek_ops [OF assms(1)] and m = tick_regs_mem
  note u = unlocked_def addresses
  have r: "snd (run_state (do { conf \<leftarrow> REG_READ v a; REG_WRITE v a (conf OR w) }) d) =
      snd (run_state (reg_set_mask v a w) d)" for a w d by (simp add: reg_set_mask_def)
  have e: "d' d = snd (run_state (reg_set_mask v (SYSTIMER CONF)
          (SYSTIMER_CLK_EN OR SYSTIMER_TIMER_UNIT0_WORK_EN OR SYSTIMER_TARGET0_WORK_EN))
      (snd (run_state (reg_touch v (SYSTIMER INT_ST)) (snd (run_state (REG_WRITE v (SYSTIMER INT_CLR) 7)
      (snd (run_state (reg_touch v (SYSTIMER INT_ENA))
      (snd (run_state (REG_WRITE v (SYSTIMER INT_ENA) SYSTIMER_TARGET0_INT_ENA)
      (snd (run_state (reg_touch v (SYSTIMER COMP0_LOAD))
      (snd (run_state (REG_WRITE v (SYSTIMER COMP0_LOAD) SYSTIMER_TIMER_COMP0_LOAD)
      (snd (run_state (reg_touch v (SYSTIMER INT_ST)) (snd (run_state (REG_WRITE v (SYSTIMER INT_CLR) 7) d)))))))))))))))))"
    using assms(2) by (simp only: d'_def systimer_start_io_def run_seq r if_False snd_conv)
  note c = SYSTIMER_CLK_EN_def SYSTIMER_TIMER_UNIT0_WORK_EN_def SYSTIMER_TARGET0_WORK_EN_def SYSTIMER_TARGET0_INT_ENA_def
  show "peek (d' d) (SYSTIMER INT_ENA) = BIT 0"
    "peek (d' d) (SYSTIMER CONF) = peek d (SYSTIMER CONF) OR (BIT 31 OR BIT 30 OR BIT 24)"
    unfolding e c by (simp_all add: p m u)
  show "peek (d' d) a = peek d a" if "a \<in> tick_regs" "a \<notin> {SYSTIMER INT_ENA, SYSTIMER CONF}"
  proof -
    have "a \<noteq> SYSTIMER INT_CLR" "a \<noteq> SYSTIMER COMP0_LOAD"
      using that(1) by (auto simp: tick_regs_def addresses ETS_SYSTIMER_TARGET0_INTR_SOURCE_def)
    then show ?thesis unfolding e using that(2) by (simp add: p [OF that(1)])
  qed
qed

lemma bit_BIT: "bit (BIT i) n \<longleftrightarrow> n < 32 \<and> n = i"
  unfolding BIT_def bit_push_bit_iff using bit_imp_le_length [of "1 :: u32" "n - i"] by (auto simp: bit_1_iff)

text \<open>C14. \<^verbatim>\<open>systimer_init\<close> programs a tick it does not yet arm, whatever an earlier run left in the registers:
  the comparator has the period of a millisecond, clock and counter run, the interrupt source is
  routed to the line the kernel recorded, the only line enabled, with level type, priority 1 and
  threshold 0, but the target and its interrupt are off; of the kernel state it sets the line, the
  handler, the tick count 0 and its flags.  Of the configuration \<^verbatim>\<open>systimer_start\<close> turns just these two on, and it
  notes that it ran.  A second \<^verbatim>\<open>systimer_start\<close> does nothing at all; a second \<^verbatim>\<open>systimer_init\<close>
  leaves the kernel and every configuration register alone, but it writes 7 to \<^verbatim>\<open>INT_CLR\<close> once, which
  drops the flag of a pending tick.\<close>

theorem systimer_programmed:
  fixes v :: "'d device" and s :: "'z sys_scheme" and d :: 'd and env :: board_env
  assumes "config_regs v peek tick_regs (\<lambda>_. None)" and "\<not> systimer_initialized s"
  defines "s1 \<equiv> fst (systimer_init_io v env s d)" and "d1 \<equiv> snd (systimer_init_io v env s d)"
  defines "s2 \<equiv> fst (systimer_start_io v s1 d1)" and "d2 \<equiv> snd (systimer_start_io v s1 d1)"
  shows "peek d1 (SYSTIMER TARGET0_CONF) = 16000 OR BIT 30 \<and>
    peek d1 (SYSTIMER CONF) AND (BIT 24 OR BIT 30 OR BIT 31) = BIT 30 OR BIT 31 \<and> peek d1 (SYSTIMER INT_ENA) = 0 \<and>
    peek d1 (DR_REG_INTERRUPT_BASE + 4 * 37) = 1 \<and>
    peek d1 INTERRUPT_CORE0_CPU_INT_ENABLE_REG = BIT 1 \<and> peek d1 (INTC_INT_PRIO_REG 1) = 1 \<and>
    peek d1 INTERRUPT_CORE0_CPU_INT_THRESH_REG = 0 \<and>
    \<not> bit (peek d1 INTERRUPT_CORE0_CPU_INT_TYPE_REG) 1 \<and>
    s1 = s\<lparr>cpu_int_allocated := BIT 1, systimer_cpu_irq := 1,
      intr_table := (intr_table s)(1 := (intr_table s 1)\<lparr>intr_fn := fn_SysTick_Handler env\<rparr>),
      tick_count := 0, systimer_started := False, systimer_initialized := True\<rparr> \<and>
    peek d2 (SYSTIMER INT_ENA) = BIT 0 \<and> peek d2 (SYSTIMER CONF) = peek d1 (SYSTIMER CONF) OR BIT 24 \<and>
    (\<forall>a\<in>tick_regs. a \<notin> {SYSTIMER INT_ENA, SYSTIMER CONF} \<longrightarrow> peek d2 a = peek d1 a) \<and>
    s2 = s1\<lparr>systimer_started := True\<rparr> \<and>
    systimer_start_io v s2 d2 = (s2, d2) \<and>
    systimer_init_io v env s2 d2 = (s2, wr v (SYSTIMER INT_CLR) 7 d2) \<and>
    (\<forall>a\<in>tick_regs. peek (wr v (SYSTIMER INT_CLR) 7 d2) a = peek d2 a)"
proof -
  have k: "s1 = systimer_init env s" by (simp add: s1_def systimer_init_io_def)
  have s1: "systimer_initialized s1" "\<not> systimer_started s1"
    using assms(2) by (simp_all add: k systimer_init_def first_line Let_def)
  have s1e: "s1 = s\<lparr>cpu_int_allocated := BIT 1, systimer_cpu_irq := 1,
      intr_table := (intr_table s)(1 := (intr_table s 1)\<lparr>intr_fn := fn_SysTick_Handler env\<rparr>),
      tick_count := 0, systimer_started := False, systimer_initialized := True\<rparr>"
    using assms(2) by (simp add: k systimer_init_def first_line Let_def BIT_def)
  have s2e: "s2 = s1\<lparr>systimer_started := True\<rparr>"
    using s1(2) by (simp add: s2_def systimer_start_io_def systimer_start_def)
  then have s2': "systimer_started s2" "systimer_initialized s2" using s1(1) by simp_all
  have e1: "d1 = snd (run_state (do { claim_line v 1 1; interrupt_intc_route v ETS_SYSTIMER_TARGET0_INTR_SOURCE 1 })
      (snd (run_state (systimer_setup v) d)))"
    using assms(2) by (simp add: d1_def systimer_init_io_def first_line Let_def)
  note c = claim_regs [OF assms(1), of "snd (run_state (systimer_setup v) d)", folded e1]
    and st = setup_regs [OF assms(1), of d] and t = start_regs [OF assms(1) s1(2), where d = d1, folded d2_def]
  have conf: "peek d1 (SYSTIMER CONF) = (peek d (SYSTIMER CONF) AND NOT (BIT 24)) OR (BIT 31 OR BIT 30)"
    using c(2) st(2) by simp
  have bits: "((x AND NOT (BIT 24)) OR (BIT 31 OR BIT 30)) AND (BIT 24 OR BIT 30 OR BIT 31) = BIT 30 OR BIT 31"
    "((x AND NOT (BIT 24)) OR (BIT 31 OR BIT 30)) OR (BIT 31 OR BIT 30 OR BIT 24) =
      ((x AND NOT (BIT 24)) OR (BIT 31 OR BIT 30)) OR BIT 24" for x
    by (auto simp: bit_eq_iff bit_and_iff bit_or_iff bit_not_iff bit_BIT)
  have again: "systimer_start_io v s2 d2 = (s2, d2)" "systimer_init_io v env s2 d2 = (s2, wr v (SYSTIMER INT_CLR) 7 d2)"
    using s2' by (simp_all add: systimer_init_io_def systimer_start_io_def systimer_init_def systimer_start_def)
  have keep: "peek (wr v (SYSTIMER INT_CLR) 7 d2) a = peek d2 a" if "a \<in> tick_regs" for a
  proof -
    have "a \<noteq> SYSTIMER INT_CLR"
      using that by (auto simp: tick_regs_def addresses ETS_SYSTIMER_TARGET0_INTR_SOURCE_def)
    then show ?thesis using peek_ops(2) [OF assms(1) that] by simp
  qed
  have a: "peek d1 (SYSTIMER TARGET0_CONF) = 16000 OR BIT 30" "peek d1 (SYSTIMER INT_ENA) = 0"
    "peek d1 INTERRUPT_CORE0_CPU_INT_ENABLE_REG = BIT 1"
    using c(1,3,4) st(1,3,4) by simp_all
  have "\<not> bit (peek d1 INTERRUPT_CORE0_CPU_INT_TYPE_REG) 1" unfolding c(5) by (simp add: bit_simps BIT_def)
  moreover have "peek d1 (SYSTIMER CONF) AND (BIT 24 OR BIT 30 OR BIT 31) = BIT 30 OR BIT 31"
    "peek d2 (SYSTIMER CONF) = peek d1 (SYSTIMER CONF) OR BIT 24"
    unfolding t(2) conf by (rule bits)+
  moreover have "\<forall>a\<in>tick_regs. a \<notin> {SYSTIMER INT_ENA, SYSTIMER CONF} \<longrightarrow> peek d2 a = peek d1 a"
    using t(3) by blast
  ultimately show ?thesis using a s1e s2e c(6-8) t(1) again keep by blast
qed

lemma systimer_programmed_witness:
  "\<exists>d1. d1 = snd (systimer_init_io (memory_device (\<lambda>_. None)) demo_env blank_sys (\<lambda>_. 0xffffffff)) \<and>
     d1 INTERRUPT_CORE0_CPU_INT_ENABLE_REG = BIT 1 \<and> d1 (SYSTIMER INT_ENA) = 0 \<and>
     snd (systimer_start_io (memory_device (\<lambda>_. None)) (systimer_init demo_env blank_sys) d1) (SYSTIMER INT_ENA) = BIT 0"
proof -
  have c: "config_regs (memory_device (\<lambda>_. None)) (\<lambda>d. d) tick_regs (\<lambda>_. None)"
    by (rule memory_device_config) simp
  have n: "\<not> systimer_initialized blank_sys" by (simp add: blank_sys_def)
  note w = systimer_programmed [OF c n, where env = demo_env and d = "\<lambda>_. 0xffffffff"]
  have "fst (systimer_init_io (memory_device (\<lambda>_. None)) demo_env blank_sys (\<lambda>_. 0xffffffff)) = systimer_init demo_env blank_sys"
    by (simp add: systimer_init_io_def)
  with w show ?thesis by (intro exI conjI) (rule refl, blast, blast, metis)
qed

subsection \<open>Reading the counter\<close>

text \<open>
  The documented behaviour of the value registers: they hold the low 32 and the high 20 bits of a snapshot of the
  counter.  Between two accesses an interrupt handler may take a new snapshot, which is later
  but by less than half the range of a word, and \<open>changes\<close> bounds how often that happens.
\<close>

definition snapshots :: "'d device \<Rightarrow> ('d \<Rightarrow> nat) \<Rightarrow> ('d \<Rightarrow> nat) \<Rightarrow> bool" where
  "snapshots v snap changes \<longleftrightarrow>
     (\<forall>d. snap d < 2 ^ 52 \<and> fst (rd v (SYSTIMER UNIT0_VALUE_LO) d) = of_nat (snap d) \<and>
       unat (fst (rd v (SYSTIMER UNIT0_VALUE_HI) d) AND SYSTIMER_TIMER_UNIT0_VALUE_HI) = snap d div 2 ^ 32) \<and>
     (\<forall>a d. snap (snd (rd v a d)) = snap d \<and> changes (snd (rd v a d)) \<le> changes d \<or>
       snap d < snap (snd (rd v a d)) \<and> snap (snd (rd v a d)) < snap d + 2 ^ 31 \<and>
       changes (snd (rd v a d)) < changes d)"

lemma join_words:
  fixes hi lo :: u32
  assumes "unat hi < 2 ^ 20"
  shows "unat (push_bit 32 (ucast hi) OR ucast lo :: u64) = unat hi * 2 ^ 32 + unat lo"
proof -
  have "push_bit 32 (ucast hi) OR ucast lo = (push_bit 32 (ucast hi) + ucast lo :: u64)"
    by (rule disjunctive_add [symmetric]) (auto simp: bit_simps dest: bit_imp_le_length)
  moreover have "unat (push_bit 32 (ucast hi) + ucast lo :: u64) = unat hi * 2 ^ 32 + unat lo"
    using assms unat_u32_less [of lo]
    by (simp add: push_bit_eq_mult unat_word_ariths unsigned_ucast_eq take_bit_nat_eq_self)
  ultimately show ?thesis by simp
qed

lemma read_loop:
  assumes v: "snapshots v snap changes"
  shows "snap d0 \<le> snap d \<Longrightarrow> snap d < snap d0 + 2 ^ 31 \<Longrightarrow> snap d \<noteq> snap d0 \<longrightarrow> changes d < changes d0 \<Longrightarrow>
    changes d \<le> changes d0 \<Longrightarrow>
    \<exists>c d'. systimer_read_loop v (of_nat (snap d0)) d = Some (c, d') \<and> snap d0 \<le> unat c \<and> unat c \<le> snap d'"
proof (induction "changes d0" arbitrary: d0 d rule: less_induct)
  case less
  define d1 where "d1 = snd (rd v (SYSTIMER UNIT0_VALUE_HI) d)"
  define d2 where "d2 = snd (rd v (SYSTIMER UNIT0_VALUE_LO) d1)"
  define hi where "hi = fst (rd v (SYSTIMER UNIT0_VALUE_HI) d) AND SYSTIMER_TIMER_UNIT0_VALUE_HI"
  have hi: "unat hi = snap d div 2 ^ 32" and lo: "fst (rd v (SYSTIMER UNIT0_VALUE_LO) d1) = of_nat (snap d1)"
    and b: "snap d < 2 ^ 52"
    using v by (simp_all add: snapshots_def hi_def)
  have st1: "snap d1 = snap d \<and> changes d1 \<le> changes d \<or>
      snap d < snap d1 \<and> snap d1 < snap d + 2 ^ 31 \<and> changes d1 < changes d"
    using v unfolding snapshots_def d1_def by blast
  have st2: "snap d2 = snap d1 \<and> changes d2 \<le> changes d1 \<or>
      snap d1 < snap d2 \<and> snap d2 < snap d1 + 2 ^ 31 \<and> changes d2 < changes d1"
    using v unfolding snapshots_def d2_def by blast
  have u: "systimer_read_loop v (of_nat (snap d0)) d =
      (if of_nat (snap d1) \<noteq> (of_nat (snap d0) :: u32) then systimer_read_loop v (of_nat (snap d1)) d2
       else Some (push_bit 32 (ucast hi) OR ucast (of_nat (snap d0) :: u32), d2))"
    by (subst systimer_read_loop.simps) (simp add: Let_def lo hi_def flip: d1_def d2_def)
  show ?case
  proof (cases "of_nat (snap d1) = (of_nat (snap d0) :: u32)")
    case False
    then have "snap d1 \<noteq> snap d0" by auto
    then have lt: "changes d1 < changes d0" using less.prems st1 by auto
    have "snap d1 \<le> snap d2" "snap d2 < snap d1 + 2 ^ 31" "snap d2 \<noteq> snap d1 \<longrightarrow> changes d2 < changes d1"
      "changes d2 \<le> changes d1" using st2 by auto
    from less.hyps [OF lt this] obtain c d' where
      "systimer_read_loop v (of_nat (snap d1)) d2 = Some (c, d')" "snap d1 \<le> unat c" "unat c \<le> snap d'" by blast
    moreover have "snap d0 \<le> snap d1" using less.prems(1) st1 by auto
    ultimately show ?thesis using u False by auto
  next
    case True
    then have "snap d1 mod 2 ^ 32 = snap d0 mod 2 ^ 32"
      by (simp add: word_unat_eq_iff unat_of_nat)
    moreover have le: "snap d0 \<le> snap d1" "snap d1 - snap d0 < 2 ^ 32" using less.prems(1,2) st1 by auto
    ultimately have "(snap d1 - snap d0) mod 2 ^ 32 = 0" by (simp add: mod_eq_dvd_iff_nat)
    then have "snap d1 = snap d0" using le by simp
    then have e: "snap d = snap d0" "snap d1 = snap d0" using less.prems(1) st1 by auto
    have "unat hi < 2 ^ 20" using hi b by (simp add: div_less_iff_less_mult)
    from join_words [OF this, of "of_nat (snap d0)"] have
      "unat (push_bit 32 (ucast hi) OR ucast (of_nat (snap d0) :: u32) :: u64) = snap d0"
      by (simp add: hi e unat_of_nat div_mult_mod_eq)
    then show ?thesis using u True st2 e by auto
  qed
qed

text \<open>C13. Reading the 64-bit counter in three accesses is never torn, although an interrupt handler may
  take a new snapshot between any two of them: the loop ends, and the value it joins from the two words lies
  between the snapshot at its start and the one at its end; so the tick count the handler of the system timer
  sets is that time in milliseconds.  Only when no snapshot becomes valid in a million polls is the
  value zero, and the tick count with it.\<close>

theorem systimer_count_consistent:
  fixes v :: "'d device" and s :: "'z sys_scheme"
  assumes "snapshots v snap changes"
  shows "let d0 = snd (run_state (do { REG_WRITE v (SYSTIMER INT_CLR) 7; reg_touch v (SYSTIMER INT_ST) }) d);
      r = run_state (do { reg_set_mask v (SYSTIMER UNIT0_OP) SYSTIMER_TIMER_UNIT0_UPDATE; systimer_wait v 1000000 }) d0
    in \<exists>c d'. systimer_get_count v d0 = Some (c, d') \<and>
      SysTick_Handler_io v s d = Some (s\<lparr>tick_count := of_nat (unat c div 16000)\<rparr>, d') \<and>
      (if fst r then snap (snd r) \<le> unat c \<and> unat c \<le> snap d' else c = 0)"
proof -
  define d0 where "d0 = snd (run_state (do { REG_WRITE v (SYSTIMER INT_CLR) 7; reg_touch v (SYSTIMER INT_ST) }) d)"
  define r where "r = run_state (do { reg_set_mask v (SYSTIMER UNIT0_OP) SYSTIMER_TIMER_UNIT0_UPDATE;
      systimer_wait v 1000000 }) d0"
  have eq: "systimer_get_count v d0 = (if \<not> fst r then Some (0, snd r)
      else let (lo, d2) = rd v (SYSTIMER UNIT0_VALUE_LO) (snd r) in systimer_read_loop v lo d2)"
    unfolding systimer_get_count_def r_def [symmetric] by (simp only: case_prod_beta Let_def)
  have "\<exists>c d'. systimer_get_count v d0 = Some (c, d') \<and>
      (if fst r then snap (snd r) \<le> unat c \<and> unat c \<le> snap d' else c = 0)"
  proof (cases "fst r")
    case False
    then show ?thesis by (simp add: eq)
  next
    case True
    let ?d = "snd (rd v (SYSTIMER UNIT0_VALUE_LO) (snd r))"
    have "fst (rd v (SYSTIMER UNIT0_VALUE_LO) (snd r)) = of_nat (snap (snd r))"
      using assms unfolding snapshots_def by blast
    then have e: "systimer_get_count v d0 = systimer_read_loop v (of_nat (snap (snd r))) ?d"
      using True by (simp add: eq case_prod_beta)
    have "snap ?d = snap (snd r) \<and> changes ?d \<le> changes (snd r) \<or>
        snap (snd r) < snap ?d \<and> snap ?d < snap (snd r) + 2 ^ 31 \<and> changes ?d < changes (snd r)"
      using assms unfolding snapshots_def by blast
    then have "snap (snd r) \<le> snap ?d" "snap ?d < snap (snd r) + 2 ^ 31"
      "snap ?d \<noteq> snap (snd r) \<longrightarrow> changes ?d < changes (snd r)" "changes ?d \<le> changes (snd r)" by auto
    from read_loop [OF assms this] show ?thesis using True e by simp
  qed
  then obtain c d' where c: "systimer_get_count v d0 = Some (c, d')"
    "if fst r then snap (snd r) \<le> unat c \<and> unat c \<le> snap d' else c = 0" by blast
  have "SysTick_Handler_io v s d = Some (SysTick_Handler c s, d')"
    unfolding SysTick_Handler_io_def d0_def [symmetric] using c(1) by simp
  moreover have "SysTick_Handler c s = s\<lparr>tick_count := of_nat (unat c div 16000)\<rparr>"
  proof -
    have "unat (c div TICK_PERIOD_TICKS) = unat c div 16000"
      by (simp add: unat_div TICK_PERIOD_TICKS_def)
    then have "ucast (c div TICK_PERIOD_TICKS) = (of_nat (unat c div 16000) :: u32)"
      by (metis of_nat_unat)
    then show ?thesis by (simp add: SysTick_Handler_def systimer_get_tick_def)
  qed
  ultimately show ?thesis using c unfolding Let_def d0_def [symmetric] r_def [symmetric] by auto
qed

text \<open>
  A counter device: the state is the snapshot and the number of times it will still change; every
  access but a write lets a handler take a snapshot five later as long as there are any left.
\<close>

definition counter_device :: "(nat \<times> nat) device" where
  "counter_device = \<lparr>
     rd = (\<lambda>a (n, k).
       (if a = SYSTIMER UNIT0_VALUE_LO then of_nat (n mod 2 ^ 52)
        else if a = SYSTIMER UNIT0_VALUE_HI then of_nat (n mod 2 ^ 52 div 2 ^ 32)
        else if a = SYSTIMER UNIT0_OP then BIT 29 else 0,
        if k = 0 \<or> n \<ge> 2 ^ 51 then (n, k) else (n + 5, k - 1))),
     wr = (\<lambda>a w d. d)\<rparr>"

lemma counter_device_snapshots:
  "snapshots counter_device (\<lambda>(n, k). n mod 2 ^ 52) (\<lambda>(n, k). k)"
proof -
  have hi: "unat (of_nat (m div 2 ^ 32) AND SYSTIMER_TIMER_UNIT0_VALUE_HI :: u32) = m div 2 ^ 32"
    if "m < 2 ^ 52" for m :: nat
  proof -
    have m: "(0xFFFFF :: u32) = mask 20" by (simp add: mask_eq_exp_minus_1)
    have "m div 2 ^ 32 < 2 ^ 20" using that by (simp add: div_less_iff_less_mult)
    then show ?thesis
      unfolding SYSTIMER_TIMER_UNIT0_VALUE_HI_def m
      by (simp add: unsigned_take_bit_eq unat_of_nat take_bit_nat_eq_self flip: take_bit_eq_mask)
  qed
  have ne: "SYSTIMER UNIT0_VALUE_HI \<noteq> SYSTIMER UNIT0_VALUE_LO" by (simp add: addresses)
  show ?thesis
    unfolding snapshots_def
  proof (intro conjI allI)
    fix d :: "nat \<times> nat" and a :: ptr
    obtain n k where d: "d = (n, k)" by fastforce
    show "(case d of (n, k) \<Rightarrow> n mod 2 ^ 52) < (2 :: nat) ^ 52" by (simp add: d)
    show "fst (rd counter_device (SYSTIMER UNIT0_VALUE_LO) d) = of_nat (case d of (n, k) \<Rightarrow> n mod 2 ^ 52)"
      by (simp add: d counter_device_def)
    show "unat (fst (rd counter_device (SYSTIMER UNIT0_VALUE_HI) d) AND SYSTIMER_TIMER_UNIT0_VALUE_HI) =
        (case d of (n, k) \<Rightarrow> n mod 2 ^ 52) div 2 ^ 32"
      using hi [of "n mod 2 ^ 52"] ne by (simp add: d counter_device_def)
    show "(case snd (rd counter_device a d) of (n, k) \<Rightarrow> n mod 2 ^ 52) = (case d of (n, k) \<Rightarrow> n mod 2 ^ 52) \<and>
        (case snd (rd counter_device a d) of (n, k) \<Rightarrow> k) \<le> (case d of (n, k) \<Rightarrow> k) \<or>
      (case d of (n, k) \<Rightarrow> n mod 2 ^ 52) < (case snd (rd counter_device a d) of (n, k) \<Rightarrow> n mod 2 ^ 52) \<and>
        (case snd (rd counter_device a d) of (n, k) \<Rightarrow> n mod 2 ^ 52) < (case d of (n, k) \<Rightarrow> n mod 2 ^ 52) + 2 ^ 31 \<and>
        (case snd (rd counter_device a d) of (n, k) \<Rightarrow> k) < (case d of (n, k) \<Rightarrow> k)"
      by (cases "k = 0 \<or> n \<ge> 2 ^ 51") (simp_all add: d counter_device_def)
  qed
qed

lemma systimer_count_consistent_witness:
  "\<exists>c d'. SysTick_Handler_io counter_device blank_sys (320000, 2) =
      Some (blank_sys\<lparr>tick_count := of_nat (unat c div 16000)\<rparr>, d') \<and> 320010 \<le> unat (c :: u64)"
proof -
  let ?v = "counter_device"
  let ?d0 = "snd (run_state (do { REG_WRITE ?v (SYSTIMER INT_CLR) 7; reg_touch ?v (SYSTIMER INT_ST) }) (320000, 2))"
  let ?r = "run_state (do { reg_set_mask ?v (SYSTIMER UNIT0_OP) SYSTIMER_TIMER_UNIT0_UPDATE; systimer_wait ?v 1000000 }) ?d0"
  have d0: "?d0 = (320005, 1)"
    by (simp add: REG_WRITE_def reg_touch_def REG_READ_def counter_device_def addresses)
  have u: "snd (run_state (reg_set_mask ?v (SYSTIMER UNIT0_OP) SYSTIMER_TIMER_UNIT0_UPDATE) (320005, 1)) = (320010, 0)"
    by (simp add: REG_WRITE_def reg_set_mask_def REG_READ_def counter_device_def addresses)
  have n: "(1000000 :: nat) = Suc 999999" by simp
  have "run_state (systimer_wait ?v (Suc n)) (320010, 0) = (True, (320010, 0))" for n
    by (simp add: REG_READ_def counter_device_def addresses SYSTIMER_TIMER_UNIT0_VALUE_VALID_def BIT_def)
  then have w: "run_state (systimer_wait ?v 1000000) (320010, 0) = (True, (320010, 0))" unfolding n .
  have r: "?r = (True, (320010, 0))"
    unfolding d0 using w u by (simp only: run_state_bind case_prod_beta)
  show ?thesis
    using systimer_count_consistent [OF counter_device_snapshots, of "(320000, 2)" blank_sys]
    unfolding Let_def r by auto
qed

subsection \<open>Pins\<close>

lemma gpio_write_pin:
  assumes "config_regs v peek {REG C3_GPIO 1} (\<lambda>_. None)" and "pin < 32"
  shows "bit (peek (snd (run_state (gpio_write v pin val) d)) (REG C3_GPIO 1)) i \<longleftrightarrow>
    (if i = pin then val \<noteq> 0 else bit (peek d (REG C3_GPIO 1)) i)"
proof -
  note p = peek_ops [OF assms(1) singletonI]
  have "peek (snd (run_state (gpio_write v pin val) d)) (REG C3_GPIO 1) =
      (peek d (REG C3_GPIO 1) AND NOT (BIT pin)) OR push_bit pin (if val \<noteq> 0 then 1 else 0)"
    unfolding gpio_write_def run_seq by (simp only: p unlocked_def option.case simp_thms if_True)
  also have "push_bit pin (if val \<noteq> 0 then 1 else 0) = (if val \<noteq> 0 then BIT pin else 0)"
    by (simp add: BIT_def)
  finally show ?thesis
    using assms(2) bit_imp_le_length [of "peek d (REG C3_GPIO 1)" i]
    by (auto simp: bit_and_iff bit_or_iff bit_not_iff bit_BIT)
qed

end
