(* ===== verification/AppProps.thy ===== *)
theory AppProps
  imports App ContextProps SleepProps DeviceProps
begin

unbundle bit_operations_syntax

text \<open>
  From the reset vector to the application: the properties of the boot code, the kernel start, the
  task frames and the timer registers put together for the program as it is built.
\<close>

subsection \<open>Control registers a sequence leaves alone\<close>

fun csr_written :: "instr \<Rightarrow> csr set" where
  "csr_written (CSRW c _) = {c}"
| "csr_written (CSRS c _) = {c}"
| "csr_written (CSRSI c _) = {c}"
| "csr_written (CSRCI c _) = {c}"
| "csr_written MRET = {Mstatus}"
| "csr_written _ = {}"

lemma exec_keeps_csr: "c \<notin> csr_written i \<Longrightarrow> csrs (exec i M) c = csrs M c"
  by (cases i) simp_all

lemma run_keeps_csr: "\<forall>i\<in>set cs. c \<notin> csr_written i \<Longrightarrow> csrs (run cs M) c = csrs M c"
  by (induction cs arbitrary: M) (simp_all add: exec_keeps_csr)

lemma first_task_code_mtvec: "csrs (run (task_start_first_code isr_top sched off) M) Mtvec = csrs M Mtvec"
  by (rule run_keeps_csr) (auto simp: task_start_first_code_def restore_context_def restore_regs_def)

subsection \<open>The first task of the application\<close>

lemma task_create_ok:
  assumes k: "kinv T W s" and r: "res_ok s" and o: "owns T s" and n: "task_count s < RTOS_TASK_MAX"
    and a: "task_args_ok entry bytes pr"
    and c: "task_create y env name entry arg bytes pr s = Some (h, s')" and h: "h \<noteq> TRT_HANDLE_INVALID"
  shows "\<exists>t sp stack f. t \<notin> T \<and> t \<noteq> 0 \<and> kinv (insert t T) W s' \<and> current_task s' = current_task s \<and> idle_task s' = idle_task s \<and>
    lock_count s' = lock_count s \<and> tasks s' = (tasks s)(t := (new_task name sp stack (task_round bytes) entry arg pr)\<lparr>task_handle := h\<rparr>) \<and>
    arch_task_init_frame env stack (task_round bytes) entry arg f = (sp, heap_bytes (sys_heap s')) \<and>
    StateNode t \<in> set (klist s' (ReadyHead (unat pr)))"
proof -
  from task_create_cases [OF k r o a n, of env name arg] obtain t s1 where
    1: "task_create_kernel env name entry arg bytes pr s = Some (t, s1)" "res_ok s1"
      "current_task s1 = current_task s" "idle_task s1 = idle_task s" and
    nz: "t \<noteq> 0 \<Longrightarrow> t \<notin> T \<and> kinv (insert t T) W s1 \<and>
      (\<exists>m n sp stack f. arch_task_init_frame env stack (task_round bytes) entry arg f = (sp, heap_bytes (sys_heap s1)) \<and>
        tasks s1 = (tasks s)(t := new_task name sp stack (task_round bytes) entry arg pr)) \<and>
      (\<forall>h\<in>kheads W. klist s1 h =
         (if h = MasterHead then klist s h @ [MasterNode t]
          else if h = ReadyHead (unat pr) then klist s h @ [StateNode t] else klist s h))" by blast
  have t: "t \<noteq> 0" using c h 1(1) by (auto simp: task_create_def)
  from nz [OF t] obtain sp stack f where n: "t \<notin> T" "kinv (insert t T) W s1"
    "arch_task_init_frame env stack (task_round bytes) entry arg f = (sp, heap_bytes (sys_heap s1))"
    "tasks s1 = (tasks s)(t := new_task name sp stack (task_round bytes) entry arg pr)"
    "StateNode t \<in> set (klist s1 (ReadyHead (unat pr)))"
    using a by (auto simp: task_args_ok_def)
  show ?thesis
  proof (cases rule: sys_handle_alloc_cases [OF 1(2), of t TRT_OBJ_TASK TRT_RIGHT_DESTROY, case_names Full New])
    case (Full e tab)
    then show ?thesis using c h 1(1) t by (auto simp: task_create_def bind_eq_Some_conv)
  next
    case (New h' tab)
    then have s': "s' = upd_task t (\<lambda>k. k\<lparr>task_handle := h\<rparr>) (s1\<lparr>sys_handles := tab\<rparr>)" 
      using c 1(1) t by (auto simp: task_create_def)
    have "kinv (insert t T) W s'"
      unfolding s' by (rule kinv_upd_task_inert) (use n(2) in simp_all)
    moreover have "tasks s' = (tasks s)(t := (new_task name sp stack (task_round bytes) entry arg pr)\<lparr>task_handle := h\<rparr>)"
      "current_task s' = current_task s" "idle_task s' = idle_task s" "lock_count s' = lock_count s" "lnk s' = lnk s1" "sys_heap s' = sys_heap s1"
      using n(4) 1(3,4) create_keeps_lock [OF 1(1)] by (simp_all add: s' upd_task_def)
    ultimately show ?thesis using n(1,3,5) t by metis
  qed
qed

lemma pick_over_idle:
  assumes k: "kinv {t, i} {} s" and c: "current_task s = 0" and p: "p < 32" "0 < p"
    and m: "StateNode t \<in> set (klist s (ReadyHead p))" and i: "prio s i = 0"
    and e: "sched_pick_next s = Some (u, s')"
  shows "u = t"
proof -
  have v: "ready_view s q = klist s (ReadyHead q)" for q using c by (simp add: ready_view_def)
  then have ne: "ready_view s p \<noteq> []" using m by auto
  from pick_next_ready [OF k p(1) ne] obtain q w xs w' where q: "q < 32" "ready_view s q = StateNode w # xs"
    "\<forall>r<32. ready_view s r \<noteq> [] \<longrightarrow> r \<le> q" "w \<in> {t, i}" "sched_pick_next s = Some (w, w')" by blast
  have "StateNode w \<in> set (klist s (ReadyHead q))" using q(2) by (simp add: v)
  then have "prio s w = q" using kinv_ready_list(2) [OF k q(4,1)] by blast
  moreover have "0 < q" using q(3) p ne by fastforce
  ultimately have "w \<noteq> i" using i by auto
  then show ?thesis using q(4,5) e by auto
qed

text \<open>The registers of the tick when the first task is entered.\<close>

lemma tick_armed:
  fixes s :: "'z sys_scheme" and d :: 'd and env :: board_env
  assumes c: "config_regs v peek tick_regs (\<lambda>_. None)" and n: "\<not> timer_initialized s" "\<not> systimer_initialized s"
    "\<not> timer_tick_started s"
  defines "r1 \<equiv> timer_init_io v env s d"
  defines "d2 \<equiv> snd (timer_start_tick_io v (fst r1) (snd r1))"
  shows "peek d2 INTERRUPT_CORE0_CPU_INT_ENABLE_REG = BIT 1" and "peek d2 (SYSTIMER INT_ENA) = BIT 0"
    and "peek d2 (SYSTIMER TARGET0_CONF) = 16000 OR BIT 30" and "bit (peek d2 (SYSTIMER CONF)) 24"
    and "peek d2 (DR_REG_INTERRUPT_BASE + 4 * 37) = 1"
proof -
  let ?u = "upd_tlinks (INIT_LIST_HEAD TimerHead) s"
  define d1 where "d1 = snd (systimer_init_io v env ?u d)"
  define s1 where "s1 = (systimer_init env ?u)\<lparr>timer_initialized := True\<rparr>"
  have nu: "\<not> systimer_initialized ?u" using n(2) by (simp add: upd_tlinks_def)
  have r1: "r1 = (s1, d1)"
    using n(1) by (simp add: r1_def timer_init_io_def s1_def d1_def systimer_init_io_def Let_def)
  have s1: "\<not> systimer_started s1" "\<not> timer_tick_started s1"
    using nu n(3) by (simp_all add: s1_def systimer_init_def first_line Let_def upd_tlinks_def)
  have e1: "d1 = snd (run_state (do { claim_line v 1 1; interrupt_intc_route v ETS_SYSTIMER_TARGET0_INTR_SOURCE 1 })
      (snd (run_state (systimer_setup v) d)))"
    using nu by (simp add: d1_def systimer_init_io_def first_line Let_def)
  have d2: "d2 = snd (systimer_start_io v s1 d1)"
    using s1(2) by (simp add: d2_def r1 timer_start_tick_io_def case_prod_beta)
  note cl = claim_regs [OF c, of "snd (run_state (systimer_setup v) d)", folded e1]
    and st = setup_regs [OF c, of d] and t = start_regs [OF c s1(1), where d = d1, folded d2]
  have a: "INTERRUPT_CORE0_CPU_INT_ENABLE_REG \<in> tick_regs" "SYSTIMER TARGET0_CONF \<in> tick_regs"
    "DR_REG_INTERRUPT_BASE + 4 * 37 \<in> tick_regs"
    by (simp_all add: tick_regs_def ETS_SYSTIMER_TARGET0_INTR_SOURCE_def)
  show "peek d2 INTERRUPT_CORE0_CPU_INT_ENABLE_REG = BIT 1" "peek d2 (SYSTIMER TARGET0_CONF) = 16000 OR BIT 30"
    "peek d2 (DR_REG_INTERRUPT_BASE + 4 * 37) = 1"
    using t(3) [OF a(1)] t(3) [OF a(2)] t(3) [OF a(3)] cl(1,4,8) st(1,4) by (simp_all add: addresses systimer.simps)
  show "peek d2 (SYSTIMER INT_ENA) = BIT 0" by (rule t(1))
  show "bit (peek d2 (SYSTIMER CONF)) 24" unfolding t(2) by (simp add: bit_or_iff bit_BIT)
qed

lemma create_keeps_more:
  assumes "task_create y env name entry arg bytes pr s = Some (h, s')" and "h \<noteq> TRT_HANDLE_INVALID"
  shows "timer_initialized s' = timer_initialized s" "systimer_initialized s' = systimer_initialized s"
    "timer_tick_started s' = timer_tick_started s"
proof -
  obtain t s1 where c: "task_create_kernel env name entry arg bytes pr s = Some (t, s1)"
    and r: "task_create y env name entry arg bytes pr s =
      (case sys_handle_alloc t TRT_OBJ_TASK TRT_RIGHT_DESTROY s1 of
           (Inl _, s2) \<Rightarrow> Option.bind (task_delete_kernel y t s2) (\<lambda>(_, s3). Some (TRT_HANDLE_INVALID, s3))
         | (Inr h, s2) \<Rightarrow> Some (h, upd_task t (\<lambda>k. k\<lparr>task_handle := h\<rparr>) s2))"
    using assms by (auto simp: task_create_def bind_eq_Some_conv split: if_split_asm)
  have "timer_initialized s' = timer_initialized s1 \<and> systimer_initialized s' = systimer_initialized s1 \<and>
    timer_tick_started s' = timer_tick_started s1"
    using assms unfolding r
    by (auto simp: sys_handle_alloc_def bind_eq_Some_conv upd_task_def split: sum.splits prod.splits)
  then show "timer_initialized s' = timer_initialized s" "systimer_initialized s' = systimer_initialized s"
    "timer_tick_started s' = timer_tick_started s" using create_keeps_timers [OF c] by simp_all
qed

lemma start_code_csrs:
  "csrs (run (start_code gp tp sp isr) M) Mstatus = 0x1800"
  "gpr (run (start_code gp tp sp isr) M) Gp = gp" "gpr (run (start_code gp tp sp top) M) Tp = tp"
  by (simp_all add: start_code_def reg_set_def reg_val_def)

lemma mtvec_set_run:
  assumes "r \<noteq> Zero"
  shows "csrs (run (mtvec_set r vt) M) Mtvec = vt OR 1" and "c \<noteq> Mtvec \<Longrightarrow> csrs (run (mtvec_set r vt) M) c = csrs M c"
  using assms by (simp_all add: mtvec_set_def reg_set_def reg_val_def)

lemma reset_reaches:
  fixes v :: "'d device" and s s2 :: "'z sys_scheme" and M :: machine and d :: 'd and sched isr_top stack_top :: ptr and off :: u32
  assumes "unbooted s" and "\<not> timer_tick_started s" and "fn_idle_task env \<noteq> 0" and "led \<noteq> 0"
    and "kernel_init env s = Some s1"
    and "task_create y env (Some led_name) led 0 RTOS_TASK_STACK_SIZE 1 s1 = Some (h, s2)"
    and "h \<noteq> TRT_HANDLE_INVALID" and "config_regs v peek tick_regs (\<lambda>_. None)" and "r \<noteq> Zero"
    and "env_gp env = gp" and "env_tp env = tp"
  defines "M0 \<equiv> run (start_code gp tp stack_top isr_top) M"
  shows "\<exists>sp M1 s' d'. cstart v r vt bss_start bss_end y env led M0 s d = Some (sp, M1, s', d') \<and>
    \<not> bit (csrs M1 Mstatus) 3 \<and> csrs M1 Mtvec = vt OR 1 \<and>
    peek d' INTERRUPT_CORE0_CPU_INT_ENABLE_REG = BIT 1 \<and> peek d' (DR_REG_INTERRUPT_BASE + 4 * 37) = 1 \<and>
    peek d' (SYSTIMER INT_ENA) = BIT 0 \<and> peek d' (SYSTIMER TARGET0_CONF) = 16000 OR BIT 30 \<and>
    bit (peek d' (SYSTIMER CONF)) 24 \<and> systimer_cpu_irq s' = 1 \<and> tick_count s' = 0 \<and>
    kinv {current_task s', idle_task s'} {} s' \<and> current_task s' \<noteq> idle_task s' \<and> started s' \<and>
    duo (current_task s') (idle_task s') s' \<and> best_running s' \<and> tinv {} s' \<and> queued s' = [] \<and>
    (region (sched + off) 4 \<inter> region sp 132 = {} \<longrightarrow>
      (let M' = run (task_start_first_code isr_top sched off)
             (M1\<lparr>gpr := (gpr M1)(A0 := sp), mem := heap_bytes (sys_heap s')\<rparr>)
       in pc M' = led \<and> gpr M' A0 = 0 \<and> gpr M' Ra = fn_task_exit_trap env \<and> gpr M' Gp = gp \<and> gpr M' Tp = tp \<and>
         gpr M' Sp = (stack_base (tasks s2 (current_task s')) + 2048) AND NOT 0xf \<and> bit (csrs M' Mstatus) 3 \<and> csrs M' Mtvec = vt OR 1))"
proof -
  let ?i = "idle_task s1"
  note k = kernel_init_ok [OF assms(1,3,5)]
  have k1: "kinv {?i} {} s1" "owns {?i} s1" "res_ok s1" "current_task s1 = 0" "?i \<noteq> 0" "prio s1 ?i = 0"
    using k by (auto simp: new_task_def)
  note nt = kernel_init_keeps_timers [OF assms(1,5,2)]
  have a: "task_args_ok led RTOS_TASK_STACK_SIZE 1" "task_count s1 < RTOS_TASK_MAX"
    using assms(4) k by (simp_all add: task_args_ok_def RTOS_TASK_STACK_SIZE_def RTOS_TASK_MAX_def)
  obtain t sp stack f where t: "t \<noteq> ?i" "t \<noteq> 0" "kinv {t, ?i} {} s2" "current_task s2 = 0" "idle_task s2 = ?i"
    "tasks s2 = (tasks s1)(t := (new_task (Some led_name) sp stack (task_round RTOS_TASK_STACK_SIZE) led 0 1)\<lparr>task_handle := h\<rparr>)"
    "arch_task_init_frame env stack (task_round RTOS_TASK_STACK_SIZE) led 0 f = (sp, heap_bytes (sys_heap s2))"
    "StateNode t \<in> set (klist s2 (ReadyHead 1))" "lock_count s2 = lock_count s1"
    using task_create_ok [OF k1(1,3,2) a(2,1) assms(6,7)] k1(4) by auto
  have n: "\<not> timer_initialized s2" "\<not> systimer_initialized s2" "\<not> timer_tick_started s2"
    using create_keeps_more [OF assms(6,7)] nt by simp_all
  have pr: "prio s2 ?i = 0" using k1(6) t(1) by (simp add: t(6))
  obtain w u where w: "sched_pick_next s2 = Some (w, u)" "same_control s2 (u\<lparr>current_task := w\<rparr>)"
    using pick_best [OF t(3)] t(5) k1(5) by auto
  define x where "x = u\<lparr>current_task := w\<rparr>"
  note mx = same_more [OF same_controlD(6) [OF w(2)], folded x_def]
  have nx: "\<not> timer_initialized x" "\<not> systimer_initialized x" "\<not> timer_tick_started x"
    using n mx(8,9,15) by simp_all
  obtain sp' s' where st: "rtos_start env s2 = Some (sp', s')" "kinv {t, ?i} {} s'" "started s'"
    "idle_task s' = ?i" "best_running s'" "sp' = task_sp (tasks s2 (current_task s'))" "sys_heap s' = sys_heap s2"
    "tinv {} s'" "queued s' = []" "tick_count s' = 0" "systimer_cpu_irq s' = 1"
    "sched_pick_next s2 = Some (current_task s', u)" "lock_count s' = lock_count s2" "systimer_initialized s'"
    "\<forall>u. priority (tasks s' u) = priority (tasks s2 u)"
    using rtos_start_ok [OF t(3) _ n, of env] t(5) k1(5) w(1) by auto
  have cur: "current_task s' = t"
    by (rule pick_over_idle [OF t(3,4) _ _ t(8) pr st(12)]) simp_all
  have prt: "prio s2 t = 1" by (simp add: t(6) new_task_def)
  have duo: "duo t ?i s'"
    using st(2-4,8,9,11,13-15) t(1,9) k pr prt by (simp add: duo_def)
  have sp: "sp' = sp" using st(6) by (simp add: cur t(6) new_task_def)
  define d0 where "d0 = snd (run_state (gpio_output v BOARD_LED_PIN) (snd (run_state (wdt_disable v) d)))"
  define d' where "d' = snd (timer_start_tick_io v (fst (timer_init_io v env x d0)) (snd (timer_init_io v env x d0)))"
  have io: "rtos_start_io v env s2 d0 = Some (sp, s', d')"
    using st(1) w(1) by (simp add: rtos_start_io_eq sp d'_def x_def timer_io_fst)
  note tick = tick_armed [OF assms(8) nx, where d = d0 and env = env, folded d'_def]
  define M1 where "M1 = run (mtvec_set r vt) (M0\<lparr>mem := clear_bss bss_start bss_end (mem M0)\<rparr>)"
  have m1: "csrs M1 Mtvec = vt OR 1" "csrs M1 Mstatus = 0x1800"
    using mtvec_set_run [OF assms(9)] start_code_csrs(1) by (simp_all add: M1_def M0_def)
  have cs: "cstart v r vt bss_start bss_end y env led M0 s d = Some (sp, M1, s', d')"
    using assms(5,6) io by (simp add: cstart_def kernel_main_io_def app_main_def Let_def d0_def M1_def)
  have first: "let M' = run (task_start_first_code isr_top sched off)
             (M1\<lparr>gpr := (gpr M1)(A0 := sp), mem := heap_bytes (sys_heap s')\<rparr>)
       in pc M' = led \<and> gpr M' A0 = 0 \<and> gpr M' Ra = fn_task_exit_trap env \<and> gpr M' Gp = gp \<and> gpr M' Tp = tp \<and>
         gpr M' Sp = (stack_base (tasks s2 (current_task s')) + 2048) AND NOT 0xf \<and> bit (csrs M' Mstatus) 3 \<and> csrs M' Mtvec = vt OR 1"
    if "region (sched + off) 4 \<inter> region sp 132 = {}"
  proof -
    let ?M = "M1\<lparr>gpr := (gpr M1)(A0 := sp), mem := heap_bytes (sys_heap s')\<rparr>"
    have sb: "stack_base (tasks s2 (current_task s')) = stack" by (simp add: cur t(6) new_task_def)
    have r: "task_round RTOS_TASK_STACK_SIZE = 2048" by (simp add: task_round_def RTOS_TASK_STACK_SIZE_def)
    have "arch_task_init_frame env stack 2048 led 0 f = (gpr ?M A0, mem ?M)" using t(7) st(7) by (simp add: r)
    from first_task_starts [OF this] that have "pc (run (task_start_first_code isr_top sched off) ?M) = led \<and>
      gpr (run (task_start_first_code isr_top sched off) ?M) A0 = 0 \<and>
      gpr (run (task_start_first_code isr_top sched off) ?M) Ra = fn_task_exit_trap env \<and>
      gpr (run (task_start_first_code isr_top sched off) ?M) Gp = env_gp env \<and>
      gpr (run (task_start_first_code isr_top sched off) ?M) Tp = env_tp env \<and>
      gpr (run (task_start_first_code isr_top sched off) ?M) Sp = (stack + 2048) AND NOT 0xf \<and>
      bit (csrs (run (task_start_first_code isr_top sched off) ?M) Mstatus) 3" by simp
    then show ?thesis using first_task_code_mtvec [of isr_top sched off ?M] m1(1) assms(10,11) sb by (simp only: Let_def) simp
  qed
  show ?thesis
    using cs m1 tick st(2-5,8-11) cur t(1) duo first
    by (intro exI [of _ sp] exI [of _ M1] exI [of _ s'] exI [of _ d']) (simp add: bit_simps)
qed

text \<open>C3. From reset to the application.  The reset code, the C start-up and \<^verbatim>\<open>kernel_main\<close> with the
  demo's \<^verbatim>\<open>app_main\<close>, if there is memory for the idle task and the application's task, reach the first
  task with interrupts masked all the way, the vector table installed in vectored mode and the tick
  armed, routed and counting milliseconds; the kernel is consistent, runs the application's task
  rather than the idle task, and is in the state the properties of the traps assume.
  \<^verbatim>\<open>task_start_first\<close> then enters \<^verbatim>\<open>led_task\<close> with a null argument on an empty aligned stack of its own,
  the exit routine as return address, the processor's global and thread pointer, and interrupts on.\<close>

theorem reset_enters_application:
  fixes v :: "'d device" and s s2 :: "'z sys_scheme" and M :: machine and d :: 'd and sched isr_top stack_top :: ptr and off :: u32
  assumes "unbooted s" and "\<not> timer_tick_started s" and "fn_idle_task env \<noteq> 0" and "led \<noteq> 0"
    and "kernel_init env s = Some s1"
    and "task_create y env (Some led_name) led 0 RTOS_TASK_STACK_SIZE 1 s1 = Some (h, s2)"
    and "h \<noteq> TRT_HANDLE_INVALID" and "config_regs v peek tick_regs (\<lambda>_. None)" and "r \<noteq> Zero"
    and "env_gp env = gp" and "env_tp env = tp"
  defines "M0 \<equiv> run (start_code gp tp stack_top isr_top) M"
  shows "\<exists>sp M1 s' d'. cstart v r vt bss_start bss_end y env led M0 s d = Some (sp, M1, s', d') \<and>
    \<not> bit (csrs M1 Mstatus) 3 \<and> csrs M1 Mtvec = vt OR 1 \<and>
    peek d' INTERRUPT_CORE0_CPU_INT_ENABLE_REG = BIT 1 \<and> peek d' (DR_REG_INTERRUPT_BASE + 4 * 37) = 1 \<and>
    peek d' (SYSTIMER INT_ENA) = BIT 0 \<and> peek d' (SYSTIMER TARGET0_CONF) = 16000 OR BIT 30 \<and>
    bit (peek d' (SYSTIMER CONF)) 24 \<and> systimer_cpu_irq s' = 1 \<and> tick_count s' = 0 \<and>
    kinv {current_task s', idle_task s'} {} s' \<and> current_task s' \<noteq> idle_task s' \<and> started s' \<and>
    best_running s' \<and> tinv {} s' \<and> queued s' = [] \<and>
    (region (sched + off) 4 \<inter> region sp 132 = {} \<longrightarrow>
      (let M' = run (task_start_first_code isr_top sched off)
             (M1\<lparr>gpr := (gpr M1)(A0 := sp), mem := heap_bytes (sys_heap s')\<rparr>)
       in pc M' = led \<and> gpr M' A0 = 0 \<and> gpr M' Ra = fn_task_exit_trap env \<and> gpr M' Gp = gp \<and> gpr M' Tp = tp \<and>
         gpr M' Sp = (stack_base (tasks s2 (current_task s')) + 2048) AND NOT 0xf \<and> bit (csrs M' Mstatus) 3 \<and> csrs M' Mtvec = vt OR 1))"
  using reset_reaches [OF assms(1-11), where M = M and stack_top = stack_top and isr_top = isr_top and sched = sched and off = off
      and bss_start = bss_start and bss_end = bss_end and vt = vt and d = d] unfolding M0_def by blast

text \<open>An instance: a heap of 12 kilobytes, devices that are plain memory.\<close>

definition demo_reset :: sys where
  "demo_reset = blank_sys\<lparr>sys_heap := demo_heap\<lparr>heap_end_sym := 0x4000\<rparr>\<rparr>"

lemma demo_reset_created:
  "\<exists>s1 h s2. unbooted demo_reset \<and> kernel_init demo_env demo_reset = Some s1 \<and> h \<noteq> TRT_HANDLE_INVALID \<and>
     task_create Some demo_env (Some led_name) 0x42001000 0 RTOS_TASK_STACK_SIZE 1 s1 = Some (h, s2)"
proof -
  let ?h = "demo_heap\<lparr>heap_end_sym := 0x4000\<rparr>"
  have b: "\<not> heap_initialized ?h" "heap_start_sym ?h \<noteq> 0" "unat (heap_start_sym ?h) + 23 < 2 ^ 32"
    by (simp_all add: demo_heap_def)
  have v: "view ?h = [(0x1000, 0x2ff0, True)]" using heap_boot(2) [OF b] by (simp add: demo_heap_def)
  have ok: "heap_ok ?h" using heap_boot(1) [OF b] by (simp add: heap_ok_def)
  have u: "unbooted demo_reset"
    using ok demo_handles by (simp add: unbooted_def demo_reset_def blank_sys_def res_ok_def)
  have f: "fn_idle_task demo_env \<noteq> 0" by (simp add: demo_env_def)
  obtain s1 where s1: "kernel_init demo_env demo_reset = Some s1" "heap_ok (sys_heap s1)"
    "sys_handles s1 = demo_handles"
    "view (sys_heap s1) = [(0x1000, 96, False), (0x1070, 2048, False), (0x1880, 0x2770, True)]"
    using kernel_init_in_last_block [OF u f, of "0x1000" "0x2ff0"] v
    by (auto simp: demo_reset_def blank_sys_def)
  have a: "task_args_ok 0x42001000 RTOS_TASK_STACK_SIZE 1" "task_count s1 < RTOS_TASK_MAX"
    using kernel_init_ok [OF u f s1(1)] by (simp_all add: task_args_ok_def RTOS_TASK_STACK_SIZE_def RTOS_TASK_MAX_def)
  obtain t s2 where s2: "task_create_kernel demo_env (Some led_name) 0x42001000 0 RTOS_TASK_STACK_SIZE 1 s1 = Some (t, s2)"
    "t \<noteq> 0" "sys_handles s2 = demo_handles"
    using create_in_last_block [OF a s1(2), of "[(0x1000, 96, False), (0x1070, 2048, False)]" "0x1880" "0x2770"
        demo_env "Some led_name" 0] s1(3,4)
    by (auto simp: RTOS_TASK_STACK_SIZE_def task_round_def)
  have "\<not> (\<forall>slot\<in>set (htab demo_handles). slot_used slot)"
    by (simp add: demo_handles_def handle_table_init_locked_def RTOS_HANDLE_MAX_def)
  from alloc_free [OF demo_handles(1) s2(2) _ _ this, of True TRT_OBJ_TASK TRT_RIGHT_DESTROY] obtain h tab where
    "trt_handle_alloc t TRT_OBJ_TASK TRT_RIGHT_DESTROY True demo_handles = (Inr h, tab)" "h \<noteq> TRT_HANDLE_INVALID"
    by auto
  then have "\<exists>s3. task_create Some demo_env (Some led_name) 0x42001000 0 RTOS_TASK_STACK_SIZE 1 s1 = Some (h, s3)"
    using s2 by (simp add: task_create_def sys_handle_alloc_def)
  then show ?thesis using u s1(1) \<open>h \<noteq> TRT_HANDLE_INVALID\<close> by blast
qed

lemma reset_enters_application_witness:
  "\<exists>sp M1 s' d'. cstart (memory_device (\<lambda>_. None)) T0 0x42000100 0x3fc80000 0x3fc80100 Some demo_env 0x42001000
      (run (start_code 0x3fc80800 0 0x3fcc0000 0x42000200) demo_machine) demo_reset (\<lambda>_. 0) = Some (sp, M1, s', d') \<and>
     started s' \<and> current_task s' \<noteq> idle_task s' \<and> csrs M1 Mtvec = 0x42000101"
proof -
  obtain s1 h s2 where c: "unbooted demo_reset" "kernel_init demo_env demo_reset = Some s1" "h \<noteq> TRT_HANDLE_INVALID"
    "task_create Some demo_env (Some led_name) 0x42001000 0 RTOS_TASK_STACK_SIZE 1 s1 = Some (h, s2)"
    using demo_reset_created by blast
  have r: "config_regs (memory_device (\<lambda>_. None)) (\<lambda>d. d) tick_regs (\<lambda>_. None)"
    by (rule memory_device_config) simp
  have n: "\<not> timer_tick_started demo_reset" by (simp add: demo_reset_def blank_sys_def)
  have f: "fn_idle_task demo_env \<noteq> 0" "(0x42001000 :: ptr) \<noteq> 0" "T0 \<noteq> Zero" "env_gp demo_env = 0x3fc80800" "env_tp demo_env = 0"
    by (simp_all add: demo_env_def)
  show ?thesis
    using reset_enters_application [OF c(1) n f(1,2) c(2,4,3) r f(3-5), where M = demo_machine and d = "\<lambda>_. 0" and vt = "0x42000100"
      and bss_start = "0x3fc80000" and bss_end = "0x3fc80100" and stack_top = "0x3fcc0000" and isr_top = "0x42000200"
      and sched = 0 and off = 0]
    by auto
qed

subsection \<open>Sleeping\<close>

text \<open>C16. Sleeping.  When the task \<open>c\<close> runs over the idle task and calls \<^verbatim>\<open>task_sleep\<close>, the call returns with
  \<open>c\<close> running and the kernel consistent exactly as many ticks later as the delay has, rounded up to
  ticks, whatever the value of the counter and also when it wraps meanwhile: between stand the trap of the
  yield and one trap for each tick, with the idle task running.  A delay of more than half the range of the counter counts as
  over and returns at once, and with the scheduler locked the call only notes the request and returns.\<close>

theorem sleep_on_time:
  fixes s :: "'z sys_scheme" and isr cb :: "ptr \<Rightarrow> ptr \<Rightarrow> 'z sys_scheme \<Rightarrow> 'z sys_scheme option"
    and sp :: "'z sys_scheme \<Rightarrow> ptr" and delay :: trt_time_t
  assumes "duo c i s" and "current_task s = c" and "task_state (tasks s c) = TASK_RUNNING"
    and "\<forall>n. systimer_get_tick (now n) = n"
  defines "sleep \<equiv> task_sleep (kernel_yield isr cb now sp c) delay" and "n \<equiv> timer_us_to_ticks delay"
  shows "(if unat n \<le> 2 ^ 31
      then \<exists>s'. sleep s = Some s' \<and> tick_count s' = tick_count s + n \<and> duo c i s' \<and> current_task s' = c \<and>
        task_state (tasks s' c) = TASK_RUNNING \<and> trap_nesting s' = trap_nesting s
      else sleep s = Some s) \<and>
    (\<forall>k. k = 0 \<or> sleep (s\<lparr>lock_count := k\<rparr>) = Some (s\<lparr>lock_count := k, resched_pending := True\<rparr>))"
proof -
  have now: "systimer_get_tick (now n) = n" for n using assms(4) by blast
  have run: "cur_running s" using assms(2,3) by simp
  note d = duoD(5,11) [OF assms(1)]
  have short: "\<exists>s'. sleep s = Some s' \<and> tick_count s' = tick_count s + n \<and> duo c i s' \<and> current_task s' = c \<and>
        task_state (tasks s' c) = TASK_RUNNING \<and> trap_nesting s' = trap_nesting s" if "unat n \<le> 2 ^ 31"
    using duo_sleeps [where isr = isr and cb = cb and sp = sp, OF now assms(1,2) run that [unfolded n_def]]
    unfolding sleep_def n_def by auto
  have long: "sleep s = Some s" if "\<not> unat n \<le> 2 ^ 31"
  proof -
    have "timer_expired (tick_count s) (tick_count s + n)" using that by (simp only: timer_expired_future) simp
    then show ?thesis
      using d assms(2) unfolding sleep_def task_sleep_def task_delay_ticks_def n_def [symmetric]
      by (simp add: sched_is_locked_def task_delay_loop.simps [of _ "tick_count s + n" s])
  qed
  have locked: "sleep (s\<lparr>lock_count := k\<rparr>) = Some (s\<lparr>lock_count := k, resched_pending := True\<rparr>)" if "k \<noteq> 0" for k
    using that d(2) assms(2) by (simp add: sleep_def task_sleep_def task_delay_ticks_def sched_is_locked_def sched_set_pending_def)
  show ?thesis using short long locked by auto
qed

lemma demo_now: "systimer_get_tick (ucast n * TICK_PERIOD_TICKS) = n"
proof -
  have b: "unat n < 2 ^ 32" using unsigned_less [of n] by simp
  then have u: "unat (ucast n :: u64) = unat n" by (simp add: unsigned_ucast_eq take_bit_nat_eq_self)
  with b have "unat (ucast n * TICK_PERIOD_TICKS :: u64) = unat n * 16000"
    by (simp add: TICK_PERIOD_TICKS_def unat_word_ariths)
  then have "unat ((ucast n * TICK_PERIOD_TICKS :: u64) div TICK_PERIOD_TICKS) = unat n"
    by (simp add: unat_div TICK_PERIOD_TICKS_def)
  then show ?thesis using b by (simp add: systimer_get_tick_def word_unat_eq_iff unsigned_ucast_eq take_bit_nat_eq_self)
qed

lemma demo_duo: "\<exists>s :: sys. duo (current_task s) (idle_task s) s \<and> cur_running s \<and> tick_count s = 0"
proof -
  obtain s1 h s2 where c: "unbooted demo_reset" "kernel_init demo_env demo_reset = Some s1" "h \<noteq> TRT_HANDLE_INVALID"
    "task_create Some demo_env (Some led_name) 0x42001000 0 RTOS_TASK_STACK_SIZE 1 s1 = Some (h, s2)"
    using demo_reset_created by blast
  have r: "config_regs (memory_device (\<lambda>_. None)) (\<lambda>d. d) tick_regs (\<lambda>_. None)" by (rule memory_device_config) simp
  have n: "\<not> timer_tick_started demo_reset" by (simp add: demo_reset_def blank_sys_def)
  have f: "fn_idle_task demo_env \<noteq> 0" "(0x42001000 :: ptr) \<noteq> 0" "T0 \<noteq> Zero" by (simp_all add: demo_env_def)
  obtain s0 :: sys where "duo (current_task s0) (idle_task s0) s0" "best_running s0" "tick_count s0 = 0"
    using reset_reaches [OF c(1) n f(1,2) c(2,4,3) r f(3) refl refl, where M = demo_machine and d = "\<lambda>_. 0"]
    by blast
  then show ?thesis by (intro exI [of _ s0]) (simp add: best_running_def)
qed

lemma sleep_on_time_witness:
  "\<exists>(s :: sys) c s'. task_state (tasks s c) = TASK_RUNNING \<and> task_sleep (kernel_yield (\<lambda>f a s. None) (\<lambda>c a s. None)
      (\<lambda>n. ucast n * TICK_PERIOD_TICKS) (\<lambda>_. 0x3fc90000) c) 2500 s = Some s' \<and> tick_count s' = tick_count s + 3"
proof -
  obtain s :: sys where s: "duo (current_task s) (idle_task s) s" "cur_running s" "tick_count s = 0" using demo_duo by blast
  have t: "timer_us_to_ticks 2500 = 3" by (simp add: timer_us_to_ticks_def UINT32_MAX_def TICK_PERIOD_US_def)
  have "\<forall>n. systimer_get_tick (ucast n * TICK_PERIOD_TICKS) = n" using demo_now by blast
  from sleep_on_time [OF s(1) refl s(2) this, where isr = "\<lambda>f a s. None" and cb = "\<lambda>c a s. None" and sp = "\<lambda>_. 0x3fc90000" and delay = 2500] show ?thesis
    using s(2) by (auto simp: t)
qed

subsection \<open>The loop of the application\<close>

fun led_rounds ::
    "'d device \<Rightarrow> ('z sys_scheme \<Rightarrow> 'z sys_scheme option) \<Rightarrow> nat \<Rightarrow> 'z sys_scheme \<Rightarrow> 'd \<Rightarrow>
      ('z sys_scheme \<times> 'd) option" where
  "led_rounds v y 0 s d = Some (s, d)"
| "led_rounds v y (Suc n) s d = Option.bind (led_rounds v y n s d) (\<lambda>(s1, d1). led_round v y s1 d1)"

lemma led_round_second:
  fixes s :: "'z sys_scheme" and d :: 'd and isr cb :: "ptr \<Rightarrow> ptr \<Rightarrow> 'z sys_scheme \<Rightarrow> 'z sys_scheme option"
    and sp :: "'z sys_scheme \<Rightarrow> ptr"
  assumes now: "\<And>n. systimer_get_tick (now n) = n"
    and d: "duo c i s" "current_task s = c" "cur_running s"
  defines "y \<equiv> kernel_yield isr cb now sp c"
  shows "\<exists>s1 s2. task_sleep y (TRT_MS 500) s = Some s1 \<and> tick_count s1 = tick_count s + 500 \<and>
    led_round v y s d = Some (s2, snd (run_state (gpio_write v BOARD_LED_PIN 0)
      (snd (run_state (gpio_write v BOARD_LED_PIN 1) d)))) \<and>
    duo c i s2 \<and> current_task s2 = c \<and> cur_running s2 \<and> tick_count s2 = tick_count s + 1000"
proof -
  have t: "timer_us_to_ticks (TRT_MS 500) = 500"
    by (simp add: TRT_MS_def timer_us_to_ticks_def UINT32_MAX_def TICK_PERIOD_US_def)
  have n: "unat (timer_us_to_ticks (TRT_MS 500)) \<le> 2 ^ 31" by (simp add: t)
  obtain s1 where s1: "task_sleep y (TRT_MS 500) s = Some s1" "duo c i s1" "current_task s1 = c" "cur_running s1"
    "tick_count s1 = tick_count s + 500"
    using duo_sleeps [where isr = isr and cb = cb and sp = sp, OF now d n] unfolding y_def t by blast
  obtain s2 where s2: "task_sleep y (TRT_MS 500) s1 = Some s2" "duo c i s2" "current_task s2 = c" "cur_running s2"
    "tick_count s2 = tick_count s1 + 500"
    using duo_sleeps [where isr = isr and cb = cb and sp = sp, OF now s1(2-4) n] unfolding y_def t by blast
  show ?thesis using s1(1,5) s2 by (intro exI [of _ s1] exI [of _ s2]) (simp add: led_round_def)
qed

lemma led_rounds_seconds:
  fixes s :: "'z sys_scheme" and d :: 'd
  assumes now: "\<And>n. systimer_get_tick (now n) = n"
    and d: "duo c i s" "current_task s = c" "cur_running s"
  shows "\<exists>s' d'. led_rounds v (kernel_yield isr cb now sp c) n s d = Some (s', d') \<and> duo c i s' \<and>
    current_task s' = c \<and> cur_running s' \<and> tick_count s' = tick_count s + of_nat (1000 * n)"
proof (induction n)
  case 0
  then show ?case using d by simp
next
  case (Suc n)
  then obtain s1 d1 where 1: "led_rounds v (kernel_yield isr cb now sp c) n s d = Some (s1, d1)" "duo c i s1"
    "current_task s1 = c" "cur_running s1" "tick_count s1 = tick_count s + of_nat (1000 * n)" by blast
  have e: "of_nat (1000 * n) + 1000 = (of_nat (1000 * Suc n) :: u32)" by (simp add: algebra_simps)
  obtain s2 d2 where "led_round v (kernel_yield isr cb now sp c) s1 d1 = Some (s2, d2)" "duo c i s2"
    "current_task s2 = c" "cur_running s2" "tick_count s2 = tick_count s1 + 1000"
    using led_round_second [where isr = isr and cb = cb and sp = sp and v = v and d = d1, OF now 1(2-4)] by blast
  then show ?case
    using 1(1,5) e by (intro exI [of _ s2] exI [of _ d2]) (simp add: add.assoc del: of_nat_mult mult_Suc_right)
qed

text \<open>C4. The LED.  After reset, the kernel running the demo's task over its idle task, the loop of
  \<^verbatim>\<open>led_task\<close> goes round for ever, whatever handlers and callbacks are registered: its \<open>n\<close>-th round
  starts exactly \<open>n\<close> seconds, a thousand ticks each, after the kernel; the pin is switched high then,
  the first sleep returns at the half second exactly, and the pin is low when the round ends on the
  full second.  The yields in it are the traps of the kernel: the system call, the rounds of the idle task and one
  tick after the other.\<close>

theorem led_blinks_every_second:
  fixes v :: "'d device" and s s2 :: "'z sys_scheme" and M :: machine and d :: 'd
  assumes "unbooted s" and "\<not> timer_tick_started s" and "fn_idle_task env \<noteq> 0" and "led \<noteq> 0"
    and "kernel_init env s = Some s1"
    and "task_create y env (Some led_name) led 0 RTOS_TASK_STACK_SIZE 1 s1 = Some (h, s2)"
    and "h \<noteq> TRT_HANDLE_INVALID" and "config_regs v peek tick_regs (\<lambda>_. None)" and "r \<noteq> Zero"
    and "config_regs v peek {REG C3_GPIO 1} (\<lambda>_. None)" and "\<forall>n. systimer_get_tick (now n) = n"
  shows "\<exists>sp0 M1 s0 d0. cstart v r vt bss_start bss_end y env led
      (run (start_code (env_gp env) (env_tp env) stack_top isr_top) M) s d = Some (sp0, M1, s0, d0) \<and>
    (let yield = kernel_yield isr cb now sp (current_task s0) in
     \<forall>n. \<exists>sn dn sh s' d'. led_rounds v yield n s0 d0 = Some (sn, dn) \<and> tick_count sn = of_nat (1000 * n) \<and>
       bit (peek (snd (run_state (gpio_write v BOARD_LED_PIN 1) dn)) (REG C3_GPIO 1)) BOARD_LED_PIN \<and>
       task_sleep yield (TRT_MS 500) sn = Some sh \<and> tick_count sh = of_nat (1000 * n + 500) \<and>
       led_round v yield sn dn = Some (s', d') \<and> tick_count s' = of_nat (1000 * (n + 1)) \<and>
       \<not> bit (peek d' (REG C3_GPIO 1)) BOARD_LED_PIN \<and> kinv {current_task s0, idle_task s0} {} s' \<and>
       current_task s' = current_task s0 \<and> task_state (tasks s' (current_task s')) = TASK_RUNNING)"
proof -
  let ?M = "run (start_code (env_gp env) (env_tp env) stack_top isr_top) M"
  obtain sp0 M1 s0 d0 where b: "cstart v r vt bss_start bss_end y env led ?M s d = Some (sp0, M1, s0, d0)"
    "duo (current_task s0) (idle_task s0) s0" "best_running s0" "tick_count s0 = 0"
    using reset_reaches [OF assms(1-9) refl refl, where M = M and stack_top = stack_top and isr_top = isr_top
        and bss_start = bss_start and bss_end = bss_end and vt = vt and d = d] by blast
  have run: "cur_running s0" using b(3) by (simp add: best_running_def)
  have now: "systimer_get_tick (now n) = n" for n using assms(11) by blast
  have p: "BOARD_LED_PIN < 32" by (simp add: BOARD_LED_PIN_def)
  note pin = gpio_write_pin [OF assms(10) p, of _ _ BOARD_LED_PIN]
  let ?y = "kernel_yield isr cb now sp (current_task s0)"
  have round: "\<exists>sn dn sh s' d'. led_rounds v ?y n s0 d0 = Some (sn, dn) \<and> tick_count sn = of_nat (1000 * n) \<and>
       bit (peek (snd (run_state (gpio_write v BOARD_LED_PIN 1) dn)) (REG C3_GPIO 1)) BOARD_LED_PIN \<and>
       task_sleep ?y (TRT_MS 500) sn = Some sh \<and> tick_count sh = of_nat (1000 * n + 500) \<and>
       led_round v ?y sn dn = Some (s', d') \<and> tick_count s' = of_nat (1000 * (n + 1)) \<and>
       \<not> bit (peek d' (REG C3_GPIO 1)) BOARD_LED_PIN \<and> kinv {current_task s0, idle_task s0} {} s' \<and>
       current_task s' = current_task s0 \<and> task_state (tasks s' (current_task s')) = TASK_RUNNING" for n
  proof -
    obtain sn dn where n: "led_rounds v ?y n s0 d0 = Some (sn, dn)" "duo (current_task s0) (idle_task s0) sn"
      "current_task sn = current_task s0" "cur_running sn" "tick_count sn = tick_count s0 + of_nat (1000 * n)"
      using led_rounds_seconds [where isr = isr and cb = cb and sp = sp and v = v and d = d0 and n = n, OF now b(2) refl run]
      by blast
    have e: "tick_count sn = of_nat (1000 * n)" using n(5) b(4) by simp
    obtain sh s' where r: "task_sleep ?y (TRT_MS 500) sn = Some sh" "tick_count sh = tick_count sn + 500"
      "led_round v ?y sn dn = Some (s', snd (run_state (gpio_write v BOARD_LED_PIN 0)
         (snd (run_state (gpio_write v BOARD_LED_PIN 1) dn))))"
      "duo (current_task s0) (idle_task s0) s'" "current_task s' = current_task s0" "cur_running s'"
      "tick_count s' = tick_count sn + 1000"
      using led_round_second [where isr = isr and cb = cb and sp = sp and v = v and d = dn, OF now n(2-4)] by blast
    have "tick_count sh = of_nat (1000 * n + 500)" "tick_count s' = of_nat (1000 * (n + 1))"
      using r(2,7) e by (simp_all add: algebra_simps)
    then show ?thesis using n(1) e r duoD(1) [OF r(4)] pin by auto
  qed
  show ?thesis using b(1) round by (auto simp: Let_def)
qed

lemma led_blinks_every_second_witness:
  "\<exists>sp0 M1 s0 d0 s' d'. cstart (memory_device (\<lambda>_. None)) T0 0x42000100 0x3fc80000 0x3fc80100 Some demo_env 0x42001000
      (run (start_code (env_gp demo_env) (env_tp demo_env) 0x3fcc0000 0x42000200) demo_machine) demo_reset (\<lambda>_. 0) =
      Some (sp0, M1, s0, d0) \<and>
    led_rounds (memory_device (\<lambda>_. None)) (kernel_yield (\<lambda>f a s. None) (\<lambda>c a s. None)
      (\<lambda>n. ucast n * TICK_PERIOD_TICKS) (\<lambda>_. 0x3fc90000) (current_task s0)) 3 s0 d0 = Some (s', d') \<and>
    tick_count s' = 3000"
proof -
  obtain s1 h s2 where c: "unbooted demo_reset" "kernel_init demo_env demo_reset = Some s1" "h \<noteq> TRT_HANDLE_INVALID"
    "task_create Some demo_env (Some led_name) 0x42001000 0 RTOS_TASK_STACK_SIZE 1 s1 = Some (h, s2)"
    using demo_reset_created by blast
  have r: "config_regs (memory_device (\<lambda>_. None)) (\<lambda>d. d) A (\<lambda>_. None)" for A
    by (rule memory_device_config) simp
  have n: "\<not> timer_tick_started demo_reset" by (simp add: demo_reset_def blank_sys_def)
  have f: "fn_idle_task demo_env \<noteq> 0" "(0x42001000 :: ptr) \<noteq> 0" "T0 \<noteq> Zero" by (simp_all add: demo_env_def)
  show ?thesis
    using led_blinks_every_second [OF c(1) n f(1,2) c(2,4,3) r f(3) r, where now = "\<lambda>n. ucast n * TICK_PERIOD_TICKS"
        and isr = "\<lambda>f a s. None" and cb = "\<lambda>c a s. None" and sp = "\<lambda>_. 0x3fc90000" and M = demo_machine and d = "\<lambda>_. 0"
        and vt = "0x42000100" and bss_start = "0x3fc80000" and bss_end = "0x3fc80100" and stack_top = "0x3fcc0000"
        and isr_top = "0x42000200"] demo_now
    unfolding Let_def by fastforce
qed

end
