(* ===== verification/Spec2Isabelle.thy ===== *)
theory Spec2Isabelle
  imports BaseProps WaitProps AppProps
begin

text \<open>
  TinyRT, a small preemptive real-time kernel for the ESP32-C3 (one RV32 core), modelled from the
  reset vector to the demo application.

  \<^bold>\<open>The program.\<close>  The reset code \<^verbatim>\<open>_start\<close> and \<^verbatim>\<open>_cstart\<close> (\<^verbatim>\<open>boards/esp32c3/startup.c\<close>) enter \<^verbatim>\<open>kernel_main\<close>
  (\<^verbatim>\<open>src/kernel/kernel.c\<close>), which creates the idle task, calls \<^verbatim>\<open>app_main\<close>, chooses the first task, starts
  the system timer and restores the first task's frame.  From then on the kernel runs in two ways: as
  system calls of the running task, which change kernel lists with interrupts masked and give up the
  processor by an \<^verbatim>\<open>ecall\<close>, and as the trap handler \<^verbatim>\<open>do_trap\<close> (\<^verbatim>\<open>boards/esp32c3/hal.c\<close>), which serves the
  interrupt or the \<^verbatim>\<open>ecall\<close>, wakes tasks whose timeout expired, runs expired software timers, and
  returns the stack pointer of the task to resume.  Tasks wait on wait queues inside semaphores,
  mutexes and message queues; objects are named by handles and live in blocks of the heap.

  \<^bold>\<open>Theories and sources.\<close>  Every component has its state, operations and lemmas in one theory or a
  few, and its properties in a theory \<open>...Props\<close>; names are those of the code.
  \<^item> \<open>Prelude\<close>: machine types, \<^verbatim>\<open>include/error.h\<close>, \<^verbatim>\<open>include/rtos_config.h\<close>, shared lemmas and hints.
  \<^item> \<open>Links\<close>: \<^verbatim>\<open>include/list.h\<close>.  A list cell is a node of a sum type of all embedded cells, \<open>nxt\<close> and \<open>prv\<close>
    are the pointers; \<open>items\<close> reads a list off them and \<open>lists_wf\<close> says that lists are well formed and
    disjoint.  \<^verbatim>\<open>container_of\<close> is a case distinction on the node.
  \<^item> \<open>Ticks\<close>: the conversions and the wrap-around comparison of \<^verbatim>\<open>src/kernel/timer.c\<close>, on words.
  \<^item> \<open>KernelState\<close>, \<open>Sched\<close>: \<^verbatim>\<open>task_t\<close>, \<^verbatim>\<open>scheduler_t\<close> and \<^verbatim>\<open>src/kernel/sched.c\<close>, with \<^verbatim>\<open>task_yield\<close> and the
    critical section of a delay from \<^verbatim>\<open>src/kernel/task.c\<close>.  \<open>SchedInv\<close>: the invariant \<open>kinv T W\<close>
    for the tasks \<open>T\<close> and the queues \<open>W\<close>, and every operation on it.  \<open>SchedBoot\<close>: initialisation
    and task creation.  \<open>SchedTick\<close>: ticks, quanta and deadlines.  \<open>SchedSteps\<close>: the step relation
    \<open>kstep\<close> and the kernels \<open>kreach\<close> reachable by uninterrupted steps; \<open>ustep\<close> and \<open>ureach\<close> split the
    two sequences the code leaves unmasked at control points.  \<open>SchedProps\<close>: the properties.
  \<^item> \<open>WaitQueue\<close>, \<open>WaitProps\<close>: \<^verbatim>\<open>src/kernel/wait_queue.c\<close>, blocking, waking, rescheduling.
  \<^item> \<open>Handles\<close>, \<open>HandleProps\<close>: \<^verbatim>\<open>src/kernel/handle.c\<close>; \<open>live_handles\<close> is the abstract finite map.
  \<^item> \<open>Heap\<close>, \<open>HeapProps\<close>: \<^verbatim>\<open>src/kernel/malloc.c\<close>; \<open>hview\<close> is the abstract list of blocks (address, size,
    free), \<open>live_allocs\<close> the map of allocated ones, \<open>heap_run R\<close> the heaps reached by \<^verbatim>\<open>malloc\<close>, \<^verbatim>\<open>calloc\<close>,
    \<^verbatim>\<open>realloc\<close>, \<^verbatim>\<open>free\<close> and writes; with \<open>R\<close> also by a \<^verbatim>\<open>realloc\<close> that shrinks a block in place.
  \<^item> \<open>System\<close>, \<open>SysFrame\<close>: the record of the whole kernel, an extension of the scheduler's state, and what
    updates of one part leave alone.
  \<^item> \<open>Tokens\<close>, \<open>Semaphore\<close>, \<open>Mutex\<close>, \<open>Ring\<close>, \<open>MsgQueue\<close>: \<^verbatim>\<open>src/kernel/semaphore.c\<close>, \<^verbatim>\<open>mutex.c\<close>, \<^verbatim>\<open>msg_queue.c\<close>;
    \<open>ObjSteps\<close>: all kernel objects as one transition system \<open>ostep\<close>; \<open>ObjProps\<close>, \<open>ObjLife\<close>: properties.
  \<^item> \<open>Hal\<close>, \<open>Timers\<close>: the interrupt table and the software part of the tick, and the software timers of
    \<^verbatim>\<open>timer.c\<close>; \<open>TimerList\<close>, \<open>TimerRun\<close>, \<open>TimerProps\<close>: the queue ordered by deadline and its expiry.
  \<^item> \<open>TaskMgmt\<close>: \<^verbatim>\<open>src/kernel/task.c\<close> and the initial frame of \<^verbatim>\<open>include/arch/riscv/port.h\<close>; \<open>TaskFrame\<close>,
    \<open>TaskLife\<close>, \<open>TaskProps\<close>: frames, ownership of memory, creation to clean-up, sleeping.
  \<^item> \<open>Trap\<close>: \<^verbatim>\<open>do_trap\<close>, \<^verbatim>\<open>kernel_init\<close>, \<^verbatim>\<open>rtos_start\<close>, \<^verbatim>\<open>kernel_main\<close>; \<open>TrapSteps\<close>, \<open>TrapProps\<close>, \<open>BootProps\<close>: a whole
    trap and a whole start-up on a consistent kernel.  \<open>ApiProps\<close>: all calls on handles together.
  \<^item> \<open>Context\<close>, \<open>ContextProps\<close>: the assembly of \<^verbatim>\<open>startup.c\<close>, \<^verbatim>\<open>port.h\<close> and \<^verbatim>\<open>intr.h\<close> on a small RV32 machine.
  \<^item> \<open>Devices\<close>, \<open>DeviceProps\<close>: the register accesses of \<^verbatim>\<open>hal.c\<close> and \<^verbatim>\<open>intr.h\<close> in the state monad, over a
    device that is a parameter.
  \<^item> \<open>SleepProps\<close>: one task over the idle task (\<open>duo\<close>): its sleep run through the traps of the kernel, the
    \<^verbatim>\<open>ecall\<close> of its yield, the loop of the idle task and the ticks (\<open>kernel_yield\<close>, \<open>idle_until\<close>).
  \<^item> \<open>App\<close>, \<open>AppProps\<close>: \<^verbatim>\<open>_cstart\<close>, start-up with its register accesses, \<^verbatim>\<open>app/main.c\<close>, and the composition of
    all of this from reset to the first instruction of the application's task and through its loop.

  \<^bold>\<open>Interfaces.\<close>  \<open>capability_table\<close> (handles, for the objects), \<open>allocator\<close> (the heap, for objects and
  tasks), \<open>token_object\<close> (units and waiters, shared by semaphores and mutexes) and \<open>bounded_queue\<close>
  (message queues) are locales, interpreted on the definitions of the code as \<open>handles\<close>, \<open>heap\<close>,
  \<open>sem\<close>, \<open>mutex\<close> and \<open>mq\<close>; the properties over whole runs rest on their lemmas.

  \<^bold>\<open>What is shown.\<close>  The scheduler invariant holds in every kernel reached by uninterrupted steps, is kept
  by every trap and system call, and gives the functional properties: the choice of the next task, quanta, timeouts
  across the wrap-around of the counter, waking in priority order.  Heap, handle table, lists,
  timers and message queues refine block lists, finite maps, lists and queues.  Semaphores neither
  lose nor make units, mutexes exclude, messages keep their order.  Traps always return, with a
  best task running.  A context switch preserves all registers, critical sections nest, the first
  task starts as its frame says, and the program gets there from reset; from there the loop of the
  demo runs for ever with a period of one second.  A call on a handle that is
  not open with the right type and rights changes nothing.

  \<^bold>\<open>Results that show defects\<close>, all from the code as it is.  In \<open>WaitProps\<close>: a yield interrupted between
  its two statements loses the task.  In \<open>HeapProps\<close>: sizes near the end of the range wrap in \<^verbatim>\<open>malloc\<close>, and
  a \<^verbatim>\<open>realloc\<close> that shrinks a block leaves free blocks side by side that are never joined.  In \<open>ObjProps\<close>:
  a semaphore created with both arguments negative counts above its maximum.  In \<open>BaseProps\<close>: so do delays in the conversion to ticks.  In \<open>BaseProps\<close> and \<open>AppProps\<close>: delays of more
  than half the range of the counter are over at once.  In \<open>TimerProps\<close>: starting a timer before
  \<^verbatim>\<open>rtos_start\<close> follows a null pointer.  In \<open>TaskProps\<close>: a stack of the least size may be too small for
  its frame.  In \<open>DeviceProps\<close>: a failed snapshot of the timer sets the time to 0.

  \<^bold>\<open>Conventions.\<close>  Words have the width of the C type and wrap; \<open>unat\<close> reads them.  Errors are values of
  \<open>err_t\<close> or the left of a sum.  A result \<open>None\<close> is a call that does not return: an endless loop, or a
  null pointer followed.  Loops over pointers and loops that wait are \<open>partial_function (option)\<close>,
  with no fuel, and the properties state that they return; the only bound is the code's own
  limit of 1000000 polls in \<open>systimer_wait\<close>.  What the code calls through pointers or what happens
  while a task is off the processor is an argument: the yield of a blocking call, interrupt
  handlers, timer callbacks, \<^verbatim>\<open>app_main\<close> in \<open>kernel_main\<close>.  Their hypotheses (\<open>callback_ok\<close>, \<open>resumes\<close>) and
  those on the devices (\<open>config_regs\<close>, \<open>snapshots\<close>) are named, and each property with
  hypotheses has an instance right after it.  The parameters \<open>T\<close>, \<open>W\<close>, \<open>P\<close> are the live
  tasks, queues and timers, \<open>b\<close> and \<open>e\<close> a base of the tick count and the distance from it.

  \<^bold>\<open>Interruption.\<close>  What the code does with interrupts masked is one step.  Two sequences run unmasked: the
  two statements of \<^verbatim>\<open>task_yield\<close>, and the end of \<^verbatim>\<open>task_create_kernel\<close> when the scheduler runs.  The
  relations \<open>kreach\<close> and \<open>oreach\<close> are of runs in which no trap falls inside them, and so are the
  properties stated on reachable kernels; \<open>ureach\<close> has the control points inside them and a state \<open>Torn\<close>
  for runs in which a trap did, of which nothing is claimed, because the code is wrong there.  The
  step \<open>Tick\<close> of \<open>kstep\<close> adds one to the tick count, as every interrupt of the timer does that is
  served within its millisecond; a trap sets the count from the hardware counter (\<open>Hal\<close>).

  \<^bold>\<open>Not modelled.\<close>  Logging (\<^verbatim>\<open>include/logger.h\<close>, \<^verbatim>\<open>sched_dump_all_task\<close>) and the tests, which run on the
  board.  Of the register tables \<^verbatim>\<open>reg.h\<close>, \<^verbatim>\<open>systimer_reg.h\<close>, \<^verbatim>\<open>csr.h\<close> and the interrupt sources of \<^verbatim>\<open>intr.h\<close>
  only what the code uses: the rest are several hundred constants of the chip vendor.  The vector
  table and \<^verbatim>\<open>_entry\<close> are jumps with no other effect.  The calls of \<^verbatim>\<open>arch_interrupt_disable\<close> in
  \<^verbatim>\<open>kernel.c\<close> and \<^verbatim>\<open>task.c\<close> before the start are left out, as the reset code has masked the interrupts already
  and \<open>kernel_main_io\<close> does not thread the machine.  So are the register reads inside the log message
  of \<^verbatim>\<open>systimer_get_count\<close>, and the second test of the deadline in the loop of a delay, which reads the
  same counter.  The write of \<^verbatim>\<open>mepc\<close> in \<^verbatim>\<open>do_trap\<close> is left out because the exit of the trap overwrites it
  (\<open>mepc_write_dead\<close>).  Block headers and kernel structures are records at their addresses, apart
  from the byte memory \<open>heap_bytes\<close>, which holds stacks, frames and messages; a byte write outside
  every block does not reach a header in the model.  The kernel itself makes one such write, the
  frame of a new task on a stack of exactly 144 bytes at an odd multiple of 8, and the properties on the
  creation of tasks leave this case out; buffers are the business of the callers that pass them.  The hypothesis \<open>config_regs\<close> takes a register of the
  configuration as storage that only its own address changes: it leaves out reserved bits and the
  aliases of the chip that set or clear bits, which the code does not use.  The macros of
  \<^verbatim>\<open>list.h\<close> that nothing uses (reverse and safe traversal) have no counterpart.
\<close>

end
